(* ===== verification/Prelude.thy ===== *)
theory Prelude
  imports Main "HOL-Library.Word"
begin

text \<open>
  Shared vocabulary of the development: the machine integer types of a 64-bit target, Rust's
  \<^verbatim>\<open>Result\<close>, the bit-mask lemmas that every stamp, tag and epoch computation of the
  sources needs, and a few list lemmas. Everything that unfolds a definition of the code is put
  into the collection \<open>code_defs\<close> of its component, and the facts that drive the proofs
  on stamps into \<open>stamp_simps\<close>.
\<close>

unbundle bit_operations_syntax

named_theorems stamp_simps \<open>arithmetic of packed stamps, used as simplification rules\<close>

section \<open>Types\<close>

text \<open>
  The sources use \<^verbatim>\<open>u64\<close> for \<^verbatim>\<open>Index\<close> and \<^verbatim>\<open>EpochRepr\<close>
  when the target has 64-bit atomics; \<^verbatim>\<open>usize\<close> is modelled on a 64-bit target.
\<close>

type_synonym u64 = "64 word"
type_synonym usize = "64 word"
type_synonym u32 = "32 word"
type_synonym tid = nat

text \<open>\<^verbatim>\<open>core::result::Result\<close>, with the constructors in the order of the source.\<close>

datatype ('t, 'e) result = Ok 't | Err 'e

fun map_err :: "('e \<Rightarrow> 'f) \<Rightarrow> ('t, 'e) result \<Rightarrow> ('t, 'f) result" where
  "map_err f (Ok x) = Ok x"
| "map_err f (Err e) = Err (f e)"

fun result_err :: "('t, 'e) result \<Rightarrow> 'e option" where
  "result_err (Ok x) = None"
| "result_err (Err e) = Some e"

section \<open>Checked arithmetic of the standard library\<close>

text \<open>
  \<^verbatim>\<open>checked_add\<close>, \<^verbatim>\<open>checked_mul\<close> and
  \<^verbatim>\<open>checked_next_power_of_two\<close> return \<^verbatim>\<open>None\<close> on overflow.
\<close>

definition checked_add :: "'a::len word \<Rightarrow> 'a word \<Rightarrow> 'a word option" where
  "checked_add a b = (if unat a + unat b < 2 ^ LENGTH('a) then Some (a + b) else None)"

definition checked_mul :: "'a::len word \<Rightarrow> 'a word \<Rightarrow> 'a word option" where
  "checked_mul a b = (if unat a * unat b < 2 ^ LENGTH('a) then Some (a * b) else None)"

definition checked_next_power_of_two :: "'a::len word \<Rightarrow> 'a word option" where
  "checked_next_power_of_two w =
     map_option (\<lambda>k. 2 ^ k) (find (\<lambda>k. unat w \<le> 2 ^ k) [0..<LENGTH('a)])"

lemma find_upt_Some:
  "find P [0..<n] = Some k \<Longrightarrow> k < n \<and> P k \<and> (\<forall>j<k. \<not> P j)"
proof -
  assume "find P [0..<n] = Some k"
  then obtain i where "i < n" "P ([0..<n] ! i)" "k = [0..<n] ! i" "\<forall>j<i. \<not> P ([0..<n] ! j)"
    by (auto simp: find_Some_iff)
  then show ?thesis by auto
qed

lemma checked_next_power_of_two_Some:
  assumes "checked_next_power_of_two (w :: 'a::len word) = Some p"
  obtains k where "k < LENGTH('a)" "p = 2 ^ k" "unat w \<le> 2 ^ k"
    "\<And>j. j < k \<Longrightarrow> 2 ^ j < unat w"
proof -
  from assms obtain k where k: "find (\<lambda>k. unat w \<le> 2 ^ k) [0..<LENGTH('a)] = Some k" "p = 2 ^ k"
    by (auto simp: checked_next_power_of_two_def)
  from find_upt_Some [OF k(1)] k(2) show ?thesis by (intro that [of k]) auto
qed

lemma checked_next_power_of_two_None:
  "checked_next_power_of_two (w :: 'a::len word) = None \<longleftrightarrow> 2 ^ (LENGTH('a) - 1) < unat w"
proof
  assume "checked_next_power_of_two w = None"
  then have "\<not> unat w \<le> 2 ^ k" if "k < LENGTH('a)" for k
    using that by (simp add: checked_next_power_of_two_def find_None_iff)
  from this [of "LENGTH('a) - 1"] show "2 ^ (LENGTH('a) - 1) < unat w" by simp
next
  assume h: "2 ^ (LENGTH('a) - 1) < unat w"
  have "\<not> unat w \<le> 2 ^ k" if "k < LENGTH('a)" for k
    using order_less_le_trans [OF order_le_less_trans [OF power_increasing h]] that by (auto simp: not_le)
  then show "checked_next_power_of_two w = None"
    by (simp add: checked_next_power_of_two_def find_None_iff)
qed

section \<open>Allocation\<close>

text \<open>
  Collecting \<open>n\<close> elements of \<open>sz\<close> bytes into a boxed slice panics with
  ``capacity overflow'' when they take more than \<^verbatim>\<open>isize::MAX\<close> bytes. Allocations
  that are allowed succeed in the models: what happens when memory runs out is left out.
\<close>

definition capacity_overflow :: "usize \<Rightarrow> usize \<Rightarrow> bool" where
  "capacity_overflow sz n \<longleftrightarrow> unat n * unat sz > 2 ^ 63 - 1"

section \<open>Masks\<close>

text \<open>
  \<^verbatim>\<open>x & (2^k - 1)\<close> and \<^verbatim>\<open>x & !(2^k - 1)\<close> are how the sources
  split a packed integer.
\<close>

lemma and_exp_minus_1 [stamp_simps]:
  "w AND (2 ^ k - 1) = take_bit k (w :: 'a::len word)"
  by (simp add: take_bit_eq_mask mask_eq_exp_minus_1)

lemma and_not_exp_minus_1 [stamp_simps]:
  "w AND NOT (2 ^ k - 1) = w - take_bit k (w :: 'a::len word)"
proof -
  have "w AND NOT (mask k) = push_bit k (drop_bit k w)"
    by (rule bit_eqI) (auto simp: bit_simps)
  also have "\<dots> = w - take_bit k w"
    using bits_ident [of k w] by (simp add: eq_diff_eq)
  finally show ?thesis by (simp add: mask_eq_exp_minus_1)
qed

lemma word_of_nat_eq_mod:
  "(word_of_nat m :: 'a::len word) = word_of_nat n \<longleftrightarrow> m mod 2 ^ LENGTH('a) = n mod 2 ^ LENGTH('a)"
  by (simp add: word_of_nat_eq_iff take_bit_eq_mod)

lemma take_bit_word_of_nat:
  "k \<le> LENGTH('a) \<Longrightarrow> take_bit k (word_of_nat n :: 'a::len word) = word_of_nat (n mod 2 ^ k)"
  by (rule bit_word_eqI) (auto simp: bit_simps simp flip: take_bit_eq_mod)

lemma unat_exp: "k < LENGTH('a) \<Longrightarrow> unat (2 ^ k :: 'a::len word) = 2 ^ k"
proof -
  assume k: "k < LENGTH('a)"
  have "unat (word_of_nat (2 ^ k) :: 'a word) = 2 ^ k mod 2 ^ LENGTH('a)"
    by (rule unat_of_nat)
  with k show ?thesis by simp
qed

section \<open>Lists\<close>

lemma map_upt_window_snoc: "i \<le> j \<Longrightarrow> map f [i..<Suc j] = map f [i..<j] @ [f j]"
  by simp

lemma map_upt_window_Cons: "i < j \<Longrightarrow> map f [i..<j] = f i # map f [Suc i..<j]"
  by (simp add: upt_conv_Cons)

end
