(* ===== verification/Ring_Stamp.thy ===== *)
theory Ring_Stamp
  imports Prelude
begin

text \<open>
  Packed stamps. Both array-based queues of the repository
  (\<^verbatim>\<open>crossbeam-queue/src/array_queue.rs\<close> and
  \<^verbatim>\<open>crossbeam-channel/src/flavors/array.rs\<close>) pack a buffer index and a lap number
  into one 64-bit integer. This theory relates such a stamp to the position it stands for: the
  number of elements pushed (or popped) before it, counted without bound. Position \<open>p\<close> of a
  buffer of \<open>c\<close> slots is in lap \<open>p div c\<close> at index \<open>p mod c\<close>, and its
  stamp is \<open>enc c k p\<close> when one lap is \<open>2 ^ k\<close>. The lemmas show that the code's
  mask, increment and wrap-around computations on stamps compute the stamps of the next position,
  of the position one lap ahead, and so on, and when two positions have the same stamp.
\<close>

definition ring :: "nat \<Rightarrow> nat \<Rightarrow> bool" where
  "ring c k \<longleftrightarrow> 0 < c \<and> c < 2 ^ k \<and> k < 64"

definition enc :: "nat \<Rightarrow> nat \<Rightarrow> nat \<Rightarrow> u64" where
  "enc c k p = word_of_nat (p div c * 2 ^ k + p mod c)"

text \<open>How many positions have distinct stamps.\<close>

definition period :: "nat \<Rightarrow> nat \<Rightarrow> nat" where
  "period c k = 2 ^ (64 - k) * c"

text \<open>
  The three computations the sources repeat inline in every operation:
  \<^verbatim>\<open>(t & (mask - 1)) as usize\<close>, \<^verbatim>\<open>t & !(one_lap - 1)\<close>, and the
  stamp that follows \<^verbatim>\<open>t\<close>.
\<close>

definition stamp_index :: "u64 \<Rightarrow> u64 \<Rightarrow> nat" where
  "stamp_index msk t = unat (t AND (msk - 1))"

definition stamp_lap :: "u64 \<Rightarrow> u64 \<Rightarrow> u64" where
  "stamp_lap one_lap t = t AND NOT (one_lap - 1)"

definition stamp_next :: "nat \<Rightarrow> u64 \<Rightarrow> u64 \<Rightarrow> u64 \<Rightarrow> u64" where
  "stamp_next cap msk one_lap t =
     (if stamp_index msk t + 1 < cap then t + 1 else stamp_lap one_lap t + one_lap)"

lemma ring_mod_less: "ring c k \<Longrightarrow> p mod c < 2 ^ k"
  by (meson less_trans mod_less_divisor ring_def)

lemma ring_Suc_mod_less: "ring c k \<Longrightarrow> Suc (p mod c) < 2 ^ k"
  by (metis Suc_leI le_less_trans mod_less_divisor ring_def)

lemma two_pow_split: "k < 64 \<Longrightarrow> (2::nat) ^ 64 = 2 ^ (64 - k) * 2 ^ k"
  by (simp flip: power_add)

text \<open>The low bits of a stamp are the index, the rest is the lap.\<close>

lemma take_bit_enc:
  assumes "ring c k" "m \<le> k" "c \<le> 2 ^ m"
  shows "take_bit m (enc c k p) = word_of_nat (p mod c)"
proof -
  have dvd: "(2::nat) ^ k mod 2 ^ m = 0"
    using assms(2) by (simp add: le_imp_power_dvd)
  have "p mod c < 2 ^ m"
    using assms(1,3) by (metis less_le_trans mod_less_divisor ring_def)
  with dvd have "(p div c * 2 ^ k + p mod c) mod 2 ^ m = p mod c"
    by (metis add_cancel_left_left mod_add_left_eq mod_less mod_mult_right_eq mult_0_right)
  moreover have "m \<le> LENGTH(64)" using assms(1,2) by (simp add: ring_def)
  ultimately show ?thesis
    unfolding enc_def by (simp only: take_bit_word_of_nat)
qed

lemma unat_index_bound: "ring c k \<Longrightarrow> unat (word_of_nat (p mod c) :: u64) = p mod c"
proof -
  assume r: "ring c k"
  have "p mod c < 2 ^ k" using r by (rule ring_mod_less)
  also have "(2::nat) ^ k < 2 ^ 64"
    using r power_strict_increasing [of k 64 "2::nat"] by (simp add: ring_def)
  finally show ?thesis by (simp add: unat_of_nat)
qed

lemma stamp_index_enc [stamp_simps]:
  assumes "ring c k" "m \<le> k" "c \<le> 2 ^ m"
  shows "stamp_index (2 ^ m) (enc c k p) = p mod c"
  by (simp add: stamp_index_def and_exp_minus_1 take_bit_enc [OF assms] unat_index_bound [OF assms(1)])

lemma stamp_lap_enc:
  assumes "ring c k"
  shows "stamp_lap (2 ^ k) (enc c k p) = word_of_nat (p div c * 2 ^ k)"
proof -
  have "c \<le> 2 ^ k" using assms by (simp add: ring_def)
  then show ?thesis
    by (simp add: stamp_lap_def and_not_exp_minus_1 take_bit_enc [OF assms]) (simp add: enc_def)
qed

text \<open>The stamp one lap ahead, and the stamp that follows.\<close>

lemma enc_add_lap [stamp_simps]:
  assumes "ring c k"
  shows "enc c k (p + c) = enc c k p + 2 ^ k"
proof -
  have "(p + c) div c = Suc (p div c)" "(p + c) mod c = p mod c"
    using assms div_add_self2 [of c p] by (auto simp: ring_def)
  then show ?thesis by (simp add: enc_def algebra_simps)
qed

lemma enc_sub_lap [stamp_simps]:
  assumes "ring c k" "c \<le> p"
  shows "enc c k (p - c) = enc c k p - 2 ^ k"
  using enc_add_lap [OF assms(1), of "p - c"] assms(2) by simp

lemma enc_Suc_same_lap:
  assumes "ring c k" "Suc (p mod c) < c"
  shows "enc c k (Suc p) = enc c k p + 1"
proof -
  have "Suc p div c = p div c" "Suc p mod c = Suc (p mod c)"
    using assms by (simp_all add: div_Suc mod_Suc)
  then show ?thesis by (simp add: enc_def algebra_simps)
qed

lemma enc_Suc_next_lap:
  assumes "ring c k" "\<not> Suc (p mod c) < c"
  shows "enc c k (Suc p) = word_of_nat (p div c * 2 ^ k) + 2 ^ k"
proof -
  have "Suc (p mod c) = c"
    using assms by (metis mod_less_divisor not_less_eq Suc_lessI ring_def)
  then have "Suc p div c = Suc (p div c)" "Suc p mod c = 0"
    using assms(1) by (simp_all add: div_Suc mod_Suc)
  then show ?thesis by (simp add: enc_def algebra_simps)
qed

lemma stamp_next_enc [stamp_simps]:
  assumes "ring c k" "m \<le> k" "c \<le> 2 ^ m"
  shows "stamp_next c (2 ^ m) (2 ^ k) (enc c k p) = enc c k (Suc p)"
  by (simp add: stamp_next_def stamp_index_enc [OF assms] stamp_lap_enc [OF assms(1)]
      enc_Suc_same_lap [OF assms(1)] enc_Suc_next_lap [OF assms(1)])

text \<open>When two positions share a stamp: their distance is a multiple of the period.\<close>

lemma enc_mod:
  assumes "ring c k" "p mod c + d < 2 ^ k"
  shows "(p div c * 2 ^ k + p mod c + d) mod 2 ^ 64 =
    (p div c) mod 2 ^ (64 - k) * 2 ^ k + (p mod c + d)"
proof -
  have k: "k < 64" using assms(1) by (simp add: ring_def)
  let ?l = "p div c" and ?i = "p mod c + d"
  have b: "(?l * 2 ^ k) mod 2 ^ 64 = ?l mod 2 ^ (64 - k) * 2 ^ k"
    by (simp only: two_pow_split [OF k] mult_mod_left)
  have "?l mod 2 ^ (64 - k) * 2 ^ k + ?i < (?l mod 2 ^ (64 - k) + 1) * 2 ^ k"
    using assms(2) by simp
  also have "\<dots> \<le> 2 ^ (64 - k) * 2 ^ k"
    by (rule mult_le_mono1) (simp add: Suc_leI)
  finally have lt: "?l mod 2 ^ (64 - k) * 2 ^ k + ?i < 2 ^ 64"
    by (simp only: two_pow_split [OF k])
  have "(?l * 2 ^ k + ?i) mod 2 ^ 64 = ((?l * 2 ^ k) mod 2 ^ 64 + ?i) mod 2 ^ 64"
    by (simp only: mod_add_left_eq)
  also have "\<dots> = ?l mod 2 ^ (64 - k) * 2 ^ k + ?i"
    using lt by (simp only: b mod_less)
  finally show ?thesis by (simp only: add.assoc)
qed

lemma lap_index_eq:
  fixes a b i j :: nat
  assumes "i < n" "j < n"
  shows "a * n + i = b * n + j \<longleftrightarrow> a = b \<and> i = j"
proof
  assume h: "a * n + i = b * n + j"
  then have "(a * n + i) div n = (b * n + j) div n" "(a * n + i) mod n = (b * n + j) mod n"
    by simp_all
  with assms show "a = b \<and> i = j" by simp
qed simp

lemma unat_enc:
  assumes "ring c k"
  shows "unat (enc c k p) = (p div c) mod 2 ^ (64 - k) * 2 ^ k + p mod c"
  using enc_mod [OF assms, of p 0] ring_mod_less [OF assms, of p]
  unfolding enc_def unat_of_nat by simp

lemma unat_enc_Suc:
  assumes "ring c k"
  shows "unat (enc c k p + 1) = (p div c) mod 2 ^ (64 - k) * 2 ^ k + (p mod c + 1)"
proof -
  have "enc c k p + 1 = word_of_nat (p div c * 2 ^ k + p mod c + 1)"
    by (simp add: enc_def)
  then show ?thesis
    using enc_mod [OF assms, of p 1] ring_Suc_mod_less [OF assms, of p]
    by (simp only: unat_of_nat) simp
qed

lemma enc_eq_iff_lap:
  assumes "ring c k"
  shows "enc c k p = enc c k q \<longleftrightarrow>
    p mod c = q mod c \<and> (p div c) mod 2 ^ (64 - k) = (q div c) mod 2 ^ (64 - k)"
  using ring_mod_less [OF assms]
  by (simp add: word_unat_eq_iff unat_enc [OF assms] lap_index_eq conj_commute)

lemma enc_eq_iff_period:
  assumes "ring c k"
  shows "enc c k p = enc c k q \<longleftrightarrow> p mod period c k = q mod period c k"
proof -
  have c: "0 < c" using assms by (simp add: ring_def)
  have m: "x mod period c k = (x div c) mod 2 ^ (64 - k) * c + x mod c" for x
    by (simp add: period_def mod_mult2_eq mult.commute [of _ c])
  show ?thesis
    using c by (auto simp: enc_eq_iff_lap [OF assms] m lap_index_eq)
qed

text \<open>Positions closer than a period are told apart.\<close>

lemma mod_eq_close:
  fixes p q n :: nat
  assumes "p mod n = q mod n" "p < q + n" "q < p + n"
  shows "p = q"
proof -
  have "x = y" if "x \<le> y" "y < x + n" "x mod n = y mod n" for x y
  proof -
    have "n dvd y - x" using that(1,3) by (metis mod_eq_dvd_iff_nat)
    moreover have "y - x < n" using that(1,2) by simp
    ultimately have "y - x = 0" using dvd_imp_le by fastforce
    with that(1) show ?thesis by simp
  qed
  from this [of p q] this [of q p] assms show ?thesis by (cases "p \<le> q") simp_all
qed

lemma enc_eq_iff [stamp_simps]:
  assumes "ring c k" "p < q + period c k" "q < p + period c k"
  shows "enc c k p = enc c k q \<longleftrightarrow> p = q"
  using mod_eq_close [OF _ assms(2,3)] by (auto simp: enc_eq_iff_period [OF assms(1)])

text \<open>
  A slot's stamp is either the stamp of a position or one more than it; on the same slot the two
  kinds never coincide, so the comparisons of the code cannot confuse them.
\<close>

lemma enc_Suc_neq [stamp_simps]:
  assumes "ring c k" "p mod c = q mod c"
  shows "enc c k p + 1 \<noteq> enc c k q"
proof -
  have "Suc (p mod c) < 2 ^ k" "q mod c < 2 ^ k"
    using ring_mod_less [OF assms(1)] ring_Suc_mod_less [OF assms(1)] by auto
  from lap_index_eq [OF this] assms(2) show ?thesis
    by (simp only: word_unat_eq_iff unat_enc [OF assms(1)] unat_enc_Suc [OF assms(1)]
        Suc_eq_plus1 [symmetric]) simp
qed

text \<open>The plain \<^verbatim>\<open>+ 1\<close> on a stamp never overflows, whatever the lap.\<close>

lemma enc_Suc_no_overflow:
  assumes "ring c k"
  shows "unat (enc c k p + 1) = Suc (unat (enc c k p))"
  by (simp only: unat_enc [OF assms] unat_enc_Suc [OF assms] add_Suc_right One_nat_def add_0_right)

text \<open>At least \<open>2 ^ 63\<close> positions when the lap is the smallest that fits.\<close>

lemma period_large:
  assumes "ring c k" "2 ^ k \<le> 2 * c"
  shows "2 ^ 63 \<le> period c k"
proof -
  have k: "k < 64" using assms(1) by (simp add: ring_def)
  have "2 * 2 ^ 63 = (2::nat) ^ (64 - k) * 2 ^ k"
    using two_pow_split [OF k] by simp
  also have "\<dots> \<le> 2 ^ (64 - k) * (2 * c)"
    using assms(2) by (rule mult_le_mono2)
  finally show ?thesis by (simp add: period_def mult.commute)
qed

lemma period_gt_cap:
  assumes "ring c k"
  shows "2 * c \<le> period c k"
proof -
  have "(2::nat) \<le> 2 ^ (64 - k)"
    using assms self_le_power [of 2 "64 - k"] by (simp add: ring_def)
  then show ?thesis by (simp add: period_def mult_le_mono1)
qed

text \<open>Both constructors take the smallest power of two above the capacity.\<close>

lemma capacity_power:
  fixes cap :: u64
  assumes "cap \<noteq> 0" "Option.bind (checked_add cap 1) checked_next_power_of_two = Some p"
  obtains k where "k < 64" "p = 2 ^ k" "0 < unat cap" "unat cap < 2 ^ k" "2 ^ k \<le> 2 * unat cap"
proof -
  from assms(2) have add: "checked_add cap 1 = Some (cap + 1)" and pow: "checked_next_power_of_two (cap + 1) = Some p"
    by (auto simp: checked_add_def split: if_splits)
  from add have sum: "unat (cap + 1) = unat cap + 1"
    by (simp add: checked_add_def unat_word_ariths split: if_splits)
  from pow obtain k where k: "k < 64" "p = 2 ^ k" "unat (cap + 1) \<le> 2 ^ k"
    "\<And>j. j < k \<Longrightarrow> 2 ^ j < unat (cap + 1)"
    by (elim checked_next_power_of_two_Some) simp
  have pos: "0 < unat cap" using assms(1) by (simp add: unat_gt_0)
  have "k \<noteq> 0" using k(3) sum pos by (cases k) auto
  then obtain j where j: "k = Suc j" by (cases k) auto
  have "2 ^ k \<le> 2 * unat cap" using k(4) [of j] sum by (simp add: j)
  with k sum pos show thesis by (intro that [of k]) simp_all
qed

section \<open>Windows of a ring\<close>

text \<open>
  Two positions less than a lap apart are in different slots, and the index arithmetic of
  \<^verbatim>\<open>len\<close> computes the distance of two positions at most a lap apart.
\<close>

lemma window_slot_neq: "p < q \<Longrightarrow> q < p + c \<Longrightarrow> p mod c \<noteq> q mod (c::nat)"
  using mod_eq_close [of p c q] by auto

lemma window_slot_eq_iff:
  "H \<le> p \<Longrightarrow> p < H + c \<Longrightarrow> H \<le> q \<Longrightarrow> q < H + c \<Longrightarrow> p mod c = q mod c \<longleftrightarrow> p = (q::nat)"
  using mod_eq_close [of p c q] by auto

lemma mod_add_small:
  fixes c d H :: nat
  assumes "0 < c" "d < c"
  shows "(H + d) mod c = (if H mod c + d < c then H mod c + d else H mod c + d - c)"
proof -
  have "(H + d) mod c = (H mod c + d) mod c" by (simp add: mod_add_left_eq)
  also have "\<dots> = (if H mod c + d < c then H mod c + d else H mod c + d - c)"
  proof (cases "H mod c + d < c")
    case False
    moreover have "H mod c < c" using assms(1) by simp
    then have "H mod c + d - c < c" using assms(2) by linarith
    ultimately show ?thesis by (simp add: le_mod_geq)
  qed simp
  finally show ?thesis .
qed

lemma ring_distance:
  fixes c H T :: nat
  assumes "0 < c" "H \<le> T" "T \<le> H + c"
  shows "(if H mod c < T mod c then T mod c - H mod c
     else if T mod c < H mod c then c - H mod c + T mod c
     else if T = H then 0 else c) = T - H"
proof -
  obtain d where T: "T = H + d" using assms(2) by (metis le_iff_add)
  have h: "H mod c < c" using assms(1) by simp
  show ?thesis
  proof (cases "d < c")
    case True
    then show ?thesis using h by (auto simp: T mod_add_small [OF assms(1) True])
  next
    case False
    then have "d = c" using T assms(3) by simp
    then show ?thesis using assms(1) by (simp add: T)
  qed
qed

end
