(* ===== verification/Fifo.thy ===== *)
theory Fifo
  imports Prelude
begin

text \<open>
  Sequential interfaces of the queues: what \<^verbatim>\<open>push\<close> and \<^verbatim>\<open>pop\<close> on an
  exclusive reference promise, stated over the list of elements the structure holds, oldest first.
  \<open>bounded_fifo\<close> is the contract of the array-based queues, \<open>fifo\<close> the one of the
  unbounded ones. What follows for whole sequences of calls is proved here once.
\<close>

datatype 'a queue_op = Push 'a | Pop

datatype 'a queue_ret = Pushed | Rejected 'a | Popped 'a | Nothing

text \<open>The list queue that both contracts refer to; \<open>None\<close> is an unbounded queue.\<close>

fun list_queue :: "nat option \<Rightarrow> 'a queue_op \<Rightarrow> 'a list \<Rightarrow> 'a queue_ret \<times> 'a list" where
  "list_queue cap (Push v) xs =
     (case cap of
        None \<Rightarrow> (Pushed, xs @ [v])
      | Some n \<Rightarrow> if length xs < n then (Pushed, xs @ [v]) else (Rejected v, xs))"
| "list_queue cap Pop xs = (case xs of [] \<Rightarrow> (Nothing, []) | x # ys \<Rightarrow> (Popped x, ys))"

fun list_queue_run :: "nat option \<Rightarrow> 'a queue_op list \<Rightarrow> 'a list \<Rightarrow> 'a queue_ret list \<times> 'a list" where
  "list_queue_run cap [] xs = ([], xs)"
| "list_queue_run cap (oper # ops) xs =
     (let (r, ys) = list_queue cap oper xs; (rs, zs) = list_queue_run cap ops ys in (r # rs, zs))"

text \<open>Values accepted and values delivered by a run.\<close>

fun accepted :: "'a queue_op list \<Rightarrow> 'a queue_ret list \<Rightarrow> 'a list" where
  "accepted (Push v # ops) (Pushed # rs) = v # accepted ops rs"
| "accepted (oper # ops) (r # rs) = accepted ops rs"
| "accepted ops rs = []"

fun delivered :: "'a queue_ret list \<Rightarrow> 'a list" where
  "delivered (Popped v # rs) = v # delivered rs"
| "delivered (r # rs) = delivered rs"
| "delivered [] = []"

text \<open>
  First in, first out: the values delivered, followed by what is left, are the values there at the
  start, followed by the values accepted.
\<close>

lemma list_queue_run_fifo:
  "list_queue_run cap ops xs = (rs, ys) \<Longrightarrow> delivered rs @ ys = xs @ accepted ops rs"
proof (induction ops arbitrary: xs rs)
  case Nil
  then show ?case by simp
next
  case (Cons oper ops)
  then show ?case
    by (cases oper) (fastforce split: prod.splits option.splits if_splits list.splits)+
qed

text \<open>
  A run of any implementation of the two operations. The operations of the code contain unchecked
  accesses, so an implementation returns \<open>None\<close> where it would be undefined behaviour.
\<close>

fun queue_run :: "('a queue_op \<Rightarrow> 'q \<Rightarrow> ('a queue_ret \<times> 'q) option) \<Rightarrow> 'a queue_op list \<Rightarrow> 'q \<Rightarrow>
    ('a queue_ret list \<times> 'q) option" where
  "queue_run f [] q = Some ([], q)"
| "queue_run f (oper # ops) q =
     (case f oper q of
        None \<Rightarrow> None
      | Some (r, q1) \<Rightarrow> map_option (\<lambda>(rs, q2). (r # rs, q2)) (queue_run f ops q1))"

text \<open>
  \<open>wf n q\<close> says that \<open>q\<close> is well-formed and has room for \<open>n\<close> more calls
  before a counter of it runs out; a structure whose counters may wrap around ignores
  \<open>n\<close>.
\<close>

locale queue_refinement =
  fixes wf :: "nat \<Rightarrow> 'q \<Rightarrow> bool"
    and contents :: "'q \<Rightarrow> 'a list"
    and bound :: "'q \<Rightarrow> nat option"
    and apply_op :: "'a queue_op \<Rightarrow> 'q \<Rightarrow> ('a queue_ret \<times> 'q) option"
  assumes op_refines: "wf (Suc n) q \<Longrightarrow>
    \<exists>r q'. apply_op oper q = Some (r, q') \<and> wf n q' \<and> bound q' = bound q \<and>
      list_queue (bound q) oper (contents q) = (r, contents q')"
begin

lemma run_refines:
  "wf (length ops) q \<Longrightarrow>
     \<exists>rs q'. queue_run apply_op ops q = Some (rs, q') \<and> wf 0 q' \<and> bound q' = bound q \<and>
       list_queue_run (bound q) ops (contents q) = (rs, contents q')"
proof (induction ops arbitrary: q)
  case (Cons oper ops)
  then have "wf (Suc (length ops)) q" by simp
  from op_refines [OF this, of oper] obtain r q1 where
    1: "apply_op oper q = Some (r, q1)" "wf (length ops) q1" "bound q1 = bound q"
       "list_queue (bound q) oper (contents q) = (r, contents q1)" by blast
  from Cons.IH [OF 1(2)] obtain rs q2 where
    2: "queue_run apply_op ops q1 = Some (rs, q2)" "wf 0 q2" "bound q2 = bound q1"
       "list_queue_run (bound q1) ops (contents q1) = (rs, contents q2)" by blast
  from 1 2 show ?case by (intro exI [of _ "r # rs"] exI [of _ q2]) simp
qed simp

lemma run_fifo:
  assumes "wf (length ops) q"
  shows "\<exists>rs q'. queue_run apply_op ops q = Some (rs, q') \<and> wf 0 q' \<and>
    list_queue_run (bound q) ops (contents q) = (rs, contents q') \<and>
    delivered rs @ contents q' = contents q @ accepted ops rs"
  using run_refines [OF assms] list_queue_run_fifo by metis

end

end
