(* ===== verification/Array_Queue.thy ===== *)
theory Array_Queue
  imports Ring_Stamp Fifo
begin

text \<open>
  \<^verbatim>\<open>crossbeam-queue/src/array_queue.rs\<close>: the data of \<^verbatim>\<open>ArrayQueue\<close>,
  its constructor, the operations on an exclusive reference (\<^verbatim>\<open>push_mut\<close>,
  \<^verbatim>\<open>pop_mut\<close>, \<^verbatim>\<open>drop\<close>, the owning iterator) and the observers
  (\<^verbatim>\<open>capacity\<close>, \<^verbatim>\<open>is_empty\<close>, \<^verbatim>\<open>is_full\<close>,
  \<^verbatim>\<open>len\<close>) on a queue nobody else is using. The representation invariant
  \<open>aq_rep\<close> ties the packed stamps to positions; every operation refines the bounded list
  queue, with all wrap-around of the 64-bit stamps included. The shared operations are in theory
  \<open>Array_Queue_Shared\<close>.
\<close>

section \<open>Data\<close>

text \<open>A slot's value is \<open>None\<close> while the \<^verbatim>\<open>MaybeUninit\<close> is uninitialised or moved out.\<close>

record 'a aq_slot =
  stamp :: u64
  slot_value :: "'a option"

record 'a array_queue =
  aq_head :: u64
  aq_tail :: u64
  aq_buffer :: "'a aq_slot list"
  aq_one_lap :: u64

datatype new_panic = Capacity_must_be_non_zero | Capacity_overflow | Queue_capacity_is_too_large

section \<open>Operations\<close>

text \<open>
  \<open>slot_size\<close> is the size of a \<^verbatim>\<open>Slot<T>\<close> in bytes, which depends on
  \<^verbatim>\<open>T\<close>; the buffer is collected before the lap is computed.
\<close>

definition aq_new :: "usize \<Rightarrow> usize \<Rightarrow> ('a array_queue, new_panic) result" where
  "aq_new slot_size cap =
     (if cap = 0 then Err Capacity_must_be_non_zero
      else if capacity_overflow slot_size cap then Err Capacity_overflow
      else
        let buffer = map (\<lambda>i. \<lparr>stamp = word_of_nat i, slot_value = None\<rparr>) [0..<unat cap] in
        case Option.bind (checked_add cap 1) checked_next_power_of_two of
          None \<Rightarrow> Err Queue_capacity_is_too_large
        | Some one_lap \<Rightarrow>
            Ok \<lparr>aq_head = 0, aq_tail = 0, aq_buffer = buffer, aq_one_lap = one_lap\<rparr>)"

definition aq_capacity :: "'a array_queue \<Rightarrow> nat" where
  "aq_capacity q = length (aq_buffer q)"

definition aq_push_mut :: "'a \<Rightarrow> 'a array_queue \<Rightarrow> ((unit, 'a) result \<times> 'a array_queue) option" where
  "aq_push_mut v q =
     (let tail = aq_tail q; head = aq_head q in
      if head + aq_one_lap q = tail then Some (Err v, q)
      else
        let index = stamp_index (aq_one_lap q) tail;
            new_tail = stamp_next (aq_capacity q) (aq_one_lap q) (aq_one_lap q) tail
        in if index < length (aq_buffer q) then
             Some (Ok (), q\<lparr>aq_tail := new_tail,
                             aq_buffer := (aq_buffer q)[index := \<lparr>stamp = tail + 1, slot_value = Some v\<rparr>]\<rparr>)
           else None)"

definition aq_pop_mut :: "'a array_queue \<Rightarrow> ('a option \<times> 'a array_queue) option" where
  "aq_pop_mut q =
     (let head = aq_head q; tail = aq_tail q in
      if tail = head then Some (None, q)
      else
        let index = stamp_index (aq_one_lap q) head;
            new = stamp_next (aq_capacity q) (aq_one_lap q) (aq_one_lap q) head
        in if index < length (aq_buffer q) then
             case slot_value (aq_buffer q ! index) of
               None \<Rightarrow> None
             | Some msg \<Rightarrow>
                 Some (Some msg, q\<lparr>aq_head := new,
                                   aq_buffer := (aq_buffer q)[index :=
                                     \<lparr>stamp = head + aq_one_lap q, slot_value = None\<rparr>]\<rparr>)
           else None)"

definition aq_is_empty :: "'a array_queue \<Rightarrow> bool" where
  "aq_is_empty q = (let head = aq_head q; tail = aq_tail q in tail = head)"

definition aq_is_full :: "'a array_queue \<Rightarrow> bool" where
  "aq_is_full q = (let tail = aq_tail q; head = aq_head q in head + aq_one_lap q = tail)"

text \<open>
  \<^verbatim>\<open>len\<close> reloads the tail and returns when it has not changed; with nobody else
  using the queue the first round returns.
\<close>

definition aq_len :: "'a array_queue \<Rightarrow> nat" where
  "aq_len q =
     (let tail = aq_tail q; head = aq_head q;
          hix = stamp_index (aq_one_lap q) head;
          tix = stamp_index (aq_one_lap q) tail
      in if hix < tix then tix - hix
         else if hix > tix then aq_capacity q - hix + tix
         else if tail = head then 0
         else aq_capacity q)"

text \<open>
  \<^verbatim>\<open>drop\<close> runs the destructors of the values in the slots from the head on; the
  result is the list of values destroyed, in order. \<open>needs_drop\<close> is
  \<^verbatim>\<open>mem::needs_drop::<T>()\<close>.
\<close>

fun aq_drop_loop :: "'a array_queue \<Rightarrow> nat \<Rightarrow> nat list \<Rightarrow> 'a list option" where
  "aq_drop_loop q hix [] = Some []"
| "aq_drop_loop q hix (i # is) =
     (let index = (if hix + i < aq_capacity q then hix + i else hix + i - aq_capacity q) in
      if index < length (aq_buffer q) then
        case slot_value (aq_buffer q ! index) of
          None \<Rightarrow> None
        | Some v \<Rightarrow> map_option ((#) v) (aq_drop_loop q hix is)
      else None)"

definition aq_drop :: "bool \<Rightarrow> 'a array_queue \<Rightarrow> 'a list option" where
  "aq_drop needs_drop q =
     (if needs_drop then
        let head = aq_head q; tail = aq_tail q;
            hix = stamp_index (aq_one_lap q) head;
            tix = stamp_index (aq_one_lap q) tail;
            len = (if hix < tix then tix - hix
                   else if hix > tix then aq_capacity q - hix + tix
                   else if tail = head then 0
                   else aq_capacity q)
        in aq_drop_loop q hix [0..<len]
      else Some [])"

text \<open>The owning iterator: like \<^verbatim>\<open>pop_mut\<close>, but stamps are left alone.\<close>

definition aq_into_iter_next :: "'a array_queue \<Rightarrow> ('a option \<times> 'a array_queue) option" where
  "aq_into_iter_next q =
     (let head = aq_head q in
      if aq_head q \<noteq> aq_tail q then
        let index = stamp_index (aq_one_lap q) head
        in if index < length (aq_buffer q) then
             case slot_value (aq_buffer q ! index) of
               None \<Rightarrow> None
             | Some val \<Rightarrow>
                 let new = stamp_next (aq_capacity q) (aq_one_lap q) (aq_one_lap q) head in
                 Some (Some val, q\<lparr>aq_head := new,
                                   aq_buffer := (aq_buffer q)[index :=
                                     (aq_buffer q ! index)\<lparr>slot_value := None\<rparr>]\<rparr>)
           else None
      else Some (None, q))"

fun aq_collect :: "nat \<Rightarrow> 'a array_queue \<Rightarrow> ('a list \<times> 'a array_queue) option" where
  "aq_collect 0 q = None"
| "aq_collect (Suc n) q =
     (case aq_into_iter_next q of
        None \<Rightarrow> None
      | Some (None, q') \<Rightarrow> Some ([], q')
      | Some (Some v, q') \<Rightarrow> map_option (\<lambda>(vs, q''). (v # vs, q'')) (aq_collect n q'))"

lemmas aq_code_defs = aq_capacity_def aq_push_mut_def aq_pop_mut_def aq_is_empty_def aq_is_full_def
  aq_len_def aq_drop_def aq_into_iter_next_def Let_def

section \<open>Representation\<close>

text \<open>
  \<open>aq_window k H T xs q\<close>: the head stamp stands for position \<open>H\<close>, the tail stamp for
  position \<open>T\<close>, and the slots between them hold \<open>xs\<close>. \<open>aq_rep\<close> adds the
  slots' stamps: \<open>enc p + 1\<close> for a filled position, \<open>enc p\<close> for a free one.
\<close>

definition aq_window :: "nat \<Rightarrow> nat \<Rightarrow> nat \<Rightarrow> 'a list \<Rightarrow> 'a array_queue \<Rightarrow> bool" where
  "aq_window k H T xs q \<longleftrightarrow>
     (let c = aq_capacity q in
      ring c k \<and> aq_one_lap q = 2 ^ k \<and> H \<le> T \<and> T \<le> H + c \<and>
      aq_head q = enc c k H \<and> aq_tail q = enc c k T \<and> length xs = T - H \<and>
      (\<forall>j < T - H. slot_value (aq_buffer q ! ((H + j) mod c)) = Some (xs ! j)))"

definition aq_rep :: "nat \<Rightarrow> nat \<Rightarrow> nat \<Rightarrow> 'a list \<Rightarrow> 'a array_queue \<Rightarrow> bool" where
  "aq_rep k H T xs q \<longleftrightarrow>
     aq_window k H T xs q \<and>
     (\<forall>p. H \<le> p \<and> p < T \<longrightarrow> stamp (aq_buffer q ! (p mod aq_capacity q)) = enc (aq_capacity q) k p + 1) \<and>
     (\<forall>p. T \<le> p \<and> p < H + aq_capacity q \<longrightarrow>
        stamp (aq_buffer q ! (p mod aq_capacity q)) = enc (aq_capacity q) k p)"

definition aq_wf :: "'a array_queue \<Rightarrow> bool" where
  "aq_wf q \<longleftrightarrow> (\<exists>k H T xs. aq_rep k H T xs q)"

text \<open>
  The elements of a queue, oldest first: the stamps from the head on, up to the tail, and the values
  in their slots.
\<close>

definition aq_stamps :: "'a array_queue \<Rightarrow> u64 list" where
  "aq_stamps q = takeWhile (\<lambda>s. s \<noteq> aq_tail q)
     (map (\<lambda>i. (stamp_next (aq_capacity q) (aq_one_lap q) (aq_one_lap q) ^^ i) (aq_head q)) [0..<aq_capacity q])"

definition aq_contents :: "'a array_queue \<Rightarrow> 'a list" where
  "aq_contents q = map (\<lambda>s. the (slot_value (aq_buffer q ! stamp_index (aq_one_lap q) s))) (aq_stamps q)"

lemma aq_windowD:
  assumes "aq_window k H T xs q"
  shows "ring (aq_capacity q) k" "aq_one_lap q = 2 ^ k" "H \<le> T" "T \<le> H + aq_capacity q"
    "aq_head q = enc (aq_capacity q) k H" "aq_tail q = enc (aq_capacity q) k T"
    "length xs = T - H" "0 < aq_capacity q"
    "\<And>j. j < T - H \<Longrightarrow> slot_value (aq_buffer q ! ((H + j) mod aq_capacity q)) = Some (xs ! j)"
  using assms by (simp_all add: aq_window_def Let_def ring_def)

lemma aq_window_compare:
  assumes "aq_window k H T xs q"
  shows "aq_tail q = aq_head q \<longleftrightarrow> T = H" "aq_head q = aq_tail q \<longleftrightarrow> T = H"
    "aq_head q + aq_one_lap q = aq_tail q \<longleftrightarrow> T = H + aq_capacity q"
proof -
  note d = aq_windowD [OF assms]
  note p = period_gt_cap [OF d(1)]
  show "aq_tail q = aq_head q \<longleftrightarrow> T = H"
    using d p by (simp add: enc_eq_iff)
  then show "aq_head q = aq_tail q \<longleftrightarrow> T = H" by auto
  have "aq_head q + aq_one_lap q = enc (aq_capacity q) k (H + aq_capacity q)"
    using d by (simp add: enc_add_lap)
  then show "aq_head q + aq_one_lap q = aq_tail q \<longleftrightarrow> T = H + aq_capacity q"
    using d p by (auto simp: enc_eq_iff)
qed

lemma aq_window_index:
  assumes "aq_window k H T xs q"
  shows "stamp_index (aq_one_lap q) (aq_head q) = H mod aq_capacity q"
    "stamp_index (aq_one_lap q) (aq_tail q) = T mod aq_capacity q"
  using aq_windowD [OF assms] by (simp_all add: stamp_index_enc ring_def)

lemma aq_window_len:
  assumes "aq_window k H T xs q"
  shows "aq_len q = T - H"
  unfolding aq_len_def Let_def aq_window_index [OF assms] aq_window_compare [OF assms]
  by (rule ring_distance [OF aq_windowD(8,3,4) [OF assms]])

lemma aq_window_stamps:
  assumes "aq_window k H T xs q"
  shows "aq_stamps q = map (\<lambda>i. enc (aq_capacity q) k (H + i)) [0..<T - H]"
proof -
  note d = aq_windowD [OF assms]
  let ?e = "\<lambda>i. enc (aq_capacity q) k (H + i)" and ?next = "stamp_next (aq_capacity q) (aq_one_lap q) (aq_one_lap q)"
  have it: "(?next ^^ i) (aq_head q) = ?e i" for i
    using d by (induction i) (simp_all add: stamp_next_enc ring_def)
  have eq: "?e i = aq_tail q \<longleftrightarrow> i = T - H" if "i \<le> aq_capacity q" for i
    using enc_eq_iff [OF d(1), of "H + i" T] that d(3,4,8) period_gt_cap [OF d(1)] by (auto simp: d(6))
  have "[0..<aq_capacity q] = [0..<T - H] @ [T - H..<aq_capacity q]"
    using d(4) upt_add_eq_append [of 0 "T - H" "aq_capacity q - (T - H)"] by simp
  moreover have "takeWhile (\<lambda>s. s \<noteq> aq_tail q) (map ?e [T - H..<aq_capacity q]) = []"
    using eq [of "T - H"] d(4) by (cases "T - H < aq_capacity q") (simp_all add: upt_conv_Cons)
  moreover have "takeWhile (\<lambda>s. s \<noteq> aq_tail q) (map ?e [0..<T - H] @ ys) =
      map ?e [0..<T - H] @ takeWhile (\<lambda>s. s \<noteq> aq_tail q) ys" for ys
    using eq d(4) by (intro takeWhile_append2) auto
  ultimately show ?thesis by (simp add: aq_stamps_def it)
qed

lemma aq_window_contents:
  assumes "aq_window k H T xs q"
  shows "aq_contents q = xs"
proof -
  note d = aq_windowD [OF assms]
  have "aq_contents q = map (\<lambda>i. the (slot_value (aq_buffer q ! ((H + i) mod aq_capacity q)))) [0..<T - H]"
    using d(1,8) by (simp add: aq_contents_def aq_window_stamps [OF assms] d(2) stamp_index_enc ring_def comp_def)
  also have "\<dots> = map (\<lambda>i. xs ! i) [0..<T - H]" using d(9) by simp
  finally show ?thesis by (simp only: map_nth flip: d(7))
qed

lemma aq_window_next:
  assumes "aq_window k H T xs q"
  shows "stamp_next (aq_capacity q) (aq_one_lap q) (aq_one_lap q) (aq_head q) = enc (aq_capacity q) k (Suc H)"
    "stamp_next (aq_capacity q) (aq_one_lap q) (aq_one_lap q) (aq_tail q) = enc (aq_capacity q) k (Suc T)"
  using aq_windowD [OF assms] by (simp_all add: stamp_next_enc ring_def)

lemma aq_index_in_buffer: "aq_window k H T xs q \<Longrightarrow> p mod aq_capacity q < length (aq_buffer q)"
  using aq_windowD(8) by (fastforce simp: aq_capacity_def)

lemma aq_capacity_update [simp]:
  "aq_capacity (q\<lparr>aq_tail := t, aq_buffer := (aq_buffer q)[i := s]\<rparr>) = aq_capacity q"
  "aq_capacity (q\<lparr>aq_head := t, aq_buffer := (aq_buffer q)[i := s]\<rparr>) = aq_capacity q"
  by (simp_all add: aq_capacity_def)

section \<open>The operations on the representation\<close>

lemma aq_push_mut_full:
  "aq_window k H T xs q \<Longrightarrow> T = H + aq_capacity q \<Longrightarrow> aq_push_mut v q = Some (Err v, q)"
  by (simp add: aq_push_mut_def Let_def aq_window_compare)

definition aq_pushed :: "nat \<Rightarrow> nat \<Rightarrow> 'a \<Rightarrow> 'a array_queue \<Rightarrow> 'a array_queue" where
  "aq_pushed k T v q = q\<lparr>aq_tail := enc (aq_capacity q) k (Suc T),
     aq_buffer := (aq_buffer q)[T mod aq_capacity q := \<lparr>stamp = aq_tail q + 1, slot_value = Some v\<rparr>]\<rparr>"

lemma aq_push_mut_ok:
  assumes "aq_window k H T xs q" "T < H + aq_capacity q"
  shows "aq_push_mut v q = Some (Ok (), aq_pushed k T v q)"
  using assms(2)
  by (simp add: aq_push_mut_def Let_def aq_window_compare [OF assms(1)] aq_window_index [OF assms(1)]
      aq_window_next [OF assms(1)] aq_index_in_buffer [OF assms(1)] aq_pushed_def)

lemma aq_rep_pushed:
  assumes rep: "aq_rep k H T xs q" and room: "T < H + aq_capacity q"
  shows "aq_rep k H (Suc T) (xs @ [v]) (aq_pushed k T v q)"
proof -
  have win: "aq_window k H T xs q" using rep by (simp add: aq_rep_def)
  note d = aq_windowD [OF win]
  let ?c = "aq_capacity q"
  have other: "p mod ?c \<noteq> T mod ?c" "T mod ?c \<noteq> p mod ?c" if "H \<le> p" "p < H + ?c" "p \<noteq> T" for p
    using window_slot_eq_iff [of H p ?c T] that d(3) room by auto
  have c: "aq_capacity (aq_pushed k T v q) = ?c" by (simp add: aq_pushed_def)
  have vals: "slot_value (aq_buffer (aq_pushed k T v q) ! ((H + j) mod ?c)) = Some ((xs @ [v]) ! j)"
    if "j < Suc T - H" for j
  proof (cases "H + j = T")
    case True
    then show ?thesis using d(7) aq_index_in_buffer [OF win] by (auto simp: aq_pushed_def nth_append)
  next
    case False
    with that room other [of "H + j"] d(7) d(9) [of j] show ?thesis
      by (auto simp: aq_pushed_def nth_append)
  qed
  have "aq_window k H (Suc T) (xs @ [v]) (aq_pushed k T v q)"
    unfolding aq_window_def c Let_def using d room vals by (auto simp: aq_pushed_def)
  moreover have "stamp (aq_buffer (aq_pushed k T v q) ! (p mod ?c)) = enc ?c k p + 1"
    if "H \<le> p" "p < Suc T" for p
    using rep that room other [of p] aq_index_in_buffer [OF win] d(6)
    by (cases "p = T") (auto simp: aq_pushed_def aq_rep_def)
  moreover have "stamp (aq_buffer (aq_pushed k T v q) ! (p mod ?c)) = enc ?c k p"
    if "Suc T \<le> p" "p < H + ?c" for p
    using rep that other [of p] d(3) by (auto simp: aq_pushed_def aq_rep_def)
  ultimately show ?thesis by (simp add: aq_rep_def c)
qed

text \<open>Popping, for \<^verbatim>\<open>pop_mut\<close> and for the iterator, which differ in the stamp they leave.\<close>

definition aq_popped :: "nat \<Rightarrow> nat \<Rightarrow> u64 \<Rightarrow> 'a array_queue \<Rightarrow> 'a array_queue" where
  "aq_popped k H st q = q\<lparr>aq_head := enc (aq_capacity q) k (Suc H),
     aq_buffer := (aq_buffer q)[H mod aq_capacity q := \<lparr>stamp = st, slot_value = None\<rparr>]\<rparr>"

lemma aq_pop_mut_empty: "aq_window k H T xs q \<Longrightarrow> T = H \<Longrightarrow> aq_pop_mut q = Some (None, q)"
  by (simp add: aq_pop_mut_def Let_def aq_window_compare)

lemma aq_into_iter_next_empty:
  "aq_window k H T xs q \<Longrightarrow> T = H \<Longrightarrow> aq_into_iter_next q = Some (None, q)"
  by (simp add: aq_into_iter_next_def Let_def aq_window_compare)

lemma aq_window_hd:
  assumes "aq_window k H T xs q" "H < T"
  shows "slot_value (aq_buffer q ! (H mod aq_capacity q)) = Some (hd xs)" "xs \<noteq> []"
  using aq_windowD(7) [OF assms(1)] aq_windowD(9) [OF assms(1), of 0] assms(2)
  by (cases xs; simp)+

lemma slot_moved_out: "s\<lparr>slot_value := None\<rparr> = \<lparr>stamp = stamp s, slot_value = None\<rparr>"
  by (cases s) simp

lemma aq_pop_mut_some:
  assumes "aq_window k H T xs q" "H < T"
  shows "aq_pop_mut q = Some (Some (hd xs), aq_popped k H (aq_head q + aq_one_lap q) q)"
  using assms(2)
  by (simp add: aq_pop_mut_def Let_def aq_window_compare [OF assms(1)] aq_window_index [OF assms(1)]
      aq_window_next [OF assms(1)] aq_index_in_buffer [OF assms(1)] aq_window_hd [OF assms] aq_popped_def)

lemma aq_into_iter_next_some:
  assumes "aq_window k H T xs q" "H < T"
  shows "aq_into_iter_next q =
    Some (Some (hd xs), aq_popped k H (stamp (aq_buffer q ! (H mod aq_capacity q))) q)"
  using assms(2)
  by (simp add: aq_into_iter_next_def Let_def aq_window_compare [OF assms(1)] aq_window_index [OF assms(1)]
      aq_window_next [OF assms(1)] aq_index_in_buffer [OF assms(1)] aq_window_hd [OF assms] aq_popped_def
      slot_moved_out)

lemma aq_window_popped:
  assumes win: "aq_window k H T xs q" and ne: "H < T"
  shows "aq_window k (Suc H) T (tl xs) (aq_popped k H st q)"
proof -
  note d = aq_windowD [OF win]
  let ?c = "aq_capacity q"
  have c: "aq_capacity (aq_popped k H st q) = ?c" by (simp add: aq_popped_def)
  have "slot_value (aq_buffer (aq_popped k H st q) ! ((Suc H + j) mod ?c)) = Some (tl xs ! j)"
    if "j < T - Suc H" for j
    using that d(4,7) d(9) [of "Suc j"] window_slot_neq [of H "Suc H + j" ?c]
    by (simp add: aq_popped_def nth_tl)
  with d ne show ?thesis
    unfolding aq_window_def c Let_def by (auto simp: aq_popped_def)
qed

lemma aq_rep_popped:
  assumes rep: "aq_rep k H T xs q" and ne: "H < T"
  shows "aq_rep k (Suc H) T (tl xs) (aq_popped k H (aq_head q + aq_one_lap q) q)"
proof -
  have win: "aq_window k H T xs q" using rep by (simp add: aq_rep_def)
  note d = aq_windowD [OF win]
  let ?c = "aq_capacity q" and ?q' = "aq_popped k H (aq_head q + aq_one_lap q) q"
  have c: "aq_capacity ?q' = ?c" by (simp add: aq_popped_def)
  have "stamp (aq_buffer ?q' ! (p mod ?c)) = enc ?c k p + 1" if "Suc H \<le> p" "p < T" for p
    using rep that d(4) window_slot_neq [of H p ?c] by (simp add: aq_popped_def aq_rep_def)
  moreover have "stamp (aq_buffer ?q' ! (p mod ?c)) = enc ?c k p" if "T \<le> p" "p < Suc H + ?c" for p
  proof (cases "p = H + ?c")
    case True
    then show ?thesis
      using aq_index_in_buffer [OF win, of H] d(1,2,5) by (simp add: aq_popped_def enc_add_lap)
  next
    case False
    with that rep ne window_slot_neq [of H p ?c] show ?thesis by (simp add: aq_popped_def aq_rep_def)
  qed
  ultimately show ?thesis using aq_window_popped [OF win ne] by (simp add: aq_rep_def c)
qed

section \<open>Construction\<close>

lemma aq_new_shape:
  assumes "aq_new slot_size cap = Ok q"
  obtains k where "ring (unat cap) k" "2 ^ k \<le> 2 * unat cap"
    "q = \<lparr>aq_head = 0, aq_tail = 0,
      aq_buffer = map (\<lambda>i. \<lparr>stamp = word_of_nat i, slot_value = None\<rparr>) [0..<unat cap], aq_one_lap = 2 ^ k\<rparr>"
proof -
  from assms obtain p where cap: "cap \<noteq> 0"
    and pow: "Option.bind (checked_add cap 1) checked_next_power_of_two = Some p"
    and q: "q = \<lparr>aq_head = 0, aq_tail = 0,
      aq_buffer = map (\<lambda>i. \<lparr>stamp = word_of_nat i, slot_value = None\<rparr>) [0..<unat cap], aq_one_lap = p\<rparr>"
    by (auto simp: aq_new_def Let_def split: if_splits option.splits)
  from capacity_power [OF cap pow] obtain k where "k < 64" "p = 2 ^ k" "0 < unat cap" "unat cap < 2 ^ k" "2 ^ k \<le> 2 * unat cap" .
  with q show thesis by (intro that [of k]) (simp_all add: ring_def)
qed

lemma aq_new_Ok:
  assumes "aq_new slot_size cap = Ok q"
  obtains k where "aq_rep k 0 0 [] q" "aq_capacity q = unat cap"
proof -
  from assms obtain k where r: "ring (unat cap) k"
    and q: "q = \<lparr>aq_head = 0, aq_tail = 0,
      aq_buffer = map (\<lambda>i. \<lparr>stamp = word_of_nat i, slot_value = None\<rparr>) [0..<unat cap], aq_one_lap = 2 ^ k\<rparr>"
    by (rule aq_new_shape)
  have "enc (unat cap) k p = word_of_nat p" if "p < unat cap" for p
    using that by (simp add: enc_def)
  then have "aq_rep k 0 0 [] q"
    using r by (auto simp: aq_rep_def aq_window_def aq_capacity_def q Let_def enc_def)
  then show thesis by (rule that) (simp add: q aq_capacity_def)
qed

section \<open>Well-formed queues\<close>

lemma aq_rep_window: "aq_rep k H T xs q \<Longrightarrow> aq_window k H T xs q"
  by (simp add: aq_rep_def)

lemma aq_wfE:
  assumes "aq_wf q"
  obtains k H T where "aq_rep k H T (aq_contents q) q"
  using assms aq_window_contents aq_rep_window unfolding aq_wf_def by metis

lemma aq_wf_contents: "aq_rep k H T xs q \<Longrightarrow> aq_wf q \<and> aq_contents q = xs"
  using aq_window_contents aq_rep_window unfolding aq_wf_def by metis

text \<open>The two operations behind the queue interface.\<close>

definition aq_apply :: "'a queue_op \<Rightarrow> 'a array_queue \<Rightarrow> ('a queue_ret \<times> 'a array_queue) option" where
  "aq_apply oper q =
     (case oper of
        Push v \<Rightarrow> map_option (\<lambda>(r, q'). (case r of Ok _ \<Rightarrow> Pushed | Err x \<Rightarrow> Rejected x, q')) (aq_push_mut v q)
      | Pop \<Rightarrow> map_option (\<lambda>(r, q'). (case r of None \<Rightarrow> Nothing | Some x \<Rightarrow> Popped x, q')) (aq_pop_mut q))"

lemma aq_apply_refines:
  assumes "aq_wf q"
  shows "\<exists>r q'. aq_apply oper q = Some (r, q') \<and> aq_wf q' \<and> Some (aq_capacity q') = Some (aq_capacity q) \<and>
    list_queue (Some (aq_capacity q)) oper (aq_contents q) = (r, aq_contents q')"
proof -
  from assms obtain k H T where rep: "aq_rep k H T (aq_contents q) q" by (rule aq_wfE)
  note win = aq_rep_window [OF rep] and d = aq_windowD [OF aq_rep_window [OF rep]]
  show ?thesis
  proof (cases oper)
    case (Push v)
    show ?thesis
    proof (cases "T = H + aq_capacity q")
      case True
      then show ?thesis
        using Push assms d(7) by (simp add: aq_apply_def aq_push_mut_full [OF win])
    next
      case False
      then have room: "T < H + aq_capacity q" using d(4) by simp
      note q' = aq_wf_contents [OF aq_rep_pushed [OF rep room, of v]]
      have "aq_capacity (aq_pushed k T v q) = aq_capacity q" by (simp add: aq_pushed_def)
      with q' show ?thesis
        using Push room d(3,7) by (simp add: aq_apply_def aq_push_mut_ok [OF win room])
    qed
  next
    case Pop
    show ?thesis
    proof (cases "T = H")
      case True
      then show ?thesis using Pop assms d(7) by (simp add: aq_apply_def aq_pop_mut_empty [OF win])
    next
      case False
      then have ne: "H < T" using d(3) by simp
      note q' = aq_wf_contents [OF aq_rep_popped [OF rep ne]]
      have "aq_capacity (aq_popped k H st q) = aq_capacity q" for st by (simp add: aq_popped_def)
      with q' aq_window_hd(2) [OF win ne] show ?thesis
        using Pop by (simp add: aq_apply_def aq_pop_mut_some [OF win ne] split: list.split)
    qed
  qed
qed

interpretation aqm: queue_refinement "\<lambda>_. aq_wf" aq_contents "\<lambda>q. Some (aq_capacity q)" aq_apply
  by unfold_locales (rule aq_apply_refines)

section \<open>Destruction and iteration\<close>

lemma aq_drop_loop_values:
  assumes "aq_window k H T xs q"
  shows "set is \<subseteq> {..<T - H} \<Longrightarrow>
    aq_drop_loop q (H mod aq_capacity q) is = Some (map (\<lambda>i. xs ! i) is)"
proof (induction "is")
  case (Cons i "is")
  note d = aq_windowD [OF assms]
  let ?c = "aq_capacity q"
  from Cons.prems have i: "i < T - H" by simp
  have "(H + i) mod ?c = (if H mod ?c + i < ?c then H mod ?c + i else H mod ?c + i - ?c)"
    using i d(4,8) by (intro mod_add_small) simp_all
  moreover have "(H + i) mod ?c < length (aq_buffer q)" by (rule aq_index_in_buffer [OF assms])
  ultimately show ?case
    using Cons d(9) [OF i] by (simp add: Let_def)
qed simp

lemma aq_window_drop:
  assumes "aq_window k H T xs q"
  shows "aq_drop True q = Some xs"
proof -
  have "aq_drop True q = aq_drop_loop q (H mod aq_capacity q) [0..<aq_len q]"
    by (simp add: aq_drop_def aq_len_def Let_def aq_window_index [OF assms])
  also have "\<dots> = Some (map (\<lambda>i. xs ! i) [0..<length xs])"
    using aq_windowD(7) [OF assms]
    by (subst aq_drop_loop_values [OF assms]) (auto simp: aq_window_len [OF assms])
  finally show ?thesis by (simp add: map_nth)
qed

lemma aq_window_collect:
  "aq_window k H T xs q \<Longrightarrow> \<exists>q'. aq_collect (Suc (length xs)) q = Some (xs, q') \<and> aq_window k T T [] q'"
proof (induction xs arbitrary: H q)
  case Nil
  then have "T = H" using aq_windowD(3,7) [OF Nil] by simp
  with Nil show ?case by (simp add: aq_into_iter_next_empty)
next
  case (Cons x xs)
  have ne: "H < T" using aq_windowD(7) [OF Cons.prems] by simp
  obtain st where nxt: "aq_into_iter_next q = Some (Some x, aq_popped k H st q)"
    using aq_into_iter_next_some [OF Cons.prems ne] by auto
  from Cons.IH [OF aq_window_popped [OF Cons.prems ne, of st, simplified]] obtain q' where
    q': "aq_collect (Suc (length xs)) (aq_popped k H st q) = Some (xs, q')" "aq_window k T T [] q'"
    by blast
  have "aq_collect (Suc (length (x # xs))) q =
      map_option (\<lambda>(vs, q''). (x # vs, q'')) (aq_collect (Suc (length xs)) (aq_popped k H st q))"
    by (simp add: nxt)
  with q' show ?case by simp
qed

section \<open>Properties\<close>

text \<open>A queue of two slots as \<^verbatim>\<open>new\<close> builds it.\<close>

definition two_slots :: "nat array_queue" where
  "two_slots = \<lparr>aq_head = 0, aq_tail = 0,
     aq_buffer = [\<lparr>stamp = 0, slot_value = None\<rparr>, \<lparr>stamp = 1, slot_value = None\<rparr>], aq_one_lap = 4\<rparr>"

lemma aq_new_two: "aq_new 16 2 = Ok two_slots"
proof -
  have "[0..<64] = 0 # 1 # 2 # [3..<(64::nat)]" by (simp add: upt_conv_Cons)
  then have "checked_next_power_of_two (3 :: u64) = Some 4"
    by (simp add: checked_next_power_of_two_def)
  moreover have "checked_add (2 :: u64) 1 = Some 3" by (simp add: checked_add_def)
  moreover have "[0..<2] = [0, 1::nat]" by (simp add: upt_conv_Cons)
  ultimately show ?thesis by (simp add: aq_new_def two_slots_def capacity_overflow_def)
qed

lemma two_slots_wf: "aq_wf two_slots"
  by (rule aq_new_Ok [OF aq_new_two]) (auto simp: aq_wf_def)

text \<open>A run of operations on a new queue.\<close>

lemma aq_run_new:
  assumes "aq_new slot_size cap = Ok q"
  shows "\<exists>rs q'. queue_run aq_apply ops q = Some (rs, q') \<and> aq_wf q' \<and> aq_capacity q' = unat cap \<and>
    list_queue_run (Some (unat cap)) ops [] = (rs, aq_contents q')"
proof -
  from aq_new_Ok [OF assms] obtain k where k: "aq_rep k 0 0 [] q" "aq_capacity q = unat cap" by blast
  have "aq_contents q = []" "aq_wf q" using aq_wf_contents [OF k(1)] by simp_all
  with aqm.run_refines [of q ops] k(2) show ?thesis by auto
qed

text \<open>
  C7: \<^verbatim>\<open>push_mut\<close> and \<^verbatim>\<open>pop_mut\<close> on a queue built by
  \<^verbatim>\<open>new\<close> never index out of range or read an empty slot, return exactly what a bounded
  list of that capacity returns, and deliver the accepted elements in order without loss or
  duplication, for any sequence of calls (the stamps may wrap around any number of times).
\<close>

theorem aq_mut_fifo:
  assumes "aq_new slot_size cap = Ok q"
  shows "\<exists>rs q'. queue_run aq_apply ops q = Some (rs, q') \<and>
    list_queue_run (Some (unat cap)) ops [] = (rs, aq_contents q') \<and>
    delivered rs @ aq_contents q' = accepted ops rs"
  using aq_run_new [OF assms, of ops] list_queue_run_fifo by fastforce

theorem aq_mut_fifo_witness:
  "\<exists>rs q'. queue_run aq_apply [Push 1, Push 2, Push 3, Pop] two_slots = Some (rs, q') \<and>
    list_queue_run (Some 2) [Push 1, Push 2, Push 3, Pop] [] = (rs, aq_contents q') \<and>
    delivered rs @ aq_contents q' = accepted [Push 1, Push 2, Push 3, Pop] rs"
  using aq_mut_fifo [OF aq_new_two, of "[Push 1, Push 2, Push 3, Pop]"] by simp

lemma aq_wf_observers:
  assumes "aq_wf q"
  shows "aq_len q = length (aq_contents q)" "aq_is_empty q \<longleftrightarrow> aq_contents q = []"
    "aq_is_full q \<longleftrightarrow> length (aq_contents q) = aq_capacity q"
proof -
  from assms obtain k H T where "aq_rep k H T (aq_contents q) q" by (rule aq_wfE)
  note win = aq_rep_window [OF this]
  note d = aq_windowD [OF win]
  show "aq_len q = length (aq_contents q)" using d(7) by (simp add: aq_window_len [OF win])
  have "T = H \<longleftrightarrow> aq_contents q = []" using d(3,7) by (cases "aq_contents q") auto
  then show "aq_is_empty q \<longleftrightarrow> aq_contents q = []"
    by (simp add: aq_is_empty_def Let_def aq_window_compare [OF win])
  have "T = H + aq_capacity q \<longleftrightarrow> length (aq_contents q) = aq_capacity q" using d by linarith
  then show "aq_is_full q \<longleftrightarrow> length (aq_contents q) = aq_capacity q"
    by (simp add: aq_is_full_def Let_def aq_window_compare [OF win])
qed

text \<open>
  C12: the observers of a queue at rest. After any sequence of \<^verbatim>\<open>push_mut\<close> and
  \<^verbatim>\<open>pop_mut\<close> on a queue built by \<^verbatim>\<open>new\<close>, \<^verbatim>\<open>len\<close> is
  the number of elements that a bounded list holds after the same calls,
  \<^verbatim>\<open>is_empty\<close> and \<^verbatim>\<open>is_full\<close> say whether that list is empty or has reached the
  capacity, and \<^verbatim>\<open>capacity\<close> is what was asked for, however often the indices and the
  stamps have wrapped around.
\<close>

theorem aq_observers:
  assumes "aq_new slot_size cap = Ok q" "list_queue_run (Some (unat cap)) ops [] = (rs, xs)"
  shows "\<exists>q'. queue_run aq_apply ops q = Some (rs, q') \<and> aq_len q' = length xs \<and>
    (aq_is_empty q' \<longleftrightarrow> xs = []) \<and> (aq_is_full q' \<longleftrightarrow> length xs = unat cap) \<and> aq_capacity q' = unat cap"
  using aq_run_new [OF assms(1), of ops] aq_wf_observers assms(2) by fastforce

text \<open>Calls after which the elements of a queue of two slots wrap around its end.\<close>

definition wrapping_ops :: "nat queue_op list" where
  "wrapping_ops = [Push 1, Push 2, Pop, Push 3]"

lemma wrapping_list: "list_queue_run (Some 2) wrapping_ops [] = ([Pushed, Pushed, Popped 1, Pushed], [2, 3])"
  by (simp add: wrapping_ops_def)

theorem aq_observers_witness:
  "\<exists>q'. queue_run aq_apply wrapping_ops two_slots = Some ([Pushed, Pushed, Popped 1, Pushed], q') \<and>
    aq_len q' = 2 \<and> \<not> aq_is_empty q' \<and> aq_is_full q' \<and> aq_capacity q' = 2"
  using aq_observers [OF aq_new_two, of wrapping_ops] wrapping_list by simp (simp add: numeral_2_eq_2)

text \<open>
  C9: dropping a queue destroys exactly the elements it holds, each once and in order; the owning
  iterator yields exactly them, and dropping what the exhausted iterator leaves destroys nothing.
\<close>

theorem aq_drop_iter:
  assumes "aq_wf q"
  shows "aq_drop True q = Some (aq_contents q) \<and>
    (\<exists>q'. aq_collect (Suc (aq_len q)) q = Some (aq_contents q, q') \<and> aq_drop True q' = Some [])"
proof -
  from assms obtain k H T where "aq_rep k H T (aq_contents q) q" by (rule aq_wfE)
  note win = aq_rep_window [OF this]
  from aq_window_collect [OF win] obtain q' where
    "aq_collect (Suc (length (aq_contents q))) q = Some (aq_contents q, q')" "aq_window k T T [] q'" by blast
  moreover have "aq_len q = length (aq_contents q)"
    using aq_windowD(7) [OF win] by (simp add: aq_window_len [OF win])
  ultimately show ?thesis using aq_window_drop [OF win] aq_window_drop by metis
qed

theorem aq_drop_iter_witness:
  "\<exists>rs q. queue_run aq_apply wrapping_ops two_slots = Some (rs, q) \<and> aq_drop True q = Some [2, 3] \<and>
    (\<exists>q'. aq_collect 3 q = Some ([2, 3], q') \<and> aq_drop True q' = Some [])"
proof -
  from aq_run_new [OF aq_new_two, of wrapping_ops] obtain rs q where
    q: "queue_run aq_apply wrapping_ops two_slots = Some (rs, q)" "aq_wf q" "aq_contents q = [2, 3]"
    using wrapping_list by auto
  then have "aq_len q = 2" by (simp add: aq_wf_observers)
  with aq_drop_iter [OF q(2)] q show ?thesis by (auto simp: numeral_3_eq_3)
qed

text \<open>
  C13: \<^verbatim>\<open>new\<close>, for slots of at least the eight bytes of their stamp. It panics on capacity
  zero; it panics with a capacity overflow exactly when the slots would take \<open>2 ^ 63\<close> bytes or
  more, and so never gets to the panic about the lap; otherwise the queue is empty and has the capacity
  asked for.
\<close>

theorem aq_new_outcome:
  assumes "8 \<le> unat slot_size"
  shows "case (aq_new slot_size cap :: ('a array_queue, new_panic) result) of
     Ok q \<Rightarrow> 0 < unat cap \<and> unat cap * unat slot_size < 2 ^ 63 \<and> aq_wf q \<and> aq_contents q = [] \<and> aq_capacity q = unat cap
   | Err Capacity_must_be_non_zero \<Rightarrow> cap = 0
   | Err Capacity_overflow \<Rightarrow> 0 < unat cap \<and> 2 ^ 63 \<le> unat cap * unat slot_size
   | Err Queue_capacity_is_too_large \<Rightarrow> False"
proof (cases "cap = 0 \<or> capacity_overflow slot_size cap")
  case True
  then show ?thesis by (auto simp: aq_new_def capacity_overflow_def unat_gt_0)
next
  case False
  then have fits: "unat cap * unat slot_size < 2 ^ 63" by (simp add: capacity_overflow_def)
  have "unat cap * 8 \<le> unat cap * unat slot_size" using assms by (rule mult_le_mono2)
  with fits have "unat cap * 8 < 2 ^ 63" by (rule le_less_trans [rotated])
  then have small: "unat cap < 2 ^ 60" by simp
  have suc: "unat (cap + 1) = unat cap + 1" using small by (simp add: unat_word_ariths)
  have add: "checked_add cap 1 = Some (cap + 1)" using small by (simp add: checked_add_def)
  have "checked_next_power_of_two (cap + 1) \<noteq> None"
    using small suc by (simp only: checked_next_power_of_two_None) simp
  then obtain q :: "'a array_queue" where q: "aq_new slot_size cap = Ok q"
    using False add by (auto simp: aq_new_def)
  from aq_new_Ok [OF q] obtain k where k: "aq_rep k 0 0 [] q" "aq_capacity q = unat cap" by blast
  with aq_wf_contents [OF k(1)] fits False show ?thesis by (simp add: q unat_gt_0)
qed

theorem aq_new_outcome_witness:
  "(aq_new 16 (2 ^ 60) :: (nat array_queue, new_panic) result) = Err Capacity_overflow \<and>
   aq_new 16 2 = Ok two_slots \<and> aq_wf two_slots \<and> aq_contents two_slots = [] \<and> aq_capacity two_slots = 2"
proof -
  have "(aq_new 16 (2 ^ 60) :: (nat array_queue, new_panic) result) = Err Capacity_overflow"
    by (simp add: aq_new_def capacity_overflow_def)
  then show ?thesis using aq_new_outcome [of 16 2, where 'a = nat] aq_new_two by simp
qed

end
