(* ===== verification/Atomic_Object.thy ===== *)
theory Atomic_Object
  imports Prelude
begin

text \<open>
  Linearizability. The lock-free structures of the repository promise that each call appears to
  take effect at one instant between its invocation and its return. The specification of such an
  object is the canonical atomic object over a sequential specification: a thread invokes an
  operation, at some later instant the operation takes effect on the sequential state, and only
  then the thread may return with the result it got there. An implementation is linearizable when
  every sequence of invocations and returns it can show is one that the atomic object can show.
  The locale \<open>object_simulation\<close> states what an implementation's step function has to
  satisfy, and proves the inclusion once for all of them.
\<close>

datatype ('op, 'ret) action = Invoke tid 'op | Return tid 'ret

datatype ('op, 'ret) status = Quiet | Pending 'op | Answered 'ret

type_synonym ('st, 'op, 'ret) atomic_object = "'st \<times> (tid \<Rightarrow> ('op, 'ret) status)"

text \<open>
  The sequential specification is a relation, so that it may leave an operation without result
  (the operation then waits) or allow several.
\<close>

inductive ao_step ::
  "('op \<Rightarrow> 'st \<Rightarrow> 'ret \<Rightarrow> 'st \<Rightarrow> bool) \<Rightarrow> ('st, 'op, 'ret) atomic_object \<Rightarrow>
     ('op, 'ret) action option \<Rightarrow> ('st, 'op, 'ret) atomic_object \<Rightarrow> bool"
  for spec where
  ao_invoke: "stat i = Quiet \<Longrightarrow>
     ao_step spec (x, stat) (Some (Invoke i oper)) (x, stat(i := Pending oper))"
| ao_effect: "stat i = Pending oper \<Longrightarrow> spec oper x r x' \<Longrightarrow>
     ao_step spec (x, stat) None (x', stat(i := Answered r))"
| ao_return: "stat i = Answered r \<Longrightarrow>
     ao_step spec (x, stat) (Some (Return i r)) (x, stat(i := Quiet))"

text \<open>Runs of the atomic object with the visible actions they show, first action first.\<close>

inductive ao_run ::
  "('op \<Rightarrow> 'st \<Rightarrow> 'ret \<Rightarrow> 'st \<Rightarrow> bool) \<Rightarrow> ('st, 'op, 'ret) atomic_object \<Rightarrow>
     ('op, 'ret) action list \<Rightarrow> ('st, 'op, 'ret) atomic_object \<Rightarrow> bool"
  for spec where
  ao_done: "ao_run spec a [] a"
| ao_silent: "ao_step spec a None b \<Longrightarrow> ao_run spec b tr d \<Longrightarrow> ao_run spec a tr d"
| ao_visible: "ao_step spec a (Some act) b \<Longrightarrow> ao_run spec b tr d \<Longrightarrow> ao_run spec a (act # tr) d"

inductive_simps ao_step_Some: "ao_step spec a (Some act) b"
inductive_simps ao_step_None: "ao_step spec a None b"

lemma ao_run_append: "ao_run spec a tr b \<Longrightarrow> ao_run spec b tr' d \<Longrightarrow> ao_run spec a (tr @ tr') d"
  by (induction rule: ao_run.induct) (auto intro: ao_run.intros)

text \<open>The visible part of one step, as a list.\<close>

definition visible :: "('op, 'ret) action option \<Rightarrow> ('op, 'ret) action list" where
  "visible l = (case l of None \<Rightarrow> [] | Some act \<Rightarrow> [act])"

lemma visible_simps [simp]: "visible None = []" "visible (Some act) = [act]"
  by (simp_all add: visible_def)

lemma ao_run_invoke:
  "stat i = Quiet \<Longrightarrow> ao_run spec (x, stat) [Invoke i oper] (x, stat(i := Pending oper))"
  by (rule ao_visible [OF ao_invoke ao_done])

lemma ao_run_effect:
  "stat i = Pending oper \<Longrightarrow> spec oper x r x' \<Longrightarrow> ao_run spec (x, stat) [] (x', stat(i := Answered r))"
  by (rule ao_silent [OF ao_effect ao_done])

lemma ao_run_return:
  "stat i = Answered r \<Longrightarrow> ao_run spec (x, stat) [Return i r] (x, stat(i := Quiet))"
  by (rule ao_visible [OF ao_return ao_done])

text \<open>
  What the specification guarantees about a visible trace. Returns follow invocations: the
  actions of each thread alternate, starting from an invocation when the thread is quiet.
\<close>

fun alternates :: "tid \<Rightarrow> bool \<Rightarrow> ('op, 'ret) action list \<Rightarrow> bool" where
  "alternates i busy [] = True"
| "alternates i busy (Invoke j oper # tr) =
     (if i = j then \<not> busy \<and> alternates i True tr else alternates i busy tr)"
| "alternates i busy (Return j r # tr) =
     (if i = j then busy \<and> alternates i False tr else alternates i busy tr)"

lemma ao_run_alternates:
  "ao_run spec a tr d \<Longrightarrow> alternates i (snd a i \<noteq> Quiet) tr"
proof (induction rule: ao_run.induct)
  case (ao_done a)
  show ?case by simp
next
  case (ao_silent a b tr d)
  then show ?case by (auto simp: ao_step_None split: if_splits)
next
  case (ao_visible a act b tr d)
  then show ?case by (auto simp: ao_step_Some split: if_splits)
qed

section \<open>Implementations\<close>

text \<open>
  An implementation is a step function driven by scheduling events: \<open>cstep e s\<close> is the state
  after event \<open>e\<close> in state \<open>s\<close>, and \<open>label e s\<close> the action that event shows.
\<close>

fun impl_trace :: "('e \<Rightarrow> 's \<Rightarrow> 's) \<Rightarrow> ('e \<Rightarrow> 's \<Rightarrow> ('op, 'ret) action option) \<Rightarrow> 'e list \<Rightarrow> 's \<Rightarrow>
    ('op, 'ret) action list" where
  "impl_trace cstep label [] s = []"
| "impl_trace cstep label (e # es) s = visible (label e s) @ impl_trace cstep label es (cstep e s)"

text \<open>The state after a schedule.\<close>

definition impl_run :: "('e \<Rightarrow> 's \<Rightarrow> 's) \<Rightarrow> 'e list \<Rightarrow> 's \<Rightarrow> 's" where
  "impl_run cstep = fold cstep"

lemma impl_run_simps [simp]:
  "impl_run cstep [] s = s"
  "impl_run cstep (e # es) s = impl_run cstep es (cstep e s)"
  by (simp_all add: impl_run_def)

lemma impl_run_snoc: "impl_run cstep (es @ [e]) s = cstep e (impl_run cstep es s)"
  by (simp add: impl_run_def)

text \<open>States that keep an invariant along every schedule.\<close>

locale invariant_system =
  fixes cstep :: "'e \<Rightarrow> 's \<Rightarrow> 's"
    and inv :: "'s \<Rightarrow> bool"
  assumes step_inv: "inv s \<Longrightarrow> inv (cstep e s)"
begin

lemma run_inv: "inv s \<Longrightarrow> inv (impl_run cstep es s)"
  by (induction es arbitrary: s) (auto intro: step_inv)

end

text \<open>
  A forward simulation into the atomic object: each event of the implementation is matched by a
  run of the object that shows the same action.
\<close>

locale object_simulation =
  fixes cstep :: "'e \<Rightarrow> 's \<Rightarrow> 's"
    and label :: "'e \<Rightarrow> 's \<Rightarrow> ('op, 'ret) action option"
    and spec :: "'op \<Rightarrow> 'st \<Rightarrow> 'ret \<Rightarrow> 'st \<Rightarrow> bool"
    and rel :: "'s \<Rightarrow> ('st, 'op, 'ret) atomic_object \<Rightarrow> bool"
  assumes simulate: "rel s a \<Longrightarrow>
    \<exists>b. ao_run spec a (visible (label e s)) b \<and> rel (cstep e s) b"
begin

lemma run_simulated:
  "rel s a \<Longrightarrow> \<exists>b. ao_run spec a (impl_trace cstep label es s) b \<and> rel (impl_run cstep es s) b"
proof (induction es arbitrary: s a)
  case Nil
  then show ?case using ao_done [of spec a] by (intro exI [of _ a]) simp
next
  case (Cons e es)
  from simulate [OF Cons.prems, of e] obtain b where
    b: "ao_run spec a (visible (label e s)) b" "rel (cstep e s) b" by blast
  from Cons.IH [OF b(2)] obtain d where
    "ao_run spec b (impl_trace cstep label es (cstep e s)) d" "rel (impl_run cstep (e # es) s) d"
    by auto
  with ao_run_append [OF b(1)] show ?case by (intro exI [of _ d]) simp
qed

lemma linearizable:
  "rel s a \<Longrightarrow> \<exists>b. ao_run spec a (impl_trace cstep label es s) b"
  using run_simulated [of s a es] by blast

end

text \<open>Every simulation carries the invariant that some object state is related.\<close>

sublocale object_simulation \<subseteq> related: invariant_system cstep "\<lambda>s. \<exists>a. rel s a"
  using simulate by unfold_locales blast

section \<open>Threads\<close>

text \<open>
  The implementations below are collections of threads over a shared state: a thread rests, is at
  some point \<open>'pc\<close> of an operation, or has finished one with a result. A tick is one access
  to the shared state; \<open>'ch\<close> is what the environment decides in it.
\<close>

datatype ('pc, 'ret) thread = Resting | Running 'pc | Done 'ret

datatype ('op, 'ch) thread_event = CallOp tid 'op | TickOp tid 'ch | ReturnOp tid

fun threads_step ::
  "('op \<Rightarrow> 'pc) \<Rightarrow> ('ch \<Rightarrow> 'q \<Rightarrow> 'pc \<Rightarrow> 'q \<times> ('pc, 'ret) thread) \<Rightarrow> ('op, 'ch) thread_event \<Rightarrow>
     'q \<times> (tid \<Rightarrow> ('pc, 'ret) thread) \<Rightarrow> 'q \<times> (tid \<Rightarrow> ('pc, 'ret) thread)" where
  "threads_step start tick (CallOp i oper) (q, ts) =
     (case ts i of Resting \<Rightarrow> (q, ts(i := Running (start oper))) | _ \<Rightarrow> (q, ts))"
| "threads_step start tick (TickOp i ch) (q, ts) =
     (case ts i of Running pc \<Rightarrow> (let (q', t) = tick ch q pc in (q', ts(i := t))) | _ \<Rightarrow> (q, ts))"
| "threads_step start tick (ReturnOp i) (q, ts) =
     (case ts i of Done r \<Rightarrow> (q, ts(i := Resting)) | _ \<Rightarrow> (q, ts))"

fun threads_label ::
  "('op, 'ch) thread_event \<Rightarrow> 'q \<times> (tid \<Rightarrow> ('pc, 'ret) thread) \<Rightarrow> ('op, 'ret) action option" where
  "threads_label (CallOp i oper) (q, ts) = (case ts i of Resting \<Rightarrow> Some (Invoke i oper) | _ \<Rightarrow> None)"
| "threads_label (TickOp i ch) (q, ts) = None"
| "threads_label (ReturnOp i) (q, ts) = (case ts i of Done r \<Rightarrow> Some (Return i r) | _ \<Rightarrow> None)"

text \<open>
  Some operations belong to one thread, as those of a handle that Rust does not let threads share:
  \<open>may i oper\<close> says which threads can call what.
\<close>

fun permitted :: "(tid \<Rightarrow> 'op \<Rightarrow> bool) \<Rightarrow> ('op, 'ch) thread_event \<Rightarrow> bool" where
  "permitted may (CallOp i oper) = may i oper"
| "permitted may _ = True"

text \<open>The runs in which every call was allowed to begin.\<close>

fun lawful_event ::
  "('q \<Rightarrow> (tid \<Rightarrow> ('pc, 'ret) thread) \<Rightarrow> tid \<Rightarrow> 'op \<Rightarrow> bool) \<Rightarrow> ('op, 'ch) thread_event \<Rightarrow>
     'q \<times> (tid \<Rightarrow> ('pc, 'ret) thread) \<Rightarrow> bool" where
  "lawful_event may (CallOp i oper) (q, ts) = (ts i = Resting \<longrightarrow> may q ts i oper)"
| "lawful_event may _ s = True"

fun lawful ::
  "('q \<Rightarrow> (tid \<Rightarrow> ('pc, 'ret) thread) \<Rightarrow> tid \<Rightarrow> 'op \<Rightarrow> bool) \<Rightarrow> ('op \<Rightarrow> 'pc) \<Rightarrow>
     ('ch \<Rightarrow> 'q \<Rightarrow> 'pc \<Rightarrow> 'q \<times> ('pc, 'ret) thread) \<Rightarrow> ('op, 'ch) thread_event list \<Rightarrow>
     'q \<times> (tid \<Rightarrow> ('pc, 'ret) thread) \<Rightarrow> bool" where
  "lawful may start tick [] s = True"
| "lawful may start tick (e # es) s = (lawful_event may e s \<and> lawful may start tick es (threads_step start tick e s))"

text \<open>
  A simulation that holds for runs of a bounded length, as counters of a machine word need: \<open>good n\<close>
  relates the states that can be reached with \<open>n\<close> events, and each operation takes effect at one
  of its own ticks. When a call may begin can depend on the state, as for operations that need exclusive access.
\<close>

locale guarded_simulation =
  fixes may :: "'q \<Rightarrow> (tid \<Rightarrow> ('pc, 'ret) thread) \<Rightarrow> tid \<Rightarrow> 'op \<Rightarrow> bool"
    and start :: "'op \<Rightarrow> 'pc"
    and tick :: "'ch \<Rightarrow> 'q \<Rightarrow> 'pc \<Rightarrow> 'q \<times> ('pc, 'ret) thread"
    and spec :: "'op \<Rightarrow> 'st \<Rightarrow> 'ret \<Rightarrow> 'st \<Rightarrow> bool"
    and good :: "nat \<Rightarrow> 'q \<Rightarrow> (tid \<Rightarrow> ('pc, 'ret) thread) \<Rightarrow> 'st \<Rightarrow> (tid \<Rightarrow> ('op, 'ret) status) \<Rightarrow> bool"
    and bound :: nat
  assumes good_mono: "good n q ts x st \<Longrightarrow> good (Suc n) q ts x st"
    and good_call: "good n q ts x st \<Longrightarrow> ts i = Resting \<Longrightarrow> may q ts i oper \<Longrightarrow>
      st i = Quiet \<and> good n q (ts(i := Running (start oper))) x (st(i := Pending oper))"
    and good_tick: "good n q ts x st \<Longrightarrow> n < bound \<Longrightarrow> ts i = Running pc \<Longrightarrow> tick ch q pc = (q', t) \<Longrightarrow>
      good (Suc n) q' (ts(i := t)) x st \<or>
      (\<exists>oper r x'. st i = Pending oper \<and> spec oper x r x' \<and> good (Suc n) q' (ts(i := t)) x' (st(i := Answered r)))"
    and good_return: "good n q ts x st \<Longrightarrow> ts i = Done r \<Longrightarrow>
      st i = Answered r \<and> good n q (ts(i := Resting)) x (st(i := Quiet))"
begin

lemma guarded_step:
  assumes "good n q ts x st" "n < bound" "lawful_event may e (q, ts)"
  shows "\<exists>x' st'. ao_run spec (x, st) (visible (threads_label e (q, ts))) (x', st') \<and>
    (case threads_step start tick e (q, ts) of (q', ts') \<Rightarrow> good (Suc n) q' ts' x' st')"
proof -
  have skip: ?thesis if "threads_label e (q, ts) = None" "threads_step start tick e (q, ts) = (q, ts)"
    using that good_mono [OF assms(1)] ao_done [of spec "(x, st)"] by auto
  show ?thesis
  proof (cases e)
    case (CallOp i oper)
    show ?thesis
    proof (cases "ts i")
      case Resting
      with good_call [OF assms(1), of i oper] assms(3) CallOp
      have "ao_run spec (x, st) [Invoke i oper] (x, st(i := Pending oper))"
        "good (Suc n) q (ts(i := Running (start oper))) x (st(i := Pending oper))"
        by (auto intro: ao_run_invoke good_mono)
      then show ?thesis using CallOp Resting by auto
    qed (use CallOp skip in auto)
  next
    case (TickOp i ch)
    show ?thesis
    proof (cases "ts i")
      case (Running pc)
      obtain q' t where t: "tick ch q pc = (q', t)" by fastforce
      have step: "threads_label e (q, ts) = None" "threads_step start tick e (q, ts) = (q', ts(i := t))"
        using TickOp Running t by simp_all
      from good_tick [OF assms(1,2) Running t] show ?thesis
      proof (elim disjE exE conjE)
        assume "good (Suc n) q' (ts(i := t)) x st"
        then show ?thesis using step ao_done [of spec "(x, st)"] by auto
      next
        fix oper r x'
        assume "st i = Pending oper" "spec oper x r x'" "good (Suc n) q' (ts(i := t)) x' (st(i := Answered r))"
        then show ?thesis using step ao_run_effect [of st i oper spec x r x'] by auto
      qed
    qed (use TickOp skip in auto)
  next
    case (ReturnOp i)
    show ?thesis
    proof (cases "ts i")
      case (Done r)
      with good_return [OF assms(1), of i r]
      have "ao_run spec (x, st) [Return i r] (x, st(i := Quiet))"
        "good (Suc n) q (ts(i := Resting)) x (st(i := Quiet))"
        by (auto intro: ao_run_return good_mono)
      then show ?thesis using ReturnOp Done by auto
    qed (use ReturnOp skip in auto)
  qed
qed

lemma guarded_run:
  "good n q ts x st \<Longrightarrow> n + length es \<le> bound \<Longrightarrow> lawful may start tick es (q, ts) \<Longrightarrow>
    \<exists>x' st'. ao_run spec (x, st) (impl_trace (threads_step start tick) threads_label es (q, ts)) (x', st') \<and>
      (case impl_run (threads_step start tick) es (q, ts) of (q', ts') \<Rightarrow> good (n + length es) q' ts' x' st')"
proof (induction es arbitrary: n q ts x st)
  case Nil
  then show ?case using ao_done [of spec "(x, st)"] by auto
next
  case (Cons e es)
  obtain q1 ts1 where s1: "threads_step start tick e (q, ts) = (q1, ts1)" by fastforce
  from guarded_step [OF Cons.prems(1), of e] Cons.prems(2,3) obtain x1 st1 where
    1: "ao_run spec (x, st) (visible (threads_label e (q, ts))) (x1, st1)" "good (Suc n) q1 ts1 x1 st1"
    by (auto simp: s1)
  from Cons.IH [OF 1(2)] Cons.prems(2,3) obtain x2 st2 where
    "ao_run spec (x1, st1) (impl_trace (threads_step start tick) threads_label es (q1, ts1)) (x2, st2)"
    "case impl_run (threads_step start tick) es (q1, ts1) of (q', ts') \<Rightarrow> good (Suc n + length es) q' ts' x2 st2"
    by (auto simp: s1)
  with ao_run_append [OF 1(1)] show ?case by (intro exI [of _ x2] exI [of _ st2]) (simp add: s1)
qed

lemma guarded_linearizable:
  "good 0 q ts x st \<Longrightarrow> length es \<le> bound \<Longrightarrow> lawful may start tick es (q, ts) \<Longrightarrow>
    \<exists>b. ao_run spec (x, st) (impl_trace (threads_step start tick) threads_label es (q, ts)) b"
  using guarded_run [of 0 q ts x st es] by auto

end

text \<open>Where the threads that may call an operation are fixed.\<close>

lemma permitted_lawful:
  fixes may :: "tid \<Rightarrow> 'op \<Rightarrow> bool" and es :: "('op, 'ch) thread_event list"
  assumes "list_all (permitted may) es"
  shows "lawful (\<lambda>_ _. may) start tick es s"
proof -
  have *: "lawful_event (\<lambda>_ _. may) e s" if "permitted may e" for e :: "('op, 'ch) thread_event" and s :: "'q \<times> (tid \<Rightarrow> ('pc, 'ret) thread)"
    using that by (cases "(\<lambda>(_ :: 'q) (_ :: tid \<Rightarrow> ('pc, 'ret) thread). may, e, s)" rule: lawful_event.cases) auto
  show ?thesis using assms by (induction es arbitrary: s) (simp_all add: *)
qed

locale role_simulation =
  fixes may :: "tid \<Rightarrow> 'op \<Rightarrow> bool"
    and start :: "'op \<Rightarrow> 'pc"
    and tick :: "'ch \<Rightarrow> 'q \<Rightarrow> 'pc \<Rightarrow> 'q \<times> ('pc, 'ret) thread"
    and spec :: "'op \<Rightarrow> 'st \<Rightarrow> 'ret \<Rightarrow> 'st \<Rightarrow> bool"
    and good :: "nat \<Rightarrow> 'q \<Rightarrow> (tid \<Rightarrow> ('pc, 'ret) thread) \<Rightarrow> 'st \<Rightarrow> (tid \<Rightarrow> ('op, 'ret) status) \<Rightarrow> bool"
    and bound :: nat
  assumes fixed_roles: "guarded_simulation (\<lambda>_ _. may) start tick spec good bound"

sublocale role_simulation \<subseteq> guarded: guarded_simulation "\<lambda>_ _. may" start tick spec good bound
  by (rule fixed_roles)

context role_simulation
begin

lemma good_run:
  "good n q ts x st \<Longrightarrow> n + length es \<le> bound \<Longrightarrow> list_all (permitted may) es \<Longrightarrow>
    \<exists>x' st'. ao_run spec (x, st) (impl_trace (threads_step start tick) threads_label es (q, ts)) (x', st') \<and>
      (case impl_run (threads_step start tick) es (q, ts) of (q', ts') \<Rightarrow> good (n + length es) q' ts' x' st')"
  by (rule guarded.guarded_run [OF _ _ permitted_lawful])

lemma good_step:
  assumes "good n q ts x st" "n < bound" "permitted may e"
  shows "\<exists>x' st'. ao_run spec (x, st) (visible (threads_label e (q, ts))) (x', st') \<and>
    (case threads_step start tick e (q, ts) of (q', ts') \<Rightarrow> good (Suc n) q' ts' x' st')"
  using good_run [OF assms(1), of "[e]"] assms(2,3) by simp

lemma threads_linearizable:
  "good 0 q ts x st \<Longrightarrow> length es \<le> bound \<Longrightarrow> list_all (permitted may) es \<Longrightarrow>
    \<exists>b. ao_run spec (x, st) (impl_trace (threads_step start tick) threads_label es (q, ts)) b"
  using good_run [of 0 q ts x st es] by auto

end

text \<open>Where every thread can call everything.\<close>

lemma all_permitted:
  fixes es :: "('op, 'ch) thread_event list"
  shows "list_all (permitted (\<lambda>_ _. True)) es"
proof -
  have "permitted (\<lambda>_ _. True) e" for e :: "('op, 'ch) thread_event" by (cases e) simp_all
  then show ?thesis by (simp add: list_all_iff)
qed

locale thread_simulation =
  fixes start :: "'op \<Rightarrow> 'pc"
    and tick :: "'ch \<Rightarrow> 'q \<Rightarrow> 'pc \<Rightarrow> 'q \<times> ('pc, 'ret) thread"
    and spec :: "'op \<Rightarrow> 'st \<Rightarrow> 'ret \<Rightarrow> 'st \<Rightarrow> bool"
    and good :: "nat \<Rightarrow> 'q \<Rightarrow> (tid \<Rightarrow> ('pc, 'ret) thread) \<Rightarrow> 'st \<Rightarrow> (tid \<Rightarrow> ('op, 'ret) status) \<Rightarrow> bool"
    and bound :: nat
  assumes free_simulation: "role_simulation (\<lambda>_ _. True) start tick spec good bound"

sublocale thread_simulation \<subseteq> roles: role_simulation "\<lambda>_ _. True" start tick spec good bound
  by (rule free_simulation)

context thread_simulation
begin

lemma free_linearizable:
  "good 0 q ts x st \<Longrightarrow> length es \<le> bound \<Longrightarrow>
    \<exists>b. ao_run spec (x, st) (impl_trace (threads_step start tick) threads_label es (q, ts)) b"
  by (rule roles.threads_linearizable [OF _ _ all_permitted])

end

end
