(* ===== verification/Array_Queue_Shared.thy ===== *)
theory Array_Queue_Shared
  imports Array_Queue Atomic_Object
begin

text \<open>
  The shared operations of \<^verbatim>\<open>ArrayQueue\<close>: \<^verbatim>\<open>push\<close>,
  \<^verbatim>\<open>force_push\<close> and \<^verbatim>\<open>pop\<close>
  (\<^verbatim>\<open>crossbeam-queue/src/array_queue.rs\<close>), run by any number of threads. Each
  operation is a small machine whose state says which shared access comes next and which local
  variables are live; one tick performs one access to the shared memory. Accesses of different
  threads interleave arbitrarily (sequentially consistent memory). The fences of the code are
  therefore silent and \<^verbatim>\<open>Backoff\<close> has no effect on the memory; a
  \<^verbatim>\<open>compare_exchange_weak\<close> may fail spuriously, which the scheduler decides.
  An unchecked access out of range or a read of an uninitialised value is the state
  \<open>Undefined\<close>.
\<close>

section \<open>The machines\<close>

datatype 'a aq_op = OpPush 'a | OpForce 'a | OpPop

datatype 'a aq_ret = PushRet "(unit, 'a) result" | ForceRet "'a option" | PopRet "'a option"

text \<open>
  Program points, over a type \<open>'t\<close> of stamps. The first argument of the points of
  \<^verbatim>\<open>push_or_else\<close> tells whether it runs for \<^verbatim>\<open>force_push\<close>.
\<close>

datatype ('t, 'a) aq_pc =
    Idle
  | LoadTail bool 'a
  | LoadStamp bool 'a 't
  | CasTail bool 'a 't
  | WriteVal bool 'a 't
  | StoreStamp bool 't
  | LoadHead 'a 't
  | CasHead 'a 't
  | StoreTail 'a 't
  | SwapVal 'a 't
  | StoreStampF 'a 't
  | PopLoadHead
  | PopLoadStamp 't
  | PopCas 't
  | PopRead 't
  | PopStore 'a 't
  | PopLoadTail 't
  | Finished "'a aq_ret"
  | Undefined

fun aq_start :: "'a aq_op \<Rightarrow> ('t, 'a) aq_pc" where
  "aq_start (OpPush v) = LoadTail False v"
| "aq_start (OpForce v) = LoadTail True v"
| "aq_start OpPop = PopLoadHead"

text \<open>
  \<^verbatim>\<open>push_or_else\<close> up to the call of its closure. The result of a full queue is
  left to the closure, \<open>full\<close>.
\<close>

definition aq_put :: "nat \<Rightarrow> ('a aq_slot \<Rightarrow> 'a aq_slot) \<Rightarrow> 'a array_queue \<Rightarrow> 'a array_queue" where
  "aq_put index f q = q\<lparr>aq_buffer := (aq_buffer q)[index := f (aq_buffer q ! index)]\<rparr>"

definition aq_slot_index :: "'a array_queue \<Rightarrow> u64 \<Rightarrow> nat" where
  "aq_slot_index q t = stamp_index (aq_one_lap q) t"

definition aq_next :: "'a array_queue \<Rightarrow> u64 \<Rightarrow> u64" where
  "aq_next q t = stamp_next (aq_capacity q) (aq_one_lap q) (aq_one_lap q) t"

fun push_or_else_tick ::
  "(u64 \<Rightarrow> 'a \<Rightarrow> (u64, 'a) aq_pc) \<Rightarrow> bool \<Rightarrow> 'a array_queue \<Rightarrow> (u64, 'a) aq_pc \<Rightarrow>
     'a array_queue \<times> (u64, 'a) aq_pc" where
  "push_or_else_tick full spurious q (LoadTail f v) = (q, LoadStamp f v (aq_tail q))"
| "push_or_else_tick full spurious q (LoadStamp f v tail) =
     (if aq_slot_index q tail < length (aq_buffer q) then
        let st = stamp (aq_buffer q ! aq_slot_index q tail) in
        if tail = st then (q, CasTail f v tail)
        else if st + aq_one_lap q = tail + 1 then (q, full tail v)
        else (q, LoadTail f v)
      else (q, Undefined))"
| "push_or_else_tick full spurious q (CasTail f v tail) =
     (if \<not> spurious \<and> aq_tail q = tail then (q\<lparr>aq_tail := aq_next q tail\<rparr>, WriteVal f v tail)
      else (q, LoadStamp f v (aq_tail q)))"
| "push_or_else_tick full spurious q (WriteVal f v tail) =
     (aq_put (aq_slot_index q tail) (\<lambda>s. s\<lparr>slot_value := Some v\<rparr>) q, StoreStamp f tail)"
| "push_or_else_tick full spurious q (StoreStamp f tail) =
     (aq_put (aq_slot_index q tail) (\<lambda>s. s\<lparr>stamp := tail + 1\<rparr>) q,
      Finished (if f then ForceRet (result_err (Ok ())) else PushRet (Ok ())))"
| "push_or_else_tick full spurious q pc = (q, pc)"

text \<open>The closure of \<^verbatim>\<open>push\<close>: load the head and report a full queue.\<close>

fun push_closure_tick :: "'a array_queue \<Rightarrow> (u64, 'a) aq_pc \<Rightarrow> 'a array_queue \<times> (u64, 'a) aq_pc" where
  "push_closure_tick q (LoadHead v tail) =
     (if aq_head q + aq_one_lap q = tail then (q, Finished (PushRet (Err v))) else (q, LoadTail False v))"
| "push_closure_tick q pc = (q, pc)"

text \<open>The closure of \<^verbatim>\<open>force_push\<close>: move the head, move the tail, swap the value.\<close>

fun force_closure_tick :: "bool \<Rightarrow> 'a array_queue \<Rightarrow> (u64, 'a) aq_pc \<Rightarrow> 'a array_queue \<times> (u64, 'a) aq_pc" where
  "force_closure_tick spurious q (CasHead v tail) =
     (let head = tail - aq_one_lap q; new_head = aq_next q tail - aq_one_lap q in
      if \<not> spurious \<and> aq_head q = head then (q\<lparr>aq_head := new_head\<rparr>, StoreTail v tail)
      else (q, LoadTail True v))"
| "force_closure_tick spurious q (StoreTail v tail) =
     (q\<lparr>aq_tail := aq_next q tail\<rparr>, SwapVal v tail)"
| "force_closure_tick spurious q (SwapVal v tail) =
     (case slot_value (aq_buffer q ! aq_slot_index q tail) of
        None \<Rightarrow> (q, Undefined)
      | Some old \<Rightarrow>
          (aq_put (aq_slot_index q tail) (\<lambda>s. s\<lparr>slot_value := Some v\<rparr>) q, StoreStampF old tail))"
| "force_closure_tick spurious q (StoreStampF old tail) =
     (aq_put (aq_slot_index q tail) (\<lambda>s. s\<lparr>stamp := tail + 1\<rparr>) q, Finished (ForceRet (result_err (Err old :: (unit, 'a) result))))"
| "force_closure_tick spurious q pc = (q, pc)"

fun pop_tick :: "bool \<Rightarrow> 'a array_queue \<Rightarrow> (u64, 'a) aq_pc \<Rightarrow> 'a array_queue \<times> (u64, 'a) aq_pc" where
  "pop_tick spurious q PopLoadHead = (q, PopLoadStamp (aq_head q))"
| "pop_tick spurious q (PopLoadStamp head) =
     (if aq_slot_index q head < length (aq_buffer q) then
        let st = stamp (aq_buffer q ! aq_slot_index q head) in
        if head + 1 = st then (q, PopCas head)
        else if st = head then (q, PopLoadTail head)
        else (q, PopLoadHead)
      else (q, Undefined))"
| "pop_tick spurious q (PopCas head) =
     (if \<not> spurious \<and> aq_head q = head then (q\<lparr>aq_head := aq_next q head\<rparr>, PopRead head)
      else (q, PopLoadStamp (aq_head q)))"
| "pop_tick spurious q (PopRead head) =
     (case slot_value (aq_buffer q ! aq_slot_index q head) of
        None \<Rightarrow> (q, Undefined)
      | Some msg \<Rightarrow> (aq_put (aq_slot_index q head) (\<lambda>s. s\<lparr>slot_value := None\<rparr>) q, PopStore msg head))"
| "pop_tick spurious q (PopStore msg head) =
     (aq_put (aq_slot_index q head) (\<lambda>s. s\<lparr>stamp := head + aq_one_lap q\<rparr>) q, Finished (PopRet (Some msg)))"
| "pop_tick spurious q (PopLoadTail head) =
     (if aq_tail q = head then (q, Finished (PopRet None)) else (q, PopLoadHead))"
| "pop_tick spurious q pc = (q, pc)"

text \<open>
  One access of a thread, whichever operation it is in. \<^verbatim>\<open>push\<close> and
  \<^verbatim>\<open>force_push\<close> are \<^verbatim>\<open>push_or_else\<close> with their closure.
\<close>

definition aq_full :: "bool \<Rightarrow> u64 \<Rightarrow> 'a \<Rightarrow> (u64, 'a) aq_pc" where
  "aq_full f tail v = (if f then CasHead v tail else LoadHead v tail)"

definition aq_tick :: "bool \<Rightarrow> 'a array_queue \<Rightarrow> (u64, 'a) aq_pc \<Rightarrow> 'a array_queue \<times> (u64, 'a) aq_pc" where
  "aq_tick sp q pc =
     (case pc of
        LoadTail f v \<Rightarrow> push_or_else_tick (aq_full f) sp q pc
      | LoadStamp f v t \<Rightarrow> push_or_else_tick (aq_full f) sp q pc
      | CasTail f v t \<Rightarrow> push_or_else_tick (aq_full f) sp q pc
      | WriteVal f v t \<Rightarrow> push_or_else_tick (aq_full f) sp q pc
      | StoreStamp f t \<Rightarrow> push_or_else_tick (aq_full f) sp q pc
      | LoadHead v t \<Rightarrow> push_closure_tick q pc
      | CasHead v t \<Rightarrow> force_closure_tick sp q pc
      | StoreTail v t \<Rightarrow> force_closure_tick sp q pc
      | SwapVal v t \<Rightarrow> force_closure_tick sp q pc
      | StoreStampF v t \<Rightarrow> force_closure_tick sp q pc
      | _ \<Rightarrow> pop_tick sp q pc)"

section \<open>Systems of threads\<close>

datatype 'a aq_event = Call tid "'a aq_op" | Tick tid bool | Ret tid

text \<open>
  A thread that is idle may call an operation, a thread in an operation takes a tick, and a
  finished operation returns; other events leave the system as it is. The definition is shared by
  the code's machine and by the ticket machine below.
\<close>

fun sys_step ::
  "(bool \<Rightarrow> 'q \<Rightarrow> ('t, 'a) aq_pc \<Rightarrow> 'q \<times> ('t, 'a) aq_pc) \<Rightarrow> 'a aq_event \<Rightarrow>
     'q \<times> (tid \<Rightarrow> ('t, 'a) aq_pc) \<Rightarrow> 'q \<times> (tid \<Rightarrow> ('t, 'a) aq_pc)" where
  "sys_step tick (Call i oper) (q, pcs) =
     (case pcs i of Idle \<Rightarrow> (q, pcs(i := aq_start oper)) | _ \<Rightarrow> (q, pcs))"
| "sys_step tick (Tick i sp) (q, pcs) =
     (let (q', pc) = tick sp q (pcs i) in (q', pcs(i := pc)))"
| "sys_step tick (Ret i) (q, pcs) =
     (case pcs i of Finished r \<Rightarrow> (q, pcs(i := Idle)) | _ \<Rightarrow> (q, pcs))"

fun sys_label ::
  "'a aq_event \<Rightarrow> 'q \<times> (tid \<Rightarrow> ('t, 'a) aq_pc) \<Rightarrow> ('a aq_op, 'a aq_ret) action option" where
  "sys_label (Call i oper) (q, pcs) = (case pcs i of Idle \<Rightarrow> Some (Invoke i oper) | _ \<Rightarrow> None)"
| "sys_label (Tick i sp) (q, pcs) = None"
| "sys_label (Ret i) (q, pcs) = (case pcs i of Finished r \<Rightarrow> Some (Return i r) | _ \<Rightarrow> None)"

type_synonym 'a aq_sys = "'a array_queue \<times> (tid \<Rightarrow> (u64, 'a) aq_pc)"

abbreviation aq_step :: "'a aq_event \<Rightarrow> 'a aq_sys \<Rightarrow> 'a aq_sys" where
  "aq_step \<equiv> sys_step aq_tick"

text \<open>What the operations promise: those of a bounded queue, each in one instant.\<close>

fun aq_spec :: "nat \<Rightarrow> 'a aq_op \<Rightarrow> 'a list \<Rightarrow> 'a aq_ret \<times> 'a list" where
  "aq_spec c (OpPush v) xs =
     (if length xs < c then (PushRet (Ok ()), xs @ [v]) else (PushRet (Err v), xs))"
| "aq_spec c (OpForce v) xs =
     (if length xs < c then (ForceRet None, xs @ [v]) else (ForceRet (Some (hd xs)), tl xs @ [v]))"
| "aq_spec c OpPop xs = (case xs of [] \<Rightarrow> (PopRet None, []) | x # ys \<Rightarrow> (PopRet (Some x), ys))"

abbreviation aq_spec_ok :: "nat \<Rightarrow> 'a aq_op \<Rightarrow> 'a list \<Rightarrow> 'a aq_ret \<Rightarrow> 'a list \<Rightarrow> bool" where
  "aq_spec_ok c oper xs r ys \<equiv> aq_spec c oper xs = (r, ys)"

end
