(* ===== verification/Array_Queue_Tickets.thy ===== *)
theory Array_Queue_Tickets
  imports Array_Queue_Shared
begin

text \<open>
  The proof that the shared operations of \<^verbatim>\<open>ArrayQueue\<close> are linearizable, on an
  abstraction of the code in which positions are unbounded numbers: the ticket machine, its
  invariant, and the simulation of the atomic bounded queue by it. Theory
  \<open>Array_Queue_Linear\<close> carries the result to the code.
\<close>

section \<open>The ticket machine\<close>

text \<open>
  The same machines over unbounded positions instead of packed stamps. A slot is ready for
  position \<open>p\<close> or filled by it, and the comparisons of the code become comparisons of
  positions. The invariant is proved here; the code's machine is then shown to be this machine
  seen through the encoding of positions.
\<close>

datatype turn = Ready nat | Filled nat

record 'a tq =
  t_head :: nat
  t_tail :: nat
  t_turn :: "nat \<Rightarrow> turn"
  t_val :: "nat \<Rightarrow> 'a option"

fun tq_tick :: "nat \<Rightarrow> bool \<Rightarrow> 'a tq \<Rightarrow> (nat, 'a) aq_pc \<Rightarrow> 'a tq \<times> (nat, 'a) aq_pc" where
  "tq_tick c sp q (LoadTail f v) = (q, LoadStamp f v (t_tail q))"
| "tq_tick c sp q (LoadStamp f v t) =
     (case t_turn q (t mod c) of
        Ready p \<Rightarrow> if p = t then (q, CasTail f v t) else (q, LoadTail f v)
      | Filled p \<Rightarrow> if p + c = t then (q, if f then CasHead v t else LoadHead v t) else (q, LoadTail f v))"
| "tq_tick c sp q (CasTail f v t) =
     (if \<not> sp \<and> t_tail q = t then (q\<lparr>t_tail := Suc t\<rparr>, WriteVal f v t) else (q, LoadStamp f v (t_tail q)))"
| "tq_tick c sp q (WriteVal f v t) = (q\<lparr>t_val := (t_val q)(t mod c := Some v)\<rparr>, StoreStamp f t)"
| "tq_tick c sp q (StoreStamp f t) =
     (q\<lparr>t_turn := (t_turn q)(t mod c := Filled t)\<rparr>,
      Finished (if f then ForceRet None else PushRet (Ok ())))"
| "tq_tick c sp q (LoadHead v t) =
     (if t_head q + c = t then (q, Finished (PushRet (Err v))) else (q, LoadTail False v))"
| "tq_tick c sp q (CasHead v t) =
     (if \<not> sp \<and> t_head q = t - c then (q\<lparr>t_head := Suc t - c\<rparr>, StoreTail v t) else (q, LoadTail True v))"
| "tq_tick c sp q (StoreTail v t) = (q\<lparr>t_tail := Suc t\<rparr>, SwapVal v t)"
| "tq_tick c sp q (SwapVal v t) =
     (case t_val q (t mod c) of
        None \<Rightarrow> (q, Undefined)
      | Some old \<Rightarrow> (q\<lparr>t_val := (t_val q)(t mod c := Some v)\<rparr>, StoreStampF old t))"
| "tq_tick c sp q (StoreStampF old t) =
     (q\<lparr>t_turn := (t_turn q)(t mod c := Filled t)\<rparr>, Finished (ForceRet (Some old)))"
| "tq_tick c sp q PopLoadHead = (q, PopLoadStamp (t_head q))"
| "tq_tick c sp q (PopLoadStamp h) =
     (case t_turn q (h mod c) of
        Filled p \<Rightarrow> if p = h then (q, PopCas h) else (q, PopLoadHead)
      | Ready p \<Rightarrow> if p = h then (q, PopLoadTail h) else (q, PopLoadHead))"
| "tq_tick c sp q (PopCas h) =
     (if \<not> sp \<and> t_head q = h then (q\<lparr>t_head := Suc h\<rparr>, PopRead h) else (q, PopLoadStamp (t_head q)))"
| "tq_tick c sp q (PopRead h) =
     (case t_val q (h mod c) of
        None \<Rightarrow> (q, Undefined)
      | Some msg \<Rightarrow> (q\<lparr>t_val := (t_val q)(h mod c := None)\<rparr>, PopStore msg h))"
| "tq_tick c sp q (PopStore msg h) =
     (q\<lparr>t_turn := (t_turn q)(h mod c := Ready (h + c))\<rparr>, Finished (PopRet (Some msg)))"
| "tq_tick c sp q (PopLoadTail h) =
     (if t_tail q = h then (q, Finished (PopRet None)) else (q, PopLoadHead))"
| "tq_tick c sp q pc = (q, pc)"

section \<open>The invariant\<close>

text \<open>The turns of a slot are passed in the order of this number.\<close>

fun rank :: "turn \<Rightarrow> nat" where
  "rank (Ready p) = 2 * p"
| "rank (Filled p) = 2 * p + 1"

text \<open>
  A thread that has moved the head or the tail owns the slot until it has stored the new stamp.
  Its claim is named by the position of the window that the slot will serve next.
\<close>

fun claim :: "nat \<Rightarrow> (nat, 'a) aq_pc \<Rightarrow> nat option" where
  "claim c (WriteVal f v t) = Some t"
| "claim c (StoreStamp f t) = Some t"
| "claim c (StoreTail v t) = Some t"
| "claim c (SwapVal v t) = Some t"
| "claim c (StoreStampF old t) = Some t"
| "claim c (PopRead h) = Some (h + c)"
| "claim c (PopStore x h) = Some (h + c)"
| "claim c pc = None"

abbreviation put_op :: "bool \<Rightarrow> 'a \<Rightarrow> 'a aq_op" where
  "put_op f v \<equiv> (if f then OpForce v else OpPush v)"

abbreviation put_ret :: "bool \<Rightarrow> 'a aq_ret" where
  "put_ret f \<equiv> (if f then ForceRet None else PushRet (Ok ()))"

text \<open>
  What holds of a thread, by its program point. \<open>cont p\<close> is the value of position
  \<open>p\<close>; \<open>L\<close> is the logical tail, one ahead of the tail while a
  \<^verbatim>\<open>force_push\<close> has moved the head but not yet the tail. The last argument is the
  thread's status in the atomic object.
\<close>

fun pc_ok :: "nat \<Rightarrow> 'a tq \<Rightarrow> (nat \<Rightarrow> 'a) \<Rightarrow> nat \<Rightarrow> (nat, 'a) aq_pc \<Rightarrow>
    ('a aq_op, 'a aq_ret) status \<Rightarrow> bool" where
  "pc_ok c q cont L Idle stat \<longleftrightarrow> stat = Quiet"
| "pc_ok c q cont L (LoadTail f v) stat \<longleftrightarrow> stat = Pending (put_op f v)"
| "pc_ok c q cont L (LoadStamp f v t) stat \<longleftrightarrow> stat = Pending (put_op f v) \<and> t \<le> t_tail q"
| "pc_ok c q cont L (CasTail f v t) stat \<longleftrightarrow>
     stat = Pending (put_op f v) \<and> t \<le> t_tail q \<and> 2 * t \<le> rank (t_turn q (t mod c))"
| "pc_ok c q cont L (WriteVal f v t) stat \<longleftrightarrow>
     stat = Answered (put_ret f) \<and> t_head q \<le> t \<and> t < t_tail q \<and>
     t_turn q (t mod c) = Ready t \<and> t_val q (t mod c) = None \<and> cont t = v"
| "pc_ok c q cont L (StoreStamp f t) stat \<longleftrightarrow>
     stat = Answered (put_ret f) \<and> t_head q \<le> t \<and> t < t_tail q \<and>
     t_turn q (t mod c) = Ready t \<and> t_val q (t mod c) = Some (cont t)"
| "pc_ok c q cont L (LoadHead v t) stat \<longleftrightarrow> stat = Pending (OpPush v) \<and> t \<le> t_tail q"
| "pc_ok c q cont L (CasHead v t) stat \<longleftrightarrow>
     stat = Pending (OpForce v) \<and> t \<le> t_tail q \<and> c \<le> t \<and> 2 * (t - c) + 1 \<le> rank (t_turn q (t mod c))"
| "pc_ok c q cont L (StoreTail v t) stat \<longleftrightarrow>
     stat = Answered (ForceRet (Some (cont (t - c)))) \<and> t = t_tail q \<and> L = Suc t \<and> t_head q \<le> t \<and> c \<le> t \<and>
     t_turn q (t mod c) = Filled (t - c) \<and> t_val q (t mod c) = Some (cont (t - c)) \<and> cont t = v"
| "pc_ok c q cont L (SwapVal v t) stat \<longleftrightarrow>
     stat = Answered (ForceRet (Some (cont (t - c)))) \<and> t_head q \<le> t \<and> t < t_tail q \<and> c \<le> t \<and>
     t_turn q (t mod c) = Filled (t - c) \<and> t_val q (t mod c) = Some (cont (t - c)) \<and> cont t = v"
| "pc_ok c q cont L (StoreStampF old t) stat \<longleftrightarrow>
     stat = Answered (ForceRet (Some old)) \<and> t_head q \<le> t \<and> t < t_tail q \<and> c \<le> t \<and>
     t_turn q (t mod c) = Filled (t - c) \<and> t_val q (t mod c) = Some (cont t)"
| "pc_ok c q cont L PopLoadHead stat \<longleftrightarrow> stat = Pending OpPop"
| "pc_ok c q cont L (PopLoadStamp h) stat \<longleftrightarrow> stat = Pending OpPop \<and> h \<le> t_head q"
| "pc_ok c q cont L (PopCas h) stat \<longleftrightarrow>
     stat = Pending OpPop \<and> h \<le> t_head q \<and> 2 * h + 1 \<le> rank (t_turn q (h mod c))"
| "pc_ok c q cont L (PopRead h) stat \<longleftrightarrow>
     stat = Answered (PopRet (Some (cont h))) \<and> h < t_head q \<and> L \<le> h + c \<and>
     t_turn q (h mod c) = Filled h \<and> t_val q (h mod c) = Some (cont h)"
| "pc_ok c q cont L (PopStore x h) stat \<longleftrightarrow>
     stat = Answered (PopRet (Some x)) \<and> h < t_head q \<and> L \<le> h + c \<and>
     t_turn q (h mod c) = Filled h \<and> t_val q (h mod c) = None"
| "pc_ok c q cont L (PopLoadTail h) stat \<longleftrightarrow>
     stat = Pending OpPop \<and> h \<le> t_head q \<and> 2 * h \<le> rank (t_turn q (h mod c))"
| "pc_ok c q cont L (Finished r) stat \<longleftrightarrow> stat = Answered r"
| "pc_ok c q cont L Undefined stat \<longleftrightarrow> False"

text \<open>A slot nobody has claimed is filled when its position has been pushed, and ready otherwise.\<close>

definition slot_ok :: "nat \<Rightarrow> 'a tq \<Rightarrow> (nat \<Rightarrow> 'a) \<Rightarrow> nat \<Rightarrow> nat \<Rightarrow> bool" where
  "slot_ok c q cont L p \<longleftrightarrow>
     (if p < L then t_turn q (p mod c) = Filled p \<and> t_val q (p mod c) = Some (cont p)
      else t_turn q (p mod c) = Ready p \<and> t_val q (p mod c) = None)"

definition tq_inv :: "nat \<Rightarrow> 'a tq \<times> (tid \<Rightarrow> (nat, 'a) aq_pc) \<Rightarrow> (nat \<Rightarrow> 'a) \<Rightarrow> nat \<Rightarrow>
    (tid \<Rightarrow> ('a aq_op, 'a aq_ret) status) \<Rightarrow> bool" where
  "tq_inv c s cont L stat \<longleftrightarrow>
     (let q = fst s; pcs = snd s in
      0 < c \<and> t_head q \<le> t_tail q \<and> t_tail q \<le> L \<and> L \<le> t_head q + c \<and> L \<le> Suc (t_tail q) \<and>
      (L = Suc (t_tail q) \<longrightarrow> (\<exists>i v. pcs i = StoreTail v (t_tail q))) \<and>
      (\<forall>i. pc_ok c q cont L (pcs i) (stat i)) \<and>
      (\<forall>i j p. claim c (pcs i) = Some p \<longrightarrow> claim c (pcs j) = Some p \<longrightarrow> i = j) \<and>
      (\<forall>p. t_head q \<le> p \<longrightarrow> p < t_head q + c \<longrightarrow> (\<forall>i. claim c (pcs i) \<noteq> Some p) \<longrightarrow> slot_ok c q cont L p))"

text \<open>The simulation relation: the atomic queue holds the positions from the head to the logical tail.\<close>

definition tq_rel :: "nat \<Rightarrow> 'a tq \<times> (tid \<Rightarrow> (nat, 'a) aq_pc) \<Rightarrow>
    ('a list, 'a aq_op, 'a aq_ret) atomic_object \<Rightarrow> bool" where
  "tq_rel c s a \<longleftrightarrow>
     (\<exists>cont L. tq_inv c s cont L (snd a) \<and> fst a = map cont [t_head (fst s)..<L])"

section \<open>How the invariant survives a step\<close>

lemma tq_invD:
  assumes "tq_inv c (q, pcs) cont L stat"
  shows "0 < c" "t_head q \<le> t_tail q" "t_tail q \<le> L" "L \<le> t_head q + c" "L \<le> Suc (t_tail q)"
    "L = Suc (t_tail q) \<Longrightarrow> \<exists>i v. pcs i = StoreTail v (t_tail q)"
    "\<And>i. pc_ok c q cont L (pcs i) (stat i)"
    "\<And>i j p. claim c (pcs i) = Some p \<Longrightarrow> claim c (pcs j) = Some p \<Longrightarrow> i = j"
    "\<And>p. t_head q \<le> p \<Longrightarrow> p < t_head q + c \<Longrightarrow> (\<And>i. claim c (pcs i) \<noteq> Some p) \<Longrightarrow> slot_ok c q cont L p"
  using assms by (auto simp: tq_inv_def Let_def)

text \<open>Claims lie in the window of one lap from the head.\<close>

lemma claim_window:
  assumes "pc_ok c q cont L pc stat" "claim c pc = Some p"
    and "t_head q \<le> t_tail q" "t_tail q \<le> L" "L \<le> t_head q + c"
  shows "t_head q \<le> p" "p < t_head q + c"
  using assms by (cases pc; auto)+

text \<open>
  A thread's condition survives a step of another thread that moves head, tail and turns forward
  only and leaves alone what the thread has claimed.
\<close>

lemma pc_ok_frame:
  assumes ok: "pc_ok c q cont L pc stat"
    and mono: "t_head q \<le> t_head q'" "t_tail q \<le> t_tail q'" "\<And>i. rank (t_turn q i) \<le> rank (t_turn q' i)"
    and claimed: "\<And>p. claim c pc = Some p \<Longrightarrow>
      t_turn q' (p mod c) = t_turn q (p mod c) \<and> t_val q' (p mod c) = t_val q (p mod c) \<and>
      cont' p = cont p \<and> (c \<le> p \<longrightarrow> cont' (p - c) = cont (p - c)) \<and> t_head q' \<le> p \<and> (L \<le> p \<longrightarrow> L' \<le> p)"
    and storetail: "\<And>v t. pc = StoreTail v t \<Longrightarrow> t_tail q' = t_tail q \<and> L' = L"
  shows "pc_ok c q' cont' L' pc stat"
proof (cases "claim c pc")
  case None
  with ok mono show ?thesis by (cases pc) (auto intro: order_trans)
next
  case (Some p)
  from ok mono claimed [OF Some] storetail Some show ?thesis
    by (cases pc) auto
qed

lemma tq_inv_step:
  assumes inv: "tq_inv c (q, pcs) cont L stat"
    and basic: "t_head q' \<le> t_tail q'" "t_tail q' \<le> L'" "L' \<le> t_head q' + c" "L' \<le> Suc (t_tail q')"
      "L' = Suc (t_tail q') \<Longrightarrow> \<exists>j v. (pcs(i := pc')) j = StoreTail v (t_tail q')"
    and mono: "t_head q \<le> t_head q'" "t_tail q \<le> t_tail q'" "\<And>i. rank (t_turn q i) \<le> rank (t_turn q' i)"
    and own: "pc_ok c q' cont' L' pc' st'"
    and others: "\<And>j p. j \<noteq> i \<Longrightarrow> claim c (pcs j) = Some p \<Longrightarrow>
      t_turn q' (p mod c) = t_turn q (p mod c) \<and> t_val q' (p mod c) = t_val q (p mod c) \<and>
      cont' p = cont p \<and> (c \<le> p \<longrightarrow> cont' (p - c) = cont (p - c)) \<and> t_head q' \<le> p \<and> (L \<le> p \<longrightarrow> L' \<le> p) \<and>
      claim c pc' \<noteq> Some p"
    and storetail: "\<And>j v t. j \<noteq> i \<Longrightarrow> pcs j = StoreTail v t \<Longrightarrow> t_tail q' = t_tail q \<and> L' = L"
    and slots: "\<And>p. t_head q' \<le> p \<Longrightarrow> p < t_head q' + c \<Longrightarrow> (\<And>j. j \<noteq> i \<Longrightarrow> claim c (pcs j) \<noteq> Some p) \<Longrightarrow>
      claim c pc' \<noteq> Some p \<Longrightarrow> slot_ok c q' cont' L' p"
  shows "tq_inv c (q', pcs(i := pc')) cont' L' (stat(i := st'))"
proof -
  note d = tq_invD [OF inv]
  have ok: "pc_ok c q' cont' L' ((pcs(i := pc')) j) ((stat(i := st')) j)" for j
  proof (cases "j = i")
    case False
    have "pc_ok c q' cont' L' (pcs j) (stat j)"
      by (rule pc_ok_frame [OF d(7) mono]) (use others [OF False] storetail [OF False] in blast)+
    with False show ?thesis by simp
  qed (use own in simp)
  have uniq: "j = j'" if "claim c ((pcs(i := pc')) j) = Some p" "claim c ((pcs(i := pc')) j') = Some p" for j j' p
  proof (cases "j = i"; cases "j' = i")
    assume "j = i" "j' \<noteq> i"
    with that others [of j' p] show ?thesis by simp
  next
    assume "j \<noteq> i" "j' = i"
    with that others [of j p] show ?thesis by simp
  next
    assume "j \<noteq> i" "j' \<noteq> i"
    with that d(8) [of j p j'] show ?thesis by simp
  qed simp
  have "slot_ok c q' cont' L' p" if w: "t_head q' \<le> p" "p < t_head q' + c"
    "\<And>j. claim c ((pcs(i := pc')) j) \<noteq> Some p" for p
  proof (rule slots [OF w(1,2)])
    show "claim c (pcs j) \<noteq> Some p" if "j \<noteq> i" for j using w(3) [of j] that by simp
    show "claim c pc' \<noteq> Some p" using w(3) [of i] by simp
  qed
  with ok uniq basic d(1) show ?thesis unfolding tq_inv_def Let_def fst_conv snd_conv by blast
qed

text \<open>A thread moves on without touching shared memory and without a claim.\<close>

lemma tq_inv_local:
  assumes inv: "tq_inv c (q, pcs) cont L stat"
    and "claim c (pcs i) = None" "claim c pc' = None" "pc_ok c q cont L pc' st'"
  shows "tq_inv c (q, pcs(i := pc')) cont L (stat(i := st'))"
proof (rule tq_inv_step [OF inv])
  note d = tq_invD [OF inv]
  show "\<exists>j v. (pcs(i := pc')) j = StoreTail v (t_tail q)" if L: "L = Suc (t_tail q)"
    using d(6) [OF L] assms(2) by (metis claim.simps(3) fun_upd_other option.distinct(1))
  show "slot_ok c q cont L p" if "t_head q \<le> p" "p < t_head q + c"
    "\<And>j. j \<noteq> i \<Longrightarrow> claim c (pcs j) \<noteq> Some p" for p
    using d(9) [OF that(1,2)] that(3) assms(2) by (metis option.distinct(1))
  show "t_turn q (p mod c) = t_turn q (p mod c) \<and> t_val q (p mod c) = t_val q (p mod c) \<and>
      cont p = cont p \<and> (c \<le> p \<longrightarrow> cont (p - c) = cont (p - c)) \<and> t_head q \<le> p \<and> (L \<le> p \<longrightarrow> L \<le> p) \<and> claim c pc' \<noteq> Some p"
    if "j \<noteq> i" "claim c (pcs j) = Some p" for j p
    using claim_window [OF d(7) that(2) d(2,3,4)] assms(3) by simp
qed (use tq_invD [OF inv] assms(4) in auto)

text \<open>A thread changes the slot it has claimed, and keeps the claim or leaves the slot in order.\<close>

lemma tq_inv_owner:
  assumes inv: "tq_inv c (q, pcs) cont L stat"
    and own: "claim c (pcs i) = Some p" "\<And>v t. pcs i \<noteq> StoreTail v t"
    and slot: "t_head q' = t_head q" "t_tail q' = t_tail q"
      "\<And>j. j \<noteq> p mod c \<Longrightarrow> t_turn q' j = t_turn q j \<and> t_val q' j = t_val q j"
      "rank (t_turn q (p mod c)) \<le> rank (t_turn q' (p mod c))"
    and fin: "claim c pc' = Some p \<or> claim c pc' = None \<and> slot_ok c q' cont L p"
      "pc_ok c q' cont L pc' st'"
  shows "tq_inv c (q', pcs(i := pc')) cont L (stat(i := st'))"
proof (rule tq_inv_step [OF inv])
  note d = tq_invD [OF inv]
  note win = claim_window [OF d(7) _ d(2,3,4)]
  have diff: "p' mod c \<noteq> p mod c" if "t_head q \<le> p'" "p' < t_head q + c" "p' \<noteq> p" for p'
    using window_slot_eq_iff [OF that(1,2) win [OF own(1)]] that(3) by simp
  show "\<exists>j v. (pcs(i := pc')) j = StoreTail v (t_tail q')" if L: "L = Suc (t_tail q')"
    using d(6) L own(2) slot(2) by (metis fun_upd_other)
  show "t_turn q' (p' mod c) = t_turn q (p' mod c) \<and> t_val q' (p' mod c) = t_val q (p' mod c) \<and>
      cont p' = cont p' \<and> (c \<le> p' \<longrightarrow> cont (p' - c) = cont (p' - c)) \<and> t_head q' \<le> p' \<and> (L \<le> p' \<longrightarrow> L \<le> p') \<and>
      claim c pc' \<noteq> Some p'"
    if j: "j \<noteq> i" "claim c (pcs j) = Some p'" for j p'
  proof -
    have "p' \<noteq> p" using d(8) [OF j(2)] own(1) j(1) by blast
    with win [OF j(2)] slot diff [of p'] fin show ?thesis by auto
  qed
  show "slot_ok c q' cont L p'" if w: "t_head q' \<le> p'" "p' < t_head q' + c"
    "\<And>j. j \<noteq> i \<Longrightarrow> claim c (pcs j) \<noteq> Some p'" "claim c pc' \<noteq> Some p'" for p'
  proof (cases "p' = p")
    case True
    with fin w(4) show ?thesis by auto
  next
    case False
    have "slot_ok c q cont L p'"
      using d(9) [of p'] w slot(1) own(1) False by (metis option.inject)
    with False diff [of p'] w slot show ?thesis by (auto simp: slot_ok_def)
  qed
  show "rank (t_turn q j) \<le> rank (t_turn q' j)" for j
    using slot(3) [of j] slot(4) by (cases "j = p mod c") auto
qed (use tq_invD [OF inv] slot fin in auto)

text \<open>How far the slot of a window position can be.\<close>

lemma claim_rank:
  "pc_ok c q cont L pc stat \<Longrightarrow> claim c pc = Some p \<Longrightarrow> 0 < c \<Longrightarrow> rank (t_turn q (p mod c)) \<le> 2 * p"
  by (cases pc) auto

lemma head_slot:
  assumes inv: "tq_inv c (q, pcs) cont L stat"
    and far: "2 * t_head q + 1 \<le> rank (t_turn q (t_head q mod c))"
  shows "t_head q < t_tail q" "\<And>i. claim c (pcs i) \<noteq> Some (t_head q)"
    "t_turn q (t_head q mod c) = Filled (t_head q)" "t_val q (t_head q mod c) = Some (cont (t_head q))"
proof -
  note d = tq_invD [OF inv]
  show free: "claim c (pcs i) \<noteq> Some (t_head q)" for i
    using claim_rank [OF d(7) _ d(1), of i "t_head q"] far by auto
  then have "slot_ok c q cont L (t_head q)" using d(1) by (intro d(9)) auto
  with far have *: "t_head q < L" "t_turn q (t_head q mod c) = Filled (t_head q)"
      "t_val q (t_head q mod c) = Some (cont (t_head q))"
    by (auto simp: slot_ok_def split: if_splits)
  show "t_head q < t_tail q"
  proof (rule ccontr)
    assume "\<not> t_head q < t_tail q"
    with * d(2,5) have "L = Suc (t_tail q)" "t_head q = t_tail q" by auto
    with d(6) obtain i v where "pcs i = StoreTail v (t_head q)" by auto
    with free [of i] show False by simp
  qed
  from * show "t_turn q (t_head q mod c) = Filled (t_head q)"
    "t_val q (t_head q mod c) = Some (cont (t_head q))" by auto
qed

lemma tail_settled:
  assumes inv: "tq_inv c (q, pcs) cont L stat"
    and far: "2 * t_tail q \<le> rank (t_turn q (t_tail q mod c))"
  shows "L = t_tail q"
proof (rule ccontr)
  note d = tq_invD [OF inv]
  assume "L \<noteq> t_tail q"
  then obtain i v where "pcs i = StoreTail v (t_tail q)" using d(3,5,6) by auto
  with d(7) [of i] far d(1) show False by auto
qed

lemma claim_past_tail:
  "pc_ok c q cont L pc stat \<Longrightarrow> claim c pc = Some p \<Longrightarrow> 0 < c \<Longrightarrow> t_tail q \<le> p \<Longrightarrow> L \<le> p \<Longrightarrow>
     rank (t_turn q (p mod c)) < 2 * p"
  by (cases pc) auto

lemma tail_slot:
  assumes inv: "tq_inv c (q, pcs) cont L stat"
    and far: "2 * t_tail q \<le> rank (t_turn q (t_tail q mod c))"
  shows "t_tail q < t_head q + c" "\<And>i. claim c (pcs i) \<noteq> Some (t_tail q)"
    "t_turn q (t_tail q mod c) = Ready (t_tail q)" "t_val q (t_tail q mod c) = None"
proof -
  note d = tq_invD [OF inv] and L = tail_settled [OF inv far]
  show room: "t_tail q < t_head q + c"
  proof (rule ccontr)
    assume "\<not> t_tail q < t_head q + c"
    with d(4) L have T: "t_tail q = t_head q + c" by simp
    then have far': "2 * t_head q + 1 \<le> rank (t_turn q (t_head q mod c))" using far d(1) by simp
    from head_slot(3) [OF inv far'] far T d(1) show False by simp
  qed
  show free: "claim c (pcs i) \<noteq> Some (t_tail q)" for i
  proof
    assume cl: "claim c (pcs i) = Some (t_tail q)"
    from claim_past_tail [OF d(7) cl d(1)] far L show False by simp
  qed
  then have "slot_ok c q cont L (t_tail q)" using d(2) room by (intro d(9)) auto
  with L show "t_turn q (t_tail q mod c) = Ready (t_tail q)" "t_val q (t_tail q mod c) = None"
    by (auto simp: slot_ok_def)
qed

text \<open>A push moves the tail.\<close>

lemma tq_inv_push:
  assumes inv: "tq_inv c (q, pcs) cont L stat" and pc: "pcs i = CasTail f v (t_tail q)"
  shows "tq_inv c (q\<lparr>t_tail := Suc (t_tail q)\<rparr>, pcs(i := WriteVal f v (t_tail q)))
    (cont(t_tail q := v)) (Suc (t_tail q)) (stat(i := Answered (put_ret f)))"
proof -
  note d = tq_invD [OF inv]
  have far: "2 * t_tail q \<le> rank (t_turn q (t_tail q mod c))" using d(7) [of i] pc by simp
  note L = tail_settled [OF inv far] and slot = tail_slot [OF inv far]
  show ?thesis
  proof (rule tq_inv_step [OF inv])
    show "pc_ok c (q\<lparr>t_tail := Suc (t_tail q)\<rparr>) (cont(t_tail q := v)) (Suc (t_tail q))
        (WriteVal f v (t_tail q)) (Answered (put_ret f))"
      using slot d(2) by simp
    show "t_turn (q\<lparr>t_tail := Suc (t_tail q)\<rparr>) (p mod c) = t_turn q (p mod c) \<and>
        t_val (q\<lparr>t_tail := Suc (t_tail q)\<rparr>) (p mod c) = t_val q (p mod c) \<and>
        (cont(t_tail q := v)) p = cont p \<and> (c \<le> p \<longrightarrow> (cont(t_tail q := v)) (p - c) = cont (p - c)) \<and>
        t_head (q\<lparr>t_tail := Suc (t_tail q)\<rparr>) \<le> p \<and> (L \<le> p \<longrightarrow> Suc (t_tail q) \<le> p) \<and>
        claim c (WriteVal f v (t_tail q)) \<noteq> Some p"
      if "j \<noteq> i" "claim c (pcs j) = Some p" for j p
      using claim_window [OF d(7) that(2) d(2,3,4)] slot(2) [of j] that d(1,2,4) L by auto
    show "slot_ok c (q\<lparr>t_tail := Suc (t_tail q)\<rparr>) (cont(t_tail q := v)) (Suc (t_tail q)) p"
      if "t_head (q\<lparr>t_tail := Suc (t_tail q)\<rparr>) \<le> p" "p < t_head (q\<lparr>t_tail := Suc (t_tail q)\<rparr>) + c"
        "\<And>j. j \<noteq> i \<Longrightarrow> claim c (pcs j) \<noteq> Some p" "claim c (WriteVal f v (t_tail q)) \<noteq> Some p" for p
    proof -
      have "claim c (pcs j) \<noteq> Some p" for j using that(3) [of j] pc by (cases "j = i") auto
      with d(9) [of p] that(1,2) have "slot_ok c q cont L p" by simp
      with that(4) L show ?thesis by (auto simp: slot_ok_def)
    qed
    show "t_tail (q\<lparr>t_tail := Suc (t_tail q)\<rparr>) = t_tail q \<and> Suc (t_tail q) = L"
      if "j \<noteq> i" "pcs j = StoreTail w t" for j w t
    proof -
      from d(7) [of j] that(2) have "L = Suc (t_tail q)" by simp
      with L show ?thesis by simp
    qed
  qed (use d(1-5) slot(1) L [symmetric] in simp_all)
qed

text \<open>A pop moves the head.\<close>

lemma tq_inv_pop:
  assumes inv: "tq_inv c (q, pcs) cont L stat" and pc: "pcs i = PopCas (t_head q)"
  shows "tq_inv c (q\<lparr>t_head := Suc (t_head q)\<rparr>, pcs(i := PopRead (t_head q)))
    cont L (stat(i := Answered (PopRet (Some (cont (t_head q))))))"
proof -
  note d = tq_invD [OF inv]
  have far: "2 * t_head q + 1 \<le> rank (t_turn q (t_head q mod c))" using d(7) [of i] pc by simp
  note slot = head_slot [OF inv far]
  show ?thesis
  proof (rule tq_inv_step [OF inv])
    show "pc_ok c (q\<lparr>t_head := Suc (t_head q)\<rparr>) cont L (PopRead (t_head q))
        (Answered (PopRet (Some (cont (t_head q)))))"
      using slot d(4) by simp
    show "\<exists>j v. (pcs(i := PopRead (t_head q))) j = StoreTail v (t_tail (q\<lparr>t_head := Suc (t_head q)\<rparr>))"
      if "L = Suc (t_tail (q\<lparr>t_head := Suc (t_head q)\<rparr>))"
    proof -
      from that d(6) obtain j w where "pcs j = StoreTail w (t_tail q)" by auto
      moreover from this pc have "j \<noteq> i" by auto
      ultimately show ?thesis by auto
    qed
    show "t_turn (q\<lparr>t_head := Suc (t_head q)\<rparr>) (p mod c) = t_turn q (p mod c) \<and>
        t_val (q\<lparr>t_head := Suc (t_head q)\<rparr>) (p mod c) = t_val q (p mod c) \<and>
        cont p = cont p \<and> (c \<le> p \<longrightarrow> cont (p - c) = cont (p - c)) \<and>
        t_head (q\<lparr>t_head := Suc (t_head q)\<rparr>) \<le> p \<and> (L \<le> p \<longrightarrow> L \<le> p) \<and>
        claim c (PopRead (t_head q)) \<noteq> Some p"
      if "j \<noteq> i" "claim c (pcs j) = Some p" for j p
    proof -
      have "p \<noteq> t_head q" using slot(2) [of j] that by auto
      with claim_window [OF d(7) that(2) d(2,3,4)] show ?thesis by auto
    qed
    show "slot_ok c (q\<lparr>t_head := Suc (t_head q)\<rparr>) cont L p"
      if "t_head (q\<lparr>t_head := Suc (t_head q)\<rparr>) \<le> p" "p < t_head (q\<lparr>t_head := Suc (t_head q)\<rparr>) + c"
        "\<And>j. j \<noteq> i \<Longrightarrow> claim c (pcs j) \<noteq> Some p" "claim c (PopRead (t_head q)) \<noteq> Some p" for p
    proof -
      have "claim c (pcs j) \<noteq> Some p" for j using that(3) [of j] pc by (cases "j = i") auto
      with d(9) [of p] that have "slot_ok c q cont L p" by simp
      then show ?thesis by (simp add: slot_ok_def)
    qed
  qed (use d(1-5) slot(1) in auto)
qed

text \<open>A forced push moves the head of a full queue, then the tail.\<close>

lemma force_head_slot:
  assumes inv: "tq_inv c (q, pcs) cont L stat" and pc: "pcs i = CasHead v t" and head: "t_head q = t - c"
  shows "t = t_tail q" "L = t_tail q" "t_tail q = t_head q + c"
    "2 * t_head q + 1 \<le> rank (t_turn q (t_head q mod c))"
proof -
  note d = tq_invD [OF inv]
  from d(7) [of i] pc have t: "t \<le> t_tail q" "c \<le> t" "2 * (t - c) + 1 \<le> rank (t_turn q (t mod c))"
    by simp_all
  with d(3,4) head show "t = t_tail q" "L = t_tail q" "t_tail q = t_head q + c" by auto
  have "t mod c = t_head q mod c" using head t(2) by (metis le_mod_geq)
  with t(3) head show "2 * t_head q + 1 \<le> rank (t_turn q (t_head q mod c))" by simp
qed

lemma tq_inv_force:
  assumes inv: "tq_inv c (q, pcs) cont L stat" and pc: "pcs i = CasHead v t" and head: "t_head q = t - c"
  shows "tq_inv c (q\<lparr>t_head := Suc t - c\<rparr>, pcs(i := StoreTail v t)) (cont(t := v)) (Suc L)
    (stat(i := Answered (ForceRet (Some (cont (t_head q))))))"
proof -
  note d = tq_invD [OF inv]
  note f = force_head_slot [OF inv pc head]
  note slot = head_slot [OF inv f(4)]
  have c: "c \<le> t" using f by simp
  have mod: "t mod c = t_head q mod c" using f(1,3) by simp
  have head': "Suc t - c = Suc (t_head q)" using head c by simp
  let ?q = "q\<lparr>t_head := Suc (t_head q)\<rparr>"
  have "tq_inv c (?q, pcs(i := StoreTail v t)) (cont(t := v)) (Suc L)
    (stat(i := Answered (ForceRet (Some (cont (t_head q))))))"
  proof (rule tq_inv_step [OF inv])
    show "pc_ok c ?q (cont(t := v)) (Suc L) (StoreTail v t) (Answered (ForceRet (Some (cont (t_head q)))))"
    proof -
      have "t - c = t_head q" "t - c \<noteq> t" "Suc (t_head q) \<le> t" "L = t"
        using head c d(1) f(1-3) by auto
      then show ?thesis using f(1) c by (simp add: mod [unfolded f(1)] slot(3,4))
    qed
    show "t_turn ?q (p mod c) = t_turn q (p mod c) \<and> t_val ?q (p mod c) = t_val q (p mod c) \<and>
        (cont(t := v)) p = cont p \<and> (c \<le> p \<longrightarrow> (cont(t := v)) (p - c) = cont (p - c)) \<and>
        t_head ?q \<le> p \<and> (L \<le> p \<longrightarrow> Suc L \<le> p) \<and> claim c (StoreTail v t) \<noteq> Some p"
      if "j \<noteq> i" "claim c (pcs j) = Some p" for j p
    proof -
      note w = claim_window [OF d(7) that(2) d(2,3,4)]
      have "p \<noteq> t_head q" using slot(2) [of j] that by auto
      moreover have "p \<noteq> t" "L \<le> p \<Longrightarrow> Suc L \<le> p" using w f(1-3) by auto
      moreover have "p - c \<noteq> t" using w f(1,3) by auto
      ultimately show ?thesis using w by auto
    qed
    show "slot_ok c ?q (cont(t := v)) (Suc L) p"
      if "t_head ?q \<le> p" "p < t_head ?q + c"
        "\<And>j. j \<noteq> i \<Longrightarrow> claim c (pcs j) \<noteq> Some p" "claim c (StoreTail v t) \<noteq> Some p" for p
    proof -
      have "claim c (pcs j) \<noteq> Some p" for j using that(3) [of j] pc by (cases "j = i") auto
      moreover have "p < L" "p < t_head q + c" "t_head q \<le> p" using that f by auto
      ultimately have "slot_ok c q cont L p" by (intro d(9)) auto
      with that(4) \<open>p < L\<close> show ?thesis by (auto simp: slot_ok_def)
    qed
    show "t_tail ?q = t_tail q \<and> Suc L = L" if "j \<noteq> i" "pcs j = StoreTail w u" for j w u
    proof -
      from d(7) [of j] that(2) have "L = Suc (t_tail q)" by simp
      with f(2) show ?thesis by simp
    qed
    show "\<exists>j w. (pcs(i := StoreTail v t)) j = StoreTail w (t_tail ?q)"
      using f(1) by auto
  qed (use f(2,3) d(1) in simp_all)
  then show ?thesis by (simp only: head')
qed

lemma tq_inv_store_tail:
  assumes inv: "tq_inv c (q, pcs) cont L stat" and pc: "pcs i = StoreTail v t"
  shows "tq_inv c (q\<lparr>t_tail := Suc t\<rparr>, pcs(i := SwapVal v t)) cont L (stat(i := stat i))"
proof -
  note d = tq_invD [OF inv]
  from d(7) [of i] pc have t: "t = t_tail q" "L = Suc t" "t_head q \<le> t" by simp_all
  show ?thesis
  proof (rule tq_inv_step [OF inv])
    show "pc_ok c (q\<lparr>t_tail := Suc t\<rparr>) cont L (SwapVal v t) (stat i)"
      using d(7) [of i] unfolding pc by auto
    show "t_tail (q\<lparr>t_tail := Suc t\<rparr>) = t_tail q \<and> L = L"
      if "j \<noteq> i" "pcs j = StoreTail w u" for j w u
    proof -
      have "u = t_tail q" using d(7) [of j] that(2) by simp
      with d(8) [of i "t_tail q" j] pc that t(1) show ?thesis by simp
    qed
    show "t_turn (q\<lparr>t_tail := Suc t\<rparr>) (p mod c) = t_turn q (p mod c) \<and>
        t_val (q\<lparr>t_tail := Suc t\<rparr>) (p mod c) = t_val q (p mod c) \<and>
        cont p = cont p \<and> (c \<le> p \<longrightarrow> cont (p - c) = cont (p - c)) \<and>
        t_head (q\<lparr>t_tail := Suc t\<rparr>) \<le> p \<and> (L \<le> p \<longrightarrow> L \<le> p) \<and> claim c (SwapVal v t) \<noteq> Some p"
      if "j \<noteq> i" "claim c (pcs j) = Some p" for j p
      using claim_window [OF d(7) that(2) d(2,3,4)] d(8) [of i p j] that pc by auto
    show "slot_ok c (q\<lparr>t_tail := Suc t\<rparr>) cont L p"
      if "t_head (q\<lparr>t_tail := Suc t\<rparr>) \<le> p" "p < t_head (q\<lparr>t_tail := Suc t\<rparr>) + c"
        "\<And>j. j \<noteq> i \<Longrightarrow> claim c (pcs j) \<noteq> Some p" "claim c (SwapVal v t) \<noteq> Some p" for p
    proof -
      have "claim c (pcs j) \<noteq> Some p" for j using that(3,4) pc by (cases "j = i") auto
      with d(9) [of p] that(1,2) have "slot_ok c q cont L p" by simp
      then show ?thesis by (simp add: slot_ok_def)
    qed
  qed (use d(1-5) t(2,3) t(1) [symmetric] in simp_all)
qed

section \<open>Simulation of the atomic queue\<close>

text \<open>
  The two ways a tick of thread \<open>i\<close> is matched: by nothing, or by the instant at which its operation takes effect.
\<close>

definition matched :: "nat \<Rightarrow> tid \<Rightarrow> ('a list, 'a aq_op, 'a aq_ret) atomic_object \<Rightarrow>
    'a tq \<times> (tid \<Rightarrow> (nat, 'a) aq_pc) \<Rightarrow> bool" where
  "matched c i a s \<longleftrightarrow> tq_rel c s a \<or>
     (\<exists>oper r ys. snd a i = Pending oper \<and> aq_spec c oper (fst a) = (r, ys) \<and> tq_rel c s (ys, (snd a)(i := Answered r)))"

lemma matched_run:
  assumes "matched c i a s"
  shows "\<exists>b. ao_run (aq_spec_ok c) a [] b \<and> tq_rel c s b"
  using assms unfolding matched_def
proof (elim disjE exE conjE)
  assume "tq_rel c s a"
  then show ?thesis using ao_done by blast
next
  fix oper r ys
  assume "snd a i = Pending oper" "aq_spec c oper (fst a) = (r, ys)" "tq_rel c s (ys, (snd a)(i := Answered r))"
  then show ?thesis using ao_run_effect [of "snd a" i oper "aq_spec_ok c" "fst a" r ys] by auto
qed

lemma sim_silent:
  assumes "tq_inv c (q', pcs') cont L stat" "xs = map cont [t_head q'..<L]"
  shows "matched c i (xs, stat) (q', pcs')"
  using assms unfolding matched_def by (auto simp: tq_rel_def)

lemma sim_effect:
  assumes "stat i = Pending oper" "aq_spec c oper xs = (r, ys)"
    and "tq_inv c (q', pcs') cont L (stat(i := Answered r))" "ys = map cont [t_head q'..<L]"
  shows "matched c i (xs, stat) (q', pcs')"
proof -
  have "tq_rel c (q', pcs') (ys, stat(i := Answered r))" using assms(3,4) by (auto simp: tq_rel_def)
  then show ?thesis using assms(1,2) unfolding matched_def by auto
qed

lemma sim_local:
  assumes "tq_inv c (q, pcs) cont L stat" "xs = map cont [t_head q..<L]"
    "claim c (pcs i) = None" "claim c pc' = None" "pc_ok c q cont L pc' (stat i)"
  shows "matched c i (xs, stat) (q, pcs(i := pc'))"
  using sim_silent [OF tq_inv_local [OF assms(1,3,4,5), simplified] assms(2)] .

lemma sim_owner:
  assumes "tq_inv c (q, pcs) cont L stat" "xs = map cont [t_head q..<L]"
    "claim c (pcs i) = Some p" "\<And>v t. pcs i \<noteq> StoreTail v t"
    "t_head q' = t_head q" "t_tail q' = t_tail q"
    "\<And>j. j \<noteq> p mod c \<Longrightarrow> t_turn q' j = t_turn q j \<and> t_val q' j = t_val q j"
    "rank (t_turn q (p mod c)) \<le> rank (t_turn q' (p mod c))"
    "claim c pc' = Some p \<or> claim c pc' = None \<and> slot_ok c q' cont L p"
    "pc_ok c q' cont L pc' (stat i)"
  shows "matched c i (xs, stat) (q', pcs(i := pc'))"
  using sim_silent [OF tq_inv_owner [OF assms(1,3-10), simplified]] assms(2,5) by simp

text \<open>\<^verbatim>\<open>push_or_else\<close>.\<close>

lemma sim_load_stamp:
  assumes inv: "tq_inv c (q, pcs) cont L stat" and xs: "xs = map cont [t_head q..<L]"
    and pc: "pcs i = LoadStamp f v t"
  shows "matched c i (xs, stat) (sys_step (tq_tick c) (Tick i sp) (q, pcs))"
  using tq_invD(7) [OF inv, of i] pc
  by (cases "t_turn q (t mod c)") (auto intro!: sim_local [OF inv xs])

lemma sim_cas_tail:
  assumes inv: "tq_inv c (q, pcs) cont L stat" and xs: "xs = map cont [t_head q..<L]"
    and pc: "pcs i = CasTail f v t"
  shows "matched c i (xs, stat) (sys_step (tq_tick c) (Tick i sp) (q, pcs))"
proof (cases "\<not> sp \<and> t_tail q = t")
  case False
  then show ?thesis
    using tq_invD(7) [OF inv, of i] pc by (auto intro!: sim_local [OF inv xs])
next
  case True
  note d = tq_invD [OF inv]
  from True pc have pc': "pcs i = CasTail f v (t_tail q)" by simp
  from d(7) [of i] pc' have far: "2 * t_tail q \<le> rank (t_turn q (t_tail q mod c))"
    and st: "stat i = Pending (put_op f v)" by simp_all
  have L: "L = t_tail q" by (rule tail_settled [OF inv far])
  have "length xs < c" using tail_slot(1) [OF inv far] d(2) xs L by simp
  then have spec: "aq_spec c (put_op f v) xs = (put_ret f, xs @ [v])" by simp
  have "xs @ [v] = map (cont(t_tail q := v)) [t_head q..<Suc (t_tail q)]"
    using d(2) xs L by simp
  with sim_effect [OF st spec tq_inv_push [OF inv pc']] show ?thesis using True pc by simp
qed

lemma sim_write_val:
  assumes inv: "tq_inv c (q, pcs) cont L stat" and xs: "xs = map cont [t_head q..<L]"
    and pc: "pcs i = WriteVal f v t"
  shows "matched c i (xs, stat) (sys_step (tq_tick c) (Tick i sp) (q, pcs))"
  using tq_invD(7) [OF inv, of i] pc by (auto intro!: sim_owner [OF inv xs, where p = t])

lemma sim_store_stamp:
  assumes inv: "tq_inv c (q, pcs) cont L stat" and xs: "xs = map cont [t_head q..<L]"
    and pc: "pcs i = StoreStamp f t"
  shows "matched c i (xs, stat) (sys_step (tq_tick c) (Tick i sp) (q, pcs))"
  using tq_invD(3) [OF inv] tq_invD(7) [OF inv, of i] pc
  by (auto intro!: sim_owner [OF inv xs, where p = t] simp: slot_ok_def)

text \<open>The closures.\<close>

lemma sim_load_head:
  assumes inv: "tq_inv c (q, pcs) cont L stat" and xs: "xs = map cont [t_head q..<L]"
    and pc: "pcs i = LoadHead v t"
  shows "matched c i (xs, stat) (sys_step (tq_tick c) (Tick i sp) (q, pcs))"
proof (cases "t_head q + c = t")
  case False
  then show ?thesis using tq_invD(7) [OF inv, of i] pc by (auto intro!: sim_local [OF inv xs])
next
  case True
  note d = tq_invD [OF inv]
  from d(7) [of i] pc have t: "t \<le> t_tail q" and st: "stat i = Pending (OpPush v)" by simp_all
  have "L = t_head q + c" using True t d(3,4) by simp
  then have spec: "aq_spec c (OpPush v) xs = (PushRet (Err v), xs)" using xs by simp
  have "tq_inv c (q, pcs(i := Finished (PushRet (Err v)))) cont L (stat(i := Answered (PushRet (Err v))))"
    using pc by (intro tq_inv_local [OF inv]) auto
  from sim_effect [OF st spec this xs] True pc show ?thesis by simp
qed

lemma sim_cas_head:
  assumes inv: "tq_inv c (q, pcs) cont L stat" and xs: "xs = map cont [t_head q..<L]"
    and pc: "pcs i = CasHead v t"
  shows "matched c i (xs, stat) (sys_step (tq_tick c) (Tick i sp) (q, pcs))"
proof (cases "\<not> sp \<and> t_head q = t - c")
  case False
  then show ?thesis using tq_invD(7) [OF inv, of i] pc by (auto intro!: sim_local [OF inv xs])
next
  case True
  note d = tq_invD [OF inv]
  from True have head: "t_head q = t - c" by simp
  note f = force_head_slot [OF inv pc head]
  from d(7) [of i] pc have st: "stat i = Pending (OpForce v)" by simp
  have lt: "t_head q < L" using f(2,3) d(1) by simp
  have xs': "xs = cont (t_head q) # map cont [Suc (t_head q)..<L]"
    using xs lt by (simp add: upt_conv_Cons)
  have "length xs = c" using xs f(2,3) by simp
  with xs' have spec: "aq_spec c (OpForce v) xs =
      (ForceRet (Some (cont (t_head q))), map cont [Suc (t_head q)..<L] @ [v])" by simp
  have head': "Suc t - c = Suc (t_head q)" using f(1,3) by simp
  have "map cont [Suc (t_head q)..<L] @ [v] = map (cont(t := v)) [Suc t - c..<Suc L]"
    using lt f(1,2) unfolding head' by simp
  with sim_effect [OF st spec tq_inv_force [OF inv pc head]] True pc show ?thesis by simp
qed

lemma sim_store_tail:
  assumes inv: "tq_inv c (q, pcs) cont L stat" and xs: "xs = map cont [t_head q..<L]"
    and pc: "pcs i = StoreTail v t"
  shows "matched c i (xs, stat) (sys_step (tq_tick c) (Tick i sp) (q, pcs))"
  using sim_silent [OF tq_inv_store_tail [OF inv pc, simplified]] xs pc by simp

lemma sim_swap_val:
  assumes inv: "tq_inv c (q, pcs) cont L stat" and xs: "xs = map cont [t_head q..<L]"
    and pc: "pcs i = SwapVal v t"
  shows "matched c i (xs, stat) (sys_step (tq_tick c) (Tick i sp) (q, pcs))"
  using tq_invD(7) [OF inv, of i] pc by (auto intro!: sim_owner [OF inv xs, where p = t])

lemma sim_store_stamp_force:
  assumes inv: "tq_inv c (q, pcs) cont L stat" and xs: "xs = map cont [t_head q..<L]"
    and pc: "pcs i = StoreStampF old t"
  shows "matched c i (xs, stat) (sys_step (tq_tick c) (Tick i sp) (q, pcs))"
  using tq_invD(3) [OF inv] tq_invD(7) [OF inv, of i] pc
  by (auto intro!: sim_owner [OF inv xs, where p = t] simp: slot_ok_def)

text \<open>\<^verbatim>\<open>pop\<close>.\<close>

lemma sim_pop_load_stamp:
  assumes inv: "tq_inv c (q, pcs) cont L stat" and xs: "xs = map cont [t_head q..<L]"
    and pc: "pcs i = PopLoadStamp h"
  shows "matched c i (xs, stat) (sys_step (tq_tick c) (Tick i sp) (q, pcs))"
  using tq_invD(7) [OF inv, of i] pc
  by (cases "t_turn q (h mod c)") (auto intro!: sim_local [OF inv xs])

lemma sim_pop_cas:
  assumes inv: "tq_inv c (q, pcs) cont L stat" and xs: "xs = map cont [t_head q..<L]"
    and pc: "pcs i = PopCas h"
  shows "matched c i (xs, stat) (sys_step (tq_tick c) (Tick i sp) (q, pcs))"
proof (cases "\<not> sp \<and> t_head q = h")
  case False
  then show ?thesis using tq_invD(7) [OF inv, of i] pc by (auto intro!: sim_local [OF inv xs])
next
  case True
  note d = tq_invD [OF inv]
  from True pc have pc': "pcs i = PopCas (t_head q)" by simp
  from d(7) [of i] pc' have far: "2 * t_head q + 1 \<le> rank (t_turn q (t_head q mod c))"
    and st: "stat i = Pending OpPop" by simp_all
  have "t_head q < L" using head_slot(1) [OF inv far] d(3) by simp
  then have "xs = cont (t_head q) # map cont [Suc (t_head q)..<L]" using xs by (simp add: upt_conv_Cons)
  then have spec: "aq_spec c OpPop xs = (PopRet (Some (cont (t_head q))), map cont [Suc (t_head q)..<L])"
    by simp
  from sim_effect [OF st spec tq_inv_pop [OF inv pc']] True pc show ?thesis by simp
qed

lemma sim_pop_read:
  assumes inv: "tq_inv c (q, pcs) cont L stat" and xs: "xs = map cont [t_head q..<L]"
    and pc: "pcs i = PopRead h"
  shows "matched c i (xs, stat) (sys_step (tq_tick c) (Tick i sp) (q, pcs))"
  using tq_invD(7) [OF inv, of i] pc by (auto intro!: sim_owner [OF inv xs, where p = "h + c"])

lemma sim_pop_store:
  assumes inv: "tq_inv c (q, pcs) cont L stat" and xs: "xs = map cont [t_head q..<L]"
    and pc: "pcs i = PopStore x h"
  shows "matched c i (xs, stat) (sys_step (tq_tick c) (Tick i sp) (q, pcs))"
  using tq_invD(1) [OF inv] tq_invD(7) [OF inv, of i] pc
  by (auto intro!: sim_owner [OF inv xs, where p = "h + c"] simp: slot_ok_def)

lemma sim_pop_load_tail:
  assumes inv: "tq_inv c (q, pcs) cont L stat" and xs: "xs = map cont [t_head q..<L]"
    and pc: "pcs i = PopLoadTail h"
  shows "matched c i (xs, stat) (sys_step (tq_tick c) (Tick i sp) (q, pcs))"
proof (cases "t_tail q = h")
  case False
  then show ?thesis using tq_invD(7) [OF inv, of i] pc by (auto intro!: sim_local [OF inv xs])
next
  case True
  note d = tq_invD [OF inv]
  from d(7) [of i] pc have h: "h \<le> t_head q" "2 * h \<le> rank (t_turn q (h mod c))"
    and st: "stat i = Pending OpPop" by simp_all
  have "2 * t_tail q \<le> rank (t_turn q (t_tail q mod c))" using True h(2) by simp
  then have "L = t_tail q" by (rule tail_settled [OF inv])
  then have "xs = []" using xs True h(1) by simp
  then have spec: "aq_spec c OpPop xs = (PopRet None, xs)" by simp
  have "tq_inv c (q, pcs(i := Finished (PopRet None))) cont L (stat(i := Answered (PopRet None)))"
    using pc by (intro tq_inv_local [OF inv]) auto
  from sim_effect [OF st spec this xs] True pc show ?thesis by simp
qed

text \<open>Every tick is matched.\<close>

lemmas sim_ticks = sim_load_stamp sim_cas_tail sim_write_val sim_store_stamp sim_load_head sim_cas_head
  sim_store_tail sim_swap_val sim_store_stamp_force sim_pop_load_stamp sim_pop_cas sim_pop_read
  sim_pop_store sim_pop_load_tail

lemma sim_tick:
  assumes inv: "tq_inv c (q, pcs) cont L stat" and xs: "xs = map cont [t_head q..<L]"
  shows "matched c i (xs, stat) (sys_step (tq_tick c) (Tick i sp) (q, pcs))"
proof (cases "pcs i")
  case Undefined
  then show ?thesis using tq_invD(7) [OF inv, of i] by simp
next
  case (LoadTail f v)
  then show ?thesis using tq_invD(7) [OF inv, of i] by (auto intro!: sim_local [OF inv xs])
next
  case PopLoadHead
  then show ?thesis using tq_invD(7) [OF inv, of i] by (auto intro!: sim_local [OF inv xs])
next
  case Idle
  then show ?thesis using tq_invD(7) [OF inv, of i] by (auto intro!: sim_local [OF inv xs])
next
  case (Finished r)
  then show ?thesis using tq_invD(7) [OF inv, of i] by (auto intro!: sim_local [OF inv xs])
qed (rule sim_ticks [OF inv xs], assumption)+

lemma tq_simulate:
  assumes "tq_rel c s a"
  shows "\<exists>b. ao_run (aq_spec_ok c) a (visible (sys_label e s)) b \<and> tq_rel c (sys_step (tq_tick c) e s) b"
proof -
  obtain q pcs where s: "s = (q, pcs)" by fastforce
  obtain xs stat where a: "a = (xs, stat)" by fastforce
  from assms obtain cont L where inv: "tq_inv c (q, pcs) cont L stat" and xs: "xs = map cont [t_head q..<L]"
    by (auto simp: tq_rel_def s a)
  note ok = tq_invD(7) [OF inv]
  show ?thesis
  proof (cases e)
    case (Tick i sp)
    then show ?thesis using matched_run [OF sim_tick [OF inv xs, of i sp]] by (simp add: s a)
  next
    case (Call i oper)
    show ?thesis
    proof (cases "pcs i = Idle")
      case True
      then have q: "stat i = Quiet" using ok [of i] by simp
      have "pc_ok c q cont L (aq_start oper) (Pending oper)" "claim c (aq_start oper) = None"
        by (cases oper; simp)+
      then have "tq_inv c (q, pcs(i := aq_start oper)) cont L (stat(i := Pending oper))"
        using True by (intro tq_inv_local [OF inv]) auto
      with xs have "tq_rel c (q, pcs(i := aq_start oper)) (xs, stat(i := Pending oper))"
        by (auto simp: tq_rel_def)
      with ao_run_invoke [of stat i "aq_spec_ok c" xs oper] q True show ?thesis
        unfolding s a Call by (intro exI [of _ "(xs, stat(i := Pending oper))"]) simp
    next
      case False
      with assms ao_done [of "aq_spec_ok c" a] show ?thesis
        unfolding s Call by (intro exI [of _ a]) (cases "pcs i"; simp)
    qed
  next
    case (Ret i)
    show ?thesis
    proof (cases "\<exists>r. pcs i = Finished r")
      case True
      then obtain r where r: "pcs i = Finished r" by blast
      then have st: "stat i = Answered r" using ok [of i] by simp
      have "tq_inv c (q, pcs(i := Idle)) cont L (stat(i := Quiet))"
        using r by (intro tq_inv_local [OF inv]) auto
      with xs have "tq_rel c (q, pcs(i := Idle)) (xs, stat(i := Quiet))" by (auto simp: tq_rel_def)
      with ao_run_return [of stat i r "aq_spec_ok c" xs] st r show ?thesis
        unfolding s a Ret by (intro exI [of _ "(xs, stat(i := Quiet))"]) simp
    next
      case False
      with assms ao_done [of "aq_spec_ok c" a] show ?thesis
        unfolding s Ret by (intro exI [of _ a]) (cases "pcs i"; simp)
    qed
  qed
qed

interpretation tqs: object_simulation "sys_step (tq_tick c)" sys_label "aq_spec_ok c" "tq_rel c" for c
  by unfold_locales (rule tq_simulate)

end
