(* ===== verification/Array_Queue_Linear.thy ===== *)
theory Array_Queue_Linear
  imports Array_Queue_Tickets
begin

text \<open>
  From tickets to stamps: as long as fewer positions than a period of the 64-bit stamps have been
  used, the machines of theory \<open>Array_Queue_Shared\<close>, which are the code's, run exactly as the
  ticket machine does, and so \<^verbatim>\<open>ArrayQueue\<close> is linearizable, never reads an
  uninitialised value and has no data race on its slots. The last section runs the shared
  operations alone.
\<close>

section \<open>The code's machine as an encoding of the ticket machine\<close>

fun enc_turn :: "nat \<Rightarrow> nat \<Rightarrow> turn \<Rightarrow> u64" where
  "enc_turn c k (Ready p) = enc c k p"
| "enc_turn c k (Filled p) = enc c k p + 1"

definition aq_of :: "nat \<Rightarrow> nat \<Rightarrow> 'a tq \<Rightarrow> 'a array_queue" where
  "aq_of c k q = \<lparr>aq_head = enc c k (t_head q), aq_tail = enc c k (t_tail q),
     aq_buffer = map (\<lambda>i. \<lparr>stamp = enc_turn c k (t_turn q i), slot_value = t_val q i\<rparr>) [0..<c],
     aq_one_lap = 2 ^ k\<rparr>"

abbreviation pc_of :: "nat \<Rightarrow> nat \<Rightarrow> (nat, 'a) aq_pc \<Rightarrow> (u64, 'a) aq_pc" where
  "pc_of c k \<equiv> map_aq_pc (enc c k) id"

definition sys_of :: "nat \<Rightarrow> nat \<Rightarrow> 'a tq \<times> (tid \<Rightarrow> (nat, 'a) aq_pc) \<Rightarrow> 'a aq_sys" where
  "sys_of c k s = (aq_of c k (fst s), \<lambda>i. pc_of c k (snd s i))"

lemma aq_of_simps [simp]:
  "aq_head (aq_of c k q) = enc c k (t_head q)" "aq_tail (aq_of c k q) = enc c k (t_tail q)"
  "length (aq_buffer (aq_of c k q)) = c" "aq_one_lap (aq_of c k q) = 2 ^ k"
  "aq_capacity (aq_of c k q) = c"
  "i < c \<Longrightarrow> aq_buffer (aq_of c k q) ! i = \<lparr>stamp = enc_turn c k (t_turn q i), slot_value = t_val q i\<rparr>"
  by (simp_all add: aq_of_def aq_capacity_def)

lemma aq_of_head: "(aq_of c k q)\<lparr>aq_head := enc c k h\<rparr> = aq_of c k (q\<lparr>t_head := h\<rparr>)"
  and aq_of_tail: "(aq_of c k q)\<lparr>aq_tail := enc c k t\<rparr> = aq_of c k (q\<lparr>t_tail := t\<rparr>)"
  by (simp_all add: aq_of_def)

lemma aq_of_val:
  "i < c \<Longrightarrow> aq_put i (\<lambda>s. s\<lparr>slot_value := x\<rparr>) (aq_of c k q) = aq_of c k (q\<lparr>t_val := (t_val q)(i := x)\<rparr>)"
  by (auto simp: aq_put_def aq_of_def intro!: nth_equalityI simp: nth_list_update)

lemma aq_of_turn:
  "i < c \<Longrightarrow> aq_put i (\<lambda>s. s\<lparr>stamp := enc_turn c k u\<rparr>) (aq_of c k q) = aq_of c k (q\<lparr>t_turn := (t_turn q)(i := u)\<rparr>)"
  by (auto simp: aq_put_def aq_of_def intro!: nth_equalityI simp: nth_list_update)

lemmas aq_of_stamp = aq_of_turn [where u = "Ready p" for p, unfolded enc_turn.simps]
  aq_of_turn [where u = "Filled p" for p, unfolded enc_turn.simps]

lemma aq_of_index: "ring c k \<Longrightarrow> aq_slot_index (aq_of c k q) (enc c k t) = t mod c"
  and aq_of_next: "ring c k \<Longrightarrow> aq_next (aq_of c k q) (enc c k t) = enc c k (Suc t)"
  by (simp_all add: aq_slot_index_def aq_next_def stamp_index_enc stamp_next_enc ring_def)

text \<open>The turns a slot can be at, and that they are close to the tail.\<close>

lemma claim_turn:
  "pc_ok c q cont L pc stat \<Longrightarrow> claim c pc = Some p \<Longrightarrow>
     t_turn q (p mod c) = Ready p \<or> (c \<le> p \<and> t_turn q (p mod c) = Filled (p - c))"
  by (cases pc) auto

lemma slot_turn:
  assumes inv: "tq_inv c (q, pcs) cont L stat"
  shows "t_turn q (i mod c) = Ready p \<Longrightarrow> p mod c = i mod c \<and> p \<le> t_tail q + c"
    "t_turn q (i mod c) = Filled p \<Longrightarrow> p mod c = i mod c \<and> p \<le> t_tail q \<and> p < L"
proof -
  note d = tq_invD [OF inv]
  obtain w where w: "w mod c = i mod c" "t_head q \<le> w" "w < t_head q + c"
  proof
    let ?w = "t_head q + (i + c * t_head q - t_head q) mod c"
    have "t_head q \<le> c * t_head q" using d(1) by simp
    then have "t_head q + (i + c * t_head q - t_head q) = i + c * t_head q" by linarith
    then have "(t_head q + (i + c * t_head q - t_head q)) mod c = i mod c" by simp
    then show "?w mod c = i mod c" by (simp add: mod_add_right_eq)
    show "t_head q \<le> ?w" "?w < t_head q + c" using d(1) by simp_all
  qed
  have "t_turn q (w mod c) = Ready w \<or> (c \<le> w \<and> t_turn q (w mod c) = Filled (w - c)) \<or>
      (w < L \<and> t_turn q (w mod c) = Filled w)"
  proof (cases "\<exists>j. claim c (pcs j) = Some w")
    case True
    then obtain j where "claim c (pcs j) = Some w" by blast
    from claim_turn [OF d(7) this] show ?thesis by blast
  next
    case False
    then have "slot_ok c q cont L w" using w(2,3) by (intro d(9)) auto
    then show ?thesis by (auto simp: slot_ok_def split: if_splits)
  qed
  with w d(2-5) show "t_turn q (i mod c) = Ready p \<Longrightarrow> p mod c = i mod c \<and> p \<le> t_tail q + c"
    "t_turn q (i mod c) = Filled p \<Longrightarrow> p mod c = i mod c \<and> p \<le> t_tail q \<and> p < L"
    by (auto simp: le_mod_geq [symmetric])
qed

text \<open>The comparisons of the code decide what the ticket machine decides.\<close>

lemma stamp_compare:
  assumes r: "ring c k" and near: "t + c < period c k" "\<And>p. u = Ready p \<Longrightarrow> p mod c = t mod c \<and> p < period c k"
    "\<And>p. u = Filled p \<Longrightarrow> p mod c = t mod c \<and> p + c < period c k"
  shows "enc c k t = enc_turn c k u \<longleftrightarrow> u = Ready t"
    "enc_turn c k u = enc c k t \<longleftrightarrow> u = Ready t"
    "enc_turn c k u + 2 ^ k = enc c k t + 1 \<longleftrightarrow> (\<exists>p. u = Filled p \<and> p + c = t)"
    "enc c k t + 1 = enc_turn c k u \<longleftrightarrow> u = Filled t"
proof -
  have *: "enc c k t = enc_turn c k u \<longleftrightarrow> u = Ready t"
  proof (cases u)
    case (Ready p)
    with near r show ?thesis by (auto simp: enc_eq_iff)
  next
    case (Filled p)
    with near(3) enc_Suc_neq [OF r, of p t] show ?thesis by auto
  qed
  then show "enc c k t = enc_turn c k u \<longleftrightarrow> u = Ready t" .
  from * show "enc_turn c k u = enc c k t \<longleftrightarrow> u = Ready t" by metis
  show "enc_turn c k u + 2 ^ k = enc c k t + 1 \<longleftrightarrow> (\<exists>p. u = Filled p \<and> p + c = t)"
  proof (cases u)
    case (Ready p)
    then have "t mod c = (p + c) mod c" using near(2) by simp
    with enc_Suc_neq [OF r this] Ready show ?thesis by (auto simp: enc_add_lap [OF r])
  next
    case (Filled p)
    have "enc_turn c k u + 2 ^ k = enc c k (p + c) + 1"
      using Filled by (simp add: enc_add_lap [OF r])
    with Filled near r show ?thesis by (simp add: enc_eq_iff)
  qed
  show "enc c k t + 1 = enc_turn c k u \<longleftrightarrow> u = Filled t"
  proof (cases u)
    case (Ready p)
    with near(2) enc_Suc_neq [OF r, of t p] show ?thesis by auto
  next
    case (Filled p)
    with near r show ?thesis by (auto simp: enc_eq_iff)
  qed
qed

lemma stamp_tests:
  assumes r: "ring c k" and inv: "tq_inv c (q, pcs) cont L stat" and near: "t_tail q + c < period c k" and t: "t \<le> t_tail q"
  shows "enc c k t = enc_turn c k (t_turn q (t mod c)) \<longleftrightarrow> t_turn q (t mod c) = Ready t"
    "enc_turn c k (t_turn q (t mod c)) = enc c k t \<longleftrightarrow> t_turn q (t mod c) = Ready t"
    "enc_turn c k (t_turn q (t mod c)) + 2 ^ k = enc c k t + 1 \<longleftrightarrow> (\<exists>p. t_turn q (t mod c) = Filled p \<and> p + c = t)"
    "enc c k t + 1 = enc_turn c k (t_turn q (t mod c)) \<longleftrightarrow> t_turn q (t mod c) = Filled t"
proof -
  have n1: "t + c < period c k" using t near by simp
  have n2: "p mod c = t mod c \<and> p < period c k" if "t_turn q (t mod c) = Ready p" for p
    using slot_turn(1) [OF inv that] near by simp
  have n3: "p mod c = t mod c \<and> p + c < period c k" if "t_turn q (t mod c) = Filled p" for p
    using slot_turn(2) [OF inv that] near by simp
  show "enc c k t = enc_turn c k (t_turn q (t mod c)) \<longleftrightarrow> t_turn q (t mod c) = Ready t"
    "enc_turn c k (t_turn q (t mod c)) = enc c k t \<longleftrightarrow> t_turn q (t mod c) = Ready t"
    "enc_turn c k (t_turn q (t mod c)) + 2 ^ k = enc c k t + 1 \<longleftrightarrow> (\<exists>p. t_turn q (t mod c) = Filled p \<and> p + c = t)"
    "enc c k t + 1 = enc_turn c k (t_turn q (t mod c)) \<longleftrightarrow> t_turn q (t mod c) = Filled t"
    by (rule stamp_compare [OF r n1 n2 n3]; assumption)+
qed

lemma tick_of:
  assumes r: "ring c k" and inv: "tq_inv c (q, pcs) cont L stat" and near: "t_tail q + c < period c k"
  shows "aq_tick sp (aq_of c k q) (pc_of c k (pcs i)) =
    (case tq_tick c sp q (pcs i) of (q', pc') \<Rightarrow> (aq_of c k q', pc_of c k pc'))"
proof -
  note d = tq_invD [OF inv] and ok = tq_invD(7) [OF inv, of i]
  have i: "t mod c < c" for t using d(1) by simp
  note cmp = stamp_tests [OF r inv near]
  have eq: "enc c k p = enc c k p' \<longleftrightarrow> p = p'" if "p \<le> t_tail q + c" "p' \<le> t_tail q + c" for p p'
    using that near by (intro enc_eq_iff [OF r]) auto
  have fulls: "enc c k (t_head q) + 2 ^ k = enc c k t \<longleftrightarrow> t_head q + c = t" if "t \<le> t_tail q" for t
    using eq [of "t_head q + c" t] that d(2) by (simp add: enc_add_lap [OF r])
  have lap: "enc c k h + 2 ^ k = enc c k (h + c)" for h by (simp add: enc_add_lap [OF r])
  have bk: "enc c k t - 2 ^ k = enc c k (t - c)" if "c \<le> t" for t
    using that by (simp add: enc_sub_lap [OF r])
  note ofs = aq_of_index [OF r] aq_of_next [OF r] aq_of_head aq_of_tail aq_of_val aq_of_stamp
  show ?thesis
  proof (cases "pcs i")
    case (LoadStamp f v t)
    with ok have t: "t \<le> t_tail q" by simp
    show ?thesis
      using LoadStamp i cmp [OF t]
      by (cases "t_turn q (t mod c)") (auto simp: aq_tick_def ofs Let_def aq_full_def)
  next
    case (PopLoadStamp h)
    with ok d(2) have h: "h \<le> t_tail q" by simp
    show ?thesis
      using PopLoadStamp i cmp [OF h]
      by (cases "t_turn q (h mod c)") (auto simp: aq_tick_def ofs Let_def)
  next
    case (CasHead v t)
    with ok have t: "t \<le> t_tail q" "c \<le> t" by simp_all
    then show ?thesis
      using CasHead eq [of "t_head q" "t - c"] d(2) bk [of t] bk [of "Suc t"]
      by (simp add: aq_tick_def ofs Let_def)
  qed (use ok d(2) i eq fulls lap in \<open>auto simp: aq_tick_def ofs Let_def split: option.splits\<close>)
qed

section \<open>Whole runs\<close>

lemma pc_of_start [simp]: "pc_of c k (aq_start oper) = aq_start oper"
  by (cases oper) simp_all

lemma tick_tail:
  "pc_ok c q cont L pc stat \<Longrightarrow> t_tail (fst (tq_tick c sp q pc)) \<le> Suc (t_tail q)"
  by (cases pc) (auto split: turn.splits option.splits)

lemma step_tail:
  assumes "tq_rel c s a"
  shows "t_tail (fst (sys_step (tq_tick c) e s)) \<le> Suc (t_tail (fst s))"
proof -
  obtain q pcs where s: "s = (q, pcs)" by fastforce
  from assms obtain cont L where "tq_inv c (q, pcs) cont L (snd a)" by (auto simp: tq_rel_def s)
  note tick = tick_tail [OF tq_invD(7) [OF this]]
  show ?thesis
  proof (cases e)
    case (Tick i sp)
    from tick [of sp i] show ?thesis by (simp add: s Tick Let_def split_beta)
  qed (auto simp: s split: aq_pc.splits)
qed

lemma step_of:
  assumes r: "ring c k" and rel: "tq_rel c s a" and near: "t_tail (fst s) + c < period c k"
  shows "aq_step e (sys_of c k s) = sys_of c k (sys_step (tq_tick c) e s)"
    "sys_label e (sys_of c k s) = sys_label e s"
proof -
  obtain q pcs where s: "s = (q, pcs)" by fastforce
  from rel obtain cont L where inv: "tq_inv c (q, pcs) cont L (snd a)" by (auto simp: tq_rel_def s)
  show "aq_step e (sys_of c k s) = sys_of c k (sys_step (tq_tick c) e s)"
  proof (cases e)
    case (Tick i sp)
    have "t_tail q + c < period c k" using near s by simp
    from tick_of [OF r inv this, of sp i] show ?thesis
      by (auto simp: Tick s sys_of_def fun_eq_iff split: prod.splits)
  next
    case (Call i oper)
    then show ?thesis by (cases "pcs i") (auto simp: s sys_of_def fun_eq_iff)
  next
    case (Ret i)
    then show ?thesis by (cases "pcs i") (auto simp: s sys_of_def fun_eq_iff)
  qed
  show "sys_label e (sys_of c k s) = sys_label e s"
  proof (cases e)
    case (Call i oper)
    then show ?thesis by (cases "pcs i") (auto simp: s sys_of_def)
  next
    case (Ret i)
    then show ?thesis by (cases "pcs i") (auto simp: s sys_of_def aq_ret.map_id)
  qed (simp add: s sys_of_def)
qed

lemma run_of:
  assumes r: "ring c k"
  shows "tq_rel c s a \<Longrightarrow> t_tail (fst s) + length es + c < period c k \<Longrightarrow>
    impl_run aq_step es (sys_of c k s) = sys_of c k (impl_run (sys_step (tq_tick c)) es s) \<and>
    impl_trace aq_step sys_label es (sys_of c k s) = impl_trace (sys_step (tq_tick c)) sys_label es s"
proof (induction es arbitrary: s a)
  case (Cons e es)
  from tqs.simulate [OF Cons.prems(1), of e] obtain b where b: "tq_rel c (sys_step (tq_tick c) e s) b" by blast
  have "t_tail (fst s) + c < period c k" using Cons.prems(2) by simp
  note st = step_of [OF r Cons.prems(1) this, of e]
  have "t_tail (fst (sys_step (tq_tick c) e s)) + length es + c < period c k"
    using step_tail [OF Cons.prems(1), of e] Cons.prems(2) by simp
  from Cons.IH [OF b this] st show ?case by simp
qed simp

definition tq_init :: "'a tq" where
  "tq_init = \<lparr>t_head = 0, t_tail = 0, t_turn = Ready, t_val = (\<lambda>_. None)\<rparr>"

lemma tq_rel_init: "0 < c \<Longrightarrow> tq_rel c (tq_init, \<lambda>_. Idle) ([], \<lambda>_. Quiet)"
  unfolding tq_rel_def
  by (intro exI [of _ "\<lambda>_. undefined"] exI [of _ 0]) (simp add: tq_inv_def tq_init_def slot_ok_def Let_def)

lemma aq_new_of:
  assumes "aq_new slot_size cap = Ok q"
  obtains k where "ring (unat cap) k" "q = aq_of (unat cap) k tq_init"
    "\<And>n. n < 2 ^ 62 \<Longrightarrow> n + unat cap < period (unat cap) k"
proof -
  from assms obtain k where k: "ring (unat cap) k" "2 ^ k \<le> 2 * unat cap"
    and q: "q = \<lparr>aq_head = 0, aq_tail = 0,
      aq_buffer = map (\<lambda>i. \<lparr>stamp = word_of_nat i, slot_value = None\<rparr>) [0..<unat cap], aq_one_lap = 2 ^ k\<rparr>"
    by (rule aq_new_shape)
  have "q = aq_of (unat cap) k tq_init"
    by (simp add: q aq_of_def tq_init_def enc_def)
  moreover have "n + unat cap < period (unat cap) k" if "n < 2 ^ 62" for n
    using that period_large [OF k] period_gt_cap [OF k(1)] by simp
  ultimately show thesis using k(1) that by blast
qed

section \<open>Linearizability\<close>

lemma aq_run_of:
  assumes "aq_new slot_size cap = Ok q" "length es < 2 ^ 62"
  obtains k where "ring (unat cap) k"
    "(q, \<lambda>_. Idle) = sys_of (unat cap) k (tq_init, \<lambda>_. Idle)"
    "impl_run aq_step es (q, \<lambda>_. Idle) =
       sys_of (unat cap) k (impl_run (sys_step (tq_tick (unat cap))) es (tq_init, \<lambda>_. Idle))"
    "impl_trace aq_step sys_label es (q, \<lambda>_. Idle) =
       impl_trace (sys_step (tq_tick (unat cap))) sys_label es (tq_init, \<lambda>_. Idle)"
proof -
  from aq_new_of [OF assms(1)] obtain k where k: "ring (unat cap) k" "q = aq_of (unat cap) k tq_init"
    "\<And>n. n < 2 ^ 62 \<Longrightarrow> n + unat cap < period (unat cap) k" by blast
  have c: "0 < unat cap" using k(1) by (simp add: ring_def)
  have init: "(q, \<lambda>_. Idle) = sys_of (unat cap) k (tq_init, \<lambda>_. Idle)"
    by (simp add: sys_of_def k(2))
  have "t_tail (fst (tq_init, \<lambda>_. Idle :: (nat, 'a) aq_pc)) + length es + unat cap < period (unat cap) k"
    using k(3) [OF assms(2)] by (simp add: tq_init_def)
  from run_of [OF k(1) tq_rel_init [OF c] this] show thesis
    using that [OF k(1) init] unfolding init [symmetric] by blast
qed

text \<open>
  C1: \<^verbatim>\<open>ArrayQueue\<close> is linearizable. Whatever calls of \<^verbatim>\<open>push\<close>,
  \<^verbatim>\<open>force_push\<close> and \<^verbatim>\<open>pop\<close> any number of threads make on a queue
  just built by \<^verbatim>\<open>new\<close>, and however their atomic accesses interleave and their weak
  compare-exchanges fail, the calls and results that can be seen are those of a bounded first-in
  first-out queue on which each call acts at one instant between its invocation and its return.
  The bound on the number of events keeps the 64-bit stamps from wrapping around completely.
\<close>

theorem aq_linearizable:
  assumes "aq_new slot_size cap = Ok q" "length es < 2 ^ 62"
  shows "\<exists>b. ao_run (aq_spec_ok (unat cap)) ([], \<lambda>_. Quiet)
    (impl_trace aq_step sys_label es (q, \<lambda>_. Idle)) b"
proof -
  from aq_run_of [OF assms] obtain k where k: "ring (unat cap) k"
    "impl_trace aq_step sys_label es (q, \<lambda>_. Idle) =
       impl_trace (sys_step (tq_tick (unat cap))) sys_label es (tq_init, \<lambda>_. Idle)" by blast
  then have "0 < unat cap" by (simp add: ring_def)
  from tqs.linearizable [OF tq_rel_init [OF this], of es] show ?thesis
    unfolding k(2) .
qed

text \<open>The slot whose value the next tick of a thread accesses, if any.\<close>

fun value_access :: "'a array_queue \<Rightarrow> (u64, 'a) aq_pc \<Rightarrow> nat option" where
  "value_access q (WriteVal f v t) = Some (aq_slot_index q t)"
| "value_access q (SwapVal v t) = Some (aq_slot_index q t)"
| "value_access q (PopRead t) = Some (aq_slot_index q t)"
| "value_access q pc = None"

lemma value_access_claim:
  "ring c k \<Longrightarrow> value_access (aq_of c k q) (pc_of c k pc) = Some j \<Longrightarrow>
     \<exists>p. claim c pc = Some p \<and> j = p mod c"
  by (cases pc) (auto simp: aq_of_index)

lemma aq_run_inv:
  assumes "aq_new slot_size cap = Ok q" "length es < 2 ^ 62"
  obtains k tq pcs cont L stat where "ring (unat cap) k"
    "impl_run aq_step es (q, \<lambda>_. Idle) = (aq_of (unat cap) k tq, \<lambda>i. pc_of (unat cap) k (pcs i))"
    "tq_inv (unat cap) (tq, pcs) cont L stat"
proof -
  from aq_run_of [OF assms] obtain k where k: "ring (unat cap) k"
    "impl_run aq_step es (q, \<lambda>_. Idle) =
       sys_of (unat cap) k (impl_run (sys_step (tq_tick (unat cap))) es (tq_init, \<lambda>_. Idle))" by blast
  then have "0 < unat cap" by (simp add: ring_def)
  from tqs.related.run_inv [of "unat cap" "(tq_init, \<lambda>_. Idle)" es] tq_rel_init [OF this]
  have "\<exists>a. tq_rel (unat cap) (impl_run (sys_step (tq_tick (unat cap))) es (tq_init, \<lambda>_. Idle :: (nat, 'a) aq_pc)) a"
    by blast
  moreover obtain tq pcs where
    s: "impl_run (sys_step (tq_tick (unat cap))) es (tq_init, \<lambda>_. Idle :: (nat, 'a) aq_pc) = (tq, pcs)" by fastforce
  ultimately obtain cont L stat where "tq_inv (unat cap) (tq, pcs) cont L stat"
    by (auto simp: tq_rel_def)
  then show thesis using k s by (intro that [of k tq pcs cont L stat]) (auto simp: sys_of_def)
qed

text \<open>
  C4: no undefined behaviour. However the threads are scheduled, no operation of
  \<^verbatim>\<open>ArrayQueue\<close> indexes the buffer out of range or reads a slot that holds no value.
\<close>

theorem aq_never_undefined:
  assumes "aq_new slot_size cap = Ok q" "length es < 2 ^ 62"
  shows "snd (impl_run aq_step es (q, \<lambda>_. Idle)) i \<noteq> Undefined"
proof -
  from aq_run_inv [OF assms] obtain k tq pcs cont L stat where
    s: "impl_run aq_step es (q, \<lambda>_. Idle) = (aq_of (unat cap) k tq, \<lambda>i. pc_of (unat cap) k (pcs i))"
      "tq_inv (unat cap) (tq, pcs) cont L stat" by metis
  from tq_invD(7) [OF s(2), of i] show ?thesis by (cases "pcs i") (auto simp: s(1))
qed

text \<open>
  C5: no data race. Two different threads are never both about to access the value of the same
  slot, so the plain (non-atomic) reads and writes of values do not conflict.
\<close>

theorem aq_no_data_race:
  assumes "aq_new slot_size cap = Ok q" "length es < 2 ^ 62"
    and "impl_run aq_step es (q, \<lambda>_. Idle) = (q', pcs)" "i \<noteq> j"
    and "value_access q' (pcs i) = Some m" "value_access q' (pcs j) = Some n"
  shows "m \<noteq> n"
proof
  assume eq: "m = n"
  from aq_run_inv [OF assms(1,2)] obtain k tq tpcs cont L stat where k: "ring (unat cap) k" and
    s: "q' = aq_of (unat cap) k tq" "pcs = (\<lambda>i. pc_of (unat cap) k (tpcs i))" and
    inv: "tq_inv (unat cap) (tq, tpcs) cont L stat" using assms(3) by (metis prod.inject)
  note d = tq_invD [OF inv]
  from value_access_claim [OF k] assms(5,6) s obtain a b where
    a: "claim (unat cap) (tpcs i) = Some a" "m = a mod unat cap" and
    b: "claim (unat cap) (tpcs j) = Some b" "n = b mod unat cap" by metis
  have "a = b"
    using window_slot_eq_iff claim_window [OF d(7) a(1) d(2-4)] claim_window [OF d(7) b(1) d(2-4)] eq a(2) b(2)
    by metis
  with d(8) a(1) b(1) assms(4) show False by blast
qed

section \<open>Operations running alone\<close>

primrec aq_solo :: "nat \<Rightarrow> 'a array_queue \<Rightarrow> (u64, 'a) aq_pc \<Rightarrow> ('a aq_ret \<times> 'a array_queue) option" where
  "aq_solo 0 q pc = (case pc of Finished r \<Rightarrow> Some (r, q) | _ \<Rightarrow> None)"
| "aq_solo (Suc n) q pc =
     (case pc of
        Finished r \<Rightarrow> Some (r, q)
      | _ \<Rightarrow> let (q', pc') = aq_tick False q pc in aq_solo n q' pc')"

lemma aq_rep_stamps:
  assumes "aq_rep k H T xs q"
  shows "H < T \<Longrightarrow> stamp (aq_buffer q ! (H mod aq_capacity q)) = aq_head q + 1"
    "T < H + aq_capacity q \<Longrightarrow> stamp (aq_buffer q ! (T mod aq_capacity q)) = aq_tail q"
    "T = H + aq_capacity q \<Longrightarrow> stamp (aq_buffer q ! (T mod aq_capacity q)) + aq_one_lap q = aq_tail q + 1"
    "T = H \<Longrightarrow> stamp (aq_buffer q ! (H mod aq_capacity q)) = aq_head q"
  using assms aq_windowD [OF aq_rep_window [OF assms]]
  by (auto simp: aq_rep_def enc_add_lap)

text \<open>One tick each, on a queue that nobody else is using.\<close>

lemma aq_solo_more: "aq_solo n q pc = Some x \<Longrightarrow> aq_solo (Suc n) q pc = Some x"
proof (induction n arbitrary: q pc)
  case (Suc n)
  then show ?case by (cases pc) (auto simp: split_beta Let_def)
qed (simp split: aq_pc.splits)

lemma slot_rebuilt: "s\<lparr>slot_value := v, stamp := st\<rparr> = \<lparr>stamp = st, slot_value = v\<rparr>"
  by (cases s) simp

lemma aq_put_pushed:
  assumes "aq_window k H T xs q"
  shows "aq_put (T mod aq_capacity q) (\<lambda>s. s\<lparr>stamp := aq_tail q + 1\<rparr>)
      (aq_put (T mod aq_capacity q) (\<lambda>s. s\<lparr>slot_value := Some v\<rparr>)
        (q\<lparr>aq_tail := enc (aq_capacity q) k (Suc T)\<rparr>)) = aq_pushed k T v q"
  using aq_index_in_buffer [OF assms, of T]
  by (simp add: slot_rebuilt aq_put_def aq_pushed_def)

lemma aq_put_popped:
  assumes "aq_window k H T xs q"
  shows "aq_put (H mod aq_capacity q) (\<lambda>s. s\<lparr>stamp := st\<rparr>)
      (aq_put (H mod aq_capacity q) (\<lambda>s. s\<lparr>slot_value := None\<rparr>)
        (q\<lparr>aq_head := enc (aq_capacity q) k (Suc H)\<rparr>)) = aq_popped k H st q"
  using aq_index_in_buffer [OF assms, of H]
  by (simp add: slot_rebuilt aq_put_def aq_popped_def)

lemma aq_put_fields [simp]:
  "aq_head (aq_put i f q) = aq_head q" "aq_tail (aq_put i f q) = aq_tail q"
  "aq_one_lap (aq_put i f q) = aq_one_lap q" "aq_capacity (aq_put i f q) = aq_capacity q"
  "aq_slot_index (aq_put i f q) t = aq_slot_index q t"
  "aq_slot_index (q\<lparr>aq_head := w\<rparr>) t = aq_slot_index q t"
  "aq_slot_index (q\<lparr>aq_tail := w\<rparr>) t = aq_slot_index q t"
  "aq_next (q\<lparr>aq_head := w\<rparr>) t = aq_next q t"
  by (simp_all add: aq_put_def aq_capacity_def aq_slot_index_def aq_next_def)

lemma aq_solo_put:
  assumes rep: "aq_rep k H T xs q" and room: "T < H + aq_capacity q"
  shows "aq_solo 5 q (LoadTail f v) = Some (put_ret f, aq_pushed k T v q)"
proof -
  note win = aq_rep_window [OF rep]
  have "stamp (aq_buffer q ! aq_slot_index q (aq_tail q)) = aq_tail q" "aq_slot_index q (aq_tail q) < length (aq_buffer q)"
    using aq_rep_stamps(2) [OF rep room] aq_index_in_buffer [OF win, of T]
    by (simp_all add: aq_slot_index_def aq_window_index [OF win])
  then have "aq_solo 5 q (LoadTail f v) =
    Some (put_ret f, aq_put (aq_slot_index q (aq_tail q)) (\<lambda>s. s\<lparr>stamp := aq_tail q + 1\<rparr>)
      (aq_put (aq_slot_index q (aq_tail q)) (\<lambda>s. s\<lparr>slot_value := Some v\<rparr>)
        (q\<lparr>aq_tail := aq_next q (aq_tail q)\<rparr>)))"
    by (simp add: eval_nat_numeral aq_tick_def Let_def)
  then show ?thesis
    by (simp add: aq_slot_index_def aq_next_def aq_window_index [OF win] aq_window_next [OF win] aq_put_pushed [OF win])
qed

lemma aq_solo_full:
  assumes rep: "aq_rep k H T xs q" and full: "T = H + aq_capacity q"
  shows "aq_solo (Suc (Suc n)) q (LoadTail f v) = aq_solo n q (aq_full f (aq_tail q) v)"
proof -
  note win = aq_rep_window [OF rep]
  let ?st = "stamp (aq_buffer q ! aq_slot_index q (aq_tail q))"
  have st: "?st + aq_one_lap q = aq_tail q + 1" "aq_slot_index q (aq_tail q) < length (aq_buffer q)"
    using aq_rep_stamps(3) [OF rep full] aq_index_in_buffer [OF win, of T]
    by (simp_all add: aq_slot_index_def aq_window_index [OF win])
  have "?st = enc (aq_capacity q) k H + 1"
    using rep full aq_windowD(8) [OF win] by (simp add: aq_rep_def aq_slot_index_def aq_window_index [OF win])
  then have "aq_tail q \<noteq> ?st"
    using enc_Suc_neq [OF aq_windowD(1) [OF win], of H T] full aq_windowD(6) [OF win] by auto
  with st show ?thesis by (simp add: aq_tick_def Let_def)
qed

text \<open>
  C9: \<^verbatim>\<open>push\<close> on a shared reference, when no other thread uses the queue, returns
  after at most five accesses, with the result and the effect of \<^verbatim>\<open>push_mut\<close>.
\<close>

lemma aq_alone_push:
  assumes "aq_wf q"
  shows "aq_solo 5 q (aq_start (OpPush v)) = map_option (\<lambda>(r, q'). (PushRet r, q')) (aq_push_mut v q)"
proof -
  from assms obtain k H T where rep: "aq_rep k H T (aq_contents q) q" by (rule aq_wfE)
  note win = aq_rep_window [OF rep]
  show ?thesis
  proof (cases "T = H + aq_capacity q")
    case True
    have "aq_solo (Suc (Suc 3)) q (LoadTail False v) = Some (PushRet (Err v), q)"
      using aq_window_compare(3) [OF win] True
      by (subst aq_solo_full [OF rep True]) (simp add: aq_full_def eval_nat_numeral aq_tick_def)
    then show ?thesis by (simp add: aq_push_mut_full [OF win True])
  next
    case False
    with aq_windowD(4) [OF win] have room: "T < H + aq_capacity q" by simp
    then show ?thesis by (simp add: aq_solo_put [OF rep room] aq_push_mut_ok [OF win room])
  qed
qed

text \<open>
  C10: \<^verbatim>\<open>pop\<close> on a shared reference, when no other thread uses the queue, returns
  after at most five accesses, with the result and the effect of \<^verbatim>\<open>pop_mut\<close>.
\<close>

lemma aq_alone_pop:
  assumes "aq_wf q"
  shows "aq_solo 5 q (aq_start OpPop) = map_option (\<lambda>(r, q'). (PopRet r, q')) (aq_pop_mut q)"
proof -
  from assms obtain k H T where rep: "aq_rep k H T (aq_contents q) q" by (rule aq_wfE)
  note win = aq_rep_window [OF rep]
  let ?i = "aq_slot_index q (aq_head q)"
  have ix: "?i = H mod aq_capacity q" "?i < length (aq_buffer q)"
    using aq_index_in_buffer [OF win] by (simp_all add: aq_slot_index_def aq_window_index [OF win])
  show ?thesis
  proof (cases "T = H")
    case True
    have "stamp (aq_buffer q ! ?i) = aq_head q" using aq_rep_stamps(4) [OF rep True] ix by simp
    with ix(2) True aq_window_compare(1) [OF win] have "aq_solo 5 q PopLoadHead = Some (PopRet None, q)"
      by (simp add: eval_nat_numeral aq_tick_def Let_def)
    then show ?thesis by (simp add: aq_pop_mut_empty [OF win True])
  next
    case False
    with aq_windowD(3) [OF win] have ne: "H < T" by simp
    have "stamp (aq_buffer q ! ?i) = aq_head q + 1" using aq_rep_stamps(1) [OF rep ne] ix by simp
    moreover have "slot_value (aq_buffer q ! ?i) = Some (hd (aq_contents q))"
      using aq_window_hd(1) [OF win ne] ix(1) by simp
    ultimately have "aq_solo 5 q PopLoadHead = Some (PopRet (Some (hd (aq_contents q))),
      aq_put ?i (\<lambda>s. s\<lparr>stamp := aq_head q + aq_one_lap q\<rparr>)
        (aq_put ?i (\<lambda>s. s\<lparr>slot_value := None\<rparr>) (q\<lparr>aq_head := aq_next q (aq_head q)\<rparr>)))"
      using ix(2) by (simp add: eval_nat_numeral aq_tick_def Let_def)
    then show ?thesis
      by (simp add: ix(1) aq_pop_mut_some [OF win ne] aq_put_popped [OF win] aq_window_next [OF win] aq_next_def)
  qed
qed

lemma aq_solo_force_full:
  assumes rep: "aq_rep k H T xs q" and full: "T = H + aq_capacity q"
  shows "aq_solo 6 q (LoadTail True v) =
    Some (ForceRet (Some (hd xs)), aq_pushed k T v (aq_popped k H (aq_head q + aq_one_lap q) q))"
proof -
  note win = aq_rep_window [OF rep]
  note d = aq_windowD [OF win]
  let ?c = "aq_capacity q" and ?i = "aq_slot_index q (aq_tail q)"
  have ne: "H < T" using full d(8) by simp
  have ix: "?i = T mod ?c" "H mod ?c = T mod ?c" "?i < length (aq_buffer q)"
    using aq_index_in_buffer [OF win] full by (simp_all add: aq_slot_index_def aq_window_index [OF win])
  have nx: "aq_next q (aq_tail q) = enc ?c k (Suc T)" by (simp add: aq_next_def aq_window_next [OF win])
  have "enc ?c k (Suc H) = enc ?c k (Suc T) - aq_one_lap q"
    using enc_add_lap [OF d(1), of "Suc H"] full d(2) by simp
  moreover have "aq_head q = aq_tail q - aq_one_lap q"
    using aq_window_compare(3) [OF win] full by (metis add_diff_cancel_right')
  moreover have "slot_value (aq_buffer q ! ?i) = Some (hd xs)"
    using aq_window_hd(1) [OF win ne] ix by simp
  ultimately have "aq_solo (Suc (Suc 4)) q (LoadTail True v) = Some (ForceRet (Some (hd xs)),
    aq_put ?i (\<lambda>s. s\<lparr>stamp := aq_tail q + 1\<rparr>) (aq_put ?i (\<lambda>s. s\<lparr>slot_value := Some v\<rparr>)
      (q\<lparr>aq_head := enc ?c k (Suc H), aq_tail := enc ?c k (Suc T)\<rparr>)))"
    using ix(3) by (subst aq_solo_full [OF rep full])
      (simp add: aq_full_def eval_nat_numeral aq_tick_def Let_def nx)
  moreover have "aq_put ?i (\<lambda>s. s\<lparr>stamp := aq_tail q + 1\<rparr>) (aq_put ?i (\<lambda>s. s\<lparr>slot_value := Some v\<rparr>)
      (q\<lparr>aq_head := enc ?c k (Suc H), aq_tail := enc ?c k (Suc T)\<rparr>)) =
      aq_pushed k T v (aq_popped k H (aq_head q + aq_one_lap q) q)"
    using ix by (simp add: slot_rebuilt aq_put_def aq_pushed_def aq_popped_def)
  ultimately show ?thesis by simp
qed

text \<open>
  \<^verbatim>\<open>force_push\<close>, when no other thread uses the queue, returns after at most six
  accesses. On a queue with room it is \<^verbatim>\<open>push_mut\<close>; on a full one it is
  \<^verbatim>\<open>pop_mut\<close> followed by \<^verbatim>\<open>push_mut\<close>, and returns the oldest element.
\<close>

lemma aq_alone_force_push:
  assumes "aq_wf q"
  shows "aq_solo 6 q (aq_start (OpForce v)) =
    (if aq_is_full q then
       (case aq_pop_mut q of
          None \<Rightarrow> None
        | Some (old, q') \<Rightarrow> map_option (\<lambda>(r, q''). (ForceRet old, q'')) (aq_push_mut v q'))
     else map_option (\<lambda>(r, q'). (ForceRet None, q')) (aq_push_mut v q))"
proof -
  from assms obtain k H T where rep: "aq_rep k H T (aq_contents q) q" by (rule aq_wfE)
  note win = aq_rep_window [OF rep]
  show ?thesis
  proof (cases "T = H + aq_capacity q")
    case True
    then have ne: "H < T" using aq_windowD(8) [OF win] by simp
    let ?q = "aq_popped k H (aq_head q + aq_one_lap q) q"
    have "aq_window k (Suc H) T (tl (aq_contents q)) ?q" by (rule aq_window_popped [OF win ne])
    moreover have "T < Suc H + aq_capacity ?q" using True by (simp add: aq_popped_def)
    ultimately have "aq_push_mut v ?q = Some (Ok (), aq_pushed k T v ?q)" by (rule aq_push_mut_ok)
    with True show ?thesis
      by (simp add: aq_solo_force_full [OF rep True] aq_pop_mut_some [OF win ne] aq_is_full_def Let_def
          aq_window_compare(3) [OF win])
  next
    case False
    with aq_windowD(4) [OF win] have room: "T < H + aq_capacity q" by simp
    have "aq_solo (Suc 5) q (LoadTail True v) = Some (ForceRet None, aq_pushed k T v q)"
      using aq_solo_more [OF aq_solo_put [OF rep room, of True v]] by simp
    with False show ?thesis
      by (simp add: aq_push_mut_ok [OF win room] aq_is_full_def Let_def aq_window_compare(3) [OF win])
  qed
qed

text \<open>
  C10: the shared operations agree with the exclusive ones. When no other thread uses the queue, \<^verbatim>\<open>push\<close> and
  \<^verbatim>\<open>pop\<close> return after at most five accesses and \<^verbatim>\<open>force_push\<close> after at most six, with the result and the
  queue of \<^verbatim>\<open>push_mut\<close> and \<^verbatim>\<open>pop_mut\<close>; on a full queue \<^verbatim>\<open>force_push\<close> is \<^verbatim>\<open>pop_mut\<close>
  followed by \<^verbatim>\<open>push_mut\<close>.
\<close>

theorem aq_solo_agrees:
  assumes "aq_wf q"
  shows "aq_solo 5 q (aq_start (OpPush v)) = map_option (\<lambda>(r, q'). (PushRet r, q')) (aq_push_mut v q) \<and>
    aq_solo 5 q (aq_start OpPop) = map_option (\<lambda>(r, q'). (PopRet r, q')) (aq_pop_mut q) \<and>
    aq_solo 6 q (aq_start (OpForce v)) =
      (if aq_is_full q then
         (case aq_pop_mut q of
            None \<Rightarrow> None
          | Some (old, q') \<Rightarrow> map_option (\<lambda>(r, q''). (ForceRet old, q'')) (aq_push_mut v q'))
       else map_option (\<lambda>(r, q'). (ForceRet None, q')) (aq_push_mut v q))"
  by (intro conjI aq_alone_push [OF assms] aq_alone_pop [OF assms] aq_alone_force_push [OF assms])

section \<open>Instances\<close>

text \<open>A schedule in which a push and a pop of two threads interleave.\<close>

definition interleaved :: "nat aq_event list" where
  "interleaved = [Call 0 (OpPush 7), Tick 0 False, Call 1 OpPop, Tick 1 False, Tick 0 False, Tick 0 False,
     Tick 0 False, Tick 1 False, Tick 0 False, Tick 1 False, Tick 1 False, Tick 1 False, Tick 1 False, Tick 1 False,
     Ret 0, Tick 1 False, Tick 1 False, Ret 1]"

lemma interleaved_trace:
  "impl_trace aq_step sys_label interleaved (two_slots, \<lambda>_. Idle) =
     [Invoke 0 (OpPush 7), Invoke 1 OpPop, Return 0 (PushRet (Ok ())), Return 1 (PopRet (Some 7))]"
  by code_simp

lemma interleaved_short: "length interleaved < 2 ^ 62"
  by (simp add: interleaved_def)

theorem aq_linearizable_witness:
  "\<exists>b. ao_run (aq_spec_ok 2) ([], \<lambda>_. Quiet)
    [Invoke 0 (OpPush 7), Invoke 1 OpPop, Return 0 (PushRet (Ok ())), Return 1 (PopRet (Some (7::nat)))] b"
  using aq_linearizable [OF aq_new_two interleaved_short] unfolding interleaved_trace by simp

theorem aq_never_undefined_witness:
  "snd (impl_run aq_step interleaved (two_slots, \<lambda>_. Idle)) 1 \<noteq> Undefined"
  by (rule aq_never_undefined [OF aq_new_two interleaved_short])

text \<open>Two pushes that have both moved the tail and not yet written their values.\<close>

definition two_writers :: "nat aq_event list" where
  "two_writers = [Call 0 (OpPush 7), Call 1 (OpPush 8), Tick 0 False, Tick 0 False, Tick 0 False,
     Tick 1 False, Tick 1 False, Tick 1 False]"

lemma two_writers_state:
  "length two_writers < 2 ^ 62"
  "value_access (fst (impl_run aq_step two_writers (two_slots, \<lambda>_. Idle)))
     (snd (impl_run aq_step two_writers (two_slots, \<lambda>_. Idle)) 0) = Some 0"
  "value_access (fst (impl_run aq_step two_writers (two_slots, \<lambda>_. Idle)))
     (snd (impl_run aq_step two_writers (two_slots, \<lambda>_. Idle)) 1) = Some 1"
  by (simp_all add: two_writers_def two_slots_def aq_tick_def aq_slot_index_def stamp_index_def aq_next_def
      stamp_next_def aq_put_def aq_full_def aq_capacity_def)

theorem aq_no_data_race_witness:
  "\<exists>m n. value_access (fst (impl_run aq_step two_writers (two_slots, \<lambda>_. Idle)))
       (snd (impl_run aq_step two_writers (two_slots, \<lambda>_. Idle)) 0) = Some m \<and>
     value_access (fst (impl_run aq_step two_writers (two_slots, \<lambda>_. Idle)))
       (snd (impl_run aq_step two_writers (two_slots, \<lambda>_. Idle)) 1) = Some n \<and> m \<noteq> n"
proof -
  have "m \<noteq> n" if "value_access (fst (impl_run aq_step two_writers (two_slots, \<lambda>_. Idle)))
       (snd (impl_run aq_step two_writers (two_slots, \<lambda>_. Idle)) 0) = Some m"
    "value_access (fst (impl_run aq_step two_writers (two_slots, \<lambda>_. Idle)))
       (snd (impl_run aq_step two_writers (two_slots, \<lambda>_. Idle)) 1) = Some n" for m n
    by (rule aq_no_data_race [OF aq_new_two two_writers_state(1) prod.collapse [symmetric] _ that]) simp
  then show ?thesis using two_writers_state(2,3) by blast
qed

theorem aq_solo_witness:
  "aq_solo 5 two_slots (aq_start (OpPush 7)) = map_option (\<lambda>(r, q'). (PushRet r, q')) (aq_push_mut 7 two_slots) \<and>
   aq_solo 6 two_slots (aq_start (OpForce 7)) = map_option (\<lambda>(r, q'). (ForceRet None, q')) (aq_push_mut 7 two_slots)"
proof -
  have "\<not> aq_is_full two_slots" by code_simp
  with aq_solo_agrees [OF two_slots_wf, of 7] show ?thesis by simp
qed

end
