(* ===== verification/Block_Index.thy ===== *)
theory Block_Index
  imports Prelude
begin

text \<open>
  Indices of the block-linked queues (\<^verbatim>\<open>crossbeam-queue/src/seg_queue.rs\<close>,
  \<^verbatim>\<open>crossbeam-channel/src/flavors/list.rs\<close>, and the injector of
  \<^verbatim>\<open>crossbeam-deque/src/deque.rs\<close>). An index counts slots in its upper 63 bits, 32
  slots to a lap of which the last is never used, and keeps one bit of metadata below
  (\<^verbatim>\<open>HAS_NEXT\<close> or \<^verbatim>\<open>MARK_BIT\<close>). \<open>ix p b\<close> is the index of
  the \<open>p\<close>-th element with metadata \<open>b\<close>; the lemmas show what the code's shifts,
  masks, divisions and increments compute on it.
\<close>

definition WRITE :: usize where "WRITE = 1"
definition READ :: usize where "READ = 2"
definition DESTROY :: usize where "DESTROY = 4"
definition LAP :: u64 where "LAP = 32"
definition BLOCK_CAP :: nat where "BLOCK_CAP = unat LAP - 1"
definition SHIFT :: nat where "SHIFT = 1"
definition HAS_NEXT :: u64 where "HAS_NEXT = 1"

text \<open>\<^verbatim>\<open>((i >> SHIFT) % LAP) as usize\<close> and \<^verbatim>\<open>(i >> SHIFT) / LAP\<close>.\<close>

definition offset_of :: "u64 \<Rightarrow> nat" where
  "offset_of i = unat (drop_bit SHIFT i mod LAP)"

definition lap_of :: "u64 \<Rightarrow> u64" where
  "lap_of i = drop_bit SHIFT i div LAP"

lemma BLOCK_CAP_eq [simp]: "BLOCK_CAP = 31"
  by (simp add: BLOCK_CAP_def LAP_def)

section \<open>Positions\<close>

definition lin :: "nat \<Rightarrow> nat" where
  "lin p = p div 31 * 32 + p mod 31"

definition ix :: "nat \<Rightarrow> bool \<Rightarrow> u64" where
  "ix p b = word_of_nat (2 * lin p + of_bool b)"

text \<open>
  Element numbers for which the index does not wrap around. A queue that reaches the bound has
  been given more than \<open>10 ^ 18\<close> elements.
\<close>

definition near :: "nat \<Rightarrow> bool" where
  "near p \<longleftrightarrow> p < 2 ^ 60"

lemma near_mono: "near q \<Longrightarrow> p \<le> q \<Longrightarrow> near p"
  by (simp add: near_def)

lemma lin_bound: "near p \<Longrightarrow> lin p < 2 ^ 61"
proof -
  assume "near p"
  moreover have "p div 31 * 32 \<le> p div 31 * 31 + p" by (simp add: div_le_dividend mult.commute [of _ 32])
  moreover have "p div 31 * 31 + p mod 31 = p" by simp
  ultimately show ?thesis by (simp add: lin_def near_def)
qed

lemma unat_ix: "near p \<Longrightarrow> unat (ix p b) = 2 * lin p + of_bool b"
proof -
  assume "near p"
  then have "2 * lin p + of_bool b < 2 ^ LENGTH(64)" using lin_bound [of p] by (simp add: of_bool_def)
  then show ?thesis unfolding ix_def by (simp only: unat_of_nat mod_less)
qed

lemma lin_Suc:
  "lin (Suc p) = (if p mod 31 + 1 = 31 then lin p + 2 else lin p + 1)"
proof (cases "p mod 31 + 1 = 31")
  case True
  then have "Suc p mod 31 = 0" "Suc p div 31 = Suc (p div 31)" by (simp_all add: mod_Suc div_Suc)
  with True show ?thesis by (simp add: lin_def)
next
  case False
  then have "Suc p mod 31 = Suc (p mod 31)" "Suc p div 31 = p div 31" by (simp_all add: mod_Suc div_Suc)
  with False show ?thesis by (simp add: lin_def)
qed

lemma lin_split: "lin p mod 32 = p mod 31" "lin p div 32 = p div 31"
proof -
  have "p mod 31 < 32" by (rule less_trans [of _ 31]) simp_all
  then show "lin p mod 32 = p mod 31" "lin p div 32 = p div 31"
    by (simp_all add: lin_def)
qed

lemma lin_eq_iff: "lin p = lin q \<longleftrightarrow> p = q"
  by (metis lin_split div_mod_decomp)

lemma shift_ix: "near p \<Longrightarrow> unat (drop_bit SHIFT (ix p b)) = lin p"
  by (simp add: unat_drop_bit_eq unat_ix SHIFT_def drop_bit_Suc unat_div)

lemma offset_ix [simp]: "near p \<Longrightarrow> offset_of (ix p b) = p mod 31"
  by (simp add: offset_of_def unat_mod shift_ix LAP_def lin_split)

lemma shift_ix_eq [simp]:
  "near p \<Longrightarrow> near q \<Longrightarrow> drop_bit SHIFT (ix p b) = drop_bit SHIFT (ix q d) \<longleftrightarrow> p = q"
  by (metis shift_ix lin_eq_iff word_unat_eq_iff)

lemma lap_ix_eq [simp]:
  "near p \<Longrightarrow> near q \<Longrightarrow> lap_of (ix p b) = lap_of (ix q d) \<longleftrightarrow> p div 31 = q div 31"
  by (simp add: word_unat_eq_iff lap_of_def unat_div shift_ix LAP_def lin_split)

lemma ix_add_2: "ix p b + 2 = word_of_nat (2 * (lin p + 1) + of_bool b)"
  by (simp add: ix_def)

lemma ix_next:
  "p mod 31 \<noteq> 30 \<Longrightarrow> ix p b + 2 = ix (Suc p) b"
  "p mod 31 = 30 \<Longrightarrow> ix p b + 2 + 2 = ix (Suc p) b"
  by (simp add: ix_add_2, simp add: ix_def lin_Suc) (simp add: ix_def lin_Suc)

lemma ix_next_simps [simp]:
  "p mod 31 \<noteq> 30 \<Longrightarrow> ix p b + 2 = ix (Suc p) b" "p mod 31 \<noteq> 30 \<Longrightarrow> 2 + ix p b = ix (Suc p) b"
  "p mod 31 = 30 \<Longrightarrow> ix p b + 4 = ix (Suc p) b" "p mod 31 = 30 \<Longrightarrow> 4 + ix p b = ix (Suc p) b"
  using ix_next [of p b] by (simp_all add: add.commute)

lemma two_pow_SHIFT [simp]: "2 ^ SHIFT = (2 :: u64)" "push_bit SHIFT 2 = (4 :: u64)"
  by (simp_all add: SHIFT_def)

lemma ix_odd: "odd (ix p b) \<longleftrightarrow> b" "odd (ix p b + 2) \<longleftrightarrow> b"
  by (simp_all add: ix_def)

lemma ix_meta [simp]:
  "ix p b AND 1 = of_bool b" "(ix p b + 2) AND 1 = of_bool b"
  by (simp_all add: and_one_eq mod_2_eq_odd ix_odd)

lemma ix_set_meta [simp]:
  "ix p b OR 1 = ix p True" "(ix p b + 2) OR 1 = ix p True + 2"
  by (cases b; simp add: or_one_eq ix_odd ix_def)+

lemma ix_clear_meta:
  "ix p b AND NOT 1 = ix p False" "(ix p b + 2) AND NOT 1 = ix p False + 2"
  using and_not_exp_minus_1 [of "ix p b" 1] and_not_exp_minus_1 [of "ix p b + 2" 1]
  by (cases b; simp add: take_bit_Suc ix_odd ix_def mod_2_eq_odd)+

lemma ix_clear_meta_simps [simp]:
  "ix p b AND - 2 = ix p False" "(ix p b + 2) AND - 2 = ix p False + 2"
  using ix_clear_meta by simp_all

end
