(* ===== verification/Seg_Queue.thy ===== *)
theory Seg_Queue
  imports Block_Index Fifo "HOL-Library.Monad_Syntax"
begin

text \<open>
  \<^verbatim>\<open>crossbeam-queue/src/seg_queue.rs\<close>: the data of \<^verbatim>\<open>SegQueue\<close>, the
  operations on an exclusive reference, the destructor, the owning iterator and the observers. The
  queue is a chain of heap blocks of 31 slots; the blocks live in an explicit heap, so that a
  dangling access, a double free and a leaked block can be told: an operation that would access or
  free a block that is not allocated, or read an empty slot, returns \<open>None\<close>.
\<close>

section \<open>Data\<close>

type_synonym ptr = nat

abbreviation (input) null :: ptr where "null \<equiv> 0"

record 'a sq_slot =
  sq_value :: "'a option"
  sq_state :: usize

record 'a sq_block =
  blk_next :: ptr
  blk_slots :: "'a sq_slot list"

record position =
  index :: u64
  block :: ptr

text \<open>
  The two positions, and the heap: the allocated blocks and the address the next allocation gets.
\<close>

record 'a seg_queue =
  sq_head :: position
  sq_tail :: position
  sq_heap :: "ptr \<rightharpoonup> 'a sq_block"
  sq_fresh :: ptr

section \<open>Blocks\<close>

definition block_new :: "'a sq_block" where
  "block_new = \<lparr>blk_next = null, blk_slots = replicate BLOCK_CAP \<lparr>sq_value = None, sq_state = 0\<rparr>\<rparr>"

definition sq_alloc :: "'a seg_queue \<Rightarrow> ptr \<times> 'a seg_queue" where
  "sq_alloc q = (sq_fresh q, q\<lparr>sq_heap := (sq_heap q)(sq_fresh q \<mapsto> block_new), sq_fresh := Suc (sq_fresh q)\<rparr>)"

definition destroy_mut :: "ptr \<Rightarrow> 'a seg_queue \<Rightarrow> 'a seg_queue option" where
  "destroy_mut this q = do {
     _ \<leftarrow> sq_heap q this;
     Some (q\<lparr>sq_heap := (sq_heap q)(this := None)\<rparr>) }"

definition set_next :: "ptr \<Rightarrow> ptr \<Rightarrow> 'a seg_queue \<Rightarrow> 'a seg_queue option" where
  "set_next b n q = do {
     blk \<leftarrow> sq_heap q b;
     Some (q\<lparr>sq_heap := (sq_heap q)(b \<mapsto> blk\<lparr>blk_next := n\<rparr>)\<rparr>) }"

definition get_next :: "ptr \<Rightarrow> 'a seg_queue \<Rightarrow> ptr option" where
  "get_next b q = map_option blk_next (sq_heap q b)"

definition get_slot :: "ptr \<Rightarrow> nat \<Rightarrow> 'a seg_queue \<Rightarrow> 'a sq_slot option" where
  "get_slot b i q = do {
     blk \<leftarrow> sq_heap q b;
     if i < length (blk_slots blk) then Some (blk_slots blk ! i) else None }"

definition set_slot :: "ptr \<Rightarrow> nat \<Rightarrow> 'a sq_slot \<Rightarrow> 'a seg_queue \<Rightarrow> 'a seg_queue option" where
  "set_slot b i s q = do {
     blk \<leftarrow> sq_heap q b;
     if i < length (blk_slots blk)
     then Some (q\<lparr>sq_heap := (sq_heap q)(b \<mapsto> blk\<lparr>blk_slots := (blk_slots blk)[i := s]\<rparr>)\<rparr>)
     else None }"

text \<open>
  \<^verbatim>\<open>Block::destroy\<close>, here run by a thread that is alone: set \<^verbatim>\<open>DESTROY\<close>
  in the slots from \<open>start\<close> on that have not been read, stop at the first such slot, free the
  block when there is none. \<open>n\<close> counts the slots left to visit.
\<close>

fun block_destroy :: "nat \<Rightarrow> ptr \<Rightarrow> nat \<Rightarrow> 'a seg_queue \<Rightarrow> 'a seg_queue option" where
  "block_destroy 0 this i q = destroy_mut this q"
| "block_destroy (Suc n) this i q = do {
     s \<leftarrow> get_slot this i q;
     if sq_state s AND READ = 0
     then set_slot this i (s\<lparr>sq_state := sq_state s OR DESTROY\<rparr>) q
     else block_destroy n this (Suc i) q }"

definition destroy :: "ptr \<Rightarrow> nat \<Rightarrow> 'a seg_queue \<Rightarrow> 'a seg_queue option" where
  "destroy this start q = block_destroy (BLOCK_CAP - 1 - start) this start q"

section \<open>Operations\<close>

definition sq_new :: "'a seg_queue" where
  "sq_new = \<lparr>sq_head = \<lparr>index = 0, block = null\<rparr>, sq_tail = \<lparr>index = 0, block = null\<rparr>,
     sq_heap = Map.empty, sq_fresh = 1\<rparr>"

definition sq_push_mut :: "'a \<Rightarrow> 'a seg_queue \<Rightarrow> 'a seg_queue option" where
  "sq_push_mut v q =
     (let tail = index (sq_tail q); offset = offset_of tail;
          (blk, q) = (if block (sq_tail q) = null then
              let (new, q) = sq_alloc q in
              (new, q\<lparr>sq_head := (sq_head q)\<lparr>block := new\<rparr>, sq_tail := (sq_tail q)\<lparr>block := new\<rparr>\<rparr>)
            else (block (sq_tail q), q));
          new_tail = tail + push_bit SHIFT 1;
          q = q\<lparr>sq_tail := (sq_tail q)\<lparr>index := new_tail\<rparr>\<rparr>
      in do {
        q \<leftarrow> (if offset + 1 = BLOCK_CAP then
             let (next_block, q) = sq_alloc q; next_index = new_tail + push_bit SHIFT 1 in
             set_next blk next_block (q\<lparr>sq_tail := \<lparr>index = next_index, block = next_block\<rparr>\<rparr>)
           else Some q);
        s \<leftarrow> get_slot blk offset q;
        set_slot blk offset \<lparr>sq_value = Some v, sq_state = sq_state s OR WRITE\<rparr> q })"

definition sq_pop_mut :: "'a seg_queue \<Rightarrow> ('a option \<times> 'a seg_queue) option" where
  "sq_pop_mut q =
     (let head = index (sq_head q); blk = block (sq_head q); offset = offset_of head;
          new_head = head + push_bit SHIFT 1; tail = index (sq_tail q)
      in if new_head AND HAS_NEXT = 0 \<and> drop_bit SHIFT head = drop_bit SHIFT tail then Some (None, q)
         else
           let new_head = (if new_head AND HAS_NEXT = 0 \<and> lap_of head \<noteq> lap_of tail
                           then new_head OR HAS_NEXT else new_head);
               q = q\<lparr>sq_head := (sq_head q)\<lparr>index := new_head\<rparr>\<rparr>
           in do {
             q \<leftarrow> (if offset + 1 = BLOCK_CAP then do {
                  nxt \<leftarrow> get_next blk q;
                  nn \<leftarrow> get_next nxt q;
                  let next_index = (new_head AND NOT HAS_NEXT) + push_bit SHIFT 1;
                  let next_index = (if nn \<noteq> null then next_index OR HAS_NEXT else next_index);
                  Some (q\<lparr>sq_head := \<lparr>index = next_index, block = nxt\<rparr>\<rparr>) }
                else Some q);
             s \<leftarrow> get_slot blk offset q;
             v \<leftarrow> sq_value s;
             q \<leftarrow> (if offset + 1 = BLOCK_CAP then destroy_mut blk q
                else do {
                  q \<leftarrow> set_slot blk offset \<lparr>sq_value = None, sq_state = sq_state s OR READ\<rparr> q;
                  if sq_state s AND DESTROY \<noteq> 0 then destroy blk (offset + 1) q else Some q });
             Some (Some v, q) })"

definition sq_is_empty :: "'a seg_queue \<Rightarrow> bool" where
  "sq_is_empty q = (drop_bit SHIFT (index (sq_head q)) = drop_bit SHIFT (index (sq_tail q)))"

text \<open>
  The body of \<^verbatim>\<open>len\<close> once the tail has been found unchanged, which is at once when
  nobody else is using the queue.
\<close>

definition sq_len_of :: "u64 \<Rightarrow> u64 \<Rightarrow> nat" where
  "sq_len_of tail head =
     (let tail = tail AND NOT (push_bit SHIFT 1 - 1);
          head = head AND NOT (push_bit SHIFT 1 - 1);
          tail = (if drop_bit SHIFT tail AND (LAP - 1) = LAP - 1 then tail + push_bit SHIFT 1 else tail);
          head = (if drop_bit SHIFT head AND (LAP - 1) = LAP - 1 then head + push_bit SHIFT 1 else head);
          lap = lap_of head;
          tail = drop_bit SHIFT (tail - push_bit SHIFT (lap * LAP));
          head = drop_bit SHIFT (head - push_bit SHIFT (lap * LAP))
      in unat (tail - head - tail div LAP))"

definition sq_len :: "'a seg_queue \<Rightarrow> nat" where
  "sq_len q = sq_len_of (index (sq_tail q)) (index (sq_head q))"

text \<open>
  \<^verbatim>\<open>drop\<close>: the values destroyed, in order, and what is left of the heap. The loop runs
  while \<open>head\<close> and \<open>tail\<close> differ; \<open>n\<close> bounds its rounds.
\<close>

fun sq_drop_loop :: "nat \<Rightarrow> u64 \<Rightarrow> u64 \<Rightarrow> ptr \<Rightarrow> 'a seg_queue \<Rightarrow> ('a list \<times> ptr \<times> 'a seg_queue) option" where
  "sq_drop_loop 0 head tail blk q = (if head = tail then Some ([], blk, q) else None)"
| "sq_drop_loop (Suc n) head tail blk q =
     (if head = tail then Some ([], blk, q)
      else
        let offset = offset_of head in
        if offset < BLOCK_CAP then do {
          s \<leftarrow> get_slot blk offset q;
          v \<leftarrow> sq_value s;
          (vs, r) \<leftarrow> sq_drop_loop n (head + push_bit SHIFT 1) tail blk q;
          Some (v # vs, r) }
        else do {
          nxt \<leftarrow> get_next blk q;
          q \<leftarrow> destroy_mut blk q;
          sq_drop_loop n (head + push_bit SHIFT 1) tail nxt q })"

definition sq_drop :: "nat \<Rightarrow> 'a seg_queue \<Rightarrow> ('a list \<times> 'a seg_queue) option" where
  "sq_drop n q = do {
     (vs, blk, q) \<leftarrow> sq_drop_loop n (index (sq_head q) AND NOT (push_bit SHIFT 1 - 1))
        (index (sq_tail q) AND NOT (push_bit SHIFT 1 - 1)) (block (sq_head q)) q;
     q \<leftarrow> (if blk \<noteq> null then destroy_mut blk q else Some q);
     Some (vs, q) }"

definition sq_into_iter_next :: "'a seg_queue \<Rightarrow> ('a option \<times> 'a seg_queue) option" where
  "sq_into_iter_next q =
     (let head = index (sq_head q); tail = index (sq_tail q) in
      if drop_bit SHIFT head = drop_bit SHIFT tail then Some (None, q)
      else
        let blk = block (sq_head q); offset = offset_of head in do {
          s \<leftarrow> get_slot blk offset q;
          item \<leftarrow> sq_value s;
          q \<leftarrow> set_slot blk offset (s\<lparr>sq_value := None\<rparr>) q;
          if offset + 1 = BLOCK_CAP then do {
            nxt \<leftarrow> get_next blk q;
            q \<leftarrow> destroy_mut blk q;
            Some (Some item, q\<lparr>sq_head := \<lparr>index = head + push_bit SHIFT 2, block = nxt\<rparr>\<rparr>) }
          else Some (Some item, q\<lparr>sq_head := (sq_head q)\<lparr>index := head + push_bit SHIFT 1\<rparr>\<rparr>) })"

fun sq_collect :: "nat \<Rightarrow> 'a seg_queue \<Rightarrow> ('a list \<times> 'a seg_queue) option" where
  "sq_collect 0 q = None"
| "sq_collect (Suc n) q =
     (case sq_into_iter_next q of
        None \<Rightarrow> None
      | Some (None, q') \<Rightarrow> Some ([], q')
      | Some (Some v, q') \<Rightarrow> map_option (\<lambda>(vs, q''). (v # vs, q'')) (sq_collect n q'))"


section \<open>Chains of blocks\<close>

text \<open>
  \<open>chain addr lo hi q\<close>: the allocated blocks are exactly those at \<open>addr lo\<close>, ...,
  \<open>addr hi\<close>, linked in this order. \<open>slot_at addr q p\<close> is the slot of the
  \<open>p\<close>-th element.
\<close>

definition linked :: "(nat \<Rightarrow> ptr) \<Rightarrow> nat \<Rightarrow> nat \<Rightarrow> 'a seg_queue \<Rightarrow> bool" where
  "linked addr hi b q \<longleftrightarrow> 0 < addr b \<and> addr b < sq_fresh q \<and>
     (\<exists>blk. sq_heap q (addr b) = Some blk \<and> length (blk_slots blk) = 31 \<and>
        blk_next blk = (if b < hi then addr (Suc b) else null))"

definition chain :: "(nat \<Rightarrow> ptr) \<Rightarrow> nat \<Rightarrow> nat \<Rightarrow> 'a seg_queue \<Rightarrow> bool" where
  "chain addr lo hi q \<longleftrightarrow>
     lo \<le> hi \<and> inj_on addr {lo..hi} \<and> dom (sq_heap q) = addr ` {lo..hi} \<and> (\<forall>b\<in>{lo..hi}. linked addr hi b q)"

definition slot_at :: "(nat \<Rightarrow> ptr) \<Rightarrow> 'a seg_queue \<Rightarrow> nat \<Rightarrow> 'a sq_slot" where
  "slot_at addr q p = blk_slots (the (sq_heap q (addr (p div 31)))) ! (p mod 31)"

definition put_slot :: "(nat \<Rightarrow> ptr) \<Rightarrow> nat \<Rightarrow> 'a sq_slot \<Rightarrow> 'a seg_queue \<Rightarrow> 'a seg_queue" where
  "put_slot addr p s q =
     (let blk = the (sq_heap q (addr (p div 31))) in
      q\<lparr>sq_heap := (sq_heap q)(addr (p div 31) \<mapsto> blk\<lparr>blk_slots := (blk_slots blk)[p mod 31 := s]\<rparr>)\<rparr>)"

lemma chainD:
  assumes "chain addr lo hi q" "lo \<le> b" "b \<le> hi"
  obtains blk where "sq_heap q (addr b) = Some blk" "length (blk_slots blk) = 31"
    "blk_next blk = (if b < hi then addr (Suc b) else null)" "0 < addr b" "addr b < sq_fresh q"
proof -
  have "linked addr hi b q" using assms by (simp add: chain_def)
  then show thesis using that by (auto simp only: linked_def)
qed

lemma chain_linked: "chain addr lo hi q \<Longrightarrow> lo \<le> b \<Longrightarrow> b \<le> hi \<Longrightarrow> linked addr hi b q"
  by (simp add: chain_def)

lemma chain_addr_eq: "chain addr lo hi q \<Longrightarrow> lo \<le> a \<Longrightarrow> a \<le> hi \<Longrightarrow> lo \<le> b \<Longrightarrow> b \<le> hi \<Longrightarrow> addr a = addr b \<longleftrightarrow> a = b"
  by (auto simp: chain_def inj_on_def)

lemma chain_get_slot:
  "chain addr lo hi q \<Longrightarrow> lo \<le> p div 31 \<Longrightarrow> p div 31 \<le> hi \<Longrightarrow>
     get_slot (addr (p div 31)) (p mod 31) q = Some (slot_at addr q p)"
  by (rule chainD [of addr lo hi q "p div 31"]) (auto simp: get_slot_def slot_at_def)

lemma chain_set_slot:
  "chain addr lo hi q \<Longrightarrow> lo \<le> p div 31 \<Longrightarrow> p div 31 \<le> hi \<Longrightarrow>
     set_slot (addr (p div 31)) (p mod 31) s q = Some (put_slot addr p s q)"
  by (rule chainD [of addr lo hi q "p div 31"]) (auto simp: set_slot_def put_slot_def)

lemma chain_get_next:
  "chain addr lo hi q \<Longrightarrow> lo \<le> b \<Longrightarrow> b \<le> hi \<Longrightarrow>
     get_next (addr b) q = Some (if b < hi then addr (Suc b) else null)"
  by (rule chainD [of addr lo hi q b]) (auto simp: get_next_def)

lemma put_slot_fields [simp]:
  "sq_head (put_slot addr p s q) = sq_head q" "sq_tail (put_slot addr p s q) = sq_tail q"
  "sq_fresh (put_slot addr p s q) = sq_fresh q"
  by (simp_all add: put_slot_def Let_def)

lemma chain_put_slot:
  assumes "chain addr lo hi q" "lo \<le> p div 31" "p div 31 \<le> hi"
  shows "chain addr lo hi (put_slot addr p s q)"
proof -
  from assms obtain blk where blk: "sq_heap q (addr (p div 31)) = Some blk" "length (blk_slots blk) = 31"
    by (rule chainD)
  have "linked addr hi b (put_slot addr p s q)" if "lo \<le> b" "b \<le> hi" for b
    using chain_linked [OF assms(1) that] blk chain_addr_eq [OF assms(1) that assms(2,3)]
    by (cases "b = p div 31") (auto simp: linked_def put_slot_def Let_def)
  moreover have "dom (sq_heap (put_slot addr p s q)) = dom (sq_heap q)"
    using blk by (auto simp: put_slot_def Let_def)
  ultimately show ?thesis using assms(1) by (simp add: chain_def)
qed

lemma slot_at_put_slot:
  assumes "chain addr lo hi q" "lo \<le> p div 31" "p div 31 \<le> hi" "lo \<le> r div 31" "r div 31 \<le> hi"
  shows "slot_at addr (put_slot addr p s q) r = (if r = p then s else slot_at addr q r)"
proof -
  from assms(1-3) obtain blk where blk: "sq_heap q (addr (p div 31)) = Some blk" "length (blk_slots blk) = 31"
    by (rule chainD)
  have "r = p \<longleftrightarrow> r div 31 = p div 31 \<and> r mod 31 = p mod 31" by (metis div_mult_mod_eq)
  then show ?thesis
    using chain_addr_eq [OF assms(1,4,5,2,3)] blk
    by (auto simp: slot_at_def put_slot_def Let_def nth_list_update)
qed

lemma access_cong [simp]:
  "get_slot b i (q\<lparr>sq_head := h\<rparr>) = get_slot b i q" "get_slot b i (q\<lparr>sq_tail := t\<rparr>) = get_slot b i q"
  "get_next b (q\<lparr>sq_head := h\<rparr>) = get_next b q" "get_next b (q\<lparr>sq_tail := t\<rparr>) = get_next b q"
  "chain addr lo hi (q\<lparr>sq_head := h\<rparr>) = chain addr lo hi q" "chain addr lo hi (q\<lparr>sq_tail := t\<rparr>) = chain addr lo hi q"
  "slot_at addr (q\<lparr>sq_head := h\<rparr>) p = slot_at addr q p" "slot_at addr (q\<lparr>sq_tail := t\<rparr>) p = slot_at addr q p"
  by (simp_all add: get_slot_def get_next_def chain_def linked_def slot_at_def)

text \<open>Appending a block at the tail, and freeing the block at the head.\<close>

definition appended :: "(nat \<Rightarrow> ptr) \<Rightarrow> nat \<Rightarrow> 'a seg_queue \<Rightarrow> 'a seg_queue" where
  "appended addr hi q = q\<lparr>sq_heap := (sq_heap q)(sq_fresh q \<mapsto> block_new,
     addr hi \<mapsto> (the (sq_heap q (addr hi)))\<lparr>blk_next := sq_fresh q\<rparr>), sq_fresh := Suc (sq_fresh q)\<rparr>"

lemma chain_append:
  assumes "chain addr lo hi q"
  shows "chain (addr(Suc hi := sq_fresh q)) lo (Suc hi) (appended addr hi q)"
    "lo \<le> p div 31 \<Longrightarrow> p div 31 \<le> hi \<Longrightarrow>
       slot_at (addr(Suc hi := sq_fresh q)) (appended addr hi q) p = slot_at addr q p"
    "p div 31 = Suc hi \<Longrightarrow>
       slot_at (addr(Suc hi := sq_fresh q)) (appended addr hi q) p = \<lparr>sq_value = None, sq_state = 0\<rparr>"
proof -
  let ?addr = "addr(Suc hi := sq_fresh q)" and ?q = "appended addr hi q"
  have lohi: "lo \<le> hi" using assms by (simp add: chain_def)
  have old: "addr b < sq_fresh q" "0 < addr b" if "lo \<le> b" "b \<le> hi" for b
    using chain_linked [OF assms that] by (auto simp: linked_def)
  note addr_eq = chain_addr_eq [OF assms]
  have ins: "{lo..Suc hi} = insert (Suc hi) {lo..hi}" using lohi by auto
  have img: "?addr ` {lo..hi} = addr ` {lo..hi}" by (rule image_cong) simp_all
  have "inj_on addr {lo..hi}" "dom (sq_heap q) = addr ` {lo..hi}" using assms by (simp_all add: chain_def)
  moreover have "sq_fresh q \<notin> addr ` {lo..hi}" using old(1) by fastforce
  moreover have "inj_on ?addr {lo..hi} = inj_on addr {lo..hi}" by (rule inj_on_cong) simp
  ultimately have "inj_on ?addr {lo..Suc hi}" unfolding ins inj_on_insert by (simp add: img)
  moreover have "dom (sq_heap ?q) = insert (sq_fresh q) (insert (addr hi) (dom (sq_heap q)))"
    by (auto simp: appended_def)
  then have "dom (sq_heap ?q) = ?addr ` {lo..Suc hi}"
    unfolding ins image_insert img using assms lohi by (auto simp: chain_def)
  moreover have "linked ?addr (Suc hi) b ?q" if "lo \<le> b" "b \<le> Suc hi" for b
  proof (cases "b = Suc hi")
    case True
    then show ?thesis using old [OF lohi order_refl]
      by (simp add: linked_def appended_def block_new_def)
  next
    case False
    with that have b: "lo \<le> b" "b \<le> hi" by simp_all
    from assms b obtain blk where "sq_heap q (addr b) = Some blk" "length (blk_slots blk) = 31"
      "blk_next blk = (if b < hi then addr (Suc b) else null)" by (rule chainD)
    then show ?thesis using b old [OF b] addr_eq [OF b lohi order_refl]
      by (cases "b = hi") (auto simp: linked_def appended_def)
  qed
  ultimately show "chain ?addr lo (Suc hi) ?q" using lohi by (simp add: chain_def)
  show "slot_at ?addr ?q p = slot_at addr q p" if "lo \<le> p div 31" "p div 31 \<le> hi"
    using that old(1) [OF that] addr_eq [OF that lohi order_refl] by (auto simp: slot_at_def appended_def)
  show "slot_at ?addr ?q p = \<lparr>sq_value = None, sq_state = 0\<rparr>" if "p div 31 = Suc hi"
    using that old(1) [OF lohi order_refl] by (simp add: slot_at_def appended_def block_new_def)
qed

lemma chain_free:
  assumes "chain addr lo hi q"
  shows "destroy_mut (addr lo) q = Some (q\<lparr>sq_heap := (sq_heap q)(addr lo := None)\<rparr>)"
    "lo < hi \<Longrightarrow> chain addr (Suc lo) hi (q\<lparr>sq_heap := (sq_heap q)(addr lo := None)\<rparr>)"
    "lo < p div 31 \<Longrightarrow> p div 31 \<le> hi \<Longrightarrow>
       slot_at addr (q\<lparr>sq_heap := (sq_heap q)(addr lo := None)\<rparr>) p = slot_at addr q p"
    "lo = hi \<Longrightarrow> (sq_heap q)(addr lo := None) = Map.empty"
proof -
  let ?q = "q\<lparr>sq_heap := (sq_heap q)(addr lo := None)\<rparr>"
  have lohi: "lo \<le> hi" using assms by (simp add: chain_def)
  note addr_eq = chain_addr_eq [OF assms]
  have neq: "addr b \<noteq> addr lo" if "lo < b" "b \<le> hi" for b
    using that addr_eq [of b lo] by simp
  show "destroy_mut (addr lo) q = Some ?q"
    by (rule chainD [OF assms order_refl lohi]) (simp add: destroy_mut_def)
  show "slot_at addr ?q p = slot_at addr q p" if "lo < p div 31" "p div 31 \<le> hi"
    using neq [OF that] by (simp add: slot_at_def)
  have dom: "dom (sq_heap q) = addr ` {lo..hi}" using assms by (simp add: chain_def)
  show "(sq_heap q)(addr lo := None) = Map.empty" if "lo = hi"
    using dom that by (auto simp: fun_eq_iff)
  show "chain addr (Suc lo) hi ?q" if "lo < hi"
  proof -
    have "{lo..hi} = insert lo {Suc lo..hi}" using that by auto
    moreover have "addr lo \<notin> addr ` {Suc lo..hi}" using neq by (metis Suc_le_eq atLeastAtMost_iff imageE)
    moreover have "dom (sq_heap ?q) = dom (sq_heap q) - {addr lo}" by auto
    ultimately have "dom (sq_heap ?q) = addr ` {Suc lo..hi}" using dom by simp
    moreover have "linked addr hi b ?q" if "Suc lo \<le> b" "b \<le> hi" for b
      using chain_linked [OF assms, of b] that neq [of b] by (simp add: linked_def)
    moreover have "inj_on addr {Suc lo..hi}"
      using assms by (auto simp: chain_def intro: inj_on_subset)
    ultimately show ?thesis using \<open>lo < hi\<close> by (simp add: chain_def)
  qed
qed

section \<open>Representation\<close>

text \<open>
  The head is at element \<open>H\<close>, the tail at element \<open>T\<close>, and element \<open>p\<close> is
  \<open>cont p\<close>. \<open>sq_rep\<close> adds what the slots' states and the metadata of the head
  say, which the owning iterator does not maintain.
\<close>

definition sq_window :: "nat \<Rightarrow> nat \<Rightarrow> (nat \<Rightarrow> 'a) \<Rightarrow> (nat \<Rightarrow> ptr) \<Rightarrow> bool \<Rightarrow> 'a seg_queue \<Rightarrow> bool" where
  "sq_window H T cont addr hb q \<longleftrightarrow>
     H \<le> T \<and> near T \<and> chain addr (H div 31) (T div 31) q \<and>
     sq_head q = \<lparr>index = ix H hb, block = addr (H div 31)\<rparr> \<and>
     sq_tail q = \<lparr>index = ix T False, block = addr (T div 31)\<rparr> \<and>
     (\<forall>p. H \<le> p \<and> p < T \<longrightarrow> sq_value (slot_at addr q p) = Some (cont p))"

definition slot_state :: "nat \<Rightarrow> nat \<Rightarrow> nat \<Rightarrow> usize" where
  "slot_state H T p = (if p < H then WRITE OR READ else if p < T then WRITE else 0)"

definition sq_rep :: "nat \<Rightarrow> nat \<Rightarrow> (nat \<Rightarrow> 'a) \<Rightarrow> (nat \<Rightarrow> ptr) \<Rightarrow> bool \<Rightarrow> 'a seg_queue \<Rightarrow> bool" where
  "sq_rep H T cont addr hb q \<longleftrightarrow>
     sq_window H T cont addr hb q \<and> (hb \<longrightarrow> H div 31 < T div 31) \<and>
     (\<forall>p. H div 31 \<le> p div 31 \<and> p div 31 \<le> T div 31 \<longrightarrow> sq_state (slot_at addr q p) = slot_state H T p)"

lemma sq_windowD:
  assumes "sq_window H T cont addr hb q"
  shows "H \<le> T" "near T" "near H" "chain addr (H div 31) (T div 31) q"
    "sq_head q = \<lparr>index = ix H hb, block = addr (H div 31)\<rparr>"
    "sq_tail q = \<lparr>index = ix T False, block = addr (T div 31)\<rparr>"
    "\<And>p. H \<le> p \<Longrightarrow> p < T \<Longrightarrow> sq_value (slot_at addr q p) = Some (cont p)"
    "H div 31 \<le> T div 31" "addr (H div 31) \<noteq> null" "addr (T div 31) \<noteq> null"
proof -
  show a: "H \<le> T" "near T" "near H" and c: "chain addr (H div 31) (T div 31) q"
    using assms near_mono by (auto simp: sq_window_def)
  show le: "H div 31 \<le> T div 31" using a(1) by (rule div_le_mono)
  show "addr (H div 31) \<noteq> null" "addr (T div 31) \<noteq> null"
    using chain_linked [OF c order_refl le] chain_linked [OF c le order_refl] by (simp_all add: linked_def)
qed (use assms in \<open>auto simp: sq_window_def\<close>)

lemma sq_rep_window: "sq_rep H T cont addr hb q \<Longrightarrow> sq_window H T cont addr hb q"
  by (simp add: sq_rep_def)

lemma sq_rep_state:
  "sq_rep H T cont addr hb q \<Longrightarrow> H div 31 \<le> p div 31 \<Longrightarrow> p div 31 \<le> T div 31 \<Longrightarrow>
     sq_state (slot_at addr q p) = slot_state H T p"
  by (simp add: sq_rep_def)

lemma div_range: "H \<le> p \<Longrightarrow> p \<le> T \<Longrightarrow> H div 31 \<le> p div 31 \<and> p div 31 \<le> T div (31::nat)"
  by (simp add: div_le_mono)

section \<open>Pushing\<close>

text \<open>Where the pushed element goes: the same block, or the last slot of a block.\<close>

definition grown :: "(nat \<Rightarrow> ptr) \<Rightarrow> nat \<Rightarrow> 'a seg_queue \<Rightarrow> 'a seg_queue" where
  "grown addr T q =
     (if T mod 31 + 1 = 31 then appended addr (T div 31) q else q)
       \<lparr>sq_tail := \<lparr>index = ix (Suc T) False, block = (if T mod 31 + 1 = 31 then sq_fresh q else addr (T div 31))\<rparr>\<rparr>"

definition grown_addr :: "(nat \<Rightarrow> ptr) \<Rightarrow> nat \<Rightarrow> 'a seg_queue \<Rightarrow> nat \<Rightarrow> ptr" where
  "grown_addr addr T q = (if T mod 31 + 1 = 31 then addr(Suc (T div 31) := sq_fresh q) else addr)"

lemma Suc_div_31: "Suc T div 31 = (if T mod 31 + 1 = 31 then Suc (T div 31) else T div 31)"
  by (simp add: div_Suc mod_Suc)

lemma grown_chain:
  assumes win: "sq_window H T cont addr hb q"
  shows "chain (grown_addr addr T q) (H div 31) (Suc T div 31) (grown addr T q)"
    "H div 31 \<le> p div 31 \<Longrightarrow> p div 31 \<le> T div 31 \<Longrightarrow>
       slot_at (grown_addr addr T q) (grown addr T q) p = slot_at addr q p"
    "p div 31 = Suc T div 31 \<Longrightarrow> T div 31 < Suc T div 31 \<Longrightarrow>
       slot_at (grown_addr addr T q) (grown addr T q) p = \<lparr>sq_value = None, sq_state = 0\<rparr>"
    "b \<le> T div 31 \<Longrightarrow> grown_addr addr T q b = addr b"
    "sq_head (grown addr T q) = sq_head q"
  using chain_append [OF sq_windowD(4) [OF win]] sq_windowD(4) [OF win]
  by (auto simp: grown_def grown_addr_def Suc_div_31 appended_def split: if_splits)

definition sq_pushed :: "(nat \<Rightarrow> ptr) \<Rightarrow> nat \<Rightarrow> 'a \<Rightarrow> 'a seg_queue \<Rightarrow> 'a seg_queue" where
  "sq_pushed addr T v q =
     put_slot (grown_addr addr T q) T \<lparr>sq_value = Some v, sq_state = sq_state (slot_at addr q T) OR WRITE\<rparr> (grown addr T q)"

lemma sq_push_mut_eq:
  assumes win: "sq_window H T cont addr hb q"
  shows "sq_push_mut v q = Some (sq_pushed addr T v q)"
proof -
  note d = sq_windowD [OF win] and g = grown_chain [OF win]
  have T: "H div 31 \<le> T div 31" "T div 31 \<le> Suc T div 31" using d(8) by (simp_all add: div_le_mono)
  have old: "addr (T div 31) < sq_fresh q" "\<exists>blk. sq_heap q (addr (T div 31)) = Some blk"
    using chain_linked [OF d(4,8) order_refl] by (auto simp: linked_def)
  have "(if T mod 31 + 1 = 31 then
      set_next (addr (T div 31)) (sq_fresh q)
        (snd (sq_alloc (q\<lparr>sq_tail := \<lparr>index = ix T False + 2, block = addr (T div 31)\<rparr>\<rparr>))
           \<lparr>sq_tail := \<lparr>index = ix T False + 2 + 2, block = sq_fresh q\<rparr>\<rparr>)
      else Some (q\<lparr>sq_tail := \<lparr>index = ix T False + 2, block = addr (T div 31)\<rparr>\<rparr>)) = Some (grown addr T q)"
    using old by (auto simp: grown_def set_next_def sq_alloc_def appended_def)
  moreover have "get_slot (addr (T div 31)) (T mod 31) (grown addr T q) = Some (slot_at addr q T)"
    using chain_get_slot [OF g(1) T] g(2) [of T] T(1) g(4) [of "T div 31"] by simp
  moreover have "set_slot (addr (T div 31)) (T mod 31) s (grown addr T q) =
      Some (put_slot (grown_addr addr T q) T s (grown addr T q))" for s
    using chain_set_slot [OF g(1) T, of s] g(4) [of "T div 31"] by simp
  moreover have "get_slot (addr (T div 31)) (T mod 31) q = Some (slot_at addr q T)"
    by (rule chain_get_slot [OF d(4,8) order_refl])
  ultimately show ?thesis
    using d(2,6,10) by (simp add: sq_push_mut_def Let_def sq_alloc_def sq_pushed_def split: if_splits)
qed

lemma sq_rep_pushed:
  assumes rep: "sq_rep H T cont addr hb q" and room: "near (Suc T)"
  shows "sq_rep H (Suc T) (cont(T := v)) (grown_addr addr T q) hb (sq_pushed addr T v q)"
proof -
  note win = sq_rep_window [OF rep]
  note d = sq_windowD [OF win] and g = grown_chain [OF win]
  let ?a = "grown_addr addr T q" and ?q = "sq_pushed addr T v q"
  have T: "H div 31 \<le> T div 31" "T div 31 \<le> Suc T div 31" using d(8) by (simp_all add: div_le_mono)
  have at: "slot_at ?a ?q p = (if p = T then \<lparr>sq_value = Some v, sq_state = sq_state (slot_at addr q T) OR WRITE\<rparr>
      else if p div 31 \<le> T div 31 then slot_at addr q p else \<lparr>sq_value = None, sq_state = 0\<rparr>)"
    if "H div 31 \<le> p div 31" "p div 31 \<le> Suc T div 31" for p
    using slot_at_put_slot [OF g(1) T that] that g(2,3) [of p]
    by (auto simp: sq_pushed_def Suc_div_31 split: if_splits)
  have "sq_value (slot_at ?a ?q p) = Some ((cont(T := v)) p)" if "H \<le> p" "p < Suc T" for p
    using that at [of p] div_range [of H p T] T d(7) [of p] by auto
  moreover have "chain ?a (H div 31) (Suc T div 31) ?q"
    unfolding sq_pushed_def by (rule chain_put_slot [OF g(1) T])
  moreover have "sq_tail ?q = \<lparr>index = ix (Suc T) False, block = ?a (Suc T div 31)\<rparr>"
    by (simp add: sq_pushed_def grown_def grown_addr_def Suc_div_31)
  ultimately have "sq_window H (Suc T) (cont(T := v)) ?a hb ?q"
    using d(1,5,8) room g(4,5) by (simp add: sq_window_def sq_pushed_def)
  moreover have "sq_state (slot_at ?a ?q p) = slot_state H (Suc T) p"
    if "H div 31 \<le> p div 31" "p div 31 \<le> Suc T div 31" for p
  proof -
    have "T < p" if "\<not> p div 31 \<le> T div 31" using that div_le_mono [of p T 31] by linarith
    then show ?thesis
      using at [OF that] sq_rep_state [OF rep, of p] sq_rep_state [OF rep, of T] that T d(1)
      by (auto simp: slot_state_def)
  qed
  ultimately show ?thesis using rep T by (auto simp: sq_rep_def)
qed

section \<open>Popping\<close>

lemma sq_pop_mut_empty:
  assumes "sq_rep H T cont addr hb q" "H = T"
  shows "sq_pop_mut q = Some (None, q)"
  using assms sq_windowD [OF sq_rep_window [OF assms(1)]]
  by (simp add: sq_pop_mut_def Let_def sq_rep_def HAS_NEXT_def add.commute)

text \<open>The head moves within its block, or to the next block, and the old block is freed.\<close>

definition sq_stepped :: "(nat \<Rightarrow> ptr) \<Rightarrow> nat \<Rightarrow> bool \<Rightarrow> 'a sq_slot \<Rightarrow> 'a seg_queue \<Rightarrow> 'a seg_queue" where
  "sq_stepped addr H hb s q =
     (if H mod 31 = 30 then q\<lparr>sq_heap := (sq_heap q)(addr (H div 31) := None)\<rparr> else put_slot addr H s q)
       \<lparr>sq_head := \<lparr>index = ix (Suc H) hb, block = addr (Suc H div 31)\<rparr>\<rparr>"

lemma stepped_chain:
  assumes win: "sq_window H T cont addr hb q" and ne: "H < T"
  shows "chain addr (Suc H div 31) (T div 31) (sq_stepped addr H hb' s q)"
    "Suc H div 31 \<le> p div 31 \<Longrightarrow> p div 31 \<le> T div 31 \<Longrightarrow>
       slot_at addr (sq_stepped addr H hb' s q) p = (if p = H then s else slot_at addr q p)"
proof -
  note d = sq_windowD [OF win]
  have lt: "H div 31 < T div 31" if "H mod 31 = 30"
    using div_le_mono [of "Suc H" T 31] ne that by (simp add: Suc_div_31)
  note fr = chain_free [OF d(4)]
  show "chain addr (Suc H div 31) (T div 31) (sq_stepped addr H hb' s q)"
    using fr(2) [OF lt] chain_put_slot [OF d(4) order_refl d(8), of s]
    by (simp add: sq_stepped_def Suc_div_31)
  show "slot_at addr (sq_stepped addr H hb' s q) p = (if p = H then s else slot_at addr q p)"
    if "Suc H div 31 \<le> p div 31" "p div 31 \<le> T div 31"
    using that fr(3) [of p] slot_at_put_slot [OF d(4) order_refl d(8), of p s]
    by (auto simp: sq_stepped_def Suc_div_31 split: if_splits)
qed

lemma sq_window_stepped:
  assumes win: "sq_window H T cont addr hb q" and ne: "H < T"
  shows "sq_window (Suc H) T cont addr hb' (sq_stepped addr H hb' s q)"
proof -
  note d = sq_windowD [OF win] and st = stepped_chain [OF win ne, where hb' = hb' and s = s]
  have "sq_value (slot_at addr (sq_stepped addr H hb' s q) p) = Some (cont p)" if "Suc H \<le> p" "p < T" for p
    using st(2) [of p] div_range [of "Suc H" p T] that d(7) [of p] by auto
  then show ?thesis using ne d(2,6) st(1) by (simp add: sq_window_def sq_stepped_def)
qed

lemma sq_pop_mut_some:
  assumes rep: "sq_rep H T cont addr hb q" and ne: "H < T"
  defines "hb' \<equiv> Suc H div 31 < T div 31"
  shows "sq_pop_mut q = Some (Some (cont H), sq_stepped addr H hb' \<lparr>sq_value = None, sq_state = WRITE OR READ\<rparr> q)"
proof -
  note win = sq_rep_window [OF rep]
  note d = sq_windowD [OF win]
  have hb: "hb \<Longrightarrow> H div 31 < T div 31" using rep by (simp add: sq_rep_def)
  have st: "sq_state (slot_at addr q H) = WRITE"
    using sq_rep_state [OF rep order_refl d(8)] ne by (simp add: slot_state_def)
  have v: "sq_value (slot_at addr q H) = Some (cont H)" using d(7) [OF order_refl ne] .
  have gs: "get_slot (addr (H div 31)) (H mod 31) q = Some (slot_at addr q H)"
    by (rule chain_get_slot [OF d(4) order_refl d(8)])
  show ?thesis
  proof (cases "H mod 31 = 30")
    case True
    then have lt: "H div 31 < T div 31" "Suc H div 31 = Suc (H div 31)"
      using div_le_mono [of "Suc H" T 31] ne by (simp_all add: Suc_div_31)
    have nx: "get_next (addr (H div 31)) q = Some (addr (Suc (H div 31)))"
      "get_next (addr (Suc (H div 31))) q = Some (if Suc (H div 31) < T div 31 then addr (Suc (Suc (H div 31))) else null)"
      using chain_get_next [OF d(4) order_refl d(8)] chain_get_next [OF d(4), of "Suc (H div 31)"] lt by simp_all
    have nz: "addr (Suc (Suc (H div 31))) \<noteq> null" if "Suc (H div 31) < T div 31"
      using chain_linked [OF d(4), of "Suc (Suc (H div 31))"] that by (simp add: linked_def)
    have "destroy_mut (addr (H div 31)) (q\<lparr>sq_head := h\<rparr>) =
        Some (q\<lparr>sq_heap := (sq_heap q)(addr (H div 31) := None), sq_head := h\<rparr>)" for h
      using chain_free(1) [of addr "H div 31" "T div 31" "q\<lparr>sq_head := h\<rparr>"] d(4) by simp
    then show ?thesis
      using True lt gs v d(2,3,5,6) hb nx nz ne
      by (auto simp: sq_pop_mut_def Let_def HAS_NEXT_def sq_stepped_def hb'_def)
  next
    case False
    have "set_slot (addr (H div 31)) (H mod 31) s (q\<lparr>sq_head := h\<rparr>) = Some ((put_slot addr H s q)\<lparr>sq_head := h\<rparr>)" for s h
      using chain_set_slot [of addr "H div 31" "T div 31" "q\<lparr>sq_head := h\<rparr>" H s] d(4,8)
      by (simp add: put_slot_def Let_def)
    moreover have "Suc H div 31 = H div 31" using False by (simp add: Suc_div_31)
    ultimately show ?thesis
      using False gs v st d(2,3,5,6,8) hb ne
      by (cases hb) (auto simp: sq_pop_mut_def Let_def HAS_NEXT_def sq_stepped_def hb'_def DESTROY_def WRITE_def)
  qed
qed

lemma sq_rep_popped:
  assumes rep: "sq_rep H T cont addr hb q" and ne: "H < T"
  defines "hb' \<equiv> Suc H div 31 < T div 31"
  shows "sq_rep (Suc H) T cont addr hb' (sq_stepped addr H hb' \<lparr>sq_value = None, sq_state = WRITE OR READ\<rparr> q)"
proof -
  note win = sq_rep_window [OF rep]
  have "H div 31 \<le> Suc H div 31" by (rule div_le_mono) simp
  then show ?thesis
    using sq_window_stepped [OF win ne] stepped_chain(2) [OF win ne] sq_rep_state [OF rep] ne
    by (auto simp: sq_rep_def slot_state_def hb'_def)
qed

section \<open>Length\<close>

lemma shift_word: "n < 2 ^ 63 \<Longrightarrow> drop_bit SHIFT (word_of_nat (2 * n) :: u64) = word_of_nat n"
proof -
  assume "n < 2 ^ 63"
  then have "2 * n < 2 ^ LENGTH(64)" "n < 2 ^ LENGTH(64)" by simp_all
  then have "unat (word_of_nat (2 * n) :: u64) = 2 * n" "unat (word_of_nat n :: u64) = n"
    by (simp_all only: unat_of_nat mod_less)
  then show ?thesis
    unfolding word_unat_eq_iff by (simp add: SHIFT_def unat_drop_bit_eq drop_bit_Suc unat_div del: of_nat_mult)
qed

lemma not_at_block_end: "near p \<Longrightarrow> drop_bit SHIFT (ix p b) AND (LAP - 1) \<noteq> LAP - 1"
proof
  assume p: "near p" and eq: "drop_bit SHIFT (ix p b) AND (LAP - 1) = LAP - 1"
  have "drop_bit SHIFT (ix p b) AND (LAP - 1) = take_bit 5 (drop_bit SHIFT (ix p b))"
    using and_exp_minus_1 [of "drop_bit SHIFT (ix p b)" 5] by (simp add: LAP_def)
  then have "unat (drop_bit SHIFT (ix p b) AND (LAP - 1)) = lin p mod 32"
    using p by (simp add: shift_ix take_bit_eq_mod unat_mod)
  then have "p mod 31 = 31" unfolding eq by (simp add: lin_split LAP_def)
  then show False using mod_less_divisor [of 31 p] by simp
qed

lemma lap_difference:
  fixes a b i j :: nat
  assumes "b \<le> a" "b * 31 + i \<le> a * 31 + j"
  shows "(a - b) * 32 + j = a * 31 + j - (b * 31 + i) + i + (a - b)"
proof -
  obtain d where "a = b + d" using assms(1) le_Suc_ex by blast
  with assms(2) show ?thesis by simp
qed

lemma sq_len_positions:
  assumes "H \<le> T" "near T"
  shows "sq_len_of (ix T False) (ix H hb) = T - H"
proof -
  let ?h = "H div 31"
  have near: "near H" using assms near_mono by blast
  have big: "lin T < 2 ^ 61" "lin H < 2 ^ 61" using lin_bound near assms(2) by blast+
  have small: "unat (word_of_nat n :: u64) = n" if "n < 2 ^ 61" for n
    using that by (simp add: unat_of_nat)
  have hT: "?h \<le> T div 31" using assms(1) by (rule div_le_mono)
  then have le: "?h * 32 \<le> lin T" by (simp add: lin_def)
  have lap: "lap_of (ix H False) = word_of_nat ?h"
  proof -
    have "unat (lap_of (ix H False)) = ?h" using near by (simp add: lap_of_def unat_div shift_ix LAP_def lin_split)
    moreover have "unat (word_of_nat ?h :: u64) = ?h" using big(2) by (intro small) (simp add: lin_def)
    ultimately show ?thesis by (simp add: word_unat_eq_iff)
  qed
  define B :: u64 where "B = word_of_nat (2 * (?h * 32))"
  have base: "push_bit SHIFT (word_of_nat ?h * LAP) = B"
    by (simp add: push_bit_eq_mult LAP_def B_def)
  have "ix T False - B = word_of_nat (2 * (lin T - ?h * 32))"
    "ix H False - B = word_of_nat (2 * (H mod 31))"
    using le by (simp_all add: ix_def lin_def of_nat_diff B_def algebra_simps)
  then have rot: "drop_bit SHIFT (ix T False - B) = word_of_nat (lin T - ?h * 32)"
    "drop_bit SHIFT (ix H False - B) = word_of_nat (H mod 31)"
    using big by (simp_all add: shift_word del: of_nat_mult)
  let ?t = "lin T - ?h * 32"
  have t: "unat (word_of_nat ?t :: u64) = ?t" using big by (intro small) simp
  have teq: "?t = (T div 31 - ?h) * 32 + T mod 31" using hT by (simp add: lin_def diff_mult_distrib)
  moreover have "T mod 31 < 32" by (rule less_trans [of _ 31]) simp_all
  ultimately have "?t div 32 = T div 31 - ?h" by simp
  then have "unat (word_of_nat ?t div LAP :: u64) = T div 31 - ?h" unfolding unat_div t by (simp add: LAP_def)
  moreover have "unat (word_of_nat (T div 31 - ?h) :: u64) = T div 31 - ?h"
    using big(1) by (intro small) (simp add: lin_def)
  ultimately have td: "word_of_nat ?t div LAP = (word_of_nat (T div 31 - ?h) :: u64)"
    by (simp add: word_unat_eq_iff)
  have "?t = T - H + H mod 31 + (T div 31 - ?h)"
    using lap_difference [OF hT, of "H mod 31" "T mod 31"] assms(1) teq hT by simp
  then have "word_of_nat ?t - word_of_nat (H mod 31) - word_of_nat (T div 31 - ?h) = (word_of_nat (T - H) :: u64)"
    by simp
  moreover have "unat (word_of_nat (T - H) :: u64) = T - H" using assms(2) by (intro small) (simp add: near_def)
  ultimately show ?thesis
    using near assms(2) not_at_block_end [of H False] not_at_block_end [of T False]
    by (simp add: sq_len_of_def Let_def lap base rot td)
qed

section \<open>Refinement of the list queue\<close>

text \<open>
  The elements a queue holds, oldest first: a walk over the indices from the head to the tail, in which
  the index after the last slot of a block leads to the next block.
\<close>

fun sq_walk :: "nat \<Rightarrow> nat \<Rightarrow> ptr \<Rightarrow> 'a seg_queue \<Rightarrow> 'a list" where
  "sq_walk 0 i b q = []"
| "sq_walk (Suc n) i b q =
     (let blk = the (sq_heap q b) in
      if i < BLOCK_CAP then the (sq_value (blk_slots blk ! i)) # sq_walk n (i + 1) b q
      else sq_walk n 0 (blk_next blk) q)"

definition sq_contents :: "'a seg_queue \<Rightarrow> 'a list" where
  "sq_contents q =
     sq_walk (unat (drop_bit SHIFT (index (sq_tail q))) - unat (drop_bit SHIFT (index (sq_head q))))
       (offset_of (index (sq_head q))) (block (sq_head q)) q"

lemma sq_window_len: "sq_window H T cont addr hb q \<Longrightarrow> sq_len q = T - H"
  using sq_windowD [of H T cont addr hb q] by (simp add: sq_len_def sq_len_positions)

lemma lin_mono: "p < q \<Longrightarrow> lin p < lin q"
proof (induction rule: less_Suc_induct)
  case (1 i)
  then show ?case by (simp add: lin_Suc)
qed simp

lemma sq_window_walk:
  assumes "chain addr lo (T div 31) q" "\<And>p. p0 \<le> p \<Longrightarrow> p < T \<Longrightarrow> sq_value (slot_at addr q p) = Some (cont p)"
    "lo \<le> p0 div 31" "p0 \<le> T"
  shows "sq_walk (lin T - lin p0) (p0 mod 31) (addr (p0 div 31)) q = map cont [p0..<T]"
  using assms(2-)
proof (induction "T - p0" arbitrary: p0)
  case (Suc n)
  then have n: "n = T - Suc p0" "p0 < T" by simp_all
  have range: "p0 div 31 \<le> T div 31" "lo \<le> Suc p0 div 31"
    using n(2) Suc.prems(2) div_le_mono [of p0 "Suc p0" 31] by (simp_all add: div_le_mono)
  from assms(1) Suc.prems(2) range(1) obtain blk where
    blk: "sq_heap q (addr (p0 div 31)) = Some blk" "blk_next blk = (if p0 div 31 < T div 31 then addr (Suc (p0 div 31)) else null)"
    by (rule chainD)
  have v: "sq_value (blk_slots blk ! (p0 mod 31)) = Some (cont p0)"
    using Suc.prems(1) [of p0] n(2) by (simp add: slot_at_def blk(1))
  have nxt: "sq_walk (lin T - lin (Suc p0)) (Suc p0 mod 31) (addr (Suc p0 div 31)) q = map cont [Suc p0..<T]"
    using Suc.hyps(1) [OF n(1)] Suc.prems(1) range(2) n(2) by simp
  have le: "lin (Suc p0) \<le> lin T" using lin_mono [of "Suc p0" T] n(2) by (cases "Suc p0 = T") simp_all
  show ?case
  proof (cases "p0 mod 31 = 30")
    case True
    have "p0 div 31 < T div 31" using div_le_mono [of "Suc p0" T 31] n(2) True by (simp add: Suc_div_31)
    moreover have "lin T - lin p0 = Suc (Suc (lin T - lin (Suc p0)))" using le True by (simp add: lin_Suc)
    ultimately show ?thesis
      using nxt v n(2) True by (simp add: blk Let_def map_upt_window_Cons mod_Suc Suc_div_31)
  next
    case False
    then have "lin T - lin p0 = Suc (lin T - lin (Suc p0))" "p0 mod 31 < 31" using le by (simp_all add: lin_Suc)
    then show ?thesis
      using nxt v n(2) False by (simp add: blk Let_def map_upt_window_Cons mod_Suc Suc_div_31)
  qed
qed simp

lemma sq_window_contents: "sq_window H T cont addr hb q \<Longrightarrow> sq_contents q = map cont [H..<T]"
  using sq_windowD [of H T cont addr hb q] sq_window_walk [of addr "H div 31" T q H cont]
  by (simp add: sq_contents_def shift_ix)

text \<open>A queue before its first push has no block.\<close>

definition sq_null :: "'a seg_queue \<Rightarrow> bool" where
  "sq_null q \<longleftrightarrow> sq_head q = \<lparr>index = 0, block = null\<rparr> \<and> sq_tail q = \<lparr>index = 0, block = null\<rparr> \<and>
     sq_heap q = Map.empty \<and> 0 < sq_fresh q"

definition sq_wf :: "nat \<Rightarrow> 'a seg_queue \<Rightarrow> bool" where
  "sq_wf n q \<longleftrightarrow> (sq_null q \<and> near n) \<or> (\<exists>H T cont addr hb. sq_rep H T cont addr hb q \<and> near (T + n))"

definition sq_first :: "'a seg_queue \<Rightarrow> 'a seg_queue" where
  "sq_first q = q\<lparr>sq_heap := [sq_fresh q \<mapsto> block_new], sq_fresh := Suc (sq_fresh q),
     sq_head := \<lparr>index = 0, block = sq_fresh q\<rparr>, sq_tail := \<lparr>index = 0, block = sq_fresh q\<rparr>\<rparr>"

lemma sq_wfI: "sq_rep H T cont addr hb q \<Longrightarrow> near (T + n) \<Longrightarrow> sq_wf n q"
  unfolding sq_wf_def by blast

lemma ix_0 [simp]: "ix 0 False = 0"
  by (simp add: ix_def lin_def)

lemma near_0 [simp]: "near 0"
  by (simp add: near_def)

lemma sq_null_ops:
  assumes "sq_null q"
  shows "sq_len q = 0" "sq_contents q = []" "sq_is_empty q" "sq_pop_mut q = Some (None, q)"
    "sq_push_mut v q = sq_push_mut v (sq_first q)" "sq_rep 0 0 cont (\<lambda>_. sq_fresh q) False (sq_first q)"
proof -
  have len: "sq_len q = 0" using assms sq_len_positions [of 0 0 False] by (simp add: sq_null_def sq_len_def)
  then show "sq_len q = 0" "sq_contents q = []" using assms by (simp_all add: sq_contents_def sq_null_def)
  show "sq_is_empty q" "sq_pop_mut q = Some (None, q)"
    using assms by (simp_all add: sq_null_def sq_is_empty_def sq_pop_mut_def HAS_NEXT_def)
  show "sq_push_mut v q = sq_push_mut v (sq_first q)"
    using assms by (simp add: sq_null_def sq_push_mut_def sq_first_def sq_alloc_def Let_def)
  have "chain (\<lambda>_. sq_fresh q) 0 0 (sq_first q)"
    using assms by (auto simp: chain_def linked_def sq_first_def block_new_def sq_null_def)
  then show "sq_rep 0 0 cont (\<lambda>_. sq_fresh q) False (sq_first q)"
    by (auto simp: sq_rep_def sq_window_def sq_first_def slot_at_def slot_state_def block_new_def)
qed

definition sq_apply :: "'a queue_op \<Rightarrow> 'a seg_queue \<Rightarrow> ('a queue_ret \<times> 'a seg_queue) option" where
  "sq_apply oper q =
     (case oper of
        Push v \<Rightarrow> map_option (\<lambda>q'. (Pushed, q')) (sq_push_mut v q)
      | Pop \<Rightarrow> map_option (\<lambda>(r, q'). (case r of None \<Rightarrow> Nothing | Some x \<Rightarrow> Popped x, q')) (sq_pop_mut q))"

lemma sq_apply_rep:
  assumes rep: "sq_rep H T cont addr hb q" and room: "near (T + Suc n)"
  shows "\<exists>r q'. sq_apply oper q = Some (r, q') \<and> sq_wf n q' \<and>
    list_queue None oper (map cont [H..<T]) = (r, sq_contents q')"
proof (cases oper)
  case (Push v)
  have near: "near (Suc T)" using room near_mono by simp
  note rep' = sq_rep_pushed [OF rep near, of v]
  have "sq_contents (sq_pushed addr T v q) = map (cont(T := v)) [H..<Suc T]"
    by (rule sq_window_contents [OF sq_rep_window [OF rep']])
  moreover have "map (cont(T := v)) [H..<T] = map cont [H..<T]" by simp
  ultimately have "sq_contents (sq_pushed addr T v q) = map cont [H..<T] @ [v]"
    using sq_windowD(1) [OF sq_rep_window [OF rep]] by (simp add: map_upt_window_snoc)
  moreover have "sq_wf n (sq_pushed addr T v q)" using sq_wfI [OF rep', of n] room by simp
  ultimately show ?thesis using Push by (simp add: sq_apply_def sq_push_mut_eq [OF sq_rep_window [OF rep]])
next
  case Pop
  show ?thesis
  proof (cases "H = T")
    case True
    have "sq_wf n q" using sq_wfI [OF rep, of n] near_mono [OF room, of "T + n"] by simp
    with True Pop show ?thesis
      by (simp add: sq_apply_def sq_pop_mut_empty [OF rep] sq_window_contents [OF sq_rep_window [OF rep]])
  next
    case False
    with sq_windowD(1) [OF sq_rep_window [OF rep]] have ne: "H < T" by simp
    note rep' = sq_rep_popped [OF rep ne]
    have "near (T + n)" using near_mono [OF room] by simp
    with rep' have "sq_wf n (sq_stepped addr H (Suc H div 31 < T div 31) \<lparr>sq_value = None, sq_state = WRITE OR READ\<rparr> q)"
      by (rule sq_wfI)
    with Pop ne show ?thesis
      by (simp add: sq_apply_def sq_pop_mut_some [OF rep ne] sq_window_contents [OF sq_rep_window [OF rep']]
          map_upt_window_Cons)
  qed
qed

lemma sq_apply_refines:
  assumes "sq_wf (Suc n) q"
  shows "\<exists>r q'. sq_apply oper q = Some (r, q') \<and> sq_wf n q' \<and> None = (None :: nat option) \<and>
    list_queue None oper (sq_contents q) = (r, sq_contents q')"
proof (cases "sq_null q")
  case True
  then have n: "near (Suc n)" using assms sq_windowD(10) by (fastforce simp: sq_wf_def sq_null_def dest: sq_rep_window sq_windowD(6))
  show ?thesis
  proof (cases oper)
    case (Push v)
    have "near (0 + Suc n)" using n by simp
    from sq_apply_rep [OF sq_null_ops(6) [OF True] this, of oper] Push show ?thesis
      by (simp add: sq_apply_def sq_null_ops [OF True])
  next
    case Pop
    then show ?thesis using True near_mono [OF n, of n] by (simp add: sq_apply_def sq_null_ops [OF True] sq_wf_def)
  qed
next
  case False
  with assms obtain H T cont addr hb where "sq_rep H T cont addr hb q" "near (T + Suc n)" by (auto simp: sq_wf_def)
  from sq_apply_rep [OF this, of oper] sq_window_contents [OF sq_rep_window [OF this(1)]] show ?thesis by simp
qed

interpretation sqm: queue_refinement sq_wf sq_contents "\<lambda>_. None" sq_apply
  by unfold_locales (rule sq_apply_refines)

section \<open>Destruction and iteration\<close>

lemma block_end_offset: "near p \<Longrightarrow> p mod 31 = 30 \<Longrightarrow> offset_of (ix p b + 2) = 31"
proof -
  assume p: "near p" "p mod 31 = 30"
  have "ix p b + 2 = word_of_nat (2 * (lin p + 1) + of_bool b)" by (rule ix_add_2)
  moreover have "2 * (lin p + 1) + of_bool b < 2 ^ LENGTH(64)" using lin_bound [OF p(1)] by (simp add: of_bool_def)
  ultimately have "unat (ix p b + 2) = 2 * (lin p + 1) + of_bool b" by (simp only: unat_of_nat mod_less)
  then have "unat (drop_bit SHIFT (ix p b + 2)) = lin p + 1"
    by (simp add: SHIFT_def unat_drop_bit_eq drop_bit_Suc unat_div)
  moreover have "(lin p + 1) mod 32 = 31" using lin_split(1) [of p] p(2) by (simp add: mod_Suc)
  ultimately show ?thesis by (simp add: offset_of_def unat_mod LAP_def)
qed

lemma ix_eq_iff: "near p \<Longrightarrow> near q \<Longrightarrow> ix p False = ix q False \<longleftrightarrow> p = q"
  using shift_ix_eq [of p q False False] by metis

lemma sq_drop_loop_values:
  assumes "chain addr (H div 31) (T div 31) q" "near T" "H \<le> T" "lin T - lin H \<le> n"
    and "\<And>p. H \<le> p \<Longrightarrow> p < T \<Longrightarrow> sq_value (slot_at addr q p) = Some (cont p)"
  shows "\<exists>q'. sq_drop_loop n (ix H False) (ix T False) (addr (H div 31)) q =
    Some (map cont [H..<T], addr (T div 31), q') \<and> chain addr (T div 31) (T div 31) q'"
  using assms
proof (induction "T - H" arbitrary: H n q)
  case 0
  then have "H = T" by simp
  with 0 show ?case by (cases n) simp_all
next
  case (Suc m)
  then have m: "m = T - Suc H" and ne: "H < T" by simp_all
  note vals = Suc.prems(5)
  have le: "H div 31 \<le> T div 31" using ne by (simp add: div_le_mono)
  have near: "near H" "near T" using Suc.prems(2) ne near_mono [of T H] by simp_all
  have lin: "lin H < lin T" using ne by (rule lin_mono)
  with Suc.prems(4) obtain n' where n: "n = Suc n'" by (cases n) simp_all
  have gs: "get_slot (addr (H div 31)) (H mod 31) q = Some (slot_at addr q H)"
    by (rule chain_get_slot [OF Suc.prems(1) order_refl le])
  have v: "sq_value (slot_at addr q H) = Some (cont H)" using vals [of H] ne by simp
  have off: "H mod 31 < 31" by simp
  have first: "sq_drop_loop n (ix H False) (ix T False) (addr (H div 31)) q =
      map_option (\<lambda>(vs, r). (cont H # vs, r)) (sq_drop_loop n' (ix H False + 2) (ix T False) (addr (H div 31)) q)"
    using ne near gs v off by (auto simp: n ix_eq_iff Let_def split: option.split bind_splits)
  show ?case
  proof (cases "H mod 31 = 30")
    case False
    then have S: "Suc H div 31 = H div 31" "lin (Suc H) = lin H + 1" by (simp_all add: Suc_div_31 lin_Suc)
    have "\<exists>q'. sq_drop_loop n' (ix (Suc H) False) (ix T False) (addr (Suc H div 31)) q =
        Some (map cont [Suc H..<T], addr (T div 31), q') \<and> chain addr (T div 31) (T div 31) q'"
      using Suc.prems ne by (intro Suc.hyps(1) [OF m]) (auto simp: S n)
    with False ne show ?thesis unfolding first by (auto simp: S map_upt_window_Cons)
  next
    case True
    then have S: "Suc H div 31 = Suc (H div 31)" "lin (Suc H) = lin H + 2" by (simp_all add: Suc_div_31 lin_Suc)
    then have lt: "H div 31 < T div 31" using div_le_mono [of "Suc H" T 31] ne by simp
    have "lin (Suc H) \<le> lin T" using lin_mono [of "Suc H" T] ne by (cases "Suc H = T") simp_all
    then obtain n'' where n': "n' = Suc n''" "lin T - lin (Suc H) \<le> n''" using Suc.prems(4) S n by (cases n') simp_all
    let ?q = "q\<lparr>sq_heap := (sq_heap q)(addr (H div 31) := None)\<rparr>"
    note fr = chain_free [OF Suc.prems(1)]
    have "offset_of (ix H False + 2) = 31" "offset_of (ix T False) < 31"
      using block_end_offset [OF near(1) True] near(2) by simp_all
    then have "ix H False + 2 \<noteq> ix T False" by (metis less_irrefl)
    with block_end_offset [OF near(1) True] fr(1) chain_get_next [OF Suc.prems(1) order_refl le] lt
    have second: "sq_drop_loop n' (ix H False + 2) (ix T False) (addr (H div 31)) q =
        sq_drop_loop n'' (ix (Suc H) False) (ix T False) (addr (Suc H div 31)) ?q"
      using True by (simp add: n' S Let_def)
    have "sq_value (slot_at addr ?q p) = Some (cont p)" if "Suc H \<le> p" "p < T" for p
    proof -
      have "H div 31 < p div 31" "p div 31 \<le> T div 31" using div_range [of "Suc H" p T] that S by simp_all
      with fr(3) [of p] vals [of p] that show ?thesis by simp
    qed
    then have "\<exists>q'. sq_drop_loop n'' (ix (Suc H) False) (ix T False) (addr (Suc H div 31)) ?q =
        Some (map cont [Suc H..<T], addr (T div 31), q') \<and> chain addr (T div 31) (T div 31) q'"
      using fr(2) [OF lt] Suc.prems(2) ne n'(2) S by (intro Suc.hyps(1) [OF m]) auto
    with ne show ?thesis unfolding first second by (auto simp: map_upt_window_Cons)
  qed
qed

lemma sq_window_drop:
  assumes win: "sq_window H T cont addr hb q" and n: "lin T - lin H \<le> n"
  shows "\<exists>q'. sq_drop n q = Some (map cont [H..<T], q') \<and> sq_heap q' = Map.empty"
proof -
  note d = sq_windowD [OF win]
  from sq_drop_loop_values [OF d(4,2,1) n d(7)] obtain q' where
    q': "sq_drop_loop n (ix H False) (ix T False) (addr (H div 31)) q = Some (map cont [H..<T], addr (T div 31), q')"
    "chain addr (T div 31) (T div 31) q'" by blast
  have "addr (T div 31) \<noteq> null" by (rule d(10))
  with q' chain_free [OF q'(2)] d(5,6) show ?thesis by (simp add: sq_drop_def)
qed

lemma sq_into_iter_next_empty:
  "sq_window H T cont addr hb q \<Longrightarrow> H = T \<Longrightarrow> sq_into_iter_next q = Some (None, q)"
  using sq_windowD [of H T cont addr hb q] by (simp add: sq_into_iter_next_def Let_def)

lemma sq_into_iter_next_some:
  assumes win: "sq_window H T cont addr hb q" and ne: "H < T"
  shows "sq_into_iter_next q = Some (Some (cont H), sq_stepped addr H hb ((slot_at addr q H)\<lparr>sq_value := None\<rparr>) q)"
proof -
  note d = sq_windowD [OF win]
  have gs: "get_slot (addr (H div 31)) (H mod 31) q = Some (slot_at addr q H)"
    by (rule chain_get_slot [OF d(4) order_refl d(8)])
  have v: "sq_value (slot_at addr q H) = Some (cont H)" using d(7) [OF order_refl ne] .
  let ?s = "(slot_at addr q H)\<lparr>sq_value := None\<rparr>"
  have set: "set_slot (addr (H div 31)) (H mod 31) ?s q = Some (put_slot addr H ?s q)"
    by (rule chain_set_slot [OF d(4) order_refl d(8)])
  note ch = chain_put_slot [OF d(4) order_refl d(8), of ?s]
  have "sq_into_iter_next q = (if H mod 31 = 30 then do {
      nxt \<leftarrow> get_next (addr (H div 31)) (put_slot addr H ?s q);
      q \<leftarrow> destroy_mut (addr (H div 31)) (put_slot addr H ?s q);
      Some (Some (cont H), q\<lparr>sq_head := \<lparr>index = ix (Suc H) hb, block = nxt\<rparr>\<rparr>) }
    else Some (Some (cont H), (put_slot addr H ?s q)\<lparr>sq_head := \<lparr>index = ix (Suc H) hb, block = addr (H div 31)\<rparr>\<rparr>))"
    using d(2,3,5,6) ne gs v set by (simp add: sq_into_iter_next_def Let_def)
  also have "\<dots> = Some (Some (cont H), sq_stepped addr H hb ?s q)"
  proof (cases "H mod 31 = 30")
    case True
    then have "H div 31 < T div 31" using div_le_mono [of "Suc H" T 31] ne by (simp add: Suc_div_31)
    with True chain_free(1) [OF ch] chain_get_next [OF ch order_refl d(8)] show ?thesis
      by (simp add: sq_stepped_def Suc_div_31 put_slot_def Let_def)
  qed (simp add: sq_stepped_def Suc_div_31)
  finally show ?thesis .
qed

lemma sq_window_collect:
  "sq_window H T cont addr hb q \<Longrightarrow>
     \<exists>q'. sq_collect (Suc (T - H)) q = Some (map cont [H..<T], q') \<and> sq_window T T cont addr hb q'"
proof (induction "T - H" arbitrary: H q)
  case 0
  then have "H = T" using sq_windowD(1) [OF 0(2)] by simp
  with 0 show ?case by (simp add: sq_into_iter_next_empty)
next
  case (Suc m)
  then have m: "m = T - Suc H" and ne: "H < T" by simp_all
  note nxt = sq_into_iter_next_some [OF Suc.prems ne]
  from Suc.hyps(1) [OF m sq_window_stepped [OF Suc.prems ne]] obtain q' where
    "sq_collect (Suc (T - Suc H)) (sq_stepped addr H hb ((slot_at addr q H)\<lparr>sq_value := None\<rparr>) q) =
       Some (map cont [Suc H..<T], q')" "sq_window T T cont addr hb q'" by blast
  moreover have "Suc (T - H) = Suc (Suc (T - Suc H))" using ne by simp
  ultimately show ?case using ne by (simp add: nxt map_upt_window_Cons del: sq_collect.simps) (simp add: nxt)
qed

section \<open>Properties\<close>

text \<open>A run of operations on a new queue.\<close>

lemma sq_run_new:
  fixes ops :: "'a queue_op list"
  assumes "length ops < 2 ^ 60"
  shows "\<exists>rs q'. queue_run sq_apply ops sq_new = Some (rs, q') \<and> sq_wf 0 q' \<and>
    list_queue_run None ops [] = (rs, sq_contents q')"
proof -
  have null: "sq_null (sq_new :: 'a seg_queue)" by (simp add: sq_null_def sq_new_def)
  then have "sq_wf (length ops) (sq_new :: 'a seg_queue)" using assms by (simp add: sq_wf_def near_def)
  from sqm.run_refines [OF this] show ?thesis by (auto simp: sq_null_ops [OF null])
qed

text \<open>
  C6: \<^verbatim>\<open>SegQueue\<close> on an exclusive reference, from \<^verbatim>\<open>new\<close> on, for any
  sequence of fewer than \<open>2 ^ 60\<close> calls of \<^verbatim>\<open>push_mut\<close> and
  \<^verbatim>\<open>pop_mut\<close>: no access to a freed or null block and no double free, results exactly
  those of an unbounded list queue, elements delivered in order without loss or duplication, across
  all block boundaries.
\<close>

theorem sq_mut_fifo:
  fixes ops :: "'a queue_op list"
  assumes "length ops < 2 ^ 60"
  shows "\<exists>rs q'. queue_run sq_apply ops sq_new = Some (rs, q') \<and>
    list_queue_run None ops [] = (rs, sq_contents q') \<and> delivered rs @ sq_contents q' = accepted ops rs"
  using sq_run_new [OF assms] list_queue_run_fifo by fastforce

definition forty_pushes :: "nat queue_op list" where
  "forty_pushes = map Push [0..<40] @ replicate 35 Pop"

theorem sq_mut_fifo_witness:
  "\<exists>rs q'. queue_run sq_apply forty_pushes sq_new = Some (rs, q') \<and>
    list_queue_run None forty_pushes [] = (rs, sq_contents q') \<and>
    delivered rs @ sq_contents q' = accepted forty_pushes rs"
  using sq_mut_fifo [of forty_pushes] by (simp add: forty_pushes_def)

lemma sq_wfE:
  assumes "sq_wf n q"
  obtains "sq_null q" | H T cont addr hb where "sq_rep H T cont addr hb q"
  using assms by (auto simp: sq_wf_def)

lemma sq_wf_observers:
  assumes "sq_wf n q"
  shows "sq_len q = length (sq_contents q) \<and> (sq_is_empty q \<longleftrightarrow> sq_contents q = [])"
  using assms
proof (cases rule: sq_wfE)
  case 1
  then show ?thesis by (simp add: sq_null_ops)
next
  case (2 H T cont addr hb)
  note win = sq_rep_window [OF 2]
  from sq_windowD(1-3,5,6) [OF win] show ?thesis
    by (auto simp: sq_window_len [OF win] sq_window_contents [OF win] sq_is_empty_def)
qed

text \<open>
  C11: the observers of a queue at rest. After any sequence of fewer than \<open>2 ^ 60\<close> calls of
  \<^verbatim>\<open>push_mut\<close> and \<^verbatim>\<open>pop_mut\<close> on a new queue, \<^verbatim>\<open>len\<close> is the number of
  elements that a list holds after the same calls and \<^verbatim>\<open>is_empty\<close> says whether it is
  empty, so that \<^verbatim>\<open>len\<close> subtracts the unused index at each block end correctly.
\<close>

theorem sq_observers:
  fixes ops :: "'a queue_op list"
  assumes "length ops < 2 ^ 60" "list_queue_run None ops [] = (rs, xs)"
  shows "\<exists>q'. queue_run sq_apply ops sq_new = Some (rs, q') \<and> sq_len q' = length xs \<and> (sq_is_empty q' \<longleftrightarrow> xs = [])"
  using sq_run_new [OF assms(1)] sq_wf_observers assms(2) by fastforce

text \<open>Elements in two blocks, and a head past the start of its block.\<close>

definition two_blocks :: "nat queue_op list" where
  "two_blocks = map Push [0..<40] @ replicate 5 Pop"

lemma two_blocks_list: "length two_blocks < 2 ^ 60" "snd (list_queue_run None two_blocks []) = [5..<40]"
  by (simp add: two_blocks_def) code_simp

theorem sq_observers_witness:
  "\<exists>rs q'. queue_run sq_apply two_blocks sq_new = Some (rs, q') \<and> sq_len q' = 35 \<and> \<not> sq_is_empty q'"
  using sq_observers [OF two_blocks_list(1), of "fst (list_queue_run None two_blocks [])" "[5..<40]"] two_blocks_list(2)
  by (auto simp: prod_eq_iff)

lemma lin_diff: "H \<le> T \<Longrightarrow> lin T - lin H \<le> 2 * (T - H)"
  by (induction rule: dec_induct) (auto simp: lin_Suc)

text \<open>
  C8: dropping a queue destroys exactly the elements it holds, each once and in order, and frees
  every block exactly once: no block is leaked. The owning iterator yields exactly the elements, and
  what it leaves can be dropped in the same way.
\<close>

theorem sq_drop_iter:
  assumes "sq_wf m q" "2 * sq_len q \<le> n"
  shows "(\<exists>q'. sq_drop n q = Some (sq_contents q, q') \<and> sq_heap q' = Map.empty) \<and>
    (\<exists>q' q''. sq_collect (Suc (sq_len q)) q = Some (sq_contents q, q') \<and>
       sq_drop n q' = Some ([], q'') \<and> sq_heap q'' = Map.empty)"
  using assms(1)
proof (cases rule: sq_wfE)
  case 1
  then have "sq_drop n q = Some ([], q)" "sq_into_iter_next q = Some (None, q)"
    by (cases n; simp add: sq_null_def sq_drop_def sq_into_iter_next_def)+
  with 1 show ?thesis by (simp add: sq_null_ops sq_null_def)
next
  case (2 H T cont addr hb)
  note win = sq_rep_window [OF 2]
  have fuel: "lin T - lin H \<le> n"
    using lin_diff [OF sq_windowD(1) [OF win]] assms(2) by (simp add: sq_window_len [OF win])
  from sq_window_collect [OF win] obtain q' where
    q': "sq_collect (Suc (sq_len q)) q = Some (sq_contents q, q')" "sq_window T T cont addr hb q'"
    by (auto simp: sq_window_len [OF win] sq_window_contents [OF win])
  have "\<exists>q''. sq_drop n q' = Some ([], q'') \<and> sq_heap q'' = Map.empty"
    using sq_window_drop [OF q'(2), of n] by simp
  with q'(1) sq_window_drop [OF win fuel] show ?thesis by (simp add: sq_window_contents [OF win])
qed

theorem sq_drop_iter_witness:
  "\<exists>rs q. queue_run sq_apply two_blocks sq_new = Some (rs, q) \<and>
    (\<exists>q'. sq_drop 70 q = Some ([5..<40], q') \<and> sq_heap q' = Map.empty) \<and>
    (\<exists>q' q''. sq_collect 36 q = Some ([5..<40], q') \<and> sq_drop 70 q' = Some ([], q'') \<and> sq_heap q'' = Map.empty)"
proof -
  from sq_run_new [OF two_blocks_list(1)] obtain rs q where
    q: "queue_run sq_apply two_blocks sq_new = Some (rs, q)" "sq_wf 0 q" "sq_contents q = [5..<40]"
    using two_blocks_list(2) by auto
  have len: "sq_len q = 35" using sq_wf_observers [OF q(2)] q(3) by simp
  have "(\<exists>q'. sq_drop 70 q = Some ([5..<40], q') \<and> sq_heap q' = Map.empty) \<and>
    (\<exists>q' q''. sq_collect 36 q = Some ([5..<40], q') \<and> sq_drop 70 q' = Some ([], q'') \<and> sq_heap q'' = Map.empty)"
    using sq_drop_iter [OF q(2), of 70] unfolding len q(3) by simp
  with q(1) show ?thesis by blast
qed

end
