(* ===== verification/Seg_Queue_Shared.thy ===== *)
theory Seg_Queue_Shared
  imports Seg_Queue Atomic_Object
begin

text \<open>
  The shared operations \<^verbatim>\<open>push\<close> and \<^verbatim>\<open>pop\<close> of \<^verbatim>\<open>SegQueue\<close>
  (\<^verbatim>\<open>crossbeam-queue/src/seg_queue.rs\<close>), run by any number of threads, one access to the queue or to a block at
  a time. A program point keeps the local variables that are still needed. An access to memory that is not allocated, a read of
  an empty slot and an \<^verbatim>\<open>unwrap\<close> of nothing lead to the point \<open>SUndefined\<close>. Allocating and freeing a box that no other
  thread knows is done together with a neighbouring access.
\<close>

section \<open>Program points\<close>

text \<open>Those of \<^verbatim>\<open>push\<close>, with the value and \<^verbatim>\<open>next_block\<close>, and those of \<^verbatim>\<open>pop\<close>.\<close>

datatype 'a sq_pc =
    SLoadIndex 'a "ptr option" | SLoadBlock 'a "ptr option" u64
  | SInstall 'a "ptr option" u64 ptr | SStoreHead 'a "ptr option" u64 ptr | SCas 'a "ptr option" u64 ptr
  | SStoreBlock 'a ptr u64 ptr | SStoreIndex 'a ptr u64 ptr | SStoreNext 'a ptr u64 ptr
  | SWrite 'a "ptr option" u64 ptr | SState "ptr option" u64 ptr
  | HLoadIndex | HLoadBlock u64 | HLoadTail u64 ptr | HCas u64 u64 ptr
  | HWaitNext u64 u64 ptr | HNextNext u64 u64 ptr ptr | HStoreBlock u64 u64 ptr ptr | HStoreIndex u64 u64 ptr
  | HWaitWrite u64 ptr | HRead u64 ptr | HMark 'a u64 ptr
  | HDestroy 'a u64 ptr nat | HDestroyOr 'a u64 ptr nat | HFree 'a u64 ptr
  | SUndefined

type_synonym 'a sq_thread = "('a sq_pc, 'a queue_ret) thread"

fun sq_start :: "'a queue_op \<Rightarrow> 'a sq_pc" where
  "sq_start (Push v) = SLoadIndex v None"
| "sq_start Pop = HLoadIndex"

section \<open>Push\<close>

text \<open>Dropping an optional box, and the allocation of \<^verbatim>\<open>next_block\<close> in advance.\<close>

definition drop_box :: "ptr option \<Rightarrow> 'a seg_queue \<Rightarrow> 'a seg_queue" where
  "drop_box nb q = (case nb of None \<Rightarrow> q | Some b \<Rightarrow> q\<lparr>sq_heap := (sq_heap q)(b := None)\<rparr>)"

definition box_in_advance :: "nat \<Rightarrow> ptr option \<Rightarrow> 'a seg_queue \<Rightarrow> ptr option \<times> 'a seg_queue" where
  "box_in_advance offset nb q =
     (if offset + 1 = BLOCK_CAP \<and> nb = None then (let (new, q') = sq_alloc q in (Some new, q')) else (nb, q))"

fun sq_push_tick :: "bool \<Rightarrow> 'a seg_queue \<Rightarrow> 'a sq_pc \<Rightarrow> 'a seg_queue \<times> 'a sq_thread" where
  "sq_push_tick fail q (SLoadIndex v nb) = (q, Running (SLoadBlock v nb (index (sq_tail q))))"
| "sq_push_tick fail q (SLoadBlock v nb tail) =
     (let offset = offset_of tail; blk = block (sq_tail q) in
      if offset = BLOCK_CAP then (q, Running (SLoadIndex v nb))
      else
        let (nb, q) = box_in_advance offset nb q in
        if blk = null then (let (new, q) = sq_alloc q in (q, Running (SInstall v nb tail new)))
        else (q, Running (SCas v nb tail blk)))"
| "sq_push_tick fail q (SInstall v nb tail new) =
     (if block (sq_tail q) = null
      then (q\<lparr>sq_tail := (sq_tail q)\<lparr>block := new\<rparr>\<rparr>, Running (SStoreHead v nb tail new))
      else (drop_box nb q, Running (SLoadIndex v (Some new))))"
| "sq_push_tick fail q (SStoreHead v nb tail new) =
     (q\<lparr>sq_head := (sq_head q)\<lparr>block := new\<rparr>\<rparr>, Running (SCas v nb tail new))"
| "sq_push_tick fail q (SCas v nb tail blk) =
     (if index (sq_tail q) = tail \<and> \<not> fail then
        (q\<lparr>sq_tail := (sq_tail q)\<lparr>index := tail + push_bit SHIFT 1\<rparr>\<rparr>,
         Running (if offset_of tail + 1 = BLOCK_CAP
           then (case nb of None \<Rightarrow> SUndefined | Some nxt \<Rightarrow> SStoreBlock v nxt tail blk)
           else SWrite v nb tail blk))
      else (q, Running (SLoadBlock v nb (index (sq_tail q)))))"
| "sq_push_tick fail q (SStoreBlock v nxt tail blk) =
     (q\<lparr>sq_tail := (sq_tail q)\<lparr>block := nxt\<rparr>\<rparr>, Running (SStoreIndex v nxt tail blk))"
| "sq_push_tick fail q (SStoreIndex v nxt tail blk) =
     (q\<lparr>sq_tail := (sq_tail q)\<lparr>index := tail + push_bit SHIFT 1 + push_bit SHIFT 1\<rparr>\<rparr>, Running (SStoreNext v nxt tail blk))"
| "sq_push_tick fail q (SStoreNext v nxt tail blk) =
     (case set_next blk nxt q of None \<Rightarrow> (q, Running SUndefined) | Some q' \<Rightarrow> (q', Running (SWrite v None tail blk)))"
| "sq_push_tick fail q (SWrite v nb tail blk) =
     (case get_slot blk (offset_of tail) q of
        None \<Rightarrow> (q, Running SUndefined)
      | Some s \<Rightarrow> (case set_slot blk (offset_of tail) (s\<lparr>sq_value := Some v\<rparr>) q of
          None \<Rightarrow> (q, Running SUndefined) | Some q' \<Rightarrow> (q', Running (SState nb tail blk))))"
| "sq_push_tick fail q (SState nb tail blk) =
     (case get_slot blk (offset_of tail) q of
        None \<Rightarrow> (q, Running SUndefined)
      | Some s \<Rightarrow> (case set_slot blk (offset_of tail) (s\<lparr>sq_state := sq_state s OR WRITE\<rparr>) q of
          None \<Rightarrow> (q, Running SUndefined) | Some q' \<Rightarrow> (drop_box nb q', Done Pushed)))"
| "sq_push_tick fail q pc = (q, Running pc)"

section \<open>Pop\<close>

text \<open>
  Before the compare-exchange: a null block means that the first push is still under way. The loop of
  \<^verbatim>\<open>Block::destroy\<close> at index \<open>i\<close>.
\<close>

definition sq_try_head :: "u64 \<Rightarrow> u64 \<Rightarrow> ptr \<Rightarrow> 'a sq_pc" where
  "sq_try_head head new_head blk = (if blk = null then HLoadIndex else HCas head new_head blk)"

definition sq_destroy_at :: "'a \<Rightarrow> u64 \<Rightarrow> ptr \<Rightarrow> nat \<Rightarrow> 'a sq_pc" where
  "sq_destroy_at v head blk i = (if i < BLOCK_CAP - 1 then HDestroy v head blk i else HFree v head blk)"

fun sq_pop_tick :: "bool \<Rightarrow> 'a seg_queue \<Rightarrow> 'a sq_pc \<Rightarrow> 'a seg_queue \<times> 'a sq_thread" where
  "sq_pop_tick fail q HLoadIndex = (q, Running (HLoadBlock (index (sq_head q))))"
| "sq_pop_tick fail q (HLoadBlock head) =
     (let blk = block (sq_head q); new_head = head + push_bit SHIFT 1 in
      (q, Running (if offset_of head = BLOCK_CAP then HLoadIndex
        else if new_head AND HAS_NEXT = 0 then HLoadTail head blk
        else sq_try_head head new_head blk)))"
| "sq_pop_tick fail q (HLoadTail head blk) =
     (let tail = index (sq_tail q); new_head = head + push_bit SHIFT 1 in
      (q, if drop_bit SHIFT head = drop_bit SHIFT tail then Done Nothing
        else Running (sq_try_head head (if lap_of head \<noteq> lap_of tail then new_head OR HAS_NEXT else new_head) blk)))"
| "sq_pop_tick fail q (HCas head new_head blk) =
     (if index (sq_head q) = head \<and> \<not> fail then
        (q\<lparr>sq_head := (sq_head q)\<lparr>index := new_head\<rparr>\<rparr>,
         Running (if offset_of head + 1 = BLOCK_CAP then HWaitNext head new_head blk else HWaitWrite head blk))
      else (q, Running (HLoadBlock (index (sq_head q)))))"
| "sq_pop_tick fail q (HWaitNext head new_head blk) =
     (q, Running (case get_next blk q of
        None \<Rightarrow> SUndefined
      | Some nxt \<Rightarrow> if nxt = null then HWaitNext head new_head blk else HNextNext head new_head blk nxt))"
| "sq_pop_tick fail q (HNextNext head new_head blk nxt) =
     (let next_index = (new_head AND NOT HAS_NEXT) + push_bit SHIFT 1 in
      (q, Running (case get_next nxt q of
         None \<Rightarrow> SUndefined
       | Some nn \<Rightarrow> HStoreBlock head (if nn \<noteq> null then next_index OR HAS_NEXT else next_index) blk nxt)))"
| "sq_pop_tick fail q (HStoreBlock head next_index blk nxt) =
     (q\<lparr>sq_head := (sq_head q)\<lparr>block := nxt\<rparr>\<rparr>, Running (HStoreIndex head next_index blk))"
| "sq_pop_tick fail q (HStoreIndex head next_index blk) =
     (q\<lparr>sq_head := (sq_head q)\<lparr>index := next_index\<rparr>\<rparr>, Running (HWaitWrite head blk))"
| "sq_pop_tick fail q (HWaitWrite head blk) =
     (q, Running (case get_slot blk (offset_of head) q of
        None \<Rightarrow> SUndefined
      | Some s \<Rightarrow> if sq_state s AND WRITE = 0 then HWaitWrite head blk else HRead head blk))"
| "sq_pop_tick fail q (HRead head blk) =
     (case get_slot blk (offset_of head) q of
        None \<Rightarrow> (q, Running SUndefined)
      | Some s \<Rightarrow> (case (sq_value s, set_slot blk (offset_of head) (s\<lparr>sq_value := None\<rparr>) q) of
          (Some v, Some q') \<Rightarrow>
            (q', Running (if offset_of head + 1 = BLOCK_CAP then sq_destroy_at v head blk 0 else HMark v head blk))
        | _ \<Rightarrow> (q, Running SUndefined)))"
| "sq_pop_tick fail q (HMark v head blk) =
     (case get_slot blk (offset_of head) q of
        None \<Rightarrow> (q, Running SUndefined)
      | Some s \<Rightarrow> (case set_slot blk (offset_of head) (s\<lparr>sq_state := sq_state s OR READ\<rparr>) q of
          None \<Rightarrow> (q, Running SUndefined)
        | Some q' \<Rightarrow>
            (q', if sq_state s AND DESTROY \<noteq> 0 then Running (sq_destroy_at v head blk (offset_of head + 1)) else Done (Popped v))))"
| "sq_pop_tick fail q (HDestroy v head blk i) =
     (q, Running (case get_slot blk i q of
        None \<Rightarrow> SUndefined
      | Some s \<Rightarrow> if sq_state s AND READ = 0 then HDestroyOr v head blk i else sq_destroy_at v head blk (i + 1)))"
| "sq_pop_tick fail q (HDestroyOr v head blk i) =
     (case get_slot blk i q of
        None \<Rightarrow> (q, Running SUndefined)
      | Some s \<Rightarrow> (case set_slot blk i (s\<lparr>sq_state := sq_state s OR DESTROY\<rparr>) q of
          None \<Rightarrow> (q, Running SUndefined)
        | Some q' \<Rightarrow>
            (q', if sq_state s AND READ = 0 then Done (Popped v) else Running (sq_destroy_at v head blk (i + 1)))))"
| "sq_pop_tick fail q (HFree v head blk) =
     (case destroy_mut blk q of None \<Rightarrow> (q, Running SUndefined) | Some q' \<Rightarrow> (q', Done (Popped v)))"
| "sq_pop_tick fail q pc = (q, Running pc)"

text \<open>Which operation a program point belongs to.\<close>

fun sq_pushing :: "'a sq_pc \<Rightarrow> bool" where
  "sq_pushing (SLoadIndex v nb) = True"
| "sq_pushing (SLoadBlock v nb tail) = True"
| "sq_pushing (SInstall v nb tail new) = True"
| "sq_pushing (SStoreHead v nb tail new) = True"
| "sq_pushing (SCas v nb tail blk) = True"
| "sq_pushing (SStoreBlock v nxt tail blk) = True"
| "sq_pushing (SStoreIndex v nxt tail blk) = True"
| "sq_pushing (SStoreNext v nxt tail blk) = True"
| "sq_pushing (SWrite v nb tail blk) = True"
| "sq_pushing (SState nb tail blk) = True"
| "sq_pushing _ = False"

definition sq_tick :: "bool \<Rightarrow> 'a seg_queue \<Rightarrow> 'a sq_pc \<Rightarrow> 'a seg_queue \<times> 'a sq_thread" where
  "sq_tick fail q pc = (if sq_pushing pc then sq_push_tick fail q pc else sq_pop_tick fail q pc)"

definition sq_spec :: "'a queue_op \<Rightarrow> 'a list \<Rightarrow> 'a queue_ret \<Rightarrow> 'a list \<Rightarrow> bool" where
  "sq_spec oper xs r ys \<longleftrightarrow> list_queue None oper xs = (r, ys)"

end
