(* ===== verification/Block_Reclaim.thy ===== *)
theory Block_Reclaim
  imports Block_Index Atomic_Object
begin

text \<open>
  When a block of a block-linked queue is freed. The same protocol is used by
  \<^verbatim>\<open>crossbeam-queue/src/seg_queue.rs\<close>,
  \<^verbatim>\<open>crossbeam-channel/src/flavors/list.rs\<close> and the injector of
  \<^verbatim>\<open>crossbeam-deque/src/deque.rs\<close>. Each of the 31 slots of a block is written by
  one pushing thread and read by one popping thread (whoever moved the tail and the head past it);
  the threads are named by the slot. The reader of the last slot starts destroying the block; where
  it meets a slot still being read it sets \<^verbatim>\<open>DESTROY\<close> there and leaves the rest of
  the destruction to that reader. Every step below is one access to the shared block.
\<close>

section \<open>The machine\<close>

datatype wpc = WValue | WState | WDone

datatype rpc = RWait | RValue | RMark | RLoad nat | ROr nat | RFree | RDone

record blk_sys =
  b_state :: "nat \<Rightarrow> usize"
  b_freed :: nat
  b_wr :: "nat \<Rightarrow> wpc"
  b_rd :: "nat \<Rightarrow> rpc"

text \<open>The loop of \<^verbatim>\<open>Block::destroy\<close> at index \<open>i\<close>.\<close>

definition destroy_from :: "nat \<Rightarrow> rpc" where
  "destroy_from i = (if i < BLOCK_CAP - 1 then RLoad i else RFree)"

text \<open>
  The tail of \<^verbatim>\<open>push\<close> (write the value, then \<^verbatim>\<open>fetch_or(WRITE)\<close>), and
  the tail of \<^verbatim>\<open>pop\<close> (\<^verbatim>\<open>wait_write\<close>, read the value, then
  \<^verbatim>\<open>destroy(block, 0)\<close> or \<^verbatim>\<open>fetch_or(READ)\<close> and possibly
  \<^verbatim>\<open>destroy(block, offset + 1)\<close>).
\<close>

definition write_tick :: "nat \<Rightarrow> blk_sys \<Rightarrow> blk_sys" where
  "write_tick i s =
     (case b_wr s i of
        WValue \<Rightarrow> s\<lparr>b_wr := (b_wr s)(i := WState)\<rparr>
      | WState \<Rightarrow> s\<lparr>b_state := (b_state s)(i := b_state s i OR WRITE), b_wr := (b_wr s)(i := WDone)\<rparr>
      | WDone \<Rightarrow> s)"

definition read_tick :: "nat \<Rightarrow> blk_sys \<Rightarrow> blk_sys" where
  "read_tick offset s =
     (case b_rd s offset of
        RWait \<Rightarrow> if b_state s offset AND WRITE = 0 then s else s\<lparr>b_rd := (b_rd s)(offset := RValue)\<rparr>
      | RValue \<Rightarrow>
          if offset + 1 = BLOCK_CAP then s\<lparr>b_rd := (b_rd s)(offset := destroy_from 0)\<rparr>
          else s\<lparr>b_rd := (b_rd s)(offset := RMark)\<rparr>
      | RMark \<Rightarrow>
          s\<lparr>b_state := (b_state s)(offset := b_state s offset OR READ),
            b_rd := (b_rd s)(offset :=
              if b_state s offset AND DESTROY \<noteq> 0 then destroy_from (offset + 1) else RDone)\<rparr>
      | RLoad i \<Rightarrow>
          if b_state s i AND READ = 0 then s\<lparr>b_rd := (b_rd s)(offset := ROr i)\<rparr>
          else s\<lparr>b_rd := (b_rd s)(offset := destroy_from (i + 1))\<rparr>
      | ROr i \<Rightarrow>
          s\<lparr>b_state := (b_state s)(i := b_state s i OR DESTROY),
            b_rd := (b_rd s)(offset := if b_state s i AND READ = 0 then RDone else destroy_from (i + 1))\<rparr>
      | RFree \<Rightarrow> s\<lparr>b_freed := Suc (b_freed s), b_rd := (b_rd s)(offset := RDone)\<rparr>
      | RDone \<Rightarrow> s)"

datatype blk_event = Writer nat | Reader nat

fun blk_step :: "blk_event \<Rightarrow> blk_sys \<Rightarrow> blk_sys" where
  "blk_step (Writer i) s = (if i < BLOCK_CAP then write_tick i s else s)"
| "blk_step (Reader i) s = (if i < BLOCK_CAP then read_tick i s else s)"

definition blk_init :: blk_sys where
  "blk_init = \<lparr>b_state = (\<lambda>_. 0), b_freed = 0, b_wr = (\<lambda>_. WValue), b_rd = (\<lambda>_. RWait)\<rparr>"

section \<open>The invariant\<close>

text \<open>The three bits of a slot's state.\<close>

abbreviation bW :: "blk_sys \<Rightarrow> nat \<Rightarrow> bool" where "bW s i \<equiv> b_state s i AND WRITE \<noteq> 0"
abbreviation bR :: "blk_sys \<Rightarrow> nat \<Rightarrow> bool" where "bR s i \<equiv> b_state s i AND READ \<noteq> 0"
abbreviation bD :: "blk_sys \<Rightarrow> nat \<Rightarrow> bool" where "bD s i \<equiv> b_state s i AND DESTROY \<noteq> 0"

lemma bits_nonzero [simp]: "WRITE \<noteq> 0" "READ \<noteq> 0" "DESTROY \<noteq> 0"
  by (simp_all add: WRITE_def READ_def DESTROY_def)

lemma bits_or [simp]:
  "(x OR WRITE) AND WRITE \<noteq> 0" "(x OR READ) AND READ \<noteq> 0" "(x OR DESTROY) AND DESTROY \<noteq> 0"
  "(x OR WRITE) AND READ = x AND READ" "(x OR WRITE) AND DESTROY = x AND DESTROY"
  "(x OR READ) AND WRITE = x AND WRITE" "(x OR READ) AND DESTROY = x AND DESTROY"
  "(x OR DESTROY) AND WRITE = x AND WRITE" "(x OR DESTROY) AND READ = x AND READ"
  for x :: usize
proof -
  have *: "WRITE = 2 ^ 0" "READ = 2 ^ 1" "DESTROY = 2 ^ 2" by (simp_all add: WRITE_def READ_def DESTROY_def)
  show "(x OR WRITE) AND WRITE \<noteq> 0" "(x OR READ) AND READ \<noteq> 0" "(x OR DESTROY) AND DESTROY \<noteq> 0"
    unfolding * by (simp_all only: and_exp_eq_0_iff_not_bit) (simp_all add: bit_or_iff bit_exp_iff)
qed (simp_all add: WRITE_def READ_def DESTROY_def bit.conj_disj_distrib2)

text \<open>The index at which a reader is destroying the block; 30 when it is about to free it.\<close>

fun destroying :: "rpc \<Rightarrow> nat option" where
  "destroying (RLoad i) = Some i"
| "destroying (ROr i) = Some i"
| "destroying RFree = Some 30"
| "destroying _ = None"

definition idle :: "blk_sys \<Rightarrow> bool" where
  "idle s \<longleftrightarrow> (\<forall>t<31. destroying (b_rd s t) = None)"

text \<open>
  The four phases: the last slot is still being read; thread \<open>t\<close> is destroying and has passed
  the slots before \<open>j\<close>; destruction is left to the reader of slot \<open>j\<close>; the block
  is freed.
\<close>

definition early :: "blk_sys \<Rightarrow> bool" where
  "early s \<longleftrightarrow> (b_rd s 30 = RWait \<or> b_rd s 30 = RValue) \<and> (\<forall>i<30. \<not> bD s i) \<and> idle s \<and> b_freed s = 0"

definition active :: "blk_sys \<Rightarrow> nat \<Rightarrow> nat \<Rightarrow> bool" where
  "active s t j \<longleftrightarrow> t < 31 \<and> destroying (b_rd s t) = Some j \<and> j \<le> 30 \<and>
     (\<forall>t'<31. t' \<noteq> t \<longrightarrow> destroying (b_rd s t') = None) \<and>
     (\<forall>i<j. bR s i) \<and> (\<forall>i<30. j \<le> i \<longrightarrow> \<not> bD s i) \<and> b_freed s = 0 \<and> (t \<noteq> 30 \<longrightarrow> b_rd s 30 = RDone)"

definition parked :: "blk_sys \<Rightarrow> nat \<Rightarrow> bool" where
  "parked s j \<longleftrightarrow> j < 30 \<and> bD s j \<and> \<not> bR s j \<and> (\<forall>i<j. bR s i) \<and> (\<forall>i<30. j < i \<longrightarrow> \<not> bD s i) \<and>
     idle s \<and> b_freed s = 0 \<and> b_rd s 30 = RDone"

definition freed :: "blk_sys \<Rightarrow> bool" where
  "freed s \<longleftrightarrow> b_freed s = 1 \<and> (\<forall>t<31. b_rd s t = RDone)"

definition blk_basic :: "blk_sys \<Rightarrow> bool" where
  "blk_basic s \<longleftrightarrow>
     (\<forall>i<31. bW s i \<longleftrightarrow> b_wr s i = WDone) \<and> (\<forall>i<31. b_rd s i \<noteq> RWait \<longrightarrow> b_wr s i = WDone) \<and>
     (\<forall>i<30. bR s i \<longleftrightarrow> b_rd s i \<noteq> RWait \<and> b_rd s i \<noteq> RValue \<and> b_rd s i \<noteq> RMark) \<and> b_rd s 30 \<noteq> RMark \<and>
     (\<forall>i<31. \<forall>j. b_rd s i = RLoad j \<or> b_rd s i = ROr j \<longrightarrow> j < 30)"

definition blk_inv :: "blk_sys \<Rightarrow> bool" where
  "blk_inv s \<longleftrightarrow> blk_basic s \<and> (early s \<or> (\<exists>t j. active s t j) \<or> (\<exists>j. parked s j) \<or> freed s)"

lemmas phase_defs = early_def active_def parked_def freed_def idle_def

lemma destroy_from_simps [simp]:
  "i \<le> 30 \<Longrightarrow> destroying (destroy_from i) = Some i"
  "destroy_from i \<noteq> RWait" "destroy_from i \<noteq> RValue" "destroy_from i \<noteq> RMark" "destroy_from i \<noteq> RDone"
  "destroy_from i \<noteq> ROr j" "destroy_from i = RLoad j \<longleftrightarrow> i = j \<and> j < 30"
  by (auto simp: destroy_from_def)

lemma write_tick_inv: "blk_inv s \<Longrightarrow> i < 31 \<Longrightarrow> blk_inv (write_tick i s)"
proof -
  assume inv: "blk_inv s" and i: "i < 31"
  let ?s = "write_tick i s"
  have rd: "b_rd ?s = b_rd s" "b_freed ?s = b_freed s" "\<And>j. bR ?s j = bR s j" "\<And>j. bD ?s j = bD s j"
    by (auto simp: write_tick_def split: wpc.split)
  have "blk_basic ?s"
    using inv i by (cases "b_wr s i") (auto simp: blk_inv_def blk_basic_def write_tick_def)
  moreover have "early ?s = early s" "\<And>t j. active ?s t j = active s t j" "\<And>j. parked ?s j = parked s j" "freed ?s = freed s"
    by (simp_all add: phase_defs rd)
  ultimately show ?thesis using inv by (simp add: blk_inv_def)
qed

lemma phase_cases:
  assumes "blk_inv s"
  obtains "blk_basic s" "early s" | t j where "blk_basic s" "active s t j" | j where "blk_basic s" "parked s j"
    | "blk_basic s" "freed s"
  using assms by (auto simp: blk_inv_def)

lemma inv_early: "blk_basic s \<Longrightarrow> early s \<Longrightarrow> blk_inv s"
  and inv_active: "blk_basic s \<Longrightarrow> active s t j \<Longrightarrow> blk_inv s"
  and inv_parked: "blk_basic s \<Longrightarrow> parked s j \<Longrightarrow> blk_inv s"
  and inv_freed: "blk_basic s \<Longrightarrow> freed s \<Longrightarrow> blk_inv s"
  by (auto simp: blk_inv_def)

lemma slot_30_or_before: "i < 31 \<Longrightarrow> i < 30 \<or> i = (30::nat)"
  by linarith

lemma read_tick_basic:
  assumes "blk_basic s" "i < 31"
  shows "blk_basic (read_tick i s)"
proof (cases "b_rd s i")
  case (ROr x)
  then have bits: "bW (read_tick i s) k = bW s k" "bR (read_tick i s) k = bR s k" for k
    by (simp_all add: read_tick_def)
  obtain r where r: "b_rd (read_tick i s) = (b_rd s)(i := r)" "b_wr (read_tick i s) = b_wr s"
    "r = RDone \<or> r = destroy_from (x + 1)" using ROr by (auto simp: read_tick_def)
  then show ?thesis using assms ROr slot_30_or_before [OF assms(2)]
    unfolding blk_basic_def bits r(1,2) by auto
qed (use assms in \<open>auto simp: blk_basic_def read_tick_def\<close>)

text \<open>Steps that neither start, advance nor end a destruction.\<close>

lemma read_tick_quiet:
  assumes "blk_inv s" "i < 31" "b_rd s i = RWait \<or> b_rd s i = RDone \<or> b_rd s i = RValue \<and> i \<noteq> 30"
  shows "blk_inv (read_tick i s)"
proof -
  let ?s = "read_tick i s"
  note basic = read_tick_basic [OF _ assms(2)]
  from assms(3) have same: "b_state ?s = b_state s" "b_freed ?s = b_freed s"
    "\<And>t. destroying (b_rd ?s t) = destroying (b_rd s t)" "\<And>t. b_rd s t = RDone \<Longrightarrow> b_rd ?s t = RDone"
    "b_rd s 30 = RWait \<or> b_rd s 30 = RValue \<Longrightarrow> b_rd ?s 30 = RWait \<or> b_rd ?s 30 = RValue"
    by (auto simp: read_tick_def)
  from assms(1) show ?thesis
  proof (cases rule: phase_cases)
    case 1
    then have "early ?s" using same by (simp add: phase_defs)
    then show ?thesis by (rule inv_early [OF basic [OF 1(1)]])
  next
    case (2 t j)
    then have "active ?s t j" using same by (simp add: phase_defs)
    then show ?thesis by (rule inv_active [OF basic [OF 2(1)]])
  next
    case (3 j)
    then have "parked ?s j" using same by (simp add: phase_defs)
    then show ?thesis by (rule inv_parked [OF basic [OF 3(1)]])
  next
    case 4
    then have "freed ?s" using same by (simp add: phase_defs)
    then show ?thesis by (rule inv_freed [OF basic [OF 4(1)]])
  qed
qed

text \<open>The reader of the last slot starts the destruction.\<close>

lemma read_tick_last:
  assumes "blk_inv s" "b_rd s 30 = RValue"
  shows "blk_inv (read_tick 30 s)"
  using assms(1)
proof (cases rule: phase_cases)
  case 1
  then have "active (read_tick 30 s) 30 0" using assms(2) by (auto simp: phase_defs read_tick_def)
  then show ?thesis by (rule inv_active [OF read_tick_basic [OF 1(1)], rotated]) simp
next
  case (2 t j)
  then show ?thesis using assms(2) by (cases "t = 30") (auto simp: phase_defs)
qed (use assms(2) in \<open>auto simp: phase_defs\<close>)

text \<open>A reader marks its slot, and takes over the destruction if it finds \<^verbatim>\<open>DESTROY\<close>.\<close>

lemma read_tick_mark:
  assumes "blk_inv s" "i < 31" "b_rd s i = RMark"
  shows "blk_inv (read_tick i s)"
  using assms(1)
proof (cases rule: phase_cases)
  case 1
  then have i: "i < 30" "\<not> bR s i" using assms(2,3) slot_30_or_before [OF assms(2)] by (auto simp: blk_basic_def)
  with 1 have "early (read_tick i s)" using assms by (auto simp: phase_defs read_tick_def)
  then show ?thesis by (rule inv_early [OF read_tick_basic [OF 1(1) assms(2)]])
next
  case (2 t j)
  then have i: "i < 30" "\<not> bR s i" using assms(2,3) slot_30_or_before [OF assms(2)] by (auto simp: blk_basic_def)
  then have "\<not> bD s i" "t \<noteq> i" using 2(2) assms(3) by (auto simp: phase_defs not_less [symmetric])
  with 2 i have "active (read_tick i s) t j" using assms by (auto simp: phase_defs read_tick_def)
  then show ?thesis by (rule inv_active [OF read_tick_basic [OF 2(1) assms(2)]])
next
  case (3 j)
  then have i: "i < 30" "\<not> bR s i" using assms(2,3) slot_30_or_before [OF assms(2)] by (auto simp: blk_basic_def)
  show ?thesis
  proof (cases "i = j")
    case True
    with 3 i have "active (read_tick i s) i (i + 1)"
      using assms by (auto simp: phase_defs read_tick_def less_Suc_eq)
    then show ?thesis by (rule inv_active [OF read_tick_basic [OF 3(1) assms(2)]])
  next
    case False
    then have "\<not> bD s i" using 3(2) i by (auto simp: phase_defs)
    with 3 i False have "parked (read_tick i s) j" using assms by (auto simp: phase_defs read_tick_def)
    then show ?thesis by (rule inv_parked [OF read_tick_basic [OF 3(1) assms(2)]])
  qed
next
  case 4
  then show ?thesis using assms by (auto simp: phase_defs)
qed

lemma destroying_active:
  assumes "blk_inv s" "i < 31" "destroying (b_rd s i) = Some j"
  shows "blk_basic s" "active s i j"
proof -
  from assms(1) have "blk_basic s \<and> active s i j"
  proof (cases rule: phase_cases)
    case (2 t k)
    then have "i = t" using assms(2,3) unfolding active_def by (metis option.distinct(1))
    with 2 assms(3) show ?thesis by (simp add: active_def)
  qed (use assms in \<open>auto simp: phase_defs\<close>)
  then show "blk_basic s" "active s i j" by simp_all
qed

lemma read_tick_load:
  assumes "blk_inv s" "i < 31" "b_rd s i = RLoad j"
  shows "blk_inv (read_tick i s)"
proof -
  have act: "blk_basic s" "active s i j" using destroying_active [OF assms(1,2), of j] assms(3) by simp_all
  have j: "j < 30" using act(1) assms(2,3) by (auto simp: blk_basic_def)
  have "active (read_tick i s) i (if bR s j then j + 1 else j)"
    using act(2) assms(3) j by (auto simp: active_def read_tick_def less_Suc_eq)
  then show ?thesis by (rule inv_active [OF read_tick_basic [OF act(1) assms(2)]])
qed

lemma read_tick_or:
  assumes "blk_inv s" "i < 31" "b_rd s i = ROr j"
  shows "blk_inv (read_tick i s)"
proof -
  have act: "blk_basic s" "active s i j" using destroying_active [OF assms(1,2), of j] assms(3) by simp_all
  note basic = read_tick_basic [OF act(1) assms(2)]
  have j: "j < 30" using act(1) assms(2,3) by (auto simp: blk_basic_def)
  show ?thesis
  proof (cases "bR s j")
    case True
    then have "active (read_tick i s) i (j + 1)"
      using act(2) assms(3) j by (auto simp: active_def read_tick_def less_Suc_eq)
    then show ?thesis by (rule inv_active [OF basic])
  next
    case False
    then have "parked (read_tick i s) j"
      using act(2) assms(3) j by (auto simp: phase_defs read_tick_def)
    then show ?thesis by (rule inv_parked [OF basic])
  qed
qed

lemma read_tick_free:
  assumes "blk_inv s" "i < 31" "b_rd s i = RFree"
  shows "blk_inv (read_tick i s)"
proof -
  have act: "blk_basic s" "active s i 30" using destroying_active [OF assms(1,2), of 30] assms(3) by simp_all
  have "b_rd s t = RDone" if "t < 31" "t \<noteq> i" for t
  proof -
    have "destroying (b_rd s t) = None" "t = 30 \<Longrightarrow> b_rd s t = RDone" "t < 30 \<Longrightarrow> bR s t"
      using act(2) that by (auto simp: active_def)
    then show ?thesis using act(1) that(1) slot_30_or_before [OF that(1)]
      by (cases "b_rd s t") (auto simp: blk_basic_def)
  qed
  then have "freed (read_tick i s)" using act(2) assms(3) by (auto simp: phase_defs read_tick_def)
  then show ?thesis by (rule inv_freed [OF read_tick_basic [OF act(1) assms(2)]])
qed

lemma read_tick_inv:
  assumes "blk_inv s" "i < 31"
  shows "blk_inv (read_tick i s)"
proof (cases "b_rd s i")
  case RValue
  then show ?thesis
    using read_tick_quiet [OF assms] read_tick_last [OF assms(1)] by (cases "i = 30") simp_all
qed (use assms read_tick_quiet read_tick_mark read_tick_load read_tick_or read_tick_free in blast)+

interpretation blk: invariant_system blk_step blk_inv
proof
  show "blk_inv (blk_step e s)" if "blk_inv s" for s e
    using that read_tick_inv write_tick_inv by (cases e) auto
qed

lemma blk_inv_init: "blk_inv blk_init"
  by (auto simp: blk_inv_def blk_basic_def early_def idle_def blk_init_def)

section \<open>Properties\<close>

text \<open>
  C3: a block is freed at most once, only after every thread that uses one of its slots has made its
  last access to the block, and it is not leaked: once all readers are done it has been freed. This
  holds for every interleaving of the accesses of the 31 writers and 31 readers.
\<close>

theorem block_reclaimed_once:
  fixes es :: "blk_event list"
  defines "s \<equiv> impl_run blk_step es blk_init"
  shows "b_freed s \<le> 1 \<and> (b_freed s = 1 \<longrightarrow> (\<forall>i<BLOCK_CAP. b_wr s i = WDone \<and> b_rd s i = RDone)) \<and>
    ((\<forall>i<BLOCK_CAP. b_rd s i = RDone) \<longrightarrow> b_freed s = 1)"
proof -
  have "blk_inv s" unfolding s_def by (rule blk.run_inv [OF blk_inv_init])
  moreover have some: "\<not> (\<forall>i<BLOCK_CAP. b_rd s i = RDone)" if "i < 31" "b_rd s i \<noteq> RDone" for i
    using that by auto
  ultimately show ?thesis
  proof (cases rule: phase_cases)
    case 1
    then show ?thesis using some [of 30] by (auto simp: early_def)
  next
    case (2 t j)
    then show ?thesis using some [of t] by (auto simp: active_def)
  next
    case (3 j)
    then show ?thesis using some [of j] by (auto simp: blk_basic_def parked_def)
  qed (auto simp: freed_def blk_basic_def)
qed

text \<open>A run in which slot 3 is read last, so that its reader finishes the destruction.\<close>

definition late_reader :: "blk_event list" where
  "late_reader = concat (map (\<lambda>i. [Writer i, Writer i, Reader i, Reader i]) [0..<31]) @
     map Reader [0, 1, 2] @ map Reader [4..<30] @ replicate 5 (Reader 30) @ replicate 30 (Reader 3)"

lemma late_reader_done:
  "b_freed (impl_run blk_step late_reader blk_init) = 1"
  by code_simp

theorem block_reclaimed_once_witness:
  "b_freed (impl_run blk_step late_reader blk_init) = 1 \<and>
     b_rd (impl_run blk_step late_reader blk_init) 3 = RDone"
  using block_reclaimed_once [of late_reader] late_reader_done by simp

end
