(* ===== verification/Seg_Queue_Inv.thy ===== *)
theory Seg_Queue_Inv
  imports Seg_Queue_Shared Block_Reclaim
begin

text \<open>
  The invariant of the shared operations of \<^verbatim>\<open>SegQueue\<close> (theory \<open>Seg_Queue_Shared\<close>). It
  follows the values that have been pushed, in order, and the number of those that have been popped. Every block runs the protocol of
  theory \<open>Block_Reclaim\<close>: the thread that moved the tail past a slot is its writer there, and the one that moved the
  head its reader. The lemmas say what the other threads and the heap keep in a step.
\<close>

section \<open>Indices between blocks\<close>

text \<open>Behind the last slot of a block an index stands at offset 31 until the next block is installed.\<close>

lemma unat_full:
  assumes "near p"
  shows "unat (ix p b + 2) = 2 * (lin p + 1) + of_bool b"
proof -
  have "2 * (lin p + 1) + of_bool b < 2 ^ LENGTH(64)" using lin_bound [OF assms] by (simp add: of_bool_def)
  then show ?thesis unfolding ix_add_2 by (simp only: unat_of_nat mod_less)
qed

lemma shift_full: "near p \<Longrightarrow> unat (drop_bit SHIFT (ix p b + 2)) = lin p + 1"
  by (simp add: unat_drop_bit_eq unat_full SHIFT_def drop_bit_Suc unat_div)

lemma lin_full: "p mod 31 = 30 \<Longrightarrow> (lin p + 1) mod 32 = 31" "p mod 31 = 30 \<Longrightarrow> (lin p + 1) div 32 = p div 31"
  by (simp_all add: lin_def)

lemma offset_full: "near p \<Longrightarrow> p mod 31 = 30 \<Longrightarrow> offset_of (ix p b + 2) = 31"
  using lin_full(1) by (simp add: offset_of_def unat_mod shift_full LAP_def)

lemma lap_full:
  "near p \<Longrightarrow> near r \<Longrightarrow> p mod 31 = 30 \<Longrightarrow> lap_of (ix r d) = lap_of (ix p b + 2) \<longleftrightarrow> r div 31 = p div 31"
  using lin_full(2) by (simp add: word_unat_eq_iff lap_of_def unat_div shift_full shift_ix LAP_def lin_split)

lemma full_neq:
  assumes "near p" "near r" "p mod 31 = 30"
  shows "ix r d \<noteq> ix p b + 2" "ix p b + 2 \<noteq> ix r d" "drop_bit SHIFT (ix r d) \<noteq> drop_bit SHIFT (ix p b + 2)"
proof -
  have "offset_of (ix r d) \<noteq> offset_of (ix p b + 2)" using assms by (simp add: offset_full)
  then show "ix r d \<noteq> ix p b + 2" "ix p b + 2 \<noteq> ix r d" "drop_bit SHIFT (ix r d) \<noteq> drop_bit SHIFT (ix p b + 2)"
    by (auto simp: offset_of_def)
qed

lemma ix_inject: "near p \<Longrightarrow> near r \<Longrightarrow> ix p b = ix r d \<longleftrightarrow> p = r \<and> b = d"
proof
  assume a: "near p" "near r" "ix p b = ix r d"
  then show "p = r \<and> b = d" using shift_ix_eq [of p r b d] ix_odd(1) [of p b] ix_odd(1) [of r d] by metis
qed simp

text \<open>The element number of an index.\<close>

definition pos_of :: "u64 \<Rightarrow> nat" where
  "pos_of i = unat (lap_of i) * 31 + offset_of i"

lemma pos_ix [simp]: "near p \<Longrightarrow> pos_of (ix p b) = p"
  by (simp add: pos_of_def lap_of_def unat_div shift_ix LAP_def lin_split)

lemma div_Suc_block: "p mod 31 = 30 \<Longrightarrow> Suc p div 31 = Suc (p div 31)" "p mod 31 = 30 \<Longrightarrow> Suc p mod 31 = 0"
  "p mod 31 \<noteq> 30 \<Longrightarrow> Suc p div 31 = p div 31"
  by (simp_all add: div_Suc mod_Suc)

section \<open>Ghost state\<close>

text \<open>A position moves to the next block in two stores: of the block, then of the index.\<close>

datatype stage = Open | Full | Linked

record 'a sq_ghost =
  g_vals :: "'a list"
  g_pops :: nat
  g_tail :: stage
  g_head :: stage
  g_bit :: bool
  g_blocks :: nat
  g_addr :: "nat \<Rightarrow> ptr"
  g_linked :: "nat \<Rightarrow> bool"
  g_started :: bool
  g_sys :: "nat \<Rightarrow> blk_sys"

abbreviation pushes :: "'a sq_ghost \<Rightarrow> nat" where "pushes g \<equiv> length (g_vals g)"

definition wr :: "'a sq_ghost \<Rightarrow> nat \<Rightarrow> wpc" where
  "wr g p = b_wr (g_sys g (p div 31)) (p mod 31)"

definition rd :: "'a sq_ghost \<Rightarrow> nat \<Rightarrow> rpc" where
  "rd g p = b_rd (g_sys g (p div 31)) (p mod 31)"

definition ghost_new :: "'a sq_ghost" where
  "ghost_new = \<lparr>g_vals = [], g_pops = 0, g_tail = Open, g_head = Open, g_bit = False, g_blocks = 0, g_addr = (\<lambda>_. 0),
     g_linked = (\<lambda>_. False), g_started = False, g_sys = (\<lambda>_. blk_init)\<rparr>"

text \<open>The two positions of the queue.\<close>

definition tail_ok :: "'a seg_queue \<Rightarrow> 'a sq_ghost \<Rightarrow> bool" where
  "tail_ok q g \<longleftrightarrow>
     (let T = pushes g in
      if g_blocks g = 0 then T = 0 \<and> g_tail g = Open \<and> sq_tail q = \<lparr>index = ix 0 False, block = null\<rparr>
      else case g_tail g of
          Open \<Rightarrow> g_blocks g = Suc (T div 31) \<and> sq_tail q = \<lparr>index = ix T False, block = g_addr g (T div 31)\<rparr>
        | Full \<Rightarrow> 0 < T \<and> (T - 1) mod 31 = 30 \<and> g_blocks g = Suc ((T - 1) div 31) \<and>
            sq_tail q = \<lparr>index = ix (T - 1) False + 2, block = g_addr g ((T - 1) div 31)\<rparr>
        | Linked \<Rightarrow> 0 < T \<and> (T - 1) mod 31 = 30 \<and> g_blocks g = Suc (T div 31) \<and>
            sq_tail q = \<lparr>index = ix (T - 1) False + 2, block = g_addr g (T div 31)\<rparr>)"

definition head_ok :: "'a seg_queue \<Rightarrow> 'a sq_ghost \<Rightarrow> bool" where
  "head_ok q g \<longleftrightarrow>
     (let H = g_pops g in
      if \<not> g_started g then H = 0 \<and> g_head g = Open \<and> \<not> g_bit g \<and> sq_head q = \<lparr>index = ix 0 False, block = null\<rparr>
      else case g_head g of
          Open \<Rightarrow> H div 31 < g_blocks g \<and> (g_bit g \<longrightarrow> H div 31 < pushes g div 31) \<and>
            sq_head q = \<lparr>index = ix H (g_bit g), block = g_addr g (H div 31)\<rparr>
        | Full \<Rightarrow> 0 < H \<and> (H - 1) mod 31 = 30 \<and> (H - 1) div 31 < g_blocks g \<and>
            sq_head q = \<lparr>index = ix (H - 1) (g_bit g) + 2, block = g_addr g ((H - 1) div 31)\<rparr>
        | Linked \<Rightarrow> 0 < H \<and> (H - 1) mod 31 = 30 \<and> H div 31 < g_blocks g \<and> g_linked g ((H - 1) div 31) \<and>
            sq_head q = \<lparr>index = ix (H - 1) (g_bit g) + 2, block = g_addr g (H div 31)\<rparr>)"

text \<open>The blocks, and what is true of the numbers alone.\<close>

definition links_ok :: "'a sq_ghost \<Rightarrow> bool" where
  "links_ok g \<longleftrightarrow>
     (\<forall>L. g_linked g L \<longrightarrow> Suc L < g_blocks g \<and> 31 * Suc L \<le> pushes g \<and> (31 * Suc L = pushes g \<longrightarrow> g_tail g = Open)) \<and>
     (\<forall>L. Suc L < g_blocks g \<and> \<not> g_linked g L \<longrightarrow> wr g (31 * L + 30) = WValue) \<and>
     (g_head g = Open \<and> 0 < g_pops g \<and> 31 dvd g_pops g \<longrightarrow> g_linked g (g_pops g div 31 - 1)) \<and>
     (g_tail g \<noteq> Open \<longrightarrow> wr g (pushes g - 1) = WValue) \<and> (g_head g \<noteq> Open \<longrightarrow> rd g (g_pops g - 1) = RWait)"

text \<open>Only three bits of a slot's state are used, and only one of the last slot's.\<close>

definition small_bits :: "blk_sys \<Rightarrow> bool" where
  "small_bits s \<longleftrightarrow> (\<forall>i. b_state s i AND - 8 = 0) \<and> b_state s 30 AND - 2 = 0"

lemma small_bits_init: "small_bits blk_init"
  by (simp add: small_bits_def blk_init_def)

lemma small_bits_or [simp]:
  "(x OR WRITE) AND - 8 = x AND - 8" "(x OR READ) AND - 8 = x AND - 8" "(x OR DESTROY) AND - 8 = x AND - 8"
  "(x OR WRITE) AND - 2 = x AND - 2" for x :: usize
  by (simp_all add: WRITE_def READ_def DESTROY_def bit.conj_disj_distrib2)

lemma small_bits_write: "small_bits s \<Longrightarrow> small_bits (write_tick i s)"
  by (auto simp: small_bits_def write_tick_def split: wpc.split)

lemma small_bits_read:
  assumes "small_bits s" "blk_inv s" "i < 31"
  shows "small_bits (read_tick i s)"
proof -
  have basic: "b_rd s 30 \<noteq> RMark" "\<And>j. b_rd s i = ROr j \<Longrightarrow> j < 30" using assms(2,3) unfolding blk_inv_def blk_basic_def by blast+
  have "small_bits (s\<lparr>b_state := (b_state s)(k := b_state s k OR m), b_freed := f, b_rd := r\<rparr>)"
    if "k \<noteq> 30" "m = READ \<or> m = DESTROY" for k m f r using that assms(1) by (auto simp: small_bits_def)
  moreover have "small_bits (s\<lparr>b_freed := f, b_rd := r\<rparr>)" for f r using assms(1) by (auto simp: small_bits_def)
  ultimately show ?thesis using assms(1) basic
    by (cases "b_rd s i") (auto simp: small_bits_def read_tick_def)
qed

lemma one_bit: "x AND 2 ^ n = 0 \<or> x AND 2 ^ n = 2 ^ n" for x :: usize
proof (cases "bit x n")
  case True
  then have "x AND 2 ^ n = 2 ^ n" by (intro bit_eqI) (auto simp: bit_and_iff bit_exp_iff)
  then show ?thesis by simp
qed (simp add: and_exp_eq_0_iff_not_bit)

lemma state_of_bits:
  fixes x :: usize
  assumes "x AND - 8 = 0"
  shows "x = (if x AND WRITE \<noteq> 0 then WRITE else 0) OR (if x AND READ \<noteq> 0 then READ else 0) OR (if x AND DESTROY \<noteq> 0 then DESTROY else 0)"
proof -
  have "x = x AND (NOT (- 8))" using assms bit.conj_disj_distrib [of x "- 8" "NOT (- 8)"] by simp
  also have "... = x AND ((WRITE OR READ) OR DESTROY)" by (simp add: WRITE_def READ_def DESTROY_def)
  also have "... = (x AND WRITE) OR (x AND READ) OR (x AND DESTROY)" by (simp add: bit.conj_disj_distrib or.assoc)
  finally have e: "x = (x AND WRITE) OR (x AND READ) OR (x AND DESTROY)" .
  have w: "x AND WRITE = (if x AND WRITE \<noteq> 0 then WRITE else 0)" "x AND READ = (if x AND READ \<noteq> 0 then READ else 0)"
    "x AND DESTROY = (if x AND DESTROY \<noteq> 0 then DESTROY else 0)"
    using one_bit [of x 0] one_bit [of x 1] one_bit [of x 2] by (auto simp: WRITE_def READ_def DESTROY_def)
  show ?thesis unfolding w [symmetric] by (rule e)
qed

definition ghost_ok :: "'a sq_ghost \<Rightarrow> bool" where
  "ghost_ok g \<longleftrightarrow> g_pops g \<le> pushes g \<and> (g_started g \<longrightarrow> 0 < g_blocks g) \<and> (\<forall>L. blk_inv (g_sys g L)) \<and>
     (\<forall>L\<ge>g_blocks g. g_sys g L = blk_init) \<and>
     (\<forall>p\<ge>pushes g. wr g p = WValue) \<and> (\<forall>p\<ge>g_pops g. rd g p = RWait) \<and> links_ok g \<and>
     (\<forall>L. small_bits (g_sys g L))"

text \<open>What a block contains. Values are there from the write to the read.\<close>

definition slot_of :: "'a sq_ghost \<Rightarrow> nat \<Rightarrow> nat \<Rightarrow> 'a sq_slot" where
  "slot_of g L i = \<lparr>sq_value = (if b_wr (g_sys g L) i = WValue \<or> b_rd (g_sys g L) i \<notin> {RWait, RValue} then None
     else Some (g_vals g ! (31 * L + i))), sq_state = b_state (g_sys g L) i\<rparr>"

definition block_of :: "'a sq_ghost \<Rightarrow> nat \<Rightarrow> 'a sq_block option" where
  "block_of g L = (if b_freed (g_sys g L) = 0
     then Some \<lparr>blk_next = (if g_linked g L then g_addr g (Suc L) else null), blk_slots = map (slot_of g L) [0..<31]\<rparr>
     else None)"

section \<open>Threads\<close>

text \<open>The boxes a thread owns, and the slots it has claimed for writing and for reading.\<close>

fun boxes :: "'a sq_thread \<Rightarrow> ptr set" where
  "boxes (Running (SLoadIndex v nb)) = set_option nb"
| "boxes (Running (SLoadBlock v nb tail)) = set_option nb"
| "boxes (Running (SInstall v nb tail new)) = insert new (set_option nb)"
| "boxes (Running (SStoreHead v nb tail new)) = set_option nb"
| "boxes (Running (SCas v nb tail blk)) = set_option nb"
| "boxes (Running (SStoreBlock v nxt tail blk)) = {nxt}"
| "boxes (Running (SWrite v nb tail blk)) = set_option nb"
| "boxes (Running (SState nb tail blk)) = set_option nb"
| "boxes _ = {}"

fun wpos :: "'a sq_thread \<Rightarrow> nat option" where
  "wpos (Running (SStoreBlock v nxt tail blk)) = Some (pos_of tail)"
| "wpos (Running (SStoreIndex v nxt tail blk)) = Some (pos_of tail)"
| "wpos (Running (SStoreNext v nxt tail blk)) = Some (pos_of tail)"
| "wpos (Running (SWrite v nb tail blk)) = Some (pos_of tail)"
| "wpos (Running (SState nb tail blk)) = Some (pos_of tail)"
| "wpos _ = None"

fun rpos :: "'a sq_thread \<Rightarrow> nat option" where
  "rpos (Running (HWaitNext head new_head blk)) = Some (pos_of head)"
| "rpos (Running (HNextNext head new_head blk nxt)) = Some (pos_of head)"
| "rpos (Running (HStoreBlock head next_index blk nxt)) = Some (pos_of head)"
| "rpos (Running (HStoreIndex head next_index blk)) = Some (pos_of head)"
| "rpos (Running (HWaitWrite head blk)) = Some (pos_of head)"
| "rpos (Running (HRead head blk)) = Some (pos_of head)"
| "rpos (Running (HMark v head blk)) = Some (pos_of head)"
| "rpos (Running (HDestroy v head blk i)) = Some (pos_of head)"
| "rpos (Running (HDestroyOr v head blk i)) = Some (pos_of head)"
| "rpos (Running (HFree v head blk)) = Some (pos_of head)"
| "rpos _ = None"

fun starting :: "'a sq_thread \<Rightarrow> bool" where
  "starting (Running (SStoreHead v nb tail new)) = True"
| "starting _ = False"

text \<open>
  What a thread knows at each point. An index it has read may be out of date; if it is not, what was read after it
  is not either.
\<close>

definition writes_at :: "'a sq_ghost \<Rightarrow> u64 \<Rightarrow> ptr \<Rightarrow> nat \<Rightarrow> wpc \<Rightarrow> bool" where
  "writes_at g tail blk p w \<longleftrightarrow> p < pushes g \<and> tail = ix p False \<and> blk = g_addr g (p div 31) \<and> wr g p = w"

definition reads_at :: "'a sq_ghost \<Rightarrow> u64 \<Rightarrow> ptr \<Rightarrow> nat \<Rightarrow> rpc \<Rightarrow> bool" where
  "reads_at g head blk p r \<longleftrightarrow> p < g_pops g \<and> (\<exists>b. head = ix p b) \<and> blk = g_addr g (p div 31) \<and> rd g p = r"

definition moves_tail :: "'a sq_ghost \<Rightarrow> nat \<Rightarrow> stage \<Rightarrow> bool" where
  "moves_tail g p s \<longleftrightarrow> p mod 31 = 30 \<and> pushes g = Suc p \<and> g_tail g = s"

definition moves_head :: "'a sq_ghost \<Rightarrow> nat \<Rightarrow> stage \<Rightarrow> bool" where
  "moves_head g p s \<longleftrightarrow> p mod 31 = 30 \<and> g_pops g = Suc p \<and> g_head g = s"

definition pop_ret :: "'a sq_ghost \<Rightarrow> nat \<Rightarrow> ('a queue_op, 'a queue_ret) status" where
  "pop_ret g p = Answered (Popped (g_vals g ! p))"

fun pc_ok :: "'a sq_ghost \<Rightarrow> 'a sq_pc \<Rightarrow> ('a queue_op, 'a queue_ret) status \<Rightarrow> bool" where
  "pc_ok g (SLoadIndex v nb) s = (s = Pending (Push v))"
| "pc_ok g (SLoadBlock v nb tail) s =
     (s = Pending (Push v) \<and> (offset_of tail = 31 \<or> (\<exists>p. p \<le> pushes g \<and> tail = ix p False \<and> (p = pushes g \<longrightarrow> g_tail g = Open))))"
| "pc_ok g (SInstall v nb tail new) s = (s = Pending (Push v) \<and> tail = ix 0 False \<and> new \<notin> set_option nb)"
| "pc_ok g (SStoreHead v nb tail new) s =
     (s = Pending (Push v) \<and> tail = ix 0 False \<and> 0 < g_blocks g \<and> new = g_addr g 0 \<and> \<not> g_started g)"
| "pc_ok g (SCas v nb tail blk) s =
     (s = Pending (Push v) \<and> (\<exists>p. p \<le> pushes g \<and> tail = ix p False \<and> (p mod 31 = 30 \<longrightarrow> nb \<noteq> None) \<and>
        (p = pushes g \<longrightarrow> g_tail g = Open \<and> 0 < g_blocks g \<and> blk = g_addr g (p div 31))))"
| "pc_ok g (SStoreBlock v nxt tail blk) s =
     (s = Answered Pushed \<and> (\<exists>p. writes_at g tail blk p WValue \<and> g_vals g ! p = v \<and> moves_tail g p Full))"
| "pc_ok g (SStoreIndex v nxt tail blk) s =
     (s = Answered Pushed \<and> (\<exists>p. writes_at g tail blk p WValue \<and> g_vals g ! p = v \<and> moves_tail g p Linked \<and>
        nxt = g_addr g (Suc (p div 31))))"
| "pc_ok g (SStoreNext v nxt tail blk) s =
     (s = Answered Pushed \<and> (\<exists>p. writes_at g tail blk p WValue \<and> g_vals g ! p = v \<and> p mod 31 = 30 \<and>
        Suc (p div 31) < g_blocks g \<and> nxt = g_addr g (Suc (p div 31)) \<and> (pushes g = Suc p \<longrightarrow> g_tail g = Open)))"
| "pc_ok g (SWrite v nb tail blk) s = (s = Answered Pushed \<and> (\<exists>p. writes_at g tail blk p WValue \<and> g_vals g ! p = v \<and>
        (p mod 31 = 30 \<longrightarrow> g_linked g (p div 31))))"
| "pc_ok g (SState nb tail blk) s = (s = Answered Pushed \<and> (\<exists>p. writes_at g tail blk p WState))"
| "pc_ok g HLoadIndex s = (s = Pending Pop)"
| "pc_ok g (HLoadBlock head) s =
     (s = Pending Pop \<and> (offset_of head = 31 \<or>
        (\<exists>p b. p \<le> g_pops g \<and> head = ix p b \<and> (p = g_pops g \<longrightarrow> g_head g = Open \<and> b = g_bit g))))"
| "pc_ok g (HLoadTail head blk) s =
     (s = Pending Pop \<and> (\<exists>p. p \<le> g_pops g \<and> head = ix p False \<and>
        (p = g_pops g \<longrightarrow> g_head g = Open \<and> \<not> g_bit g \<and> (blk \<noteq> null \<longrightarrow> g_started g \<and> blk = g_addr g (p div 31)))))"
| "pc_ok g (HCas head new_head blk) s =
     (s = Pending Pop \<and> (\<exists>p b b'. p \<le> g_pops g \<and> head = ix p b \<and> new_head = ix p b' + 2 \<and>
        (p = g_pops g \<longrightarrow> g_head g = Open \<and> b = g_bit g \<and> g_started g \<and> blk = g_addr g (p div 31) \<and> p < pushes g \<and>
           (b' \<longrightarrow> p div 31 < pushes g div 31))))"
| "pc_ok g (HWaitNext head new_head blk) s =
     (\<exists>p b'. s = pop_ret g p \<and> reads_at g head blk p RWait \<and> moves_head g p Full \<and> new_head = ix p b' + 2)"
| "pc_ok g (HNextNext head new_head blk nxt) s =
     (\<exists>p b'. s = pop_ret g p \<and> reads_at g head blk p RWait \<and> moves_head g p Full \<and> new_head = ix p b' + 2 \<and>
        g_linked g (p div 31) \<and> nxt = g_addr g (Suc (p div 31)))"
| "pc_ok g (HStoreBlock head next_index blk nxt) s =
     (\<exists>p b'. s = pop_ret g p \<and> reads_at g head blk p RWait \<and> moves_head g p Full \<and> next_index = ix (Suc p) b' \<and>
        g_linked g (p div 31) \<and> nxt = g_addr g (Suc (p div 31)) \<and> (b' \<longrightarrow> Suc (p div 31) < pushes g div 31))"
| "pc_ok g (HStoreIndex head next_index blk) s =
     (\<exists>p b'. s = pop_ret g p \<and> reads_at g head blk p RWait \<and> moves_head g p Linked \<and> next_index = ix (Suc p) b' \<and>
        g_linked g (p div 31) \<and> (b' \<longrightarrow> Suc (p div 31) < pushes g div 31))"
| "pc_ok g (HWaitWrite head blk) s = (\<exists>p. s = pop_ret g p \<and> reads_at g head blk p RWait \<and> (g_pops g = Suc p \<longrightarrow> g_head g = Open))"
| "pc_ok g (HRead head blk) s = (\<exists>p. s = pop_ret g p \<and> reads_at g head blk p RValue)"
| "pc_ok g (HMark v head blk) s = (\<exists>p. s = pop_ret g p \<and> g_vals g ! p = v \<and> reads_at g head blk p RMark)"
| "pc_ok g (HDestroy v head blk i) s = (\<exists>p. s = pop_ret g p \<and> g_vals g ! p = v \<and> reads_at g head blk p (RLoad i))"
| "pc_ok g (HDestroyOr v head blk i) s = (\<exists>p. s = pop_ret g p \<and> g_vals g ! p = v \<and> reads_at g head blk p (ROr i))"
| "pc_ok g (HFree v head blk) s = (\<exists>p. s = pop_ret g p \<and> g_vals g ! p = v \<and> reads_at g head blk p RFree)"
| "pc_ok g SUndefined s = False"

fun thread_ok :: "'a sq_ghost \<Rightarrow> 'a sq_thread \<Rightarrow> ('a queue_op, 'a queue_ret) status \<Rightarrow> bool" where
  "thread_ok g Resting s = (s = Quiet)"
| "thread_ok g (Running pc) s = pc_ok g pc s"
| "thread_ok g (Done r) s = (s = Answered r)"

text \<open>The heap, and that every claim has one thread that still works on it.\<close>

definition heap_ok :: "'a seg_queue \<Rightarrow> (tid \<Rightarrow> 'a sq_thread) \<Rightarrow> 'a sq_ghost \<Rightarrow> bool" where
  "heap_ok q ts g \<longleftrightarrow> inj_on (g_addr g) {..<g_blocks g} \<and>
     (\<forall>L<g_blocks g. 0 < g_addr g L \<and> g_addr g L < sq_fresh q \<and> sq_heap q (g_addr g L) = block_of g L) \<and>
     (\<forall>i. \<forall>b\<in>boxes (ts i). 0 < b \<and> b < sq_fresh q \<and> b \<notin> g_addr g ` {..<g_blocks g}) \<and>
     (\<forall>i j. i \<noteq> j \<longrightarrow> boxes (ts i) \<inter> boxes (ts j) = {}) \<and>
     (\<forall>b. b \<notin> g_addr g ` {..<g_blocks g} \<longrightarrow> sq_heap q b = (if \<exists>i. b \<in> boxes (ts i) then Some block_new else None)) \<and>
     0 < sq_fresh q"

definition unique :: "(tid \<Rightarrow> 'a sq_thread) \<Rightarrow> bool" where
  "unique ts \<longleftrightarrow>
     (\<forall>i j p. wpos (ts i) = Some p \<longrightarrow> wpos (ts j) = Some p \<longrightarrow> i = j) \<and>
     (\<forall>i j p. rpos (ts i) = Some p \<longrightarrow> rpos (ts j) = Some p \<longrightarrow> i = j) \<and>
     (\<forall>i j. starting (ts i) \<longrightarrow> starting (ts j) \<longrightarrow> i = j)"

definition claimed :: "(tid \<Rightarrow> 'a sq_thread) \<Rightarrow> 'a sq_ghost \<Rightarrow> bool" where
  "claimed ts g \<longleftrightarrow>
     (\<forall>p<pushes g. wr g p \<noteq> WDone \<longrightarrow> (\<exists>i. wpos (ts i) = Some p)) \<and>
     (\<forall>p<g_pops g. rd g p \<noteq> RDone \<longrightarrow> (\<exists>i. rpos (ts i) = Some p)) \<and>
     (0 < g_blocks g \<and> \<not> g_started g \<longrightarrow> (\<exists>i. starting (ts i)))"

definition sg_inv :: "nat \<Rightarrow> 'a seg_queue \<Rightarrow> (tid \<Rightarrow> 'a sq_thread) \<Rightarrow> 'a list \<Rightarrow>
    (tid \<Rightarrow> ('a queue_op, 'a queue_ret) status) \<Rightarrow> 'a sq_ghost \<Rightarrow> bool" where
  "sg_inv n q ts x st g \<longleftrightarrow> pushes g \<le> n \<and> x = drop (g_pops g) (g_vals g) \<and> ghost_ok g \<and> tail_ok q g \<and> head_ok q g \<and>
     heap_ok q ts g \<and> unique ts \<and> claimed ts g \<and> (\<forall>i. thread_ok g (ts i) (st i))"

section \<open>What other threads keep\<close>

text \<open>How the ghost state may change in a step of a thread that was at \<open>t\<close>.\<close>

definition grows :: "'a sq_thread \<Rightarrow> 'a sq_ghost \<Rightarrow> 'a sq_ghost \<Rightarrow> bool" where
  "grows t g g' \<longleftrightarrow> (\<exists>vs. g_vals g' = g_vals g @ vs) \<and> g_pops g \<le> g_pops g' \<and> g_blocks g \<le> g_blocks g' \<and>
     (\<forall>L<g_blocks g. g_addr g' L = g_addr g L) \<and> (\<forall>L. g_linked g L \<longrightarrow> g_linked g' L) \<and>
     (g_started g \<longrightarrow> g_started g') \<and> (g_started g' \<longrightarrow> g_started g \<or> starting t)"

definition stages :: "'a sq_thread \<Rightarrow> 'a sq_ghost \<Rightarrow> 'a sq_ghost \<Rightarrow> bool" where
  "stages t g g' \<longleftrightarrow>
     (if g_tail g = Open then pushes g' = pushes g \<longrightarrow> g_tail g' = Open
      else g_tail g' = g_tail g \<and> pushes g' = pushes g \<or> wpos t = Some (pushes g - 1)) \<and>
     (if g_head g = Open then g_pops g' = g_pops g \<longrightarrow> g_head g' = Open \<and> g_bit g' = g_bit g
      else g_head g' = g_head g \<and> g_pops g' = g_pops g \<or> rpos t = Some (g_pops g - 1))"

definition protocols :: "'a sq_thread \<Rightarrow> 'a sq_ghost \<Rightarrow> 'a sq_ghost \<Rightarrow> bool" where
  "protocols t g g' \<longleftrightarrow> (\<forall>p. wr g' p = wr g p \<or> wpos t = Some p) \<and> (\<forall>p. rd g' p = rd g p \<or> rpos t = Some p)"

definition evolves :: "'a sq_thread \<Rightarrow> 'a sq_ghost \<Rightarrow> 'a sq_ghost \<Rightarrow> bool" where
  "evolves t g g' \<longleftrightarrow> grows t g g' \<and> stages t g g' \<and> protocols t g g'"

lemma evolves_refl: "evolves t g g"
  by (simp add: evolves_def grows_def stages_def protocols_def)

lemma evolvesD:
  assumes "evolves t g g'"
  shows "pushes g \<le> pushes g'" "g_pops g \<le> g_pops g'" "g_blocks g \<le> g_blocks g'" "L < g_blocks g \<Longrightarrow> g_addr g' L = g_addr g L"
    "g_linked g L \<Longrightarrow> g_linked g' L" "p < pushes g \<Longrightarrow> g_vals g' ! p = g_vals g ! p"
    "wpos t \<noteq> Some p \<Longrightarrow> wr g' p = wr g p" "rpos t \<noteq> Some p \<Longrightarrow> rd g' p = rd g p"
    "pushes g' = pushes g \<Longrightarrow> g_tail g = Open \<Longrightarrow> g_tail g' = Open"
    "g_pops g' = g_pops g \<Longrightarrow> g_head g = Open \<Longrightarrow> g_head g' = Open"
    "g_pops g' = g_pops g \<Longrightarrow> g_head g = Open \<Longrightarrow> g_bit g' = g_bit g"
    "g_started g \<Longrightarrow> g_started g'" "\<not> starting t \<Longrightarrow> g_started g' = g_started g"
proof -
  have e: "grows t g g'" "stages t g g'" "protocols t g g'" using assms by (simp_all add: evolves_def)
  show "pushes g \<le> pushes g'" "g_pops g \<le> g_pops g'" "g_blocks g \<le> g_blocks g'" "L < g_blocks g \<Longrightarrow> g_addr g' L = g_addr g L"
    "g_linked g L \<Longrightarrow> g_linked g' L" "p < pushes g \<Longrightarrow> g_vals g' ! p = g_vals g ! p"
    "g_started g \<Longrightarrow> g_started g'" "\<not> starting t \<Longrightarrow> g_started g' = g_started g"
    using e(1) by (auto simp: grows_def nth_append)
  show "wpos t \<noteq> Some p \<Longrightarrow> wr g' p = wr g p" "rpos t \<noteq> Some p \<Longrightarrow> rd g' p = rd g p" using e(3) by (auto simp: protocols_def)
  show "pushes g' = pushes g \<Longrightarrow> g_tail g = Open \<Longrightarrow> g_tail g' = Open"
    "g_pops g' = g_pops g \<Longrightarrow> g_head g = Open \<Longrightarrow> g_head g' = Open"
    "g_pops g' = g_pops g \<Longrightarrow> g_head g = Open \<Longrightarrow> g_bit g' = g_bit g" using e(2) by (simp_all add: stages_def)
qed

lemma blocks_reach:
  assumes "tail_ok q g"
  shows "p < pushes g \<Longrightarrow> p div 31 < g_blocks g" "0 < g_blocks g \<Longrightarrow> g_tail g = Open \<Longrightarrow> g_blocks g = Suc (pushes g div 31)"
    "g_tail g = Linked \<Longrightarrow> g_blocks g = Suc (pushes g div 31)"
proof -
  have mono: "p div 31 \<le> (pushes g - 1) div 31" if "p < pushes g" using that by (intro div_le_mono) simp
  have "(pushes g - 1) div 31 \<le> pushes g div 31" by (intro div_le_mono) simp
  then show "p < pushes g \<Longrightarrow> p div 31 < g_blocks g"
    using assms mono by (auto simp: tail_ok_def Let_def split: if_splits stage.splits)
qed (use assms in \<open>auto simp: tail_ok_def Let_def split: if_splits stage.splits\<close>)

lemma writes_at_evolves:
  assumes "evolves t g g'" "tail_ok q g" "wpos t \<noteq> Some p" "writes_at g tail blk p w"
  shows "writes_at g' tail blk p w" "g_vals g' ! p = g_vals g ! p"
proof -
  have "p < pushes g" "p div 31 < g_blocks g" using assms(2,4) blocks_reach(1) by (auto simp: writes_at_def)
  then show "writes_at g' tail blk p w" "g_vals g' ! p = g_vals g ! p"
    using assms(3,4) evolvesD(1,4,6,7) [OF assms(1)] by (auto simp: writes_at_def)
qed

lemma reads_at_evolves:
  assumes "evolves t g g'" "tail_ok q g" "ghost_ok g" "rpos t \<noteq> Some p" "reads_at g head blk p r"
  shows "reads_at g' head blk p r" "g_vals g' ! p = g_vals g ! p" "pop_ret g' p = pop_ret g p"
proof -
  have "p < g_pops g" "g_pops g \<le> pushes g" using assms(3,5) by (simp_all add: reads_at_def ghost_ok_def)
  then have "p < g_pops g" "p < pushes g" "p div 31 < g_blocks g" using blocks_reach(1) [OF assms(2), of p] by simp_all
  then show "reads_at g' head blk p r" "g_vals g' ! p = g_vals g ! p" "pop_ret g' p = pop_ret g p"
    using assms(4,5) evolvesD(2,4,6,8) [OF assms(1)] by (auto simp: reads_at_def pop_ret_def)
qed

lemma moves_evolves:
  assumes "evolves t g g'" "s \<noteq> Open"
  shows "wpos t \<noteq> Some p \<Longrightarrow> moves_tail g p s \<Longrightarrow> moves_tail g' p s" "rpos t \<noteq> Some p \<Longrightarrow> moves_head g p s \<Longrightarrow> moves_head g' p s"
  using assms by (auto simp: evolves_def stages_def moves_tail_def moves_head_def)

lemma pc_ok_wpos:
  assumes "near (pushes g)"
  shows "writes_at g tail blk p w \<Longrightarrow> pos_of tail = p"
    "ghost_ok g \<Longrightarrow> reads_at g head blk p r \<Longrightarrow> pos_of head = p"
  using near_mono [OF assms] by (auto simp: writes_at_def reads_at_def ghost_ok_def)

text \<open>An index that was read stays what it was, or is out of date.\<close>

lemma tail_seen_evolves:
  assumes "evolves t g g'" "p \<le> pushes g" "p = pushes g \<longrightarrow> g_tail g = Open"
  shows "p \<le> pushes g' \<and> (p = pushes g' \<longrightarrow> g_tail g' = Open \<and> p = pushes g \<and> g_tail g = Open)"
  using assms(2,3) evolvesD(1,9) [OF assms(1)] by auto

lemma head_seen_evolves:
  assumes "evolves t g g'" "p \<le> g_pops g" "p = g_pops g \<longrightarrow> g_head g = Open \<and> b = g_bit g"
  shows "p \<le> g_pops g' \<and> (p = g_pops g' \<longrightarrow> g_head g' = Open \<and> b = g_bit g' \<and> p = g_pops g \<and> g_head g = Open \<and> b = g_bit g)"
  using assms(2,3) evolvesD(2,10,11) [OF assms(1)] by auto

lemma head_block: "head_ok q g \<Longrightarrow> g_started g \<Longrightarrow> g_head g = Open \<Longrightarrow> g_pops g div 31 < g_blocks g"
  by (simp add: head_ok_def Let_def)

lemma push_ok_evolves:
  assumes ev: "evolves t g g'" and ok: "tail_ok q g" "near (pushes g)" and pc: "pc_ok g pc s" "sq_pushing pc"
    and excl: "\<And>p. wpos t = Some p \<Longrightarrow> wpos (Running pc) \<noteq> Some p" "starting t \<Longrightarrow> \<not> starting (Running pc)"
  shows "pc_ok g' pc s"
proof -
  note d = evolvesD [OF ev] and w = writes_at_evolves [OF ev ok(1)] and b = blocks_reach [OF ok(1)]
  have other: "wpos t \<noteq> Some p" if "writes_at g tail blk p w'" "wpos (Running pc) = Some (pos_of tail)" for tail blk p w'
    using that excl(1) pc_ok_wpos(1) [OF ok(2)] by blast
  show ?thesis
  proof (cases pc)
    case (SLoadBlock v nb tail)
    then show ?thesis using pc(1) tail_seen_evolves [OF ev] by auto
  next
    case (SStoreHead v nb tail new)
    then have "\<not> starting t" using excl(2) by auto
    then show ?thesis using SStoreHead pc(1) d(3,4,13) by auto
  next
    case (SCas v nb tail blk)
    then obtain p where p: "p \<le> pushes g" "tail = ix p False" "p mod 31 = 30 \<longrightarrow> nb \<noteq> None"
      "p = pushes g \<longrightarrow> g_tail g = Open \<and> 0 < g_blocks g \<and> blk = g_addr g (p div 31)" using pc(1) by auto
    have "p \<le> pushes g' \<and> (p = pushes g' \<longrightarrow> g_tail g' = Open \<and> 0 < g_blocks g' \<and> blk = g_addr g' (p div 31))"
      using tail_seen_evolves [OF ev p(1)] p(4) d(3,4) b(2) by auto
    then show ?thesis using SCas pc(1) p(2,3) by auto
  next
    case (SStoreBlock v nxt tail blk)
    then obtain p where p: "writes_at g tail blk p WValue" "g_vals g ! p = v" "moves_tail g p Full" "s = Answered Pushed" using pc(1) by auto
    then have "wpos t \<noteq> Some p" using other SStoreBlock by simp
    then have "writes_at g' tail blk p WValue" "g_vals g' ! p = v" "moves_tail g' p Full"
      using w p moves_evolves(1) [OF ev] by auto
    then show ?thesis using SStoreBlock p(4) by auto
  next
    case (SStoreIndex v nxt tail blk)
    then obtain p where p: "writes_at g tail blk p WValue" "g_vals g ! p = v" "moves_tail g p Linked" "s = Answered Pushed"
      "nxt = g_addr g (Suc (p div 31))" using pc(1) by auto
    then have "wpos t \<noteq> Some p" using other SStoreIndex by simp
    then have "writes_at g' tail blk p WValue" "g_vals g' ! p = v" "moves_tail g' p Linked"
      using w p moves_evolves(1) [OF ev] by auto
    moreover have "Suc (p div 31) < g_blocks g" using p(3) b(3) by (simp add: moves_tail_def div_Suc_block)
    ultimately show ?thesis using SStoreIndex p(4,5) d(4) by auto
  next
    case (SStoreNext v nxt tail blk)
    then obtain p where p: "writes_at g tail blk p WValue" "g_vals g ! p = v" "p mod 31 = 30" "s = Answered Pushed"
      "nxt = g_addr g (Suc (p div 31))" "Suc (p div 31) < g_blocks g" "pushes g = Suc p \<longrightarrow> g_tail g = Open" using pc(1) by auto
    then have "wpos t \<noteq> Some p" using other SStoreNext by simp
    then have "writes_at g' tail blk p WValue" "g_vals g' ! p = v" using w p by auto
    moreover have "pushes g' = Suc p \<longrightarrow> g_tail g' = Open" using p(1,7) d(1,9) by (auto simp: writes_at_def)
    ultimately show ?thesis using SStoreNext p(3-6) d(3,4) by auto
  next
    case (SWrite v nb tail blk)
    then obtain p where p: "writes_at g tail blk p WValue" "g_vals g ! p = v" "s = Answered Pushed"
      "p mod 31 = 30 \<longrightarrow> g_linked g (p div 31)" using pc(1) by auto
    then have "wpos t \<noteq> Some p" using other SWrite by simp
    then have "writes_at g' tail blk p WValue" "g_vals g' ! p = v" using w p by auto
    then show ?thesis using SWrite p(3,4) d(5) by auto
  next
    case (SState nb tail blk)
    then obtain p where p: "writes_at g tail blk p WState" "s = Answered Pushed" using pc(1) by auto
    then have "wpos t \<noteq> Some p" using other SState by simp
    then show ?thesis using SState p w(1) by auto blast
  qed (use pc in auto)
qed

lemma pop_ok_evolves:
  assumes ev: "evolves t g g'" and ok: "tail_ok q g" "head_ok q g" "ghost_ok g" "near (pushes g)"
    and pc: "pc_ok g pc s" "\<not> sq_pushing pc" and excl: "\<And>p. rpos t = Some p \<Longrightarrow> rpos (Running pc) \<noteq> Some p"
  shows "pc_ok g' pc s"
proof -
  note d = evolvesD [OF ev]
  have other: "rpos t \<noteq> Some p" if "reads_at g head blk p r" "rpos (Running pc) = Some (pos_of head)" for head blk p r
    using that excl pc_ok_wpos(2) [OF ok(4,3)] by blast
  note r = reads_at_evolves [OF ev ok(1,3) other]
  note mv = moves_evolves(2) [OF ev _ other]
  have link: "g_addr g' (Suc L) = g_addr g (Suc L)" if "g_linked g L" for L using that ok(3) d(4) by (simp add: ghost_ok_def links_ok_def)
  have far: "x < pushes g div 31 \<Longrightarrow> x < pushes g' div 31" for x using d(1) div_le_mono order_less_le_trans by blast
  show ?thesis
  proof (cases pc)
    case (HLoadBlock head)
    then show ?thesis using pc(1) head_seen_evolves [OF ev] by auto
  next
    case (HLoadTail head blk)
    then obtain p where p: "p \<le> g_pops g" "head = ix p False" "p = g_pops g \<longrightarrow> g_head g = Open \<and> \<not> g_bit g"
      "p = g_pops g \<Longrightarrow> blk \<noteq> null \<Longrightarrow> g_started g \<and> blk = g_addr g (p div 31)" using pc(1) by auto
    have "g_started g' \<and> blk = g_addr g' (p div 31)" if "p = g_pops g" "blk \<noteq> null" "g_head g = Open"
      using p(4) [OF that(1,2)] that(1,3) head_block [OF ok(2)] d(4,12) by auto
    then show ?thesis using HLoadTail pc(1) p(2) head_seen_evolves [OF ev p(1), of False] p(3) by auto
  next
    case (HCas head new_head blk)
    then obtain p b b' where p: "p \<le> g_pops g" "head = ix p b" "new_head = ix p b' + 2" "s = Pending Pop"
      "p = g_pops g \<longrightarrow> g_head g = Open \<and> b = g_bit g"
      "p = g_pops g \<Longrightarrow> g_started g \<and> blk = g_addr g (p div 31) \<and> p < pushes g \<and> (b' \<longrightarrow> p div 31 < pushes g div 31)"
      using pc(1) by auto
    have "g_started g' \<and> blk = g_addr g' (p div 31) \<and> p < pushes g' \<and> (b' \<longrightarrow> p div 31 < pushes g' div 31)"
      if "p = g_pops g" "g_head g = Open"
      using p(6) [OF that(1)] that head_block [OF ok(2)] d(1,4,12) far by auto
    then have "p \<le> g_pops g' \<and> (p = g_pops g' \<longrightarrow> g_head g' = Open \<and> b = g_bit g' \<and> g_started g' \<and> blk = g_addr g' (p div 31) \<and>
        p < pushes g' \<and> (b' \<longrightarrow> p div 31 < pushes g' div 31))" using head_seen_evolves [OF ev p(1,5)] by auto
    then show ?thesis unfolding HCas pc_ok.simps using p(2-4) by blast
  next
    case (HWaitNext head new_head blk)
    then obtain p b' where "s = pop_ret g p" "reads_at g head blk p RWait" "moves_head g p Full" "new_head = ix p b' + 2"
      using pc(1) by auto
    then show ?thesis using HWaitNext r mv by (auto intro!: exI [of _ p])
  next
    case (HNextNext head new_head blk nxt)
    then obtain p b' where "s = pop_ret g p" "reads_at g head blk p RWait" "moves_head g p Full" "new_head = ix p b' + 2"
      "g_linked g (p div 31)" "nxt = g_addr g (Suc (p div 31))" using pc(1) by auto
    then show ?thesis using HNextNext r mv link d(5) by (auto intro!: exI [of _ p])
  next
    case (HStoreBlock head ni blk nxt)
    then obtain p b' where "s = pop_ret g p" "reads_at g head blk p RWait" "moves_head g p Full" "ni = ix (Suc p) b'"
      "g_linked g (p div 31)" "nxt = g_addr g (Suc (p div 31))" "b' \<longrightarrow> Suc (p div 31) < pushes g div 31" using pc(1) by auto
    then show ?thesis using HStoreBlock r mv link d(5) far by (auto intro!: exI [of _ p])
  next
    case (HStoreIndex head ni blk)
    then obtain p b' where "s = pop_ret g p" "reads_at g head blk p RWait" "moves_head g p Linked" "ni = ix (Suc p) b'"
      "g_linked g (p div 31)" "b' \<longrightarrow> Suc (p div 31) < pushes g div 31" using pc(1) by auto
    then show ?thesis using HStoreIndex r mv link d(5) far by (auto intro!: exI [of _ p])
  next
    case (HWaitWrite head blk)
    then obtain p where p: "s = pop_ret g p" "reads_at g head blk p RWait" "g_pops g = Suc p \<longrightarrow> g_head g = Open" using pc(1) by auto
    moreover have "g_pops g' = Suc p \<longrightarrow> g_head g' = Open" using p(2,3) d(2,10) by (auto simp: reads_at_def)
    ultimately show ?thesis using HWaitWrite r by (auto intro!: exI [of _ p])
  next
    case (HRead head blk)
    then obtain p where "s = pop_ret g p" "reads_at g head blk p RValue" using pc(1) by auto
    then show ?thesis using HRead r by (auto intro!: exI [of _ p])
  next
    case (HMark v head blk)
    then obtain p where "s = pop_ret g p" "g_vals g ! p = v" "reads_at g head blk p RMark" using pc(1) by auto
    then show ?thesis using HMark r by (auto intro!: exI [of _ p])
  next
    case (HDestroy v head blk i)
    then obtain p where "s = pop_ret g p" "g_vals g ! p = v" "reads_at g head blk p (RLoad i)" using pc(1) by auto
    then show ?thesis using HDestroy r by (auto intro!: exI [of _ p])
  next
    case (HDestroyOr v head blk i)
    then obtain p where "s = pop_ret g p" "g_vals g ! p = v" "reads_at g head blk p (ROr i)" using pc(1) by auto
    then show ?thesis using HDestroyOr r by (auto intro!: exI [of _ p])
  next
    case (HFree v head blk)
    then obtain p where "s = pop_ret g p" "g_vals g ! p = v" "reads_at g head blk p RFree" using pc(1) by auto
    then show ?thesis using HFree r by (auto intro!: exI [of _ p])
  qed (use pc in simp_all)
qed

lemma thread_ok_evolves:
  assumes ev: "evolves t g g'" and ok: "tail_ok q g" "head_ok q g" "ghost_ok g" "near (pushes g)" and t': "thread_ok g t' s"
    and excl: "\<And>p. wpos t = Some p \<Longrightarrow> wpos t' \<noteq> Some p" "\<And>p. rpos t = Some p \<Longrightarrow> rpos t' \<noteq> Some p"
      "starting t \<Longrightarrow> \<not> starting t'"
  shows "thread_ok g' t' s"
proof (cases t')
  case (Running pc)
  then show ?thesis
    using push_ok_evolves [OF ev ok(1,4), of pc s] pop_ok_evolves [OF ev ok, of pc s] t' excl by (cases "sq_pushing pc") simp_all
qed (use t' in simp_all)

section \<open>Steps\<close>

lemma sg_invD:
  assumes "sg_inv n q ts x st g"
  shows "pushes g \<le> n" "x = drop (g_pops g) (g_vals g)" "ghost_ok g" "tail_ok q g" "head_ok q g" "heap_ok q ts g" "unique ts"
    "claimed ts g" "thread_ok g (ts i) (st i)"
  using assms by (simp_all add: sg_inv_def)

lemma sg_step:
  assumes inv: "sg_inv n q ts x st g" and n: "n < 2 ^ 60" and ev: "evolves (ts i) g g'"
    and new: "pushes g' \<le> Suc n" "x' = drop (g_pops g') (g_vals g')" "ghost_ok g'" "tail_ok q' g'" "head_ok q' g'"
      "heap_ok q' (ts(i := t)) g'" "unique (ts(i := t))" "claimed (ts(i := t)) g'" "thread_ok g' t s'"
  shows "sg_inv (Suc n) q' (ts(i := t)) x' (st(i := s')) g'"
proof -
  note d = sg_invD [OF inv]
  have near: "near (pushes g)" using d(1) n by (simp add: near_def)
  have "thread_ok g' (ts j) (st j)" if "j \<noteq> i" for j
    by (rule thread_ok_evolves [OF ev d(4,5,3) near d(9)]) (use that d(7) in \<open>auto simp: unique_def\<close>)
  then show ?thesis using new by (simp add: sg_inv_def)
qed

text \<open>Steps that only move the thread.\<close>

definition same_claims :: "'a sq_thread \<Rightarrow> 'a sq_thread \<Rightarrow> bool" where
  "same_claims t t' \<longleftrightarrow> wpos t' = wpos t \<and> rpos t' = rpos t \<and> starting t' = starting t"

lemma unique_same: "unique ts \<Longrightarrow> same_claims (ts i) t \<Longrightarrow> unique (ts(i := t))"
  by (auto simp: unique_def same_claims_def)

lemma claimed_same:
  assumes "claimed ts g" "same_claims (ts i) t" "\<And>p. p < pushes g' \<Longrightarrow> wr g' p \<noteq> WDone \<Longrightarrow> p < pushes g \<and> wr g p \<noteq> WDone"
    "\<And>p. p < g_pops g' \<Longrightarrow> rd g' p \<noteq> RDone \<Longrightarrow> p < g_pops g \<and> rd g p \<noteq> RDone"
    "0 < g_blocks g' \<Longrightarrow> \<not> g_started g' \<Longrightarrow> 0 < g_blocks g \<and> \<not> g_started g"
  shows "claimed (ts(i := t)) g'"
proof -
  have "wpos ((ts(i := t)) j) = wpos (ts j)" "rpos ((ts(i := t)) j) = rpos (ts j)" "starting ((ts(i := t)) j) = starting (ts j)" for j
    using assms(2) by (simp_all add: same_claims_def)
  then show ?thesis using assms(1,3,4,5) unfolding claimed_def by metis
qed

lemma heap_same:
  assumes "heap_ok q ts g" "sq_heap q' = sq_heap q" "sq_fresh q' = sq_fresh q" "boxes t = boxes (ts i)"
    "g_blocks g' = g_blocks g" "g_addr g' = g_addr g" "\<And>L. L < g_blocks g \<Longrightarrow> block_of g' L = block_of g L"
  shows "heap_ok q' (ts(i := t)) g'"
proof -
  have b: "boxes ((ts(i := t)) j) = boxes (ts j)" for j using assms(4) by simp
  show ?thesis using assms(1-3,5-7) unfolding heap_ok_def b by simp
qed

lemma sg_quiet:
  assumes inv: "sg_inv n q ts x st g" and n: "n < 2 ^ 60" and t: "same_claims (ts i) t" "boxes t = boxes (ts i)" "thread_ok g t (st i)"
  shows "sg_inv (Suc n) q (ts(i := t)) x st g"
proof -
  note d = sg_invD [OF inv]
  have "sg_inv (Suc n) q (ts(i := t)) x (st(i := st i)) g"
    by (rule sg_step [OF inv n evolves_refl])
      (use d t in \<open>auto intro: unique_same claimed_same heap_same\<close>)
  then show ?thesis by simp
qed

section \<open>The heap\<close>

lemma heap_okD:
  assumes "heap_ok q ts g"
  shows "inj_on (g_addr g) {..<g_blocks g}" "L < g_blocks g \<Longrightarrow> 0 < g_addr g L" "L < g_blocks g \<Longrightarrow> g_addr g L < sq_fresh q"
    "L < g_blocks g \<Longrightarrow> sq_heap q (g_addr g L) = block_of g L"
    "b \<in> boxes (ts i) \<Longrightarrow> 0 < b" "b \<in> boxes (ts i) \<Longrightarrow> b < sq_fresh q" "b \<in> boxes (ts i) \<Longrightarrow> b \<notin> g_addr g ` {..<g_blocks g}"
    "i \<noteq> j \<Longrightarrow> b \<in> boxes (ts i) \<Longrightarrow> b \<notin> boxes (ts j)"
    "b \<notin> g_addr g ` {..<g_blocks g} \<Longrightarrow> sq_heap q b = (if \<exists>i. b \<in> boxes (ts i) then Some block_new else None)"
    "0 < sq_fresh q"
  using assms unfolding heap_ok_def by blast+

lemma heap_okI:
  assumes "inj_on (g_addr g) {..<g_blocks g}" "0 < sq_fresh q"
    "\<And>L. L < g_blocks g \<Longrightarrow> 0 < g_addr g L \<and> g_addr g L < sq_fresh q \<and> sq_heap q (g_addr g L) = block_of g L"
    "\<And>i b. b \<in> boxes (ts i) \<Longrightarrow> 0 < b \<and> b < sq_fresh q \<and> b \<notin> g_addr g ` {..<g_blocks g}"
    "\<And>i j b. i \<noteq> j \<Longrightarrow> b \<in> boxes (ts i) \<Longrightarrow> b \<notin> boxes (ts j)"
    "\<And>b. b \<notin> g_addr g ` {..<g_blocks g} \<Longrightarrow> sq_heap q b = (if \<exists>i. b \<in> boxes (ts i) then Some block_new else None)"
  shows "heap_ok q ts g"
  using assms unfolding heap_ok_def by blast

lemma ex_upd: "(\<exists>j. P ((f(i := v)) j)) \<longleftrightarrow> P v \<or> (\<exists>j. j \<noteq> i \<and> P (f j))"
  by (metis fun_upd_apply)

text \<open>A thread allocates a box, drops some, or hands one over as the next block.\<close>

lemma heap_alloc:
  assumes h: "heap_ok q ts g" and b: "boxes t = insert (sq_fresh q) (boxes (ts i))" and q': "q' = snd (sq_alloc q)"
  shows "heap_ok q' (ts(i := t)) g"
proof (rule heap_okI)
  note d = heap_okD [OF h]
  have q: "sq_fresh q' = Suc (sq_fresh q)" "sq_heap q' = (sq_heap q)(sq_fresh q \<mapsto> block_new)" by (simp_all add: q' sq_alloc_def)
  show "0 < g_addr g L \<and> g_addr g L < sq_fresh q' \<and> sq_heap q' (g_addr g L) = block_of g L" if "L < g_blocks g" for L
    using d(2-4) [OF that] by (simp add: q)
  have box: "c \<in> boxes ((ts(i := t)) j) \<longleftrightarrow> j = i \<and> c = sq_fresh q \<or> c \<in> boxes (ts j)" for c j using b by simp
  show "0 < c \<and> c < sq_fresh q' \<and> c \<notin> g_addr g ` {..<g_blocks g}" if "c \<in> boxes ((ts(i := t)) j)" for j c
    using that d(2,3,5-7,10) unfolding box q by fastforce
  show "c \<notin> boxes ((ts(i := t)) k)" if "j \<noteq> k" "c \<in> boxes ((ts(i := t)) j)" for j k c
    using that d(6) [of "sq_fresh q"] d(8) unfolding box by blast
  show "sq_heap q' c = (if \<exists>j. c \<in> boxes ((ts(i := t)) j) then Some block_new else None)" if "c \<notin> g_addr g ` {..<g_blocks g}" for c
    using d(9) [OF that] unfolding box q by auto
qed (use heap_okD [OF h] in \<open>simp_all add: q' sq_alloc_def\<close>)

lemma heap_drop:
  assumes h: "heap_ok q ts g" and b: "boxes t = boxes (ts i) - set_option nb" "set_option nb \<subseteq> boxes (ts i)"
  shows "heap_ok (drop_box nb q) (ts(i := t)) g"
proof (rule heap_okI)
  note d = heap_okD [OF h]
  have q: "sq_fresh (drop_box nb q) = sq_fresh q" "sq_heap (drop_box nb q) c = (if c \<in> set_option nb then None else sq_heap q c)" for c
    by (auto simp: drop_box_def split: option.split)
  have box: "c \<in> boxes ((ts(i := t)) j) \<longleftrightarrow> c \<in> boxes (ts j) \<and> c \<notin> set_option nb" for c j
    using b d(8) [of i j c] by (cases "j = i") auto
  show "0 < g_addr g L \<and> g_addr g L < sq_fresh (drop_box nb q) \<and> sq_heap (drop_box nb q) (g_addr g L) = block_of g L" if "L < g_blocks g" for L
    using that d(2-4) [OF that] d(7) [of "g_addr g L" i] b(2) by (auto simp: q)
  show "0 < c \<and> c < sq_fresh (drop_box nb q) \<and> c \<notin> g_addr g ` {..<g_blocks g}" if "c \<in> boxes ((ts(i := t)) j)" for j c
    using that d(5-7) [of c j] unfolding box q by simp
  show "c \<notin> boxes ((ts(i := t)) k)" if "j \<noteq> k" "c \<in> boxes ((ts(i := t)) j)" for j k c
    using that d(8) unfolding box by blast
  show "sq_heap (drop_box nb q) c = (if \<exists>j. c \<in> boxes ((ts(i := t)) j) then Some block_new else None)"
    if "c \<notin> g_addr g ` {..<g_blocks g}" for c
    using d(9) [OF that] unfolding box q by auto
  show "inj_on (g_addr g) {..<g_blocks g}" by (rule d(1))
  show "0 < sq_fresh (drop_box nb q)" using d(10) q by simp
qed

lemma heap_install:
  assumes h: "heap_ok q ts g" and b: "b \<in> boxes (ts i)" "boxes t = boxes (ts i) - {b}"
    and g': "g_blocks g' = Suc (g_blocks g)" "g_addr g' = (g_addr g)(g_blocks g := b)"
    and blk: "\<And>L. L < g_blocks g \<Longrightarrow> block_of g' L = block_of g L" "block_of g' (g_blocks g) = Some block_new"
    and q': "sq_heap q' = sq_heap q" "sq_fresh q' = sq_fresh q"
  shows "heap_ok q' (ts(i := t)) g'"
proof (rule heap_okI)
  note d = heap_okD [OF h]
  have b': "b \<notin> g_addr g ` {..<g_blocks g}" by (rule d(7) [OF b(1)])
  have img: "g_addr g' ` {..<g_blocks g'} = insert b (g_addr g ` {..<g_blocks g})" by (auto simp: g' lessThan_Suc image_iff)
  have box: "c \<in> boxes ((ts(i := t)) j) \<longleftrightarrow> c \<in> boxes (ts j) \<and> c \<noteq> b" for c j
    using b d(8) [of i j c] by (cases "j = i") auto
  show "inj_on (g_addr g') {..<g_blocks g'}"
    using d(1) b' by (auto simp: g' lessThan_Suc inj_on_def image_iff)
  show "0 < sq_fresh q'" using d(10) by (simp add: q')
  have "sq_heap q b = Some block_new" using d(9) [OF b'] b(1) by auto
  then show "0 < g_addr g' L \<and> g_addr g' L < sq_fresh q' \<and> sq_heap q' (g_addr g' L) = block_of g' L" if "L < g_blocks g'" for L
    using that d(2-4) [of L] d(5,6) [OF b(1)] blk by (cases "L = g_blocks g") (auto simp: g' q')
  show "0 < c \<and> c < sq_fresh q' \<and> c \<notin> g_addr g' ` {..<g_blocks g'}" if "c \<in> boxes ((ts(i := t)) j)" for j c
    using that d(5-7) [of c j] unfolding box img q' by simp
  show "c \<notin> boxes ((ts(i := t)) k)" if "j \<noteq> k" "c \<in> boxes ((ts(i := t)) j)" for j k c
    using that d(8) unfolding box by blast
  show "sq_heap q' c = (if \<exists>j. c \<in> boxes ((ts(i := t)) j) then Some block_new else None)" if "c \<notin> g_addr g' ` {..<g_blocks g'}" for c
    using d(9) [of c] that unfolding box img q' by auto
qed

text \<open>A block changes.\<close>

lemma heap_block:
  assumes h: "heap_ok q ts g" and L: "L < g_blocks g" and b: "boxes t = boxes (ts i)"
    and g': "g_blocks g' = g_blocks g" "g_addr g' = g_addr g" "\<And>K. K \<noteq> L \<Longrightarrow> block_of g' K = block_of g K"
    and q': "sq_heap q' = (sq_heap q)(g_addr g L := block_of g' L)" "sq_fresh q' = sq_fresh q"
  shows "heap_ok q' (ts(i := t)) g'"
proof (rule heap_okI)
  note d = heap_okD [OF h]
  have box: "boxes ((ts(i := t)) j) = boxes (ts j)" for j using b by simp
  show "inj_on (g_addr g') {..<g_blocks g'}" "0 < sq_fresh q'" using d(1,10) by (simp_all add: g' q')
  show "0 < g_addr g' K \<and> g_addr g' K < sq_fresh q' \<and> sq_heap q' (g_addr g' K) = block_of g' K" if "K < g_blocks g'" for K
  proof -
    have K: "K < g_blocks g" using that by (simp add: g')
    have "g_addr g K = g_addr g L \<longleftrightarrow> K = L" using d(1) K L by (auto simp: inj_on_def)
    then show ?thesis using d(2-4) [OF K] g'(3) [of K] by (auto simp: g'(1,2) q')
  qed
  show "0 < c \<and> c < sq_fresh q' \<and> c \<notin> g_addr g' ` {..<g_blocks g'}" if "c \<in> boxes ((ts(i := t)) j)" for j c
    using that d(5-7) unfolding box g'(1,2) q' by auto
  show "c \<notin> boxes ((ts(i := t)) k)" if "j \<noteq> k" "c \<in> boxes ((ts(i := t)) j)" for j k c
    using that d(8) unfolding box by blast
  show "sq_heap q' c = (if \<exists>j. c \<in> boxes ((ts(i := t)) j) then Some block_new else None)" if "c \<notin> g_addr g' ` {..<g_blocks g'}" for c
    using d(9) [of c] that L unfolding box g'(1,2) q' by auto
qed

text \<open>A block is there as long as one of its slots is in use.\<close>

lemma in_use: "blk_inv s \<Longrightarrow> i < 31 \<Longrightarrow> b_rd s i \<noteq> RDone \<or> b_wr s i \<noteq> WDone \<Longrightarrow> b_freed s = 0"
  by (erule phase_cases) (auto simp: phase_defs blk_basic_def)

lemma block_there:
  assumes "ghost_ok g" "wr g p \<noteq> WDone \<or> rd g p \<noteq> RDone"
  shows "b_freed (g_sys g (p div 31)) = 0"
  using assms in_use [of "g_sys g (p div 31)" "p mod 31"] by (auto simp: ghost_ok_def wr_def rd_def)

lemma get_slot_there:
  assumes "heap_ok q ts g" "L < g_blocks g" "b_freed (g_sys g L) = 0" "i < 31"
  shows "get_slot (g_addr g L) i q = Some (slot_of g L i)"
    "get_next (g_addr g L) q = Some (if g_linked g L then g_addr g (Suc L) else null)"
  using heap_okD(4) [OF assms(1,2)] assms(3,4) by (simp_all add: get_slot_def get_next_def block_of_def)

lemma set_slot_there:
  assumes "heap_ok q ts g" "L < g_blocks g" "b_freed (g_sys g L) = 0" "i < 31"
    and "slot_of g' L = (slot_of g L)(i := s)" "g_linked g' = g_linked g" "g_addr g' = g_addr g" "b_freed (g_sys g' L) = 0"
  shows "set_slot (g_addr g L) i s q = Some (q\<lparr>sq_heap := (sq_heap q)(g_addr g L := block_of g' L)\<rparr>)"
proof -
  have "(map (slot_of g L) [0..<31])[i := s] = map ((slot_of g L)(i := s)) [0..<31]"
    using assms(4) by (intro nth_equalityI) (auto simp: nth_list_update)
  then show ?thesis using heap_okD(4) [OF assms(1,2)] assms(3-8)
    by (simp add: set_slot_def block_of_def del: upt_rec_numeral upt_Suc)
qed

end
