(* ===== verification/Seg_Queue_Push.thy ===== *)
theory Seg_Queue_Push
  imports Seg_Queue_Inv
begin

text \<open>
  Every step of the shared \<^verbatim>\<open>push\<close> of \<^verbatim>\<open>SegQueue\<close> keeps the invariant of theory \<open>Seg_Queue_Inv\<close>; a push takes
  effect when it moves the tail.
\<close>

section \<open>Pushing\<close>

definition sg_good :: "nat \<Rightarrow> 'a seg_queue \<Rightarrow> (tid \<Rightarrow> 'a sq_thread) \<Rightarrow> 'a list \<Rightarrow>
    (tid \<Rightarrow> ('a queue_op, 'a queue_ret) status) \<Rightarrow> bool" where
  "sg_good n q ts x st \<longleftrightarrow> (\<exists>g. sg_inv n q ts x st g)"

lemma sg_goodI: "sg_inv n q ts x st g \<Longrightarrow> sg_good n q ts x st"
  by (auto simp: sg_good_def)

lemma sg_step_same:
  assumes "sg_inv n q ts x st g" "n < 2 ^ 60" "evolves (ts i) g g'"
    "pushes g' \<le> Suc n" "x = drop (g_pops g') (g_vals g')" "ghost_ok g'" "tail_ok q' g'" "head_ok q' g'"
      "heap_ok q' (ts(i := t)) g'" "unique (ts(i := t))" "claimed (ts(i := t)) g'" "thread_ok g' t (st i)"
  shows "sg_good (Suc n) q' (ts(i := t)) x st"
  using sg_step [OF assms(1-3), where s' = "st i" and t = t and q' = q' and x' = x] assms(4-) by (auto intro: sg_goodI)

lemma sg_near: "sg_inv n q ts x st g \<Longrightarrow> n < 2 ^ 60 \<Longrightarrow> p \<le> pushes g \<Longrightarrow> near p"
  using sg_invD(1) [of n q ts x st g] by (simp add: near_def)

lemma sg_near_pops: "sg_inv n q ts x st g \<Longrightarrow> n < 2 ^ 60 \<Longrightarrow> p \<le> g_pops g \<Longrightarrow> near p"
  using sg_invD(1,3) [of n q ts x st g] by (simp add: near_def ghost_ok_def)

lemma push_one [simp]: "push_bit SHIFT 1 = (2 :: u64)"
  by (simp add: SHIFT_def)

lemma tail_ok_cong:
  "sq_tail q' = sq_tail q \<Longrightarrow> pushes g' = pushes g \<Longrightarrow> g_tail g' = g_tail g \<Longrightarrow> g_blocks g' = g_blocks g \<Longrightarrow> g_addr g' = g_addr g \<Longrightarrow>
     tail_ok q' g' = tail_ok q g"
  unfolding tail_ok_def by (simp only:)

lemma head_ok_cong:
  "sq_head q' = sq_head q \<Longrightarrow> g_pops g' = g_pops g \<Longrightarrow> g_head g' = g_head g \<Longrightarrow> g_bit g' = g_bit g \<Longrightarrow> g_blocks g' = g_blocks g \<Longrightarrow>
     g_addr g' = g_addr g \<Longrightarrow> g_started g' = g_started g \<Longrightarrow> g_linked g' = g_linked g \<Longrightarrow> pushes g' = pushes g \<Longrightarrow> head_ok q' g' = head_ok q g"
  unfolding head_ok_def by (simp only:)

lemma head_ok_mono:
  assumes "head_ok q g" "sq_head q' = sq_head q" "g_pops g' = g_pops g" "g_head g' = g_head g" "g_bit g' = g_bit g" "g_started g' = g_started g"
    "g_blocks g \<le> g_blocks g'" "\<And>L. L < g_blocks g \<Longrightarrow> g_addr g' L = g_addr g L" "\<And>L. g_linked g L \<Longrightarrow> g_linked g' L" "pushes g \<le> pushes g'"
  shows "head_ok q' g'"
proof -
  have "x < pushes g div 31 \<Longrightarrow> x < pushes g' div 31" for x using assms(10) div_le_mono order_less_le_trans by blast
  then show ?thesis using assms unfolding head_ok_def Let_def by (auto split: if_splits stage.splits)
qed

lemma last_slot: "p mod 31 = 30 \<Longrightarrow> 31 * Suc (p div 31) = Suc p" "p mod 31 = 30 \<Longrightarrow> 31 * (p div 31) + 30 = p" for p :: nat
  by presburger+

text \<open>What the index of the tail is.\<close>

lemma tail_index:
  assumes "tail_ok q g" "near (pushes g)"
  shows "offset_of (index (sq_tail q)) = 31 \<and> g_tail g \<noteq> Open \<or> index (sq_tail q) = ix (pushes g) False \<and> g_tail g = Open"
  using assms offset_full [of "pushes g - 1"] near_mono [of "pushes g" "pushes g - 1"]
  by (auto simp: tail_ok_def Let_def split: if_splits stage.splits)

lemma tail_current:
  assumes "tail_ok q g" "near (pushes g)" "near p" "index (sq_tail q) = ix p False"
  shows "p = pushes g" "g_tail g = Open"
proof -
  have "p mod 31 < 31" by simp
  then have "offset_of (index (sq_tail q)) \<noteq> 31" using assms(3,4) by simp
  then have "ix p False = ix (pushes g) False" "g_tail g = Open" using tail_index [OF assms(1,2)] assms(4) by auto
  then show "p = pushes g" "g_tail g = Open" using ix_inject assms(2,3) by blast+
qed

lemma tail_null:
  assumes "tail_ok q g" "heap_ok q ts g"
  shows "block (sq_tail q) = null \<longleftrightarrow> g_blocks g = 0"
proof -
  have "0 < g_blocks g \<Longrightarrow> \<exists>L<g_blocks g. block (sq_tail q) = g_addr g L"
    using assms(1) by (auto simp: tail_ok_def Let_def split: if_splits stage.splits)
  then show ?thesis using heap_okD(2) [OF assms(2)] assms(1) by (auto simp: tail_ok_def Let_def split: if_splits)
qed

lemma load_index_ok:
  assumes inv: "sg_inv n q ts x st g" and n: "n < 2 ^ 60" and pc: "ts i = Running (SLoadIndex v nb)"
    and tick: "sq_push_tick fail q (SLoadIndex v nb) = (q', t)"
  shows "sg_good (Suc n) q' (ts(i := t)) x st"
proof -
  note d = sg_invD [OF inv]
  have t: "q' = q" "t = Running (SLoadBlock v nb (index (sq_tail q)))" using tick by auto
  show ?thesis unfolding t
    by (rule sg_goodI, rule sg_quiet [OF inv n])
      (use pc d(9) [of i] tail_index [OF d(4) sg_near [OF inv n order_refl]] in \<open>auto simp: same_claims_def\<close>)
qed

lemma sg_alloc_step:
  assumes inv: "sg_inv n q ts x st g" and n: "n < 2 ^ 60" and t: "same_claims (ts i) t" "boxes t = insert (sq_fresh q) (boxes (ts i))"
    "thread_ok g t (st i)"
  shows "sg_good (Suc n) (snd (sq_alloc q)) (ts(i := t)) x st"
proof (rule sg_step_same [OF inv n evolves_refl])
  note d = sg_invD [OF inv]
  show "heap_ok (snd (sq_alloc q)) (ts(i := t)) g" by (rule heap_alloc [OF d(6) t(2)]) simp
  show "unique (ts(i := t))" by (rule unique_same [OF d(7) t(1)])
  show "claimed (ts(i := t)) g" by (rule claimed_same [OF d(8) t(1)]) auto
  show "tail_ok (snd (sq_alloc q)) g" "head_ok (snd (sq_alloc q)) g"
    using d(4,5) tail_ok_cong [of "snd (sq_alloc q)" q g g] head_ok_cong [of "snd (sq_alloc q)" q g g] by (simp_all add: sq_alloc_def)
qed (use sg_invD [OF inv] t(3) in auto)

lemma load_block_ok:
  assumes inv: "sg_inv n q ts x st g" and n: "n < 2 ^ 60" and pc: "ts i = Running (SLoadBlock v nb tail)"
    and tick: "sq_push_tick fail q (SLoadBlock v nb tail) = (q', t)"
  shows "sg_good (Suc n) q' (ts(i := t)) x st"
proof -
  note d = sg_invD [OF inv]
  have st: "st i = Pending (Push v)" using d(9) [of i] pc by simp
  have fresh: "sq_fresh q \<notin> set_option nb" using heap_okD(6) [OF d(6), of "sq_fresh q" i] pc by auto
  show ?thesis
  proof (cases "offset_of tail = 31")
    case True
    then have t: "q' = q" "t = Running (SLoadIndex v nb)" using tick by auto
    show ?thesis unfolding t by (rule sg_goodI, rule sg_quiet [OF inv n]) (use pc st in \<open>auto simp: same_claims_def\<close>)
  next
    case part: False
    then obtain p where p: "p \<le> pushes g" "tail = ix p False" "p = pushes g \<longrightarrow> g_tail g = Open" using d(9) [of i] pc by auto
    have off: "offset_of tail = p mod 31" using p(2) sg_near [OF inv n p(1)] by simp
    show ?thesis
    proof (cases "block (sq_tail q) = null")
      case True
      then have "g_blocks g = 0" using tail_null [OF d(4,6)] by simp
      then have p0: "p = 0" using p(1) d(4) by (simp add: tail_ok_def)
      then have t: "q' = snd (sq_alloc q)" "t = Running (SInstall v nb tail (sq_fresh q))"
        using tick True part off by (auto simp: box_in_advance_def sq_alloc_def)
      show ?thesis unfolding t
        by (rule sg_alloc_step [OF inv n]) (use pc st p0 p(2) fresh in \<open>auto simp: same_claims_def\<close>)
    next
      case nonnull: False
      then have pos: "0 < g_blocks g" using tail_null [OF d(4,6)] by simp
      have cur: "g_tail g = Open \<Longrightarrow> block (sq_tail q) = g_addr g (pushes g div 31)" using d(4) pos by (simp add: tail_ok_def Let_def)
      show ?thesis
      proof (cases "p mod 31 = 30 \<and> nb = None")
        case True
        then have t: "q' = snd (sq_alloc q)" "t = Running (SCas v (Some (sq_fresh q)) tail (block (sq_tail q)))"
          using tick nonnull off by (auto simp: box_in_advance_def sq_alloc_def)
        show ?thesis unfolding t
          by (rule sg_alloc_step [OF inv n]) (use pc st p pos cur True in \<open>auto simp: same_claims_def\<close>)
      next
        case noalloc: False
        then have "box_in_advance (offset_of tail) nb q = (nb, q)" using off by (auto simp: box_in_advance_def)
        then have t: "q' = q" "t = Running (SCas v nb tail (block (sq_tail q)))" using tick nonnull part by (auto simp: Let_def)
        show ?thesis unfolding t
          by (rule sg_goodI, rule sg_quiet [OF inv n]) (use pc st p pos cur noalloc in \<open>auto simp: same_claims_def\<close>)
      qed
    qed
  qed
qed

text \<open>The first block.\<close>

lemma block_of_cong:
  assumes "g_sys g' L = g_sys g L" "g_linked g' L = g_linked g L" "g_linked g L \<Longrightarrow> g_addr g' (Suc L) = g_addr g (Suc L)"
    "\<And>i. i < 31 \<Longrightarrow> b_wr (g_sys g L) i \<noteq> WValue \<Longrightarrow> g_vals g' ! (31 * L + i) = g_vals g ! (31 * L + i)"
  shows "block_of g' L = block_of g L"
proof -
  have "map (slot_of g' L) [0..<31] = map (slot_of g L) [0..<31]"
    by (rule map_cong) (use assms(1,4) in \<open>auto simp: slot_of_def\<close>)
  then show ?thesis using assms(1-3) by (simp add: block_of_def del: upt_rec_numeral upt_Suc)
qed

lemma block_of_init: "g_sys g L = blk_init \<Longrightarrow> \<not> g_linked g L \<Longrightarrow> block_of g L = Some block_new"
proof -
  assume a: "g_sys g L = blk_init" "\<not> g_linked g L"
  have "map (slot_of g L) [0..<31] = replicate 31 \<lparr>sq_value = None, sq_state = 0\<rparr>"
    by (rule nth_equalityI) (use a in \<open>auto simp: slot_of_def blk_init_def simp del: upt_rec_numeral\<close>)
  then show ?thesis using a by (simp add: block_of_def block_new_def blk_init_def del: upt_rec_numeral upt_Suc)
qed

lemma linked_less: "ghost_ok g \<Longrightarrow> g_linked g L \<Longrightarrow> Suc L < g_blocks g"
  by (simp add: ghost_ok_def links_ok_def)

lemma thread_claims:
  assumes "thread_ok g t s" "near (pushes g)" "ghost_ok g"
  shows "wpos t = Some p \<Longrightarrow> p < pushes g \<and> wr g p \<noteq> WDone" "rpos t = Some p \<Longrightarrow> p < g_pops g \<and> rd g p \<noteq> RDone"
    "starting t \<Longrightarrow> 0 < g_blocks g \<and> \<not> g_started g"
proof -
  show "wpos t = Some p \<Longrightarrow> p < pushes g \<and> wr g p \<noteq> WDone"
    using assms(1) pc_ok_wpos(1) [OF assms(2)] by (cases t rule: wpos.cases) (auto simp: writes_at_def)
  show "rpos t = Some p \<Longrightarrow> p < g_pops g \<and> rd g p \<noteq> RDone"
  proof -
    have "pos_of head < g_pops g \<and> rd g (pos_of head) = r" if "reads_at g head blk p' r" for head blk p' r
      using that pc_ok_wpos(2) [OF assms(2,3) that] by (simp add: reads_at_def)
    then show "rpos t = Some p \<Longrightarrow> p < g_pops g \<and> rd g p \<noteq> RDone"
      using assms(1) by (cases t rule: rpos.cases) fastforce+
  qed
  show "starting t \<Longrightarrow> 0 < g_blocks g \<and> \<not> g_started g" using assms(1) by (cases t rule: starting.cases) auto
qed

lemma unique_upd:
  assumes "unique ts" "\<And>p. wpos t = Some p \<Longrightarrow> wpos (ts i) = Some p \<or> (\<forall>j. wpos (ts j) \<noteq> Some p)"
    "\<And>p. rpos t = Some p \<Longrightarrow> rpos (ts i) = Some p \<or> (\<forall>j. rpos (ts j) \<noteq> Some p)"
    "starting t \<Longrightarrow> starting (ts i) \<or> (\<forall>j. \<not> starting (ts j))"
  shows "unique (ts(i := t))"
  using assms unfolding unique_def by (auto; metis)

lemma claimed_upd:
  assumes "claimed ts g"
    and w: "\<And>p. p < pushes g' \<Longrightarrow> wr g' p \<noteq> WDone \<Longrightarrow> wpos t = Some p \<or> p < pushes g \<and> wr g p \<noteq> WDone \<and> wpos (ts i) \<noteq> Some p"
    and r: "\<And>p. p < g_pops g' \<Longrightarrow> rd g' p \<noteq> RDone \<Longrightarrow> rpos t = Some p \<or> p < g_pops g \<and> rd g p \<noteq> RDone \<and> rpos (ts i) \<noteq> Some p"
    and s: "0 < g_blocks g' \<Longrightarrow> \<not> g_started g' \<Longrightarrow> starting t \<or> 0 < g_blocks g \<and> \<not> g_started g \<and> \<not> starting (ts i)"
  shows "claimed (ts(i := t)) g'"
proof -
  have "\<exists>j. wpos ((ts(i := t)) j) = Some p" if "p < pushes g'" "wr g' p \<noteq> WDone" for p
    using w [OF that] assms(1) ex_upd [of "\<lambda>x. wpos x = Some p" ts i t] unfolding claimed_def by metis
  moreover have "\<exists>j. rpos ((ts(i := t)) j) = Some p" if "p < g_pops g'" "rd g' p \<noteq> RDone" for p
    using r [OF that] assms(1) ex_upd [of "\<lambda>x. rpos x = Some p" ts i t] unfolding claimed_def by metis
  moreover have "\<exists>j. starting ((ts(i := t)) j)" if "0 < g_blocks g'" "\<not> g_started g'"
    using s [OF that] assms(1) ex_upd [of starting ts i t] unfolding claimed_def by metis
  ultimately show ?thesis by (simp add: claimed_def)
qed

lemma ghost_simps [simp]:
  "wr (g\<lparr>g_vals := a\<rparr>) p = wr g p" "wr (g\<lparr>g_pops := b\<rparr>) p = wr g p" "wr (g\<lparr>g_tail := c\<rparr>) p = wr g p" "wr (g\<lparr>g_head := c\<rparr>) p = wr g p"
  "wr (g\<lparr>g_bit := e\<rparr>) p = wr g p" "wr (g\<lparr>g_blocks := b\<rparr>) p = wr g p" "wr (g\<lparr>g_addr := f\<rparr>) p = wr g p"
  "wr (g\<lparr>g_linked := h\<rparr>) p = wr g p" "wr (g\<lparr>g_started := e\<rparr>) p = wr g p"
  "rd (g\<lparr>g_vals := a\<rparr>) p = rd g p" "rd (g\<lparr>g_pops := b\<rparr>) p = rd g p" "rd (g\<lparr>g_tail := c\<rparr>) p = rd g p" "rd (g\<lparr>g_head := c\<rparr>) p = rd g p"
  "rd (g\<lparr>g_bit := e\<rparr>) p = rd g p" "rd (g\<lparr>g_blocks := b\<rparr>) p = rd g p" "rd (g\<lparr>g_addr := f\<rparr>) p = rd g p"
  "rd (g\<lparr>g_linked := h\<rparr>) p = rd g p" "rd (g\<lparr>g_started := e\<rparr>) p = rd g p"
  by (simp_all add: wr_def rd_def)

lemma ghost_okD:
  assumes "ghost_ok g"
  shows "g_pops g \<le> pushes g" "g_started g \<Longrightarrow> 0 < g_blocks g" "blk_inv (g_sys g L)" "g_blocks g \<le> L \<Longrightarrow> g_sys g L = blk_init"
    "pushes g \<le> p \<Longrightarrow> wr g p = WValue" "g_pops g \<le> p \<Longrightarrow> rd g p = RWait" "links_ok g" "small_bits (g_sys g L)"
  using assms by (simp_all add: ghost_ok_def)

lemma links_okD:
  assumes "links_ok g"
  shows "g_linked g L \<Longrightarrow> Suc L < g_blocks g" "g_linked g L \<Longrightarrow> 31 * Suc L \<le> pushes g"
    "g_linked g L \<Longrightarrow> 31 * Suc L = pushes g \<Longrightarrow> g_tail g = Open"
    "Suc L < g_blocks g \<Longrightarrow> \<not> g_linked g L \<Longrightarrow> wr g (31 * L + 30) = WValue"
    "g_head g = Open \<Longrightarrow> 0 < g_pops g \<Longrightarrow> 31 dvd g_pops g \<Longrightarrow> g_linked g (g_pops g div 31 - 1)"
    "g_tail g \<noteq> Open \<Longrightarrow> wr g (pushes g - 1) = WValue" "g_head g \<noteq> Open \<Longrightarrow> rd g (g_pops g - 1) = RWait"
  using assms unfolding links_ok_def by blast+

lemma links_okI:
  assumes "\<And>L. g_linked g L \<Longrightarrow> Suc L < g_blocks g" "\<And>L. g_linked g L \<Longrightarrow> 31 * Suc L \<le> pushes g"
    "\<And>L. g_linked g L \<Longrightarrow> 31 * Suc L = pushes g \<Longrightarrow> g_tail g = Open"
    "\<And>L. Suc L < g_blocks g \<Longrightarrow> \<not> g_linked g L \<Longrightarrow> wr g (31 * L + 30) = WValue"
    "g_head g = Open \<Longrightarrow> 0 < g_pops g \<Longrightarrow> 31 dvd g_pops g \<Longrightarrow> g_linked g (g_pops g div 31 - 1)"
    "g_tail g \<noteq> Open \<Longrightarrow> wr g (pushes g - 1) = WValue" "g_head g \<noteq> Open \<Longrightarrow> rd g (g_pops g - 1) = RWait"
  shows "links_ok g"
  using assms unfolding links_ok_def by blast

lemma install_ok:
  assumes inv: "sg_inv n q ts x st g" and n: "n < 2 ^ 60" and pc: "ts i = Running (SInstall v nb tail new)"
    and tick: "sq_push_tick fail q (SInstall v nb tail new) = (q', t)"
  shows "sg_good (Suc n) q' (ts(i := t)) x st"
proof -
  note d = sg_invD [OF inv] and near = sg_near [OF inv n order_refl]
  have ok: "st i = Pending (Push v)" "tail = ix 0 False" "new \<notin> set_option nb" using d(9) [of i] pc by auto
  show ?thesis
  proof (cases "block (sq_tail q) = null")
    case True
    then have 0: "g_blocks g = 0" using tail_null [OF d(4,6)] by simp
    then have 00: "g_vals g = []" "g_pops g = 0" "\<not> g_started g" using d(4) ghost_okD(1,2) [OF d(3)] by (auto simp: tail_ok_def Let_def)
    let ?g = "g\<lparr>g_blocks := 1, g_addr := (g_addr g)(0 := new)\<rparr>"
    have t: "q' = q\<lparr>sq_tail := (sq_tail q)\<lparr>block := new\<rparr>\<rparr>" "t = Running (SStoreHead v nb tail new)" using tick True by auto
    have nolink: "\<not> g_linked g L" for L using linked_less [OF d(3)] 0 by auto
    have nostart: "\<not> starting (ts j)" for j using thread_claims(3) [OF d(9) near d(3)] 0 by auto
    show ?thesis
    proof (rule sg_step_same [OF inv n, where g' = ?g])
      show "evolves (ts i) g ?g" using 0 by (simp add: evolves_def grows_def stages_def protocols_def)
      show "ghost_ok ?g" using d(3) 0 nolink 00 by (auto simp: ghost_ok_def links_ok_def)
      show "tail_ok q' ?g" using d(4) 0 by (auto simp: tail_ok_def Let_def t)
      show "head_ok q' ?g" by (rule head_ok_mono [OF d(5)]) (use 0 in \<open>simp_all add: t\<close>)
      show "heap_ok q' (ts(i := t)) ?g"
        by (rule heap_install [OF d(6), where b = new]) (use 0 pc ok nolink ghost_okD(4) [OF d(3)] in \<open>auto simp: t intro!: block_of_init\<close>)
      show "unique (ts(i := t))" by (rule unique_upd [OF d(7)]) (use pc nostart in \<open>auto simp: t\<close>)
      show "claimed (ts(i := t)) ?g" by (rule claimed_upd [OF d(8)]) (use pc 00 in \<open>auto simp: t\<close>)
    qed (use d ok 00 in \<open>auto simp: t\<close>)
  next
    case False
    then have t: "q' = drop_box nb q" "t = Running (SLoadIndex v (Some new))" using tick by auto
    have claims: "same_claims (ts i) t" using pc by (simp add: same_claims_def t)
    have pos: "sq_tail q' = sq_tail q" "sq_head q' = sq_head q" by (simp_all add: t drop_box_def split: option.split)
    show ?thesis
    proof (rule sg_step_same [OF inv n evolves_refl])
      show "heap_ok q' (ts(i := t)) g" unfolding t(1) by (rule heap_drop [OF d(6)]) (use pc ok in \<open>auto simp: t\<close>)
      show "unique (ts(i := t))" by (rule unique_same [OF d(7) claims])
      show "claimed (ts(i := t)) g" by (rule claimed_same [OF d(8) claims]) auto
      show "tail_ok q' g" "head_ok q' g" using d(4,5) tail_ok_cong [OF pos(1)] head_ok_cong [OF pos(2)] by blast+
    qed (use d ok in \<open>auto simp: t\<close>)
  qed
qed

lemma store_head_ok:
  assumes inv: "sg_inv n q ts x st g" and n: "n < 2 ^ 60" and pc: "ts i = Running (SStoreHead v nb tail new)"
    and tick: "sq_push_tick fail q (SStoreHead v nb tail new) = (q', t)"
  shows "sg_good (Suc n) q' (ts(i := t)) x st"
proof -
  note d = sg_invD [OF inv]
  have ok: "st i = Pending (Push v)" "tail = ix 0 False" "new = g_addr g 0" "0 < g_blocks g" "\<not> g_started g" using d(9) [of i] pc by auto
  let ?g = "g\<lparr>g_started := True\<rparr>"
  have t: "q' = q\<lparr>sq_head := (sq_head q)\<lparr>block := new\<rparr>\<rparr>" "t = Running (SCas v nb tail new)" using tick by auto
  show ?thesis
  proof (rule sg_step_same [OF inv n, where g' = ?g])
    show "evolves (ts i) g ?g" using pc by (simp add: evolves_def grows_def stages_def protocols_def)
    show "ghost_ok ?g" using d(3) ok by (simp add: ghost_ok_def links_ok_def)
    have "tail_ok q' ?g = tail_ok q g" by (rule tail_ok_cong) (simp_all add: t)
    then show "tail_ok q' ?g" using d(4) by simp
    show "head_ok q' ?g" using d(5) ok by (simp add: head_ok_def Let_def t)
    show "heap_ok q' (ts(i := t)) ?g" by (rule heap_same [OF d(6)]) (use pc in \<open>auto simp: t intro: block_of_cong\<close>)
    show "unique (ts(i := t))" by (rule unique_upd [OF d(7)]) (use pc in \<open>auto simp: t\<close>)
    show "claimed (ts(i := t)) ?g" by (rule claimed_upd [OF d(8)]) (use pc in \<open>auto simp: t\<close>)
    have "pushes g = 0 \<Longrightarrow> g_tail g = Open" using d(4) by (auto simp: tail_ok_def Let_def split: if_splits stage.splits)
    then show "thread_ok ?g t (st i)" using ok by (auto simp: t intro!: exI [of _ 0])
  qed (use d in auto)
qed

text \<open>Claiming a slot, where the push takes effect.\<close>

lemma written_below: "ghost_ok g \<Longrightarrow> b_wr (g_sys g L) i \<noteq> WValue \<Longrightarrow> i < 31 \<Longrightarrow> 31 * L + i < pushes g"
  using ghost_okD(5) [of g "31 * L + i"] by (fastforce simp: wr_def)

lemma push_claim_ok:
  assumes inv: "sg_inv n q ts x st g" and n: "n < 2 ^ 60" and pc: "ts i = Running (SCas v nb (ix (pushes g) False) blk)"
    and now: "g_tail g = Open" "0 < g_blocks g" "blk = g_addr g (pushes g div 31)"
    and t: "q' = q\<lparr>sq_tail := (sq_tail q)\<lparr>index := ix (pushes g) False + 2\<rparr>\<rparr>"
      "t = Running (if pushes g mod 31 = 30 then (case nb of None \<Rightarrow> SUndefined | Some nxt \<Rightarrow> SStoreBlock v nxt (ix (pushes g) False) blk)
         else SWrite v nb (ix (pushes g) False) blk)"
  shows "sg_good (Suc n) q' (ts(i := t)) (x @ [v]) (st(i := Answered Pushed))"
proof -
  note d = sg_invD [OF inv] and near = sg_near [OF inv n order_refl]
  let ?T = "pushes g"
  let ?g = "g\<lparr>g_vals := g_vals g @ [v], g_tail := if ?T mod 31 = 30 then Full else Open\<rparr>"
  have nb: "?T mod 31 = 30 \<Longrightarrow> nb \<noteq> None"
  proof -
    obtain p where p: "p \<le> ?T" "ix ?T False = ix p False" "p mod 31 = 30 \<longrightarrow> nb \<noteq> None" using d(9) [of i] pc by auto
    then have "p = ?T" using ix_inject near sg_near [OF inv n p(1)] by blast
    then show "?T mod 31 = 30 \<Longrightarrow> nb \<noteq> None" using p(3) by simp
  qed
  have tpos: "wpos t = Some ?T" "rpos t = None" "\<not> starting t" "boxes t = set_option nb"
    using nb near by (auto simp: t(2))
  have old: "wpos (ts j) \<noteq> Some ?T" for j using thread_claims(1) [OF d(9) near d(3)] by blast
  show ?thesis
  proof (rule sg_goodI, rule sg_step [OF inv n, where g' = ?g])
    show "evolves (ts i) g ?g" using now by (simp add: evolves_def grows_def stages_def protocols_def)
    have "links_ok ?g" using links_okD [OF ghost_okD(7) [OF d(3)]] ghost_okD(5) [OF d(3), of ?T]
      by (intro links_okI) (fastforce split: if_splits)+
    then show "ghost_ok ?g" using ghost_okD [OF d(3)] by (simp add: ghost_ok_def)
    show "tail_ok q' ?g" using d(4) now by (auto simp: tail_ok_def Let_def t(1) div_Suc_block)
    show "head_ok q' ?g" by (rule head_ok_mono [OF d(5)]) (simp_all add: t(1))
    have "block_of ?g L = block_of g L" for L
      by (rule block_of_cong) (use written_below [OF d(3), of L] in \<open>auto simp: nth_append\<close>)
    then show "heap_ok q' (ts(i := t)) ?g" using pc tpos(4) by (intro heap_same [OF d(6)]) (auto simp: t(1))
    show "unique (ts(i := t))" by (rule unique_upd [OF d(7)]) (use tpos old in auto)
    show "claimed (ts(i := t)) ?g" by (rule claimed_upd [OF d(8)]) (use pc tpos less_Suc_eq in auto)
    show "x @ [v] = drop (g_pops ?g) (g_vals ?g)" using d(2) ghost_okD(1) [OF d(3)] by simp
    show "thread_ok ?g t (Answered Pushed)" using nb now ghost_okD(5) [OF d(3), of ?T]
      by (auto simp: t(2) writes_at_def moves_tail_def)
  qed (use d(1) in auto)
qed

lemma push_cas_ok:
  assumes inv: "sg_inv n q ts x st g" and n: "n < 2 ^ 60" and pc: "ts i = Running (SCas v nb tail blk)"
    and tick: "sq_push_tick fail q (SCas v nb tail blk) = (q', t)"
  shows "sg_good (Suc n) q' (ts(i := t)) x st \<or>
    st i = Pending (Push v) \<and> sg_good (Suc n) q' (ts(i := t)) (x @ [v]) (st(i := Answered Pushed))"
proof -
  note d = sg_invD [OF inv] and near = sg_near [OF inv n order_refl]
  obtain p where p: "st i = Pending (Push v)" "p \<le> pushes g" "tail = ix p False" "p mod 31 = 30 \<longrightarrow> nb \<noteq> None"
    "p = pushes g \<longrightarrow> g_tail g = Open \<and> 0 < g_blocks g \<and> blk = g_addr g (p div 31)" using d(9) [of i] pc by auto
  note near_p = sg_near [OF inv n p(2)]
  show ?thesis
  proof (cases "index (sq_tail q) = tail \<and> \<not> fail")
    case True
    then have cur: "p = pushes g" using tail_current(1) [OF d(4) near near_p] p(3) by simp
    have t: "q' = q\<lparr>sq_tail := (sq_tail q)\<lparr>index := ix (pushes g) False + 2\<rparr>\<rparr>"
      "t = Running (if pushes g mod 31 = 30 then (case nb of None \<Rightarrow> SUndefined | Some nxt \<Rightarrow> SStoreBlock v nxt (ix (pushes g) False) blk)
         else SWrite v nb (ix (pushes g) False) blk)" using tick True p(3) cur near by auto
    show ?thesis using push_claim_ok [OF inv n _ _ _ _ t] pc p cur by simp
  next
    case False
    then have t: "q' = q" "t = Running (SLoadBlock v nb (index (sq_tail q)))" using tick by (auto split: if_splits)
    have "sg_good (Suc n) q' (ts(i := t)) x st" unfolding t
      by (rule sg_goodI, rule sg_quiet [OF inv n])
        (use pc p(1) tail_index [OF d(4) near] in \<open>auto simp: same_claims_def\<close>)
    then show ?thesis by simp
  qed
qed

text \<open>Installing the next block.\<close>

lemma claims_stay:
  assumes "claimed ts g" "same_claims (ts i) t" "pushes g' = pushes g" "g_pops g' = g_pops g" "g_sys g' = g_sys g"
    "g_started g' = g_started g" "0 < g_blocks g"
  shows "claimed (ts(i := t)) g'"
  by (rule claimed_same [OF assms(1,2)]) (use assms(3-) in \<open>auto simp: wr_def rd_def\<close>)

lemma store_block_ok:
  assumes inv: "sg_inv n q ts x st g" and n: "n < 2 ^ 60" and pc: "ts i = Running (SStoreBlock v nxt tail blk)"
    and tick: "sq_push_tick fail q (SStoreBlock v nxt tail blk) = (q', t)"
  shows "sg_good (Suc n) q' (ts(i := t)) x st"
proof -
  note d = sg_invD [OF inv]
  obtain p where p: "st i = Answered Pushed" "writes_at g tail blk p WValue" "g_vals g ! p = v" "moves_tail g p Full" using d(9) [of i] pc by auto
  then have w: "p < pushes g" "tail = ix p False" "wr g p = WValue" "pushes g = Suc p" "p mod 31 = 30" "g_tail g = Full" "blk = g_addr g (p div 31)"
    by (auto simp: writes_at_def moves_tail_def)
  have N: "g_blocks g = Suc (p div 31)" using d(4) w blocks_reach(1) [OF d(4) w(1)] by (auto simp: tail_ok_def Let_def split: if_splits)
  let ?g = "g\<lparr>g_blocks := Suc (g_blocks g), g_addr := (g_addr g)(g_blocks g := nxt), g_tail := Linked\<rparr>"
  have t: "q' = q\<lparr>sq_tail := (sq_tail q)\<lparr>block := nxt\<rparr>\<rparr>" "t = Running (SStoreIndex v nxt tail blk)" using tick by auto
  have own: "wpos (ts i) = Some p" using pc w sg_near [OF inv n, of p] by simp
  have claims: "same_claims (ts i) t" using pc by (simp add: same_claims_def t)
  have nolink: "\<not> g_linked g (p div 31)" using linked_less [OF d(3), of "p div 31"] N by auto
  note last = last_slot(2) [OF w(5)]
  show ?thesis
  proof (rule sg_step_same [OF inv n, where g' = ?g])
    show "evolves (ts i) g ?g" using w(4,6) own by (simp add: evolves_def grows_def stages_def protocols_def)
    have "links_ok ?g" using links_okD [OF ghost_okD(7) [OF d(3)]] N w(3,4) last
      by (intro links_okI) (fastforce simp: less_Suc_eq)+
    then show "ghost_ok ?g" using ghost_okD [OF d(3)] by (simp add: ghost_ok_def)
    show "tail_ok q' ?g" using d(4) N w by (auto simp: tail_ok_def Let_def t div_Suc_block)
    show "head_ok q' ?g" by (rule head_ok_mono [OF d(5)]) (simp_all add: t)
    have "block_of ?g L = block_of g L" if "L < g_blocks g" for L
      by (rule block_of_cong) (use linked_less [OF d(3), of L] in auto)
    moreover have "block_of ?g (g_blocks g) = Some block_new"
      by (rule block_of_init) (use linked_less [OF d(3), of "g_blocks g"] ghost_okD(4) [OF d(3)] in auto)
    ultimately show "heap_ok q' (ts(i := t)) ?g"
      by (intro heap_install [OF d(6), where b = nxt]) (use pc in \<open>auto simp: t\<close>)
    show "unique (ts(i := t))" by (rule unique_same [OF d(7) claims])
    show "claimed (ts(i := t)) ?g" by (rule claims_stay [OF d(8) claims]) (use N in auto)
    show "thread_ok ?g t (st i)" using p w N by (auto simp: t writes_at_def moves_tail_def)
  qed (use d(1,2) in auto)
qed

lemma store_index_ok:
  assumes inv: "sg_inv n q ts x st g" and n: "n < 2 ^ 60" and pc: "ts i = Running (SStoreIndex v nxt tail blk)"
    and tick: "sq_push_tick fail q (SStoreIndex v nxt tail blk) = (q', t)"
  shows "sg_good (Suc n) q' (ts(i := t)) x st"
proof -
  note d = sg_invD [OF inv]
  obtain p where p: "st i = Answered Pushed" "writes_at g tail blk p WValue" "g_vals g ! p = v" "moves_tail g p Linked"
    "nxt = g_addr g (Suc (p div 31))" using d(9) [of i] pc by auto
  then have w: "p < pushes g" "tail = ix p False" "pushes g = Suc p" "p mod 31 = 30" "g_tail g = Linked"
    by (auto simp: writes_at_def moves_tail_def)
  let ?g = "g\<lparr>g_tail := Open\<rparr>"
  have t: "q' = q\<lparr>sq_tail := (sq_tail q)\<lparr>index := tail + 2 + 2\<rparr>\<rparr>" "t = Running (SStoreNext v nxt tail blk)" using tick by auto
  have own: "wpos (ts i) = Some p" using pc w sg_near [OF inv n, of p] by simp
  have claims: "same_claims (ts i) t" using pc by (simp add: same_claims_def t)
  have N: "g_blocks g = Suc (Suc (p div 31))" using blocks_reach(3) [OF d(4) w(5)] w(3,4) by (simp add: div_Suc_block)
  show ?thesis
  proof (rule sg_step_same [OF inv n, where g' = ?g])
    show "evolves (ts i) g ?g" using w(3,5) own by (simp add: evolves_def grows_def stages_def protocols_def)
    have "links_ok ?g" using links_okD [OF ghost_okD(7) [OF d(3)]] by (intro links_okI) fastforce+
    then show "ghost_ok ?g" using ghost_okD [OF d(3)] by (simp add: ghost_ok_def)
    show "tail_ok q' ?g" using d(4) N w by (auto simp: tail_ok_def Let_def t ix_next(2) div_Suc_block)
    show "head_ok q' ?g" by (rule head_ok_mono [OF d(5)]) (simp_all add: t)
    show "heap_ok q' (ts(i := t)) ?g" by (rule heap_same [OF d(6)]) (use pc in \<open>auto simp: t intro: block_of_cong\<close>)
    show "unique (ts(i := t))" by (rule unique_same [OF d(7) claims])
    show "claimed (ts(i := t)) ?g" by (rule claims_stay [OF d(8) claims]) (use N in auto)
    show "thread_ok ?g t (st i)" using p w N by (auto simp: t writes_at_def)
  qed (use d(1,2) in auto)
qed

lemma store_next_ok:
  assumes inv: "sg_inv n q ts x st g" and n: "n < 2 ^ 60" and pc: "ts i = Running (SStoreNext v nxt tail blk)"
    and tick: "sq_push_tick fail q (SStoreNext v nxt tail blk) = (q', t)"
  shows "sg_good (Suc n) q' (ts(i := t)) x st"
proof -
  note d = sg_invD [OF inv]
  obtain p where p: "st i = Answered Pushed" "writes_at g tail blk p WValue" "g_vals g ! p = v" "p mod 31 = 30"
    "nxt = g_addr g (Suc (p div 31))" "Suc (p div 31) < g_blocks g" "pushes g = Suc p \<longrightarrow> g_tail g = Open" using d(9) [of i] pc by auto
  let ?L = "p div 31"
  let ?g = "g\<lparr>g_linked := (g_linked g)(?L := True)\<rparr>"
  have w: "p < pushes g" "tail = ix p False" "blk = g_addr g ?L" "wr g p = WValue" using p(2) by (auto simp: writes_at_def)
  have L: "?L < g_blocks g" using p(6) by simp
  have live: "b_freed (g_sys g ?L) = 0" using block_there [OF d(3), of p] w(4) by simp
  have slots: "slot_of ?g = slot_of g" by (intro ext) (simp add: slot_of_def)
  have "set_next blk nxt q = Some (q\<lparr>sq_heap := (sq_heap q)(blk := block_of ?g ?L)\<rparr>)"
    using heap_okD(4) [OF d(6) L] live p(5) by (simp add: set_next_def block_of_def w(3) slots)
  then have t: "q' = q\<lparr>sq_heap := (sq_heap q)(blk := block_of ?g ?L)\<rparr>" "t = Running (SWrite v None tail blk)" using tick by auto
  have claims: "same_claims (ts i) t" using pc by (simp add: same_claims_def t)
  note block = last_slot(1) [OF p(4)]
  show ?thesis
  proof (rule sg_step_same [OF inv n, where g' = ?g])
    show "evolves (ts i) g ?g" by (simp add: evolves_def grows_def stages_def protocols_def)
    have "links_ok ?g" using links_okD [OF ghost_okD(7) [OF d(3)]] p(6,7) w(1) block
      by (intro links_okI) (fastforce split: if_splits)+
    then show "ghost_ok ?g" using ghost_okD [OF d(3)] by (simp add: ghost_ok_def)
    have "tail_ok q' ?g = tail_ok q g" by (rule tail_ok_cong) (simp_all add: t)
    then show "tail_ok q' ?g" using d(4) by simp
    show "head_ok q' ?g" by (rule head_ok_mono [OF d(5)]) (simp_all add: t)
    have "block_of ?g K = block_of g K" if "K \<noteq> ?L" for K by (rule block_of_cong) (use that in auto)
    then show "heap_ok q' (ts(i := t)) ?g" using pc by (intro heap_block [OF d(6) L]) (auto simp: t w(3))
    show "unique (ts(i := t))" by (rule unique_same [OF d(7) claims])
    show "claimed (ts(i := t)) ?g" by (rule claims_stay [OF d(8) claims]) (use L in auto)
    show "thread_ok ?g t (st i)" using p w by (auto simp: t writes_at_def)
  qed (use d(1,2) in auto)
qed

section \<open>Steps of the protocol of a block\<close>

abbreviation in_block :: "'a sq_ghost \<Rightarrow> nat \<Rightarrow> blk_sys \<Rightarrow> 'a sq_ghost" where
  "in_block g L s \<equiv> g\<lparr>g_sys := (g_sys g)(L := s)\<rparr>"

lemma same_slot: "r div 31 = p div 31 \<and> r mod 31 = p mod 31 \<longleftrightarrow> r = (p :: nat)"
  by (metis div_mult_mod_eq)

lemma blk_slot:
  assumes "blk_inv s" "i < 31"
  shows "b_rd s i \<noteq> RWait \<Longrightarrow> b_wr s i = WDone" "bW s i \<longleftrightarrow> b_wr s i = WDone"
  using assms unfolding blk_inv_def blk_basic_def by blast+

lemma write_tick_effect:
  "wr (in_block g (p div 31) (write_tick (p mod 31) (g_sys g (p div 31)))) r =
     (if r = p then if wr g p = WValue then WState else WDone else wr g r)"
  "rd (in_block g (p div 31) (write_tick (p mod 31) (g_sys g (p div 31)))) r = rd g r"
  using same_slot [of r p] by (auto simp: wr_def rd_def write_tick_def split: wpc.split)

lemma read_tick_frame:
  "b_wr (read_tick i s) = b_wr s" "j \<noteq> i \<Longrightarrow> b_rd (read_tick i s) j = b_rd s j"
  by (simp_all add: read_tick_def split: rpc.split)

lemma read_tick_effect:
  "wr (in_block g (p div 31) (read_tick (p mod 31) (g_sys g (p div 31)))) r = wr g r"
  "rd (in_block g (p div 31) (read_tick (p mod 31) (g_sys g (p div 31)))) r =
     (if r = p then b_rd (read_tick (p mod 31) (g_sys g (p div 31))) (p mod 31) else rd g r)"
  using same_slot [of r p] by (auto simp: wr_def rd_def read_tick_frame(1) intro: read_tick_frame(2))

lemma in_block_ok:
  assumes inv: "sg_inv n q ts x st g" and n: "n < 2 ^ 60" and s: "blk_inv s'" "small_bits s'" "L < g_blocks g"
    and ev: "protocols (ts i) g (in_block g L s')" and lk: "links_ok (in_block g L s')"
    and rest: "\<And>p. pushes g \<le> p \<Longrightarrow> wr (in_block g L s') p = WValue" "\<And>p. g_pops g \<le> p \<Longrightarrow> rd (in_block g L s') p = RWait"
    and q': "sq_head q' = sq_head q" "sq_tail q' = sq_tail q" "heap_ok q' (ts(i := t)) (in_block g L s')"
    and t: "unique (ts(i := t))" "claimed (ts(i := t)) (in_block g L s')" "thread_ok (in_block g L s') t (st i)"
  shows "sg_good (Suc n) q' (ts(i := t)) x st"
proof (rule sg_step_same [OF inv n])
  note d = sg_invD [OF inv]
  show "evolves (ts i) g (in_block g L s')" using ev by (simp add: evolves_def grows_def stages_def)
  show "ghost_ok (in_block g L s')" using ghost_okD [OF d(3)] s lk rest by (simp add: ghost_ok_def)
  have "tail_ok q' (in_block g L s') = tail_ok q g" by (rule tail_ok_cong) (simp_all add: q')
  then show "tail_ok q' (in_block g L s')" using d(4) by simp
  have "head_ok q' (in_block g L s') = head_ok q g" by (rule head_ok_cong) (simp_all add: q')
  then show "head_ok q' (in_block g L s')" using d(5) by simp
qed (use sg_invD [OF inv] q' t in auto)

text \<open>A writer in the last slot of a block has linked the block before, and then the tail has moved on.\<close>

lemma write_links:
  assumes ok: "tail_ok q g" "ghost_ok g" and p: "p < pushes g" "p mod 31 = 30 \<Longrightarrow> g_linked g (p div 31)"
  shows "links_ok (in_block g (p div 31) (write_tick (p mod 31) (g_sys g (p div 31))))"
proof (rule links_okI)
  note l = links_okD [OF ghost_okD(7) [OF ok(2)]]
  let ?g = "in_block g (p div 31) (write_tick (p mod 31) (g_sys g (p div 31)))"
  show "wr ?g (31 * L + 30) = WValue" if "Suc L < g_blocks ?g" "\<not> g_linked ?g L" for L
  proof -
    have "p \<noteq> 31 * L + 30" using p(2) that(2) by auto
    then show ?thesis using l(4) [of L] that by (simp add: write_tick_effect)
  qed
  show "wr ?g (pushes ?g - 1) = WValue" if "g_tail ?g \<noteq> Open"
  proof -
    have T: "(pushes g - 1) mod 31 = 30" "0 < pushes g" using ok(1) that by (auto simp: tail_ok_def Let_def split: if_splits stage.splits)
    have "p \<noteq> pushes g - 1"
    proof
      assume e: "p = pushes g - 1"
      then have m: "p mod 31 = 30" using T(1) by simp
      have "Suc p = pushes g" using e T(2) by simp
      then have "31 * Suc (p div 31) = pushes g" using last_slot(1) [OF m] by simp
      from l(3) [OF p(2) [OF m] this] show False using that by simp
    qed
    then show ?thesis using l(6) that by (simp add: write_tick_effect)
  qed
  show "g_linked ?g L \<Longrightarrow> Suc L < g_blocks ?g" "g_linked ?g L \<Longrightarrow> 31 * Suc L \<le> pushes ?g"
    "g_linked ?g L \<Longrightarrow> 31 * Suc L = pushes ?g \<Longrightarrow> g_tail ?g = Open" for L using l(1-3) [of L] by simp_all
  show "g_head ?g = Open \<Longrightarrow> 0 < g_pops ?g \<Longrightarrow> 31 dvd g_pops ?g \<Longrightarrow> g_linked ?g (g_pops ?g div 31 - 1)" using l(5) by simp
  show "g_head ?g \<noteq> Open \<Longrightarrow> rd ?g (g_pops ?g - 1) = RWait" using l(7) by (simp add: write_tick_effect)
qed

lemma write_ok:
  assumes inv: "sg_inv n q ts x st g" and n: "n < 2 ^ 60" and pc: "ts i = Running (SWrite v nb tail blk)"
    and tick: "sq_push_tick fail q (SWrite v nb tail blk) = (q', t)"
  shows "sg_good (Suc n) q' (ts(i := t)) x st"
proof -
  note d = sg_invD [OF inv]
  obtain p where p: "st i = Answered Pushed" "writes_at g tail blk p WValue" "g_vals g ! p = v" "p mod 31 = 30 \<longrightarrow> g_linked g (p div 31)"
    using d(9) [of i] pc by auto
  then have w: "p < pushes g" "tail = ix p False" "blk = g_addr g (p div 31)" "wr g p = WValue" by (auto simp: writes_at_def)
  let ?L = "p div 31" and ?k = "p mod 31"
  let ?s = "write_tick ?k (g_sys g ?L)" let ?g = "in_block g ?L ?s"
  have near: "near p" using sg_near [OF inv n, of p] w(1) by simp
  have L: "?L < g_blocks g" by (rule blocks_reach(1) [OF d(4) w(1)])
  have live: "b_freed (g_sys g ?L) = 0" using block_there [OF d(3), of p] w(4) by simp
  have blk: "blk_inv (g_sys g ?L)" by (rule ghost_okD(3) [OF d(3)])
  have wait: "b_wr (g_sys g ?L) ?k = WValue" "b_rd (g_sys g ?L) ?k = RWait"
    using w(4) blk_slot(1) [OF blk, of ?k] by (auto simp: wr_def)
  have slot: "slot_of ?g ?L = (slot_of g ?L)(?k := (slot_of g ?L ?k)\<lparr>sq_value := Some v\<rparr>)"
    using wait p(3) by (intro ext) (auto simp: slot_of_def write_tick_def)
  have set: "set_slot blk ?k ((slot_of g ?L ?k)\<lparr>sq_value := Some v\<rparr>) q = Some (q\<lparr>sq_heap := (sq_heap q)(blk := block_of ?g ?L)\<rparr>)"
    unfolding w(3) by (rule set_slot_there [OF d(6) L live]) (use slot live wait in \<open>simp_all add: write_tick_def\<close>)
  have t: "q' = q\<lparr>sq_heap := (sq_heap q)(blk := block_of ?g ?L)\<rparr>" "t = Running (SState nb tail blk)"
    using tick w(2) near set get_slot_there(1) [OF d(6) L live, of ?k] w(3) by auto
  have claims: "same_claims (ts i) t" using pc by (simp add: same_claims_def t)
  show ?thesis
  proof (rule in_block_ok [OF inv n _ _ L])
    show "blk_inv ?s" by (rule write_tick_inv [OF blk]) simp
    show "small_bits ?s" by (rule small_bits_write [OF ghost_okD(8) [OF d(3)]])
    show "protocols (ts i) g ?g" using pc w near by (auto simp: protocols_def write_tick_effect)
    show "links_ok ?g" by (rule write_links [OF d(4,3) w(1)]) (use p(4) in simp)
    show "heap_ok q' (ts(i := t)) ?g"
      by (rule heap_block [OF d(6) L]) (use pc in \<open>auto simp: t w(3) intro: block_of_cong\<close>)
    show "unique (ts(i := t))" by (rule unique_same [OF d(7) claims])
    show "claimed (ts(i := t)) ?g" by (rule claimed_same [OF d(8) claims]) (use w in \<open>auto simp: write_tick_effect split: if_splits\<close>)
    show "thread_ok ?g t (st i)" using p w by (auto simp: t writes_at_def write_tick_effect)
  qed (use ghost_okD(5,6) [OF d(3)] w in \<open>auto simp: write_tick_effect t\<close>)
qed

lemma state_ok:
  assumes inv: "sg_inv n q ts x st g" and n: "n < 2 ^ 60" and pc: "ts i = Running (SState nb tail blk)"
    and tick: "sq_push_tick fail q (SState nb tail blk) = (q', t)"
  shows "sg_good (Suc n) q' (ts(i := t)) x st"
proof -
  note d = sg_invD [OF inv]
  obtain p where p: "st i = Answered Pushed" "writes_at g tail blk p WState" using d(9) [of i] pc by auto
  then have w: "p < pushes g" "tail = ix p False" "blk = g_addr g (p div 31)" "wr g p = WState" by (auto simp: writes_at_def)
  let ?L = "p div 31" and ?k = "p mod 31"
  let ?s = "write_tick ?k (g_sys g ?L)" let ?g = "in_block g ?L ?s"
  have near: "near p" using sg_near [OF inv n, of p] w(1) by simp
  have L: "?L < g_blocks g" by (rule blocks_reach(1) [OF d(4) w(1)])
  have live: "b_freed (g_sys g ?L) = 0" using block_there [OF d(3), of p] w(4) by simp
  have blk: "blk_inv (g_sys g ?L)" by (rule ghost_okD(3) [OF d(3)])
  have wait: "b_wr (g_sys g ?L) ?k = WState" using w(4) by (simp add: wr_def)
  have slot: "slot_of ?g ?L = (slot_of g ?L)(?k := (slot_of g ?L ?k)\<lparr>sq_state := sq_state (slot_of g ?L ?k) OR WRITE\<rparr>)"
    using wait by (intro ext) (auto simp: slot_of_def write_tick_def)
  let ?q = "q\<lparr>sq_heap := (sq_heap q)(blk := block_of ?g ?L)\<rparr>"
  have set: "set_slot blk ?k ((slot_of g ?L ?k)\<lparr>sq_state := sq_state (slot_of g ?L ?k) OR WRITE\<rparr>) q = Some ?q"
    unfolding w(3) by (rule set_slot_there [OF d(6) L live]) (use slot live wait in \<open>simp_all add: write_tick_def\<close>)
  have t: "q' = drop_box nb ?q" "t = Done Pushed"
    using tick w(2) near set get_slot_there(1) [OF d(6) L live, of ?k] w(3) by auto
  have linked: "g_linked g ?L" if "p mod 31 = 30"
  proof (rule ccontr)
    assume a: "\<not> g_linked g ?L"
    note last = last_slot(2) [OF that]
    show False
    proof (cases "Suc ?L < g_blocks g")
      case True
      then show False using links_okD(4) [OF ghost_okD(7) [OF d(3)], of ?L] a w(4) last by simp
    next
      case False
      moreover have "Suc ?L \<le> pushes g div 31" using div_le_mono [of "Suc p" "pushes g" 31] w(1) div_Suc_block(1) [OF that] by simp
      ultimately have "g_tail g = Full" "(pushes g - 1) mod 31 = p mod 31" "(pushes g - 1) div 31 = ?L"
        using d(4) L that by (auto simp: tail_ok_def Let_def split: if_splits stage.splits)
      then have "g_tail g = Full" "pushes g = Suc p" using same_slot [of "pushes g - 1" p] w(1) by auto
      then show False using links_okD(6) [OF ghost_okD(7) [OF d(3)]] w(4) by simp
    qed
  qed
  have own: "wpos (ts i) = Some p" "rpos (ts i) = None" "\<not> starting (ts i)" using pc w near by simp_all
  show ?thesis
  proof (rule in_block_ok [OF inv n _ _ L])
    show "blk_inv ?s" by (rule write_tick_inv [OF blk]) simp
    show "small_bits ?s" by (rule small_bits_write [OF ghost_okD(8) [OF d(3)]])
    show "protocols (ts i) g ?g" using own by (auto simp: protocols_def write_tick_effect)
    show "links_ok ?g" by (rule write_links [OF d(4,3) w(1) linked])
    have "heap_ok ?q (ts(i := ts i)) ?g" by (rule heap_block [OF d(6) L]) (auto simp: w(3) intro: block_of_cong)
    then have "heap_ok ?q ts ?g" by (simp only: fun_upd_triv)
    then have "heap_ok (drop_box nb ?q) (ts(i := t)) ?g" by (rule heap_drop) (use pc t(2) in simp_all)
    then show "heap_ok q' (ts(i := t)) ?g" by (simp add: t(1))
    show "unique (ts(i := t))" by (rule unique_upd [OF d(7)]) (simp_all add: t)
    show "claimed (ts(i := t)) ?g" by (rule claimed_upd [OF d(8)]) (use own w in \<open>auto simp: t write_tick_effect split: if_splits\<close>)
  qed (use ghost_okD(5,6) [OF d(3)] w p in \<open>auto simp: write_tick_effect t drop_box_def split: option.split\<close>)
qed

end
