(* ===== verification/Seg_Queue_Linear.thy ===== *)
theory Seg_Queue_Linear
  imports Seg_Queue_Push
begin

text \<open>
  The shared operations of \<^verbatim>\<open>SegQueue\<close> are linearizable and use no memory that has been freed: the steps
  of \<^verbatim>\<open>pop\<close> keep the invariant of theory \<open>Seg_Queue_Inv\<close> as well. A pop takes effect when it moves the head or finds
  nothing. When no call is under way, the queue is in a state that the operations on an exclusive reference expect.
\<close>

section \<open>Popping\<close>

lemma head_index:
  assumes "head_ok q g" "near (g_pops g)"
  shows "offset_of (index (sq_head q)) = 31 \<and> g_head g \<noteq> Open \<or> index (sq_head q) = ix (g_pops g) (g_bit g) \<and> g_head g = Open"
  using assms offset_full [of "g_pops g - 1" "g_bit g"] near_mono [of "g_pops g" "g_pops g - 1"]
  by (auto simp: head_ok_def Let_def split: if_splits stage.splits)

lemma head_current:
  assumes "head_ok q g" "near (g_pops g)" "near p" "index (sq_head q) = ix p b"
  shows "p = g_pops g" "g_head g = Open" "b = g_bit g"
proof -
  have "p mod 31 < 31" by simp
  then have "offset_of (index (sq_head q)) \<noteq> 31" using assms(3,4) by simp
  then have "ix p b = ix (g_pops g) (g_bit g)" "g_head g = Open" using head_index [OF assms(1,2)] assms(4) by auto
  then show "p = g_pops g" "g_head g = Open" "b = g_bit g" using ix_inject [OF assms(3,2), of b "g_bit g"] by simp_all
qed

lemma head_ptr: "head_ok q g \<Longrightarrow> g_head g = Open \<Longrightarrow> block (sq_head q) = (if g_started g then g_addr g (g_pops g div 31) else null)"
  by (cases "g_started g") (simp_all add: head_ok_def Let_def)

lemma head_load_index_ok:
  assumes inv: "sg_inv n q ts x st g" and n: "n < 2 ^ 60" and pc: "ts i = Running HLoadIndex"
    and tick: "sq_pop_tick fail q HLoadIndex = (q', t)"
  shows "sg_good (Suc n) q' (ts(i := t)) x st"
proof -
  note d = sg_invD [OF inv]
  have t: "q' = q" "t = Running (HLoadBlock (index (sq_head q)))" using tick by auto
  show ?thesis unfolding t
    by (rule sg_goodI, rule sg_quiet [OF inv n])
      (use pc d(9) [of i] head_index [OF d(5) sg_near_pops [OF inv n order_refl]] in \<open>auto simp: same_claims_def\<close>)
qed

lemma try_head_ok:
  assumes inv: "sg_inv n q ts x st g" and n: "n < 2 ^ 60"
    and pc: "same_claims (ts i) (Running HLoadIndex)" "boxes (ts i) = {}" "st i = Pending Pop"
    and h: "p \<le> g_pops g" "head = ix p b" "new_head = ix p b' + 2"
      "p = g_pops g \<Longrightarrow> blk \<noteq> null \<Longrightarrow> g_head g = Open \<and> b = g_bit g \<and> g_started g \<and> blk = g_addr g (p div 31) \<and> p < pushes g \<and>
         (b' \<longrightarrow> p div 31 < pushes g div 31)"
  shows "sg_good (Suc n) q (ts(i := Running (sq_try_head head new_head blk))) x st"
  by (rule sg_goodI, rule sg_quiet [OF inv n])
    (use pc h in \<open>auto simp: sq_try_head_def same_claims_def\<close>)

lemma head_load_block_ok:
  assumes inv: "sg_inv n q ts x st g" and n: "n < 2 ^ 60" and pc: "ts i = Running (HLoadBlock head)"
    and tick: "sq_pop_tick fail q (HLoadBlock head) = (q', t)"
  shows "sg_good (Suc n) q' (ts(i := t)) x st"
proof -
  note d = sg_invD [OF inv]
  have st: "st i = Pending Pop" using d(9) [of i] pc by simp
  have claims: "same_claims (ts i) (Running HLoadIndex)" using pc by (simp add: same_claims_def)
  have q: "q' = q" using tick by (auto simp: Let_def)
  show ?thesis
  proof (cases "offset_of head = 31")
    case True
    then have t: "t = Running HLoadIndex" using tick by (auto simp: Let_def)
    show ?thesis unfolding t q by (rule sg_goodI, rule sg_quiet [OF inv n]) (use pc st in \<open>auto simp: same_claims_def\<close>)
  next
    case False
    then obtain p b where p: "p \<le> g_pops g" "head = ix p b" "p = g_pops g \<longrightarrow> g_head g = Open \<and> b = g_bit g" using d(9) [of i] pc by auto
    show ?thesis
    proof (cases b)
      case True
      then have t: "t = Running (sq_try_head head (ix p True + 2) (block (sq_head q)))"
        using tick False p(2) by (auto simp: Let_def HAS_NEXT_def)
      have far: "p < pushes g" if "p div 31 < pushes g div 31" using that div_le_mono not_less by blast
      have "g_started g" "g_pops g div 31 < pushes g div 31" if "p = g_pops g"
        using that p(3) True d(5) by (auto simp: head_ok_def Let_def split: if_splits)
      then show ?thesis unfolding t q
        by (intro try_head_ok [OF inv n claims, where p = p and b = True and b' = True])
          (use pc st p True far head_ptr [OF d(5)] in auto)
    next
      case nobit: False
      then have t: "t = Running (HLoadTail head (block (sq_head q)))" using tick False p(2) by (auto simp: Let_def HAS_NEXT_def)
      show ?thesis unfolding t q
        by (rule sg_goodI, rule sg_quiet [OF inv n])
          (use pc st p nobit head_ptr [OF d(5)] in \<open>auto simp: same_claims_def split: if_splits\<close>)
    qed
  qed
qed

text \<open>A head that is not out of date and finds another index in the tail has something to pop.\<close>

lemma nonempty:
  assumes ok: "tail_ok q g" "ghost_ok g" "near (pushes g)" and h: "g_head g = Open"
    and differ: "drop_bit SHIFT (ix (g_pops g) b) \<noteq> drop_bit SHIFT (index (sq_tail q))"
  shows "g_pops g < pushes g"
    "lap_of (ix (g_pops g) b) \<noteq> lap_of (index (sq_tail q)) \<Longrightarrow> g_pops g div 31 < pushes g div 31"
proof -
  note l = links_okD [OF ghost_okD(7) [OF ok(2)]] and le = ghost_okD(1) [OF ok(2)]
  have near: "near (g_pops g)" by (rule near_mono [OF ok(3) le])
  have "g_pops g < pushes g \<and> (lap_of (ix (g_pops g) b) \<noteq> lap_of (index (sq_tail q)) \<longrightarrow> g_pops g div 31 < pushes g div 31)"
  proof (cases "g_tail g = Open")
    case True
    then have ix: "index (sq_tail q) = ix (pushes g) False" using ok(1) by (auto simp: tail_ok_def Let_def split: if_splits)
    then have "g_pops g \<noteq> pushes g" using differ near by auto
    then have "g_pops g < pushes g" using le by simp
    then show ?thesis using ix near ok(3) div_le_mono [OF le, of 31] by auto
  next
    case False
    then have T: "0 < pushes g" "(pushes g - 1) mod 31 = 30" using ok(1) by (auto simp: tail_ok_def Let_def split: if_splits stage.splits)
    then have full: "31 * Suc ((pushes g - 1) div 31) = pushes g" "pushes g div 31 = Suc ((pushes g - 1) div 31)"
      using last_slot(1) [OF T(2)] div_Suc_block(1) [OF T(2)] by simp_all
    have "g_pops g \<noteq> pushes g"
    proof
      assume e: "g_pops g = pushes g"
      have "31 dvd pushes g" using dvd_triv_left [of 31 "Suc ((pushes g - 1) div 31)"] by (simp only: full(1))
      then have "g_linked g ((pushes g - 1) div 31)" using l(5) [OF h] e T(1) full(2) by simp
      from l(3) [OF this full(1)] show False using False by simp
    qed
    then have "g_pops g \<le> pushes g - 1" "g_pops g < pushes g" using le by simp_all
    then show ?thesis using div_le_mono [of "g_pops g" "pushes g - 1" 31] full(2) by simp
  qed
  then show "g_pops g < pushes g"
    "lap_of (ix (g_pops g) b) \<noteq> lap_of (index (sq_tail q)) \<Longrightarrow> g_pops g div 31 < pushes g div 31" by simp_all
qed

lemma head_load_tail_ok:
  assumes inv: "sg_inv n q ts x st g" and n: "n < 2 ^ 60" and pc: "ts i = Running (HLoadTail head blk)"
    and tick: "sq_pop_tick fail q (HLoadTail head blk) = (q', t)"
  shows "sg_good (Suc n) q' (ts(i := t)) x st \<or>
    st i = Pending Pop \<and> x = [] \<and> sg_good (Suc n) q' (ts(i := t)) [] (st(i := Answered Nothing))"
proof -
  note d = sg_invD [OF inv] and near = sg_near [OF inv n order_refl]
  obtain p where p: "st i = Pending Pop" "p \<le> g_pops g" "head = ix p False"
    "p = g_pops g \<longrightarrow> g_head g = Open \<and> \<not> g_bit g \<and> (blk \<noteq> null \<longrightarrow> g_started g \<and> blk = g_addr g (p div 31))" using d(9) [of i] pc by auto
  note near_p = sg_near_pops [OF inv n p(2)]
  have q: "q' = q" using tick by (auto simp: Let_def)
  show ?thesis
  proof (cases "drop_bit SHIFT head = drop_bit SHIFT (index (sq_tail q))")
    case True
    then have t: "t = Done Nothing" using tick by (auto simp: Let_def)
    have "p = pushes g"
    proof (rule ccontr)
      assume a: "p \<noteq> pushes g"
      have "offset_of (index (sq_tail q)) = offset_of head" using True by (simp add: offset_of_def)
      also have "... \<noteq> 31" using p(3) near_p by simp
      finally have "index (sq_tail q) = ix (pushes g) False" using tail_index [OF d(4) near] by blast
      then show False using True p(3) near near_p a by simp
    qed
    then have H: "g_pops g = pushes g" using p(2) ghost_okD(1) [OF d(3)] by simp
    then have x: "x = []" using d(2) by simp
    have "sg_inv (Suc n) q' (ts(i := t)) [] (st(i := Answered Nothing)) g" unfolding q
    proof (rule sg_step [OF inv n evolves_refl])
      have claims: "same_claims (ts i) t" using pc by (simp add: same_claims_def t)
      show "unique (ts(i := t))" by (rule unique_same [OF d(7) claims])
      show "claimed (ts(i := t)) g" by (rule claimed_same [OF d(8) claims]) auto
      show "heap_ok q (ts(i := t)) g" by (rule heap_same [OF d(6)]) (use pc in \<open>auto simp: t\<close>)
    qed (use d H in \<open>auto simp: t\<close>)
    then show ?thesis using p(1) x by (auto intro: sg_goodI)
  next
    case False
    define b' where "b' = (lap_of head \<noteq> lap_of (index (sq_tail q)))"
    have t: "t = Running (sq_try_head head (ix p b' + 2) blk)" using tick False p(3)
      by (auto simp: Let_def HAS_NEXT_def b'_def)
    have "sg_good (Suc n) q (ts(i := t)) x st" unfolding t
    proof (rule try_head_ok [OF inv n, where p = p and b = False and b' = b'])
      show "same_claims (ts i) (Running HLoadIndex)" using pc by (simp add: same_claims_def)
      show "g_head g = Open \<and> False = g_bit g \<and> g_started g \<and> blk = g_addr g (p div 31) \<and> p < pushes g \<and>
         (b' \<longrightarrow> p div 31 < pushes g div 31)" if "p = g_pops g" "blk \<noteq> null"
        using that p(3,4) nonempty [OF d(4,3) near, of False] False by (auto simp: b'_def)
    qed (use pc p in auto)
    then show ?thesis using q by simp
  qed
qed

text \<open>Claiming a slot, where the pop takes effect.\<close>

lemma pop_claim_ok:
  assumes inv: "sg_inv n q ts x st g" and n: "n < 2 ^ 60" and pc: "ts i = Running (HCas (ix (g_pops g) b) (ix (g_pops g) b' + 2) blk)"
    and now: "g_head g = Open" "g_started g" "blk = g_addr g (g_pops g div 31)" "g_pops g < pushes g"
      "b' \<longrightarrow> g_pops g div 31 < pushes g div 31"
    and t: "q' = q\<lparr>sq_head := (sq_head q)\<lparr>index := ix (g_pops g) b' + 2\<rparr>\<rparr>"
      "t = Running (if g_pops g mod 31 = 30 then HWaitNext (ix (g_pops g) b) (ix (g_pops g) b' + 2) blk else HWaitWrite (ix (g_pops g) b) blk)"
  shows "\<exists>v ys. x = v # ys \<and> sg_good (Suc n) q' (ts(i := t)) ys (st(i := Answered (Popped v)))"
proof -
  note d = sg_invD [OF inv] and near = sg_near_pops [OF inv n order_refl]
  let ?H = "g_pops g"
  let ?g = "g\<lparr>g_pops := Suc ?H, g_bit := b', g_head := if ?H mod 31 = 30 then Full else Open\<rparr>"
  have tpos: "rpos t = Some ?H" "wpos t = None" "\<not> starting t" "boxes t = {}" using near by (auto simp: t(2))
  have old: "rpos (ts j) \<noteq> Some ?H" for j using thread_claims(2) [OF d(9) sg_near [OF inv n order_refl] d(3)] by blast
  have dvd: "31 dvd Suc ?H \<longleftrightarrow> ?H mod 31 = 30" by presburger
  have "sg_good (Suc n) q' (ts(i := t)) (drop (Suc ?H) (g_vals g)) (st(i := Answered (Popped (g_vals g ! ?H))))"
  proof (rule sg_goodI, rule sg_step [OF inv n, where g' = ?g])
    show "evolves (ts i) g ?g" using now by (simp add: evolves_def grows_def stages_def protocols_def)
    have "links_ok ?g" using links_okD [OF ghost_okD(7) [OF d(3)]] ghost_okD(6) [OF d(3), of ?H] dvd
      by (intro links_okI) (auto split: if_splits)
    then show "ghost_ok ?g" using ghost_okD [OF d(3)] now(4) by (simp add: ghost_ok_def)
    have "tail_ok q' ?g = tail_ok q g" by (rule tail_ok_cong) (simp_all add: t(1))
    then show "tail_ok q' ?g" using d(4) by simp
    show "head_ok q' ?g" using d(5) now by (auto simp: head_ok_def Let_def t(1) div_Suc_block)
    show "heap_ok q' (ts(i := t)) ?g" using pc tpos(4) by (intro heap_same [OF d(6)]) (auto simp: t(1) intro: block_of_cong)
    show "unique (ts(i := t))" by (rule unique_upd [OF d(7)]) (use tpos old in auto)
    show "claimed (ts(i := t)) ?g" by (rule claimed_upd [OF d(8)]) (use pc tpos now(2) less_Suc_eq in auto)
    show "thread_ok ?g t (Answered (Popped (g_vals g ! ?H)))" using now ghost_okD(6) [OF d(3), of ?H]
      by (auto simp: t(2) reads_at_def moves_head_def pop_ret_def)
  qed (use d(1) in auto)
  moreover have "x = g_vals g ! ?H # drop (Suc ?H) (g_vals g)" using d(2) now(4) by (simp add: Cons_nth_drop_Suc)
  ultimately show ?thesis by blast
qed

lemma pop_cas_ok:
  assumes inv: "sg_inv n q ts x st g" and n: "n < 2 ^ 60" and pc: "ts i = Running (HCas head new_head blk)"
    and tick: "sq_pop_tick fail q (HCas head new_head blk) = (q', t)"
  shows "sg_good (Suc n) q' (ts(i := t)) x st \<or>
    st i = Pending Pop \<and> (\<exists>v ys. x = v # ys \<and> sg_good (Suc n) q' (ts(i := t)) ys (st(i := Answered (Popped v))))"
proof -
  note d = sg_invD [OF inv] and near = sg_near_pops [OF inv n order_refl]
  obtain p b b' where p: "st i = Pending Pop" "p \<le> g_pops g" "head = ix p b" "new_head = ix p b' + 2"
    "p = g_pops g \<longrightarrow> g_head g = Open \<and> b = g_bit g \<and> g_started g \<and> blk = g_addr g (p div 31) \<and> p < pushes g \<and>
       (b' \<longrightarrow> p div 31 < pushes g div 31)" using d(9) [of i] pc by auto
  show ?thesis
  proof (cases "index (sq_head q) = head \<and> \<not> fail")
    case True
    then have cur: "p = g_pops g" using head_current(1) [OF d(5) near sg_near_pops [OF inv n p(2)]] p(3) by blast
    have t: "q' = q\<lparr>sq_head := (sq_head q)\<lparr>index := ix (g_pops g) b' + 2\<rparr>\<rparr>"
      "t = Running (if g_pops g mod 31 = 30 then HWaitNext (ix (g_pops g) b) (ix (g_pops g) b' + 2) blk else HWaitWrite (ix (g_pops g) b) blk)"
      using tick True p(3,4) cur near by auto
    have "\<exists>v ys. x = v # ys \<and> sg_good (Suc n) q' (ts(i := t)) ys (st(i := Answered (Popped v)))"
      by (rule pop_claim_ok [OF inv n _ _ _ _ _ _ t]) (use pc p cur in auto)
    then show ?thesis using p(1) by blast
  next
    case False
    then have t: "q' = q" "t = Running (HLoadBlock (index (sq_head q)))" using tick by (auto split: if_splits)
    have "sg_good (Suc n) q' (ts(i := t)) x st" unfolding t
      by (rule sg_goodI, rule sg_quiet [OF inv n])
        (use pc p(1) head_index [OF d(5) near] in \<open>auto simp: same_claims_def\<close>)
    then show ?thesis by simp
  qed
qed

text \<open>Moving the head to the next block.\<close>

lemma pop_block:
  assumes inv: "sg_inv n q ts x st g" and r: "reads_at g head blk p r"
  shows "p < pushes g" "p div 31 < g_blocks g" "r \<noteq> RDone \<Longrightarrow> b_freed (g_sys g (p div 31)) = 0"
    "n < 2 ^ 60 \<Longrightarrow> offset_of head = p mod 31" "n < 2 ^ 60 \<Longrightarrow> pos_of head = p"
proof -
  note d = sg_invD [OF inv]
  show p: "p < pushes g" using r ghost_okD(1) [OF d(3)] by (simp add: reads_at_def)
  show "p div 31 < g_blocks g" by (rule blocks_reach(1) [OF d(4) p])
  show "r \<noteq> RDone \<Longrightarrow> b_freed (g_sys g (p div 31)) = 0" using block_there [OF d(3), of p] r by (simp add: reads_at_def)
  show "n < 2 ^ 60 \<Longrightarrow> offset_of head = p mod 31" "n < 2 ^ 60 \<Longrightarrow> pos_of head = p"
    using r sg_near [OF inv _ less_imp_le [OF p]] by (auto simp: reads_at_def)
qed

lemma wait_next_ok:
  assumes inv: "sg_inv n q ts x st g" and n: "n < 2 ^ 60" and pc: "ts i = Running (HWaitNext head new_head blk)"
    and tick: "sq_pop_tick fail q (HWaitNext head new_head blk) = (q', t)"
  shows "sg_good (Suc n) q' (ts(i := t)) x st"
proof -
  note d = sg_invD [OF inv]
  obtain p b' where p: "st i = pop_ret g p" "reads_at g head blk p RWait" "moves_head g p Full" "new_head = ix p b' + 2"
    using d(9) [of i] pc by auto
  note b = pop_block [OF inv p(2)]
  have "blk = g_addr g (p div 31)" using p(2) by (simp add: reads_at_def)
  then have get: "get_next blk q = Some (if g_linked g (p div 31) then g_addr g (Suc (p div 31)) else null)"
    using get_slot_there(2) [OF d(6) b(2) b(3), of 0] by simp
  show ?thesis
  proof (cases "g_linked g (p div 31)")
    case True
    then have "0 < g_addr g (Suc (p div 31))" using heap_okD(2) [OF d(6)] linked_less [OF d(3)] by blast
    then have t: "q' = q" "t = Running (HNextNext head new_head blk (g_addr g (Suc (p div 31))))" using tick get True by auto
    show ?thesis unfolding t by (rule sg_goodI, rule sg_quiet [OF inv n]) (use pc p True in \<open>auto simp: same_claims_def\<close>)
  next
    case False
    then have t: "q' = q" "t = ts i" using tick get pc by auto
    show ?thesis unfolding t
      by (rule sg_goodI, rule sg_quiet [OF inv n]) (use d(9) in \<open>auto simp: same_claims_def\<close>)
  qed
qed

lemma next_next_ok:
  assumes inv: "sg_inv n q ts x st g" and n: "n < 2 ^ 60" and pc: "ts i = Running (HNextNext head new_head blk nxt)"
    and tick: "sq_pop_tick fail q (HNextNext head new_head blk nxt) = (q', t)"
  shows "sg_good (Suc n) q' (ts(i := t)) x st"
proof -
  note d = sg_invD [OF inv]
  obtain p b' where p: "st i = pop_ret g p" "reads_at g head blk p RWait" "moves_head g p Full" "new_head = ix p b' + 2"
    "g_linked g (p div 31)" "nxt = g_addr g (Suc (p div 31))" using d(9) [of i] pc by auto
  let ?L = "Suc (p div 31)"
  have H: "g_pops g = Suc p" "p mod 31 = 30" using p(3) by (auto simp: moves_head_def)
  have "b_freed (g_sys g ?L) = 0" using block_there [OF d(3), of "Suc p"] ghost_okD(6) [OF d(3), of "Suc p"] H by (simp add: div_Suc_block)
  then have get: "get_next nxt q = Some (if g_linked g ?L then g_addr g (Suc ?L) else null)"
    using get_slot_there(2) [OF d(6) linked_less [OF d(3) p(5)], of 0] p(6) by simp
  have "g_linked g ?L \<Longrightarrow> 0 < g_addr g (Suc ?L)" using heap_okD(2) [OF d(6)] linked_less [OF d(3)] by blast
  then have t: "q' = q" "t = Running (HStoreBlock head (ix (Suc p) (g_linked g ?L)) blk nxt)"
    using tick get p(4) H(2) by (auto simp: Let_def HAS_NEXT_def ix_next(2))
  have far: "?L < pushes g div 31" if "g_linked g ?L"
    using links_okD(2) [OF ghost_okD(7) [OF d(3)] that] div_le_mono [of "31 * Suc ?L" "pushes g" 31] by simp
  show ?thesis unfolding t
    by (rule sg_goodI, rule sg_quiet [OF inv n]) (use pc p far in \<open>auto simp: same_claims_def\<close>)
qed

lemma head_store_block_ok:
  assumes inv: "sg_inv n q ts x st g" and n: "n < 2 ^ 60" and pc: "ts i = Running (HStoreBlock head ni blk nxt)"
    and tick: "sq_pop_tick fail q (HStoreBlock head ni blk nxt) = (q', t)"
  shows "sg_good (Suc n) q' (ts(i := t)) x st"
proof -
  note d = sg_invD [OF inv]
  obtain p b' where p: "st i = pop_ret g p" "reads_at g head blk p RWait" "moves_head g p Full" "ni = ix (Suc p) b'"
    "g_linked g (p div 31)" "nxt = g_addr g (Suc (p div 31))" "b' \<longrightarrow> Suc (p div 31) < pushes g div 31" using d(9) [of i] pc by auto
  have H: "g_pops g = Suc p" "p mod 31 = 30" "g_head g = Full" "rd g p = RWait" using p(2,3) by (auto simp: moves_head_def reads_at_def)
  let ?g = "g\<lparr>g_head := Linked\<rparr>"
  have t: "q' = q\<lparr>sq_head := (sq_head q)\<lparr>block := nxt\<rparr>\<rparr>" "t = Running (HStoreIndex head ni blk)" using tick by auto
  have own: "rpos (ts i) = Some p" using pc pop_block(5) [OF inv p(2) n] by simp
  have claims: "same_claims (ts i) t" using pc by (simp add: same_claims_def t)
  note N = linked_less [OF d(3) p(5)]
  show ?thesis
  proof (rule sg_step_same [OF inv n, where g' = ?g])
    show "evolves (ts i) g ?g" using H own by (simp add: evolves_def grows_def stages_def protocols_def)
    have "links_ok ?g" using links_okD [OF ghost_okD(7) [OF d(3)]] H by (intro links_okI) auto
    then show "ghost_ok ?g" using ghost_okD [OF d(3)] by (simp add: ghost_ok_def)
    have "tail_ok q' ?g = tail_ok q g" by (rule tail_ok_cong) (simp_all add: t(1))
    then show "tail_ok q' ?g" using d(4) by simp
    show "head_ok q' ?g" using d(5) H N p(5,6) by (auto simp: head_ok_def Let_def t div_Suc_block split: if_splits)
    show "heap_ok q' (ts(i := t)) ?g" by (rule heap_same [OF d(6)]) (use pc in \<open>auto simp: t intro: block_of_cong\<close>)
    show "unique (ts(i := t))" by (rule unique_same [OF d(7) claims])
    show "claimed (ts(i := t)) ?g" by (rule claims_stay [OF d(8) claims]) (use N in auto)
    show "thread_ok ?g t (st i)" using p by (auto simp: t reads_at_def moves_head_def pop_ret_def)
  qed (use d(1,2) in auto)
qed

lemma head_store_index_ok:
  assumes inv: "sg_inv n q ts x st g" and n: "n < 2 ^ 60" and pc: "ts i = Running (HStoreIndex head ni blk)"
    and tick: "sq_pop_tick fail q (HStoreIndex head ni blk) = (q', t)"
  shows "sg_good (Suc n) q' (ts(i := t)) x st"
proof -
  note d = sg_invD [OF inv]
  obtain p b' where p: "st i = pop_ret g p" "reads_at g head blk p RWait" "moves_head g p Linked" "ni = ix (Suc p) b'"
    "g_linked g (p div 31)" "b' \<longrightarrow> Suc (p div 31) < pushes g div 31" using d(9) [of i] pc by auto
  have H: "g_pops g = Suc p" "p mod 31 = 30" "g_head g = Linked" using p(3) by (auto simp: moves_head_def)
  let ?g = "g\<lparr>g_head := Open, g_bit := b'\<rparr>"
  have t: "q' = q\<lparr>sq_head := (sq_head q)\<lparr>index := ix (Suc p) b'\<rparr>\<rparr>" "t = Running (HWaitWrite head blk)" using tick p(4) by auto
  have own: "rpos (ts i) = Some p" using pc pop_block(5) [OF inv p(2) n] by simp
  have claims: "same_claims (ts i) t" using pc by (simp add: same_claims_def t)
  note N = linked_less [OF d(3) p(5)]
  show ?thesis
  proof (rule sg_step_same [OF inv n, where g' = ?g])
    show "evolves (ts i) g ?g" using H own by (simp add: evolves_def grows_def stages_def protocols_def)
    have "links_ok ?g" using links_okD [OF ghost_okD(7) [OF d(3)]] H p(5) by (intro links_okI) (auto simp: div_Suc_block)
    then show "ghost_ok ?g" using ghost_okD [OF d(3)] by (simp add: ghost_ok_def)
    have "tail_ok q' ?g = tail_ok q g" by (rule tail_ok_cong) (simp_all add: t(1))
    then show "tail_ok q' ?g" using d(4) by simp
    show "head_ok q' ?g" using d(5) H N p(6) by (auto simp: head_ok_def Let_def t div_Suc_block split: if_splits)
    show "heap_ok q' (ts(i := t)) ?g" by (rule heap_same [OF d(6)]) (use pc in \<open>auto simp: t intro: block_of_cong\<close>)
    show "unique (ts(i := t))" by (rule unique_same [OF d(7) claims])
    show "claimed (ts(i := t)) ?g" by (rule claims_stay [OF d(8) claims]) (use N in auto)
    show "thread_ok ?g t (st i)" using p by (auto simp: t reads_at_def pop_ret_def)
  qed (use d(1,2) in auto)
qed

text \<open>Reading a slot and destroying a block: steps of the reader in the protocol of the block.\<close>

definition reader_step :: "'a sq_ghost \<Rightarrow> nat \<Rightarrow> 'a sq_ghost" where
  "reader_step g p = in_block g (p div 31) (read_tick (p mod 31) (g_sys g (p div 31)))"

lemma reader_step_simps [simp]:
  "g_vals (reader_step g p) = g_vals g" "g_pops (reader_step g p) = g_pops g" "g_head (reader_step g p) = g_head g"
  "g_addr (reader_step g p) = g_addr g" "g_blocks (reader_step g p) = g_blocks g" "g_linked (reader_step g p) = g_linked g"
  "wr (reader_step g p) r = wr g r" "r \<noteq> p \<Longrightarrow> rd (reader_step g p) r = rd g r"
  "rd (reader_step g p) p = b_rd (read_tick (p mod 31) (g_sys g (p div 31))) (p mod 31)"
  "g_sys (reader_step g p) (p div 31) = read_tick (p mod 31) (g_sys g (p div 31))"
  "L \<noteq> p div 31 \<Longrightarrow> g_sys (reader_step g p) L = g_sys g L" "pop_ret (reader_step g p) r = pop_ret g r"
  by (simp_all add: reader_step_def read_tick_effect pop_ret_def)

lemma reader_step_ok:
  assumes inv: "sg_inv n q ts x st g" and n: "n < 2 ^ 60" and r: "reads_at g head blk p r" "r \<noteq> RDone"
    and early: "g_head g \<noteq> Open \<Longrightarrow> p \<noteq> g_pops g - 1" and own: "rpos (ts i) = Some p" "wpos (ts i) = None" "\<not> starting (ts i)"
    and q': "sq_head q' = sq_head q" "sq_tail q' = sq_tail q" "heap_ok q' (ts(i := t)) (reader_step g p)"
    and t: "rpos t = Some p \<or> rpos t = None \<and> rd (reader_step g p) p = RDone" "wpos t = None" "\<not> starting t"
      "thread_ok (reader_step g p) t (st i)"
  shows "sg_good (Suc n) q' (ts(i := t)) x st"
proof -
  note d = sg_invD [OF inv] and b = pop_block [OF inv r(1)]
  let ?s = "read_tick (p mod 31) (g_sys g (p div 31))"
  have p: "p < g_pops g" using r(1) by (simp add: reads_at_def)
  note eff = read_tick_effect [of g p]
  show ?thesis
  proof (rule in_block_ok [OF inv n _ _ b(2)])
    show "blk_inv ?s" by (rule read_tick_inv [OF ghost_okD(3) [OF d(3)]]) simp
    show "small_bits ?s" by (rule small_bits_read [OF ghost_okD(8,3) [OF d(3)]]) simp
    show "protocols (ts i) g (in_block g (p div 31) ?s)" using own by (auto simp: protocols_def eff)
    have "rd (in_block g (p div 31) ?s) (g_pops g - 1) = RWait" if "g_head g \<noteq> Open"
      using early [OF that] links_okD(7) [OF ghost_okD(7) [OF d(3)] that] by (simp add: eff)
    then show "links_ok (in_block g (p div 31) ?s)" using ghost_okD(7) [OF d(3)] by (simp add: links_ok_def eff(1))
    show "heap_ok q' (ts(i := t)) (in_block g (p div 31) ?s)" using q'(3) by (simp add: reader_step_def)
    show "unique (ts(i := t))" by (rule unique_upd [OF d(7)]) (use own t in auto)
    show "claimed (ts(i := t)) (in_block g (p div 31) ?s)"
      by (rule claimed_upd [OF d(8)]) (use own t(1-3) in \<open>auto simp: reader_step_def eff split: if_splits\<close>)
    show "thread_ok (in_block g (p div 31) ?s) t (st i)" using t(4) by (simp add: reader_step_def)
  qed (use ghost_okD(5,6) [OF d(3)] p q' in \<open>auto simp: eff\<close>)
qed

lemma reads_step:
  "reads_at g head blk p r \<Longrightarrow> b_rd (read_tick (p mod 31) (g_sys g (p div 31))) (p mod 31) = r' \<Longrightarrow>
     reads_at (reader_step g p) head blk p r'"
  by (simp add: reads_at_def)

lemma reader_heap:
  assumes "heap_ok q ts g" "p div 31 < g_blocks g" "boxes t = boxes (ts i)"
    "sq_heap q' = (sq_heap q)(g_addr g (p div 31) := block_of (reader_step g p) (p div 31))" "sq_fresh q' = sq_fresh q"
  shows "heap_ok q' (ts(i := t)) (reader_step g p)"
  by (rule heap_block [OF assms(1,2,3) _ _ _ assms(4,5)]) (auto intro: block_of_cong)

lemma reader_heap_same:
  assumes "heap_ok q ts g" "p div 31 < g_blocks g" "boxes t = boxes (ts i)" "slot_of (reader_step g p) (p div 31) = slot_of g (p div 31)"
    "b_freed (read_tick (p mod 31) (g_sys g (p div 31))) = b_freed (g_sys g (p div 31))"
  shows "heap_ok q (ts(i := t)) (reader_step g p)"
proof (rule heap_same [OF assms(1) _ _ assms(3)])
  show "block_of (reader_step g p) L = block_of g L" if "L < g_blocks g" for L
    using assms(4,5) by (cases "L = p div 31") (simp add: block_of_def, auto intro: block_of_cong)
qed simp_all

lemma not_waiting:
  assumes "sg_inv n q ts x st g" "reads_at g head blk p r" "r \<noteq> RWait" "g_head g \<noteq> Open"
  shows "p \<noteq> g_pops g - 1"
  using links_okD(7) [OF ghost_okD(7) [OF sg_invD(3) [OF assms(1)]] assms(4)] assms(2,3) by (auto simp: reads_at_def)

lemma wait_write_ok:
  assumes inv: "sg_inv n q ts x st g" and n: "n < 2 ^ 60" and pc: "ts i = Running (HWaitWrite head blk)"
    and tick: "sq_pop_tick fail q (HWaitWrite head blk) = (q', t)"
  shows "sg_good (Suc n) q' (ts(i := t)) x st"
proof -
  note d = sg_invD [OF inv]
  obtain p where p: "st i = pop_ret g p" "reads_at g head blk p RWait" "g_pops g = Suc p \<longrightarrow> g_head g = Open" using d(9) [of i] pc by auto
  note b = pop_block [OF inv p(2)]
  let ?s = "g_sys g (p div 31)" and ?k = "p mod 31"
  have r: "b_rd ?s ?k = RWait" "blk = g_addr g (p div 31)" using p(2) by (auto simp: reads_at_def rd_def)
  have get: "get_slot blk (offset_of head) q = Some (slot_of g (p div 31) ?k)"
    using get_slot_there(1) [OF d(6) b(2) b(3), of ?k] r b(4) [OF n] by simp
  show ?thesis
  proof (cases "bW ?s ?k")
    case True
    then have t: "q' = q" "t = Running (HRead head blk)" using tick get by (auto simp: slot_of_def)
    have tick_s: "read_tick ?k ?s = ?s\<lparr>b_rd := (b_rd ?s)(?k := RValue)\<rparr>" using True r(1) by (simp add: read_tick_def)
    show ?thesis
    proof (rule reader_step_ok [OF inv n p(2)])
      show "heap_ok q' (ts(i := t)) (reader_step g p)" unfolding t(1)
        by (rule reader_heap_same [OF d(6) b(2)]) (use pc r in \<open>auto simp: t slot_of_def tick_s\<close>)
      show "p \<noteq> g_pops g - 1" if "g_head g \<noteq> Open" using that p(2,3) by (auto simp: reads_at_def)
      have "reads_at (reader_step g p) head blk p RValue" by (rule reads_step [OF p(2)]) (simp add: tick_s)
      then show "thread_ok (reader_step g p) t (st i)" using p(1) by (auto simp: t)
    qed (use pc b(5) [OF n] in \<open>auto simp: t\<close>)
  next
    case False
    then have t: "q' = q" "t = ts i" using tick get pc by (auto simp: slot_of_def)
    show ?thesis unfolding t
      by (rule sg_goodI, rule sg_quiet [OF inv n]) (use d(9) in \<open>auto simp: same_claims_def\<close>)
  qed
qed

lemma destroy_at_ok:
  assumes "st = pop_ret g p" "g_vals g ! p = v" "reads_at g head blk p (destroy_from j)"
  shows "thread_ok g (Running (sq_destroy_at v head blk j)) st"
  using assms by (auto simp: sq_destroy_at_def destroy_from_def)

lemma destroy_at_simps [simp]:
  "rpos (Running (sq_destroy_at v head blk j)) = Some (pos_of head)" "wpos (Running (sq_destroy_at v head blk j)) = None"
  "\<not> starting (Running (sq_destroy_at v head blk j))" "boxes (Running (sq_destroy_at v head blk j)) = {}"
  by (simp_all add: sq_destroy_at_def)

lemma read_ok:
  assumes inv: "sg_inv n q ts x st g" and n: "n < 2 ^ 60" and pc: "ts i = Running (HRead head blk)"
    and tick: "sq_pop_tick fail q (HRead head blk) = (q', t)"
  shows "sg_good (Suc n) q' (ts(i := t)) x st"
proof -
  note d = sg_invD [OF inv]
  obtain p where p: "st i = pop_ret g p" "reads_at g head blk p RValue" using d(9) [of i] pc by auto
  note b = pop_block [OF inv p(2)]
  let ?s = "g_sys g (p div 31)" and ?k = "p mod 31" and ?g = "reader_step g p"
  have r: "b_rd ?s ?k = RValue" "blk = g_addr g (p div 31)" using p(2) by (auto simp: reads_at_def rd_def)
  then have w: "b_wr ?s ?k = WDone" using blk_slot(1) [OF ghost_okD(3) [OF d(3)], of ?k] by simp
  have live: "b_freed ?s = 0" using b(3) by simp
  have get: "get_slot blk (offset_of head) q = Some (slot_of g (p div 31) ?k)"
    using get_slot_there(1) [OF d(6) b(2) live, of ?k] r b(4) [OF n] by simp
  have tick_s: "read_tick ?k ?s = ?s\<lparr>b_rd := (b_rd ?s)(?k := if ?k = 30 then destroy_from 0 else RMark)\<rparr>"
    using r(1) by (simp add: read_tick_def)
  have val: "sq_value (slot_of g (p div 31) ?k) = Some (g_vals g ! p)" using r w by (simp add: slot_of_def)
  have slot: "slot_of ?g (p div 31) = (slot_of g (p div 31))(?k := (slot_of g (p div 31) ?k)\<lparr>sq_value := None\<rparr>)"
    by (intro ext) (auto simp: slot_of_def tick_s)
  have set: "set_slot blk ?k ((slot_of g (p div 31) ?k)\<lparr>sq_value := None\<rparr>) q =
      Some (q\<lparr>sq_heap := (sq_heap q)(g_addr g (p div 31) := block_of ?g (p div 31))\<rparr>)"
    unfolding r(2) by (rule set_slot_there [OF d(6) b(2) live]) (use slot live in \<open>simp_all add: tick_s\<close>)
  have t: "q' = q\<lparr>sq_heap := (sq_heap q)(g_addr g (p div 31) := block_of ?g (p div 31))\<rparr>"
    "t = Running (if ?k = 30 then sq_destroy_at (g_vals g ! p) head blk 0 else HMark (g_vals g ! p) head blk)"
    using tick get val set b(4) [OF n] by auto
  have th: "thread_ok ?g t (st i)"
  proof (cases "?k = 30")
    case True
    have "reads_at ?g head blk p (destroy_from 0)" by (rule reads_step [OF p(2)], unfold tick_s) (simp add: True)
    then show ?thesis using destroy_at_ok [of "st i" ?g p] p(1) True by (simp add: t(2))
  next
    case False
    have "reads_at ?g head blk p RMark" by (rule reads_step [OF p(2)], unfold tick_s) (simp add: False)
    then show ?thesis using p(1) False by (auto simp: t(2))
  qed
  have heap: "heap_ok q' (ts(i := t)) ?g" by (rule reader_heap [OF d(6) b(2)]) (use pc in \<open>auto simp: t\<close>)
  show ?thesis
    by (rule reader_step_ok [OF inv n p(2)]) (use pc b(5) [OF n] not_waiting [OF inv p(2)] th heap in \<open>auto simp: t\<close>)
qed

lemma mark_read_ok:
  assumes inv: "sg_inv n q ts x st g" and n: "n < 2 ^ 60" and pc: "ts i = Running (HMark v head blk)"
    and tick: "sq_pop_tick fail q (HMark v head blk) = (q', t)"
  shows "sg_good (Suc n) q' (ts(i := t)) x st"
proof -
  note d = sg_invD [OF inv]
  obtain p where p: "st i = pop_ret g p" "g_vals g ! p = v" "reads_at g head blk p RMark" using d(9) [of i] pc by auto
  note b = pop_block [OF inv p(3)]
  let ?s = "g_sys g (p div 31)" and ?k = "p mod 31" and ?g = "reader_step g p"
  have r: "b_rd ?s ?k = RMark" "blk = g_addr g (p div 31)" using p(3) by (auto simp: reads_at_def rd_def)
  have live: "b_freed ?s = 0" using b(3) by simp
  have get: "get_slot blk (offset_of head) q = Some (slot_of g (p div 31) ?k)"
    using get_slot_there(1) [OF d(6) b(2) live, of ?k] r b(4) [OF n] by simp
  let ?r = "if bD ?s ?k then destroy_from (?k + 1) else RDone"
  have tick_s: "read_tick ?k ?s = ?s\<lparr>b_state := (b_state ?s)(?k := b_state ?s ?k OR READ), b_rd := (b_rd ?s)(?k := ?r)\<rparr>"
    using r(1) by (simp add: read_tick_def)
  have slot: "slot_of ?g (p div 31) = (slot_of g (p div 31))(?k := (slot_of g (p div 31) ?k)\<lparr>sq_state := sq_state (slot_of g (p div 31) ?k) OR READ\<rparr>)"
    by (intro ext) (auto simp: slot_of_def tick_s r(1))
  have set: "set_slot blk ?k ((slot_of g (p div 31) ?k)\<lparr>sq_state := sq_state (slot_of g (p div 31) ?k) OR READ\<rparr>) q =
      Some (q\<lparr>sq_heap := (sq_heap q)(g_addr g (p div 31) := block_of ?g (p div 31))\<rparr>)"
    unfolding r(2) by (rule set_slot_there [OF d(6) b(2) live]) (use slot live in \<open>simp_all add: tick_s\<close>)
  have t: "q' = q\<lparr>sq_heap := (sq_heap q)(g_addr g (p div 31) := block_of ?g (p div 31))\<rparr>"
    "t = (if bD ?s ?k then Running (sq_destroy_at v head blk (?k + 1)) else Done (Popped v))"
    using tick get set b(4) [OF n] by (auto simp: slot_of_def)
  have "reads_at ?g head blk p ?r" by (rule reads_step [OF p(3)]) (simp add: tick_s)
  then have th: "thread_ok ?g t (st i)" using destroy_at_ok [of "st i" ?g p v] p(1,2) by (auto simp: t(2) pop_ret_def)
  have heap: "heap_ok q' (ts(i := t)) ?g" by (rule reader_heap [OF d(6) b(2)]) (use pc in \<open>auto simp: t\<close>)
  show ?thesis
    by (rule reader_step_ok [OF inv n p(3)]) (use pc b(5) [OF n] not_waiting [OF inv p(3)] th heap in \<open>auto simp: t tick_s\<close>)
qed

lemma destroy_load_ok:
  assumes inv: "sg_inv n q ts x st g" and n: "n < 2 ^ 60" and pc: "ts i = Running (HDestroy v head blk j)"
    and tick: "sq_pop_tick fail q (HDestroy v head blk j) = (q', t)"
  shows "sg_good (Suc n) q' (ts(i := t)) x st"
proof -
  note d = sg_invD [OF inv]
  obtain p where p: "st i = pop_ret g p" "g_vals g ! p = v" "reads_at g head blk p (RLoad j)" using d(9) [of i] pc by auto
  note b = pop_block [OF inv p(3)]
  let ?s = "g_sys g (p div 31)" and ?k = "p mod 31" and ?g = "reader_step g p"
  have r: "b_rd ?s ?k = RLoad j" "blk = g_addr g (p div 31)" using p(3) by (auto simp: reads_at_def rd_def)
  have live: "b_freed ?s = 0" using b(3) by simp
  have j: "j < 30" using ghost_okD(3) [OF d(3), of "p div 31"] r(1) unfolding blk_inv_def blk_basic_def by (meson mod_less_divisor zero_less_numeral)
  have get: "get_slot blk j q = Some (slot_of g (p div 31) j)" using get_slot_there(1) [OF d(6) b(2) live, of j] r(2) j by simp
  let ?r = "if bR ?s j then destroy_from (j + 1) else ROr j"
  have tick_s: "read_tick ?k ?s = ?s\<lparr>b_rd := (b_rd ?s)(?k := ?r)\<rparr>" using r(1) by (simp add: read_tick_def)
  have t: "q' = q" "t = Running (if bR ?s j then sq_destroy_at v head blk (j + 1) else HDestroyOr v head blk j)"
    using tick get by (auto simp: slot_of_def)
  have "reads_at ?g head blk p ?r" by (rule reads_step [OF p(3)]) (simp add: tick_s)
  then have th: "thread_ok ?g t (st i)" using destroy_at_ok [of "st i" ?g p v] p(1,2) by (auto simp: t(2))
  have heap: "heap_ok q (ts(i := t)) ?g"
    by (rule reader_heap_same [OF d(6) b(2)]) (use pc r in \<open>auto simp: t slot_of_def tick_s\<close>)
  show ?thesis
    by (rule reader_step_ok [OF inv n p(3)])
      (use pc b(5) [OF n] not_waiting [OF inv p(3)] th heap in \<open>auto simp: t\<close>)
qed

lemma destroy_or_ok:
  assumes inv: "sg_inv n q ts x st g" and n: "n < 2 ^ 60" and pc: "ts i = Running (HDestroyOr v head blk j)"
    and tick: "sq_pop_tick fail q (HDestroyOr v head blk j) = (q', t)"
  shows "sg_good (Suc n) q' (ts(i := t)) x st"
proof -
  note d = sg_invD [OF inv]
  obtain p where p: "st i = pop_ret g p" "g_vals g ! p = v" "reads_at g head blk p (ROr j)" using d(9) [of i] pc by auto
  note b = pop_block [OF inv p(3)]
  let ?s = "g_sys g (p div 31)" and ?k = "p mod 31" and ?g = "reader_step g p"
  have r: "b_rd ?s ?k = ROr j" "blk = g_addr g (p div 31)" using p(3) by (auto simp: reads_at_def rd_def)
  have live: "b_freed ?s = 0" using b(3) by simp
  have j: "j < 30" using ghost_okD(3) [OF d(3), of "p div 31"] r(1) unfolding blk_inv_def blk_basic_def by (meson mod_less_divisor zero_less_numeral)
  have get: "get_slot blk j q = Some (slot_of g (p div 31) j)" using get_slot_there(1) [OF d(6) b(2) live, of j] r(2) j by simp
  let ?r = "if bR ?s j then destroy_from (j + 1) else RDone"
  have tick_s: "read_tick ?k ?s = ?s\<lparr>b_state := (b_state ?s)(j := b_state ?s j OR DESTROY), b_rd := (b_rd ?s)(?k := ?r)\<rparr>"
    using r(1) by (simp add: read_tick_def)
  have slot: "slot_of ?g (p div 31) = (slot_of g (p div 31))(j := (slot_of g (p div 31) j)\<lparr>sq_state := sq_state (slot_of g (p div 31) j) OR DESTROY\<rparr>)"
    by (intro ext) (auto simp: slot_of_def tick_s r(1))
  have set: "set_slot blk j ((slot_of g (p div 31) j)\<lparr>sq_state := sq_state (slot_of g (p div 31) j) OR DESTROY\<rparr>) q =
      Some (q\<lparr>sq_heap := (sq_heap q)(g_addr g (p div 31) := block_of ?g (p div 31))\<rparr>)"
    unfolding r(2) by (rule set_slot_there [OF d(6) b(2) live]) (use slot live j in \<open>simp_all add: tick_s\<close>)
  have t: "q' = q\<lparr>sq_heap := (sq_heap q)(g_addr g (p div 31) := block_of ?g (p div 31))\<rparr>"
    "t = (if bR ?s j then Running (sq_destroy_at v head blk (j + 1)) else Done (Popped v))"
    using tick get set by (auto simp: slot_of_def)
  have "reads_at ?g head blk p ?r" by (rule reads_step [OF p(3)]) (simp add: tick_s)
  then have th: "thread_ok ?g t (st i)" using destroy_at_ok [of "st i" ?g p v] p(1,2) by (auto simp: t(2) pop_ret_def)
  have heap: "heap_ok q' (ts(i := t)) ?g" by (rule reader_heap [OF d(6) b(2)]) (use pc in \<open>auto simp: t\<close>)
  show ?thesis
    by (rule reader_step_ok [OF inv n p(3)]) (use pc b(5) [OF n] not_waiting [OF inv p(3)] th heap in \<open>auto simp: t tick_s\<close>)
qed

lemma free_ok:
  assumes inv: "sg_inv n q ts x st g" and n: "n < 2 ^ 60" and pc: "ts i = Running (HFree v head blk)"
    and tick: "sq_pop_tick fail q (HFree v head blk) = (q', t)"
  shows "sg_good (Suc n) q' (ts(i := t)) x st"
proof -
  note d = sg_invD [OF inv]
  obtain p where p: "st i = pop_ret g p" "g_vals g ! p = v" "reads_at g head blk p RFree" using d(9) [of i] pc by auto
  note b = pop_block [OF inv p(3)]
  let ?s = "g_sys g (p div 31)" and ?k = "p mod 31" and ?g = "reader_step g p"
  have r: "b_rd ?s ?k = RFree" "blk = g_addr g (p div 31)" using p(3) by (auto simp: reads_at_def rd_def)
  have live: "b_freed ?s = 0" using b(3) by simp
  have tick_s: "read_tick ?k ?s = ?s\<lparr>b_freed := Suc (b_freed ?s), b_rd := (b_rd ?s)(?k := RDone)\<rparr>" using r(1) by (simp add: read_tick_def)
  have gone: "block_of ?g (p div 31) = None" by (simp add: block_of_def tick_s)
  have "sq_heap q blk \<noteq> None" using heap_okD(4) [OF d(6) b(2)] live r(2) by (simp add: block_of_def)
  then have t: "q' = q\<lparr>sq_heap := (sq_heap q)(g_addr g (p div 31) := block_of ?g (p div 31))\<rparr>" "t = Done (Popped v)"
    using tick r(2) gone by (auto simp: destroy_mut_def)
  have heap: "heap_ok q' (ts(i := t)) ?g" by (rule reader_heap [OF d(6) b(2)]) (use pc in \<open>auto simp: t\<close>)
  show ?thesis
    by (rule reader_step_ok [OF inv n p(3)]) (use pc b(5) [OF n] not_waiting [OF inv p(3)] p(1,2) heap in \<open>auto simp: t tick_s pop_ret_def\<close>)
qed

section \<open>Linearizability\<close>

lemma sq_tick_ok:
  assumes inv: "sg_inv n q ts x st g" and n: "n < 2 ^ 60" and pc: "ts i = Running pc" and tick: "sq_tick fail q pc = (q', t)"
  shows "sg_good (Suc n) q' (ts(i := t)) x st \<or>
    (\<exists>oper r x'. st i = Pending oper \<and> sq_spec oper x r x' \<and> sg_good (Suc n) q' (ts(i := t)) x' (st(i := Answered r)))"
proof (cases pc)
  case (SCas v nb tail blk)
  then show ?thesis using push_cas_ok [OF inv n, of i v nb tail blk fail q' t] pc tick by (fastforce simp: sq_tick_def sq_spec_def)
next
  case (HLoadTail head blk)
  then show ?thesis using head_load_tail_ok [OF inv n, of i head blk fail q' t] pc tick by (fastforce simp: sq_tick_def sq_spec_def)
next
  case (HCas head new_head blk)
  then show ?thesis using pop_cas_ok [OF inv n, of i head new_head blk fail q' t] pc tick by (fastforce simp: sq_tick_def sq_spec_def)
next
  case SUndefined
  then show ?thesis using sg_invD(9) [OF inv, of i] pc by simp
qed (use pc tick in \<open>auto simp: sq_tick_def simp del: sq_push_tick.simps sq_pop_tick.simps intro: load_index_ok [OF inv n]
    load_block_ok [OF inv n] install_ok [OF inv n] store_head_ok [OF inv n] store_block_ok [OF inv n] store_index_ok [OF inv n]
    store_next_ok [OF inv n] write_ok [OF inv n] state_ok [OF inv n] head_load_index_ok [OF inv n] head_load_block_ok [OF inv n]
    wait_next_ok [OF inv n] next_next_ok [OF inv n] head_store_block_ok [OF inv n] head_store_index_ok [OF inv n]
    wait_write_ok [OF inv n] read_ok [OF inv n] mark_read_ok [OF inv n] destroy_load_ok [OF inv n] destroy_or_ok [OF inv n]
    free_ok [OF inv n]\<close>)

lemma sg_relabel:
  assumes inv: "sg_inv n q ts x st g" and t: "same_claims (ts i) t" "boxes t = boxes (ts i)" "thread_ok g t s"
  shows "sg_inv n q (ts(i := t)) x (st(i := s)) g"
  using sg_invD [OF inv] t unfolding sg_inv_def
  by (auto intro: unique_same claimed_same heap_same)

lemma sq_simulation:
  "thread_simulation sq_start sq_tick sq_spec (sg_good :: nat \<Rightarrow> 'a seg_queue \<Rightarrow> _) (2 ^ 60)"
proof (unfold_locales)
  fix n and q :: "'a seg_queue" and ts x st
  { assume "sg_good n q ts x st"
    then obtain g where "sg_inv n q ts x st g" by (auto simp: sg_good_def)
    then have "sg_inv (Suc n) q ts x st g" by (simp add: sg_inv_def)
    then show "sg_good (Suc n) q ts x st" by (rule sg_goodI) }
  { fix i :: tid and oper :: "'a queue_op" assume "sg_good n q ts x st" and rest: "ts i = Resting"
    then obtain g where inv: "sg_inv n q ts x st g" by (auto simp: sg_good_def)
    have "sg_inv n q (ts(i := Running (sq_start oper))) x (st(i := Pending oper)) g"
      by (rule sg_relabel [OF inv]) (use rest in \<open>cases oper; simp add: same_claims_def\<close>)+
    then show "st i = Quiet \<and> sg_good n q (ts(i := Running (sq_start oper))) x (st(i := Pending oper))"
      using sg_invD(9) [OF inv, of i] rest by (simp add: sg_goodI) }
  { fix i pc ch q' t assume good: "sg_good n q ts x st" and a: "n < 2 ^ 60" "ts i = Running pc" "sq_tick ch q pc = (q', t)"
    from good obtain g where "sg_inv n q ts x st g" by (auto simp: sg_good_def)
    from sq_tick_ok [OF this a] show "sg_good (Suc n) q' (ts(i := t)) x st \<or>
      (\<exists>oper r x'. st i = Pending oper \<and> sq_spec oper x r x' \<and> sg_good (Suc n) q' (ts(i := t)) x' (st(i := Answered r)))" . }
  { fix i :: tid and r assume "sg_good n q ts x st" and fin: "ts i = Done r"
    then obtain g where inv: "sg_inv n q ts x st g" by (auto simp: sg_good_def)
    have "sg_inv n q (ts(i := Resting)) x (st(i := Quiet)) g"
      by (rule sg_relabel [OF inv]) (use fin in \<open>simp_all add: same_claims_def\<close>)
    then show "st i = Answered r \<and> sg_good n q (ts(i := Resting)) x (st(i := Quiet))"
      using sg_invD(9) [OF inv, of i] fin by (simp add: sg_goodI) }
qed

interpretation sqs: thread_simulation sq_start sq_tick sq_spec sg_good "2 ^ 60"
  by (rule sq_simulation)

section \<open>Rest\<close>

text \<open>
  When every thread rests, all slots that were claimed have been written and read, the blocks before the head are freed, and
  the others are in the state that the operations on an exclusive reference leave.
\<close>

lemma all_read_freed:
  assumes "blk_inv s" "\<And>i. i < 31 \<Longrightarrow> b_rd s i = RDone"
  shows "b_freed s \<noteq> 0"
  using assms(1)
proof (cases rule: phase_cases)
  case 1
  then show ?thesis using assms(2) [of 30] by (auto simp: early_def)
next
  case (2 t j)
  then show ?thesis using assms(2) [of t] by (auto simp: active_def)
next
  case (3 j)
  then show ?thesis using assms(2) [of j] by (auto simp: parked_def blk_basic_def)
qed (simp add: freed_def)

lemma last_unread_early:
  assumes "blk_inv s" "b_rd s 30 = RWait"
  shows "early s"
  using assms(1)
proof (cases rule: phase_cases)
  case (2 t j)
  then show ?thesis using assms(2) by (cases "t = 30") (auto simp: active_def)
qed (use assms(2) in \<open>auto simp: parked_def freed_def\<close>)

lemma laps:
  fixes H :: nat
  shows "L < H div 31 \<Longrightarrow> i < 31 \<Longrightarrow> 31 * L + i < H" "H div 31 < L \<Longrightarrow> H \<le> 31 * L" "H div 31 \<le> L \<Longrightarrow> H \<le> 31 * L + 30"
proof -
  show "31 * L + i < H" if "L < H div 31" "i < 31"
    using that less_eq_div_iff_mult_less_eq [of 31 "Suc L" H] by simp
  show "H div 31 < L \<Longrightarrow> H \<le> 31 * L" using div_less_iff_less_mult [of 31 H L] by simp
  show "H div 31 \<le> L \<Longrightarrow> H \<le> 31 * L + 30" using div_less_iff_less_mult [of 31 H "Suc L"] by simp
qed

locale resting =
  fixes n :: nat and q :: "'a seg_queue" and ts x st g
  assumes inv: "sg_inv n q ts x st g" and rest: "\<And>i. ts i = Resting"
begin

abbreviation "T \<equiv> pushes g"
abbreviation "H \<equiv> g_pops g"

lemmas d = sg_invD [OF inv]
lemmas inside = ghost_okD [OF d(3)]

lemma written: "p < T \<Longrightarrow> wr g p = WDone"
  using d(8) rest by (auto simp: claimed_def)

lemma has_been_read: "p < H \<Longrightarrow> rd g p = RDone"
  using d(8) rest by (auto simp: claimed_def)

lemma started: "0 < g_blocks g \<Longrightarrow> g_started g"
  using d(8) rest by (auto simp: claimed_def)

lemma stages_open: "g_tail g = Open" "g_head g = Open"
proof -
  note l = links_okD [OF inside(7)]
  have "0 < T" if "g_tail g \<noteq> Open" using that d(4) by (auto simp: tail_ok_def Let_def split: if_splits stage.splits)
  then show "g_tail g = Open" using l(6) written [of "T - 1"] by fastforce
  have "0 < H" if "g_head g \<noteq> Open" using that d(5) by (auto simp: head_ok_def Let_def split: if_splits stage.splits)
  then show "g_head g = Open" using l(7) has_been_read [of "H - 1"] by fastforce
qed

lemma count: "0 < g_blocks g \<Longrightarrow> g_blocks g = Suc (T div 31)"
  by (rule blocks_reach(2) [OF d(4) _ stages_open(1)])

lemma all_linked:
  assumes "0 < g_blocks g"
  shows "g_linked g L \<longleftrightarrow> L < T div 31"
proof
  assume L: "L < T div 31"
  have "wr g (31 * L + 30) = WDone" by (rule written, rule laps(1) [OF L]) simp
  then show "g_linked g L" using links_okD(4) [OF inside(7), of L] count [OF assms] L by auto
next
  assume "g_linked g L"
  then show "L < T div 31" using linked_less [OF d(3), of L] count [OF assms] by simp
qed

lemma there: "b_freed (g_sys g L) = 0 \<longleftrightarrow> H div 31 \<le> L"
proof
  assume "H div 31 \<le> L"
  then have "H \<le> 31 * L + 30" by (rule laps(3))
  then have "rd g (31 * L + 30) = RWait" by (rule inside(6))
  then show "b_freed (g_sys g L) = 0" using block_there [OF d(3), of "31 * L + 30"] by simp
next
  assume free: "b_freed (g_sys g L) = 0"
  show "H div 31 \<le> L"
  proof (rule ccontr)
    assume "\<not> H div 31 \<le> L"
    then have "b_rd (g_sys g L) i = RDone" if "i < 31" for i
      using that has_been_read [OF laps(1) [of L H i]] by (simp add: rd_def)
    then show False using all_read_freed [OF inside(3), of L] free by simp
  qed
qed

lemma heap_at:
  assumes "0 < g_blocks g" "L \<le> T div 31" "H div 31 \<le> L"
  shows "sq_heap q (g_addr g L) =
    Some \<lparr>blk_next = (if L < T div 31 then g_addr g (Suc L) else null), blk_slots = map (slot_of g L) [0..<31]\<rparr>"
  using heap_okD(4) [OF d(6), of L] there [of L] all_linked [OF assms(1), of L] count [OF assms(1)] assms(2,3)
  by (simp add: block_of_def del: upt_rec_numeral upt_Suc)

lemma slot_there:
  assumes "0 < g_blocks g" "p div 31 \<le> T div 31" "H div 31 \<le> p div 31"
  shows "slot_at (g_addr g) q p = slot_of g (p div 31) (p mod 31)"
  using heap_at [OF assms] by (simp add: slot_at_def del: upt_rec_numeral upt_Suc)

lemma chain_there:
  assumes pos: "0 < g_blocks g"
  shows "chain (g_addr g) (H div 31) (T div 31) q"
proof -
  note h = heap_okD [OF d(6)] and N = count [OF pos]
  have "inj_on (g_addr g) {H div 31..T div 31}" using h(1) N by (auto intro: inj_on_subset)
  moreover have "dom (sq_heap q) = g_addr g ` {H div 31..T div 31}"
  proof (intro set_eqI iffI)
    fix a assume "a \<in> dom (sq_heap q)"
    then have some: "sq_heap q a \<noteq> None" by auto
    have "a \<in> g_addr g ` {..<g_blocks g}" using h(9) [of a] some rest by (cases "a \<in> g_addr g ` {..<g_blocks g}") simp_all
    then obtain L where L: "a = g_addr g L" "L < g_blocks g" by blast
    then have "H div 31 \<le> L" using h(4) [OF L(2)] some there [of L] by (auto simp: block_of_def split: if_splits)
    then show "a \<in> g_addr g ` {H div 31..T div 31}" using L N by simp
  qed (auto simp: heap_at [OF pos])
  moreover have "linked (g_addr g) (T div 31) L q" if "L \<in> {H div 31..T div 31}" for L
    using that h(2,3) [of L] heap_at [OF pos, of L] N by (simp add: linked_def del: upt_rec_numeral upt_Suc)
  moreover have "H div 31 \<le> T div 31" by (rule div_le_mono [OF inside(1)])
  ultimately show ?thesis by (simp add: chain_def)
qed

lemma bits_there:
  assumes "H div 31 \<le> p div 31"
  shows "bW (g_sys g (p div 31)) (p mod 31) \<longleftrightarrow> p < T" "bR (g_sys g (p div 31)) (p mod 31) \<longleftrightarrow> p < H"
    "\<not> bD (g_sys g (p div 31)) (p mod 31)"
proof -
  let ?s = "g_sys g (p div 31)" and ?k = "p mod 31"
  have bits: "b_state ?s 30 AND - 2 = 0" using inside(8) [of "p div 31"] by (simp add: small_bits_def)
  have last: "?k = 30 \<Longrightarrow> bR ?s ?k = False \<and> bD ?s ?k = False"
    using bits and.assoc [of "b_state ?s 30" "- 2" DESTROY] and.assoc [of "b_state ?s 30" "- 2" READ]
    by (simp add: DESTROY_def READ_def)
  have "rd g (31 * (p div 31) + 30) = RWait" by (rule inside(6), rule laps(3) [OF assms])
  then have "b_rd ?s 30 = RWait" by (simp add: rd_def)
  then have e: "early ?s" by (rule last_unread_early [OF inside(3)])
  show "bW ?s ?k \<longleftrightarrow> p < T"
    using blk_slot(2) [OF inside(3), of ?k "p div 31"] written [of p] inside(5) [of p] by (cases "p < T") (auto simp: wr_def)
  have before: "?k < 30" if "?k \<noteq> 30" using that mod_less_divisor [of 31 p] by linarith
  then show "\<not> bD ?s ?k" using e last by (cases "?k = 30") (auto simp: early_def)
  show "bR ?s ?k \<longleftrightarrow> p < H"
  proof (cases "?k = 30")
    case True
    then show ?thesis using last laps(3) [OF assms] last_slot(2) [OF True] by simp
  next
    case False
    then have "bR ?s ?k \<longleftrightarrow> b_rd ?s ?k \<noteq> RWait \<and> b_rd ?s ?k \<noteq> RValue \<and> b_rd ?s ?k \<noteq> RMark"
      using before inside(3) [of "p div 31"] by (simp add: blk_inv_def blk_basic_def)
    then show ?thesis using has_been_read [of p] inside(6) [of p] by (cases "p < H") (auto simp: rd_def)
  qed
qed

lemma state_there:
  assumes "0 < g_blocks g" "p div 31 \<le> T div 31" "H div 31 \<le> p div 31"
  shows "sq_state (slot_at (g_addr g) q p) = slot_state H T p"
proof -
  have "b_state (g_sys g (p div 31)) (p mod 31) AND - 8 = 0" using inside(8) [of "p div 31"] by (simp add: small_bits_def)
  from state_of_bits [OF this] have "b_state (g_sys g (p div 31)) (p mod 31) = slot_state H T p"
    using bits_there [OF assms(3)] inside(1) by (simp add: slot_state_def)
  then show ?thesis using slot_there [OF assms] by (simp add: slot_of_def)
qed

lemma represented:
  assumes pos: "0 < g_blocks g" and near: "near T"
  shows "sq_rep H T (\<lambda>p. g_vals g ! p) (g_addr g) (g_bit g) q"
proof -
  have "sq_value (slot_at (g_addr g) q p) = Some (g_vals g ! p)" if "H \<le> p" "p < T" for p
    using slot_there [OF pos, of p] div_le_mono [OF that(1), of 31] div_le_mono [of p T 31] that(2) written [of p] inside(6) [OF that(1)]
    by (simp add: slot_of_def wr_def rd_def)
  moreover have "sq_head q = \<lparr>index = ix H (g_bit g), block = g_addr g (H div 31)\<rparr>" "g_bit g \<longrightarrow> H div 31 < T div 31"
    using d(5) started [OF pos] stages_open by (simp_all add: head_ok_def Let_def)
  moreover have "sq_tail q = \<lparr>index = ix T False, block = g_addr g (T div 31)\<rparr>"
    using d(4) pos stages_open by (simp add: tail_ok_def Let_def)
  ultimately show ?thesis using near chain_there [OF pos] state_there [OF pos] inside(1) by (simp add: sq_rep_def sq_window_def)
qed

lemma well_formed:
  assumes "n + m < 2 ^ 60"
  shows "sq_wf m q \<and> sq_contents q = x"
proof (cases "g_blocks g = 0")
  case True
  then have 0: "g_vals g = []" "H = 0" "\<not> g_started g" using d(4) inside(1,2) by (auto simp: tail_ok_def Let_def)
  have "sq_heap q a = None" for a using heap_okD(9) [OF d(6), of a] True rest by simp
  then have "sq_null q" using True 0 d(4,5) heap_okD(10) [OF d(6)] by (auto simp: sq_null_def tail_ok_def head_ok_def Let_def)
  then show ?thesis using sq_null_ops(2) d(2) 0 assms by (auto simp: sq_wf_def near_def)
next
  case False
  then have rep: "sq_rep H T (\<lambda>p. g_vals g ! p) (g_addr g) (g_bit g) q" using represented d(1) assms by (simp add: near_def)
  have "map (\<lambda>p. g_vals g ! p) [H..<T] = drop H (g_vals g)" by (rule nth_equalityI) simp_all
  then have "sq_contents q = x" using rep sq_window_contents d(2) by (fastforce simp: sq_rep_def)
  moreover have "sq_wf m q" by (rule sq_wfI [OF rep]) (use d(1) assms in \<open>simp add: near_def\<close>)
  ultimately show ?thesis by simp
qed

end

lemma ghost_new_inv: "sg_inv 0 sq_new (\<lambda>_. Resting) [] (\<lambda>_. Quiet) ghost_new"
  by (simp add: sg_inv_def ghost_new_def ghost_ok_def links_ok_def tail_ok_def head_ok_def heap_ok_def unique_def claimed_def
      sq_new_def wr_def rd_def blk_inv_init small_bits_init, simp add: blk_init_def)

lemma sq_new_good: "sg_good 0 sq_new (\<lambda>_. Resting) [] (\<lambda>_. Quiet)"
  by (rule sg_goodI [OF ghost_new_inv])

interpretation resting_new: resting 0 sq_new "\<lambda>_. Resting" "[]" "\<lambda>_. Quiet" ghost_new
  by unfold_locales (simp_all add: ghost_new_inv)

section \<open>Properties\<close>

text \<open>
  C2: \<^verbatim>\<open>push\<close> and \<^verbatim>\<open>pop\<close> of \<^verbatim>\<open>SegQueue\<close> are linearizable with respect to an unbounded first-in-first-out
  queue, for any number of threads, any interleaving of their accesses and any spurious failure of a compare-exchange, in runs
  of less than \<open>2 ^ 60\<close> events. No access is undefined: no thread touches a block that has been freed, reads a slot that is empty,
  or misses its block when it needs it. When no call is under way, every block in front of the head has been freed and
  nothing else, and the queue satisfies the invariant that the operations on an exclusive reference, the destructor and the
  iterator rely on, with the elements that the linearization says.
\<close>

theorem sq_linearizable:
  assumes "length es + m < 2 ^ 60"
  shows "\<exists>x st. ao_run sq_spec ([], \<lambda>_. Quiet)
      (impl_trace (threads_step sq_start sq_tick) threads_label es (sq_new, \<lambda>_. Resting)) (x, st) \<and>
    (case impl_run (threads_step sq_start sq_tick) es (sq_new, \<lambda>_. Resting) of (q, ts) \<Rightarrow>
       (\<forall>i. ts i \<noteq> Running SUndefined) \<and> ((\<forall>i. ts i = Resting) \<longrightarrow> sq_wf m q \<and> sq_contents q = x))"
proof -
  let ?s = "(sq_new, \<lambda>_. Resting)"
  obtain q ts where r: "impl_run (threads_step sq_start sq_tick) es ?s = (q, ts)" by fastforce
  have "0 + length es \<le> 2 ^ 60" using assms by simp
  from sqs.roles.good_run [OF sq_new_good this all_permitted] obtain x st where
    run: "ao_run sq_spec ([], \<lambda>_. Quiet) (impl_trace (threads_step sq_start sq_tick) threads_label es ?s) (x, st)"
    and "sg_good (length es) q ts x st" by (auto simp: r)
  then obtain g where inv: "sg_inv (length es) q ts x st g" by (auto simp: sg_good_def)
  have "ts i \<noteq> Running SUndefined" for i using sg_invD(9) [OF inv, of i] by auto
  moreover have "sq_wf m q \<and> sq_contents q = x" if "\<forall>i. ts i = Resting"
    using resting.well_formed [OF resting.intro [OF inv]] that assms by simp
  ultimately show ?thesis using run r by auto
qed

text \<open>Thread 1 has claimed the slot before thread 0 has written it, and waits.\<close>

definition overtaken :: "(nat queue_op, bool) thread_event list" where
  "overtaken = [CallOp 0 (Push 7), CallOp 1 Pop] @ replicate 5 (TickOp 0 False) @ replicate 5 (TickOp 1 False) @
     replicate 2 (TickOp 0 False) @ replicate 3 (TickOp 1 False) @ [ReturnOp 0, ReturnOp 1]"

lemma overtaken_trace:
  "impl_trace (threads_step sq_start sq_tick) threads_label overtaken (sq_new, \<lambda>_. Resting) =
     [Invoke 0 (Push 7), Invoke 1 Pop, Return 0 Pushed, Return 1 (Popped 7)]"
  by code_simp

theorem sq_linearizable_witness:
  "\<exists>x st. ao_run sq_spec ([], \<lambda>_. Quiet) [Invoke 0 (Push 7), Invoke 1 Pop, Return 0 Pushed, Return 1 (Popped (7 :: nat))] (x, st)"
proof -
  have "length overtaken + 0 < 2 ^ 60" by (simp add: overtaken_def)
  from sq_linearizable [OF this] show ?thesis unfolding overtaken_trace by blast
qed

end
