(* ===== verification/Epoch.thy ===== *)
theory Epoch
  imports Prelude
begin

text \<open>
  \<^verbatim>\<open>crossbeam-epoch/src/epoch.rs\<close>: epochs. The least significant bit says whether the
  owner is pinned, the other 63 bits count advancements and may wrap around. \<open>num\<close> is that
  count.
\<close>

datatype epoch = Epoch (epoch_data: u64)

definition starting :: epoch where
  "starting = Epoch 0"

definition epoch_wrapping_sub :: "epoch \<Rightarrow> epoch \<Rightarrow> int" where
  "epoch_wrapping_sub self rhs = sint (signed_drop_bit 1 (epoch_data self - (epoch_data rhs AND NOT 1)))"

definition is_pinned :: "epoch \<Rightarrow> bool" where
  "is_pinned self \<longleftrightarrow> epoch_data self AND 1 = 1"

definition pinned :: "epoch \<Rightarrow> epoch" where
  "pinned self = Epoch (epoch_data self OR 1)"

definition unpinned :: "epoch \<Rightarrow> epoch" where
  "unpinned self = Epoch (epoch_data self AND NOT 1)"

definition successor :: "epoch \<Rightarrow> epoch" where
  "successor self = Epoch (epoch_data self + 2)"

section \<open>Counting\<close>

definition num :: "epoch \<Rightarrow> nat" where
  "num e = unat (epoch_data e) div 2"

lemma even_unat: "even (unat w) \<longleftrightarrow> even w" for w :: u64
proof -
  have "unat w mod 2 = unat (w mod 2)" by (simp add: unat_mod)
  then show ?thesis by (simp add: even_iff_mod_2_eq_zero unsigned_eq_0_iff)
qed

lemma is_pinned_odd: "is_pinned e \<longleftrightarrow> odd (unat (epoch_data e))"
proof -
  have "epoch_data e AND 1 = of_bool (odd (unat (epoch_data e)))"
    by (simp add: and_one_eq mod_2_eq_odd even_unat)
  then show ?thesis by (simp add: is_pinned_def)
qed

lemma num_bound: "num e < 2 ^ 63"
proof -
  have "unat (epoch_data e) < 2 ^ 64" using unsigned_less [of "epoch_data e"] by simp
  then show ?thesis by (simp add: num_def)
qed

lemma unat_data: "unat (epoch_data e) = 2 * num e + of_bool (is_pinned e)"
  by (simp add: num_def is_pinned_odd)

lemma epoch_eq_iff: "a = b \<longleftrightarrow> num a = num b \<and> is_pinned a = is_pinned b"
proof
  assume h: "num a = num b \<and> is_pinned a = is_pinned b"
  then have "unat (epoch_data a) = unat (epoch_data b)" by (simp add: unat_data)
  then have "epoch_data a = epoch_data b" by (simp add: word_unat_eq_iff)
  then show "a = b" by (rule epoch.expand)
qed simp

lemma unat_clear_lsb: "unat (w AND NOT 1) = unat w - unat w mod 2" for w :: u64
proof -
  have "w AND NOT 1 = w - take_bit 1 w" using and_not_exp_minus_1 [of w 1] by simp
  moreover have "take_bit 1 w = w mod 2" by (simp add: take_bit_Suc mod_2_eq_odd)
  moreover have "w mod 2 \<le> w" by (simp add: word_le_nat_alt unat_mod)
  ultimately show ?thesis by (simp add: unat_sub unat_mod)
qed

lemma epoch_simps [simp]:
  "num starting = 0" "\<not> is_pinned starting"
  "num (pinned e) = num e" "is_pinned (pinned e)"
  "num (unpinned e) = num e" "\<not> is_pinned (unpinned e)"
proof -
  show "num starting = 0" "\<not> is_pinned starting" by (simp_all add: starting_def num_def is_pinned_odd)
  have "unat (epoch_data (unpinned e)) = 2 * num e"
    unfolding unpinned_def epoch.sel unat_clear_lsb by (simp add: unat_data)
  then show "num (unpinned e) = num e" "\<not> is_pinned (unpinned e)" by (simp_all add: num_def is_pinned_odd)
  have "unat (epoch_data (pinned e)) = 2 * num e + 1"
  proof (cases "is_pinned e")
    case True
    then have "odd (epoch_data e)" by (simp add: is_pinned_odd even_unat)
    then show ?thesis using True by (simp add: pinned_def or_one_eq unat_data)
  next
    case False
    then have ev: "even (epoch_data e)" by (simp add: is_pinned_odd even_unat)
    have "2 * num e + 1 < 2 ^ 64" using num_bound [of e] by simp
    then have "unat (epoch_data e + 1) = 2 * num e + 1" using False
      by (simp add: unat_word_ariths unat_data)
    then show ?thesis using ev by (simp add: pinned_def or_one_eq)
  qed
  then show "num (pinned e) = num e" "is_pinned (pinned e)" by (simp_all add: num_def is_pinned_odd)
qed

lemma successor_simps:
  "is_pinned (successor e) = is_pinned e" "num (successor e) = (num e + 1) mod 2 ^ 63"
proof -
  have "unat (epoch_data e + 2) = (2 * num e + of_bool (is_pinned e) + 2) mod 2 ^ 64"
    by (simp add: unat_word_ariths unat_data)
  moreover have "(2 * (num e + 1) + of_bool (is_pinned e)) mod (2 * 2 ^ 63) = 2 * ((num e + 1) mod 2 ^ 63) + of_bool (is_pinned e)"
    unfolding mod_mult2_eq by (cases "is_pinned e") simp_all
  ultimately have u: "unat (epoch_data (successor e)) = 2 * ((num e + 1) mod 2 ^ 63) + of_bool (is_pinned e)"
    by (simp add: successor_def)
  show "is_pinned (successor e) = is_pinned e" by (simp add: is_pinned_odd [of "successor e"] u)
  show "num (successor e) = (num e + 1) mod 2 ^ 63" by (simp add: num_def [of "successor e"] u)
qed

text \<open>
  \<^verbatim>\<open>wrapping_sub\<close> is the difference of the counts as a 63-bit signed integer, whatever
  the pin bits are.
\<close>

lemma signed_take_bit_half:
  "drop_bit 1 (signed_take_bit 63 (2 * k + of_bool b)) = signed_take_bit 62 (k :: int)"
proof -
  have "signed_take_bit 63 (2 * k + of_bool b) =
      (2 * k + of_bool b) mod 2 + 2 * signed_take_bit 62 ((2 * k + of_bool b) div 2)"
    using signed_take_bit_Suc [of 62 "2 * k + of_bool b"] by simp
  moreover have "(2 * k + of_bool b) mod 2 = of_bool b" "(2 * k + of_bool b) div 2 = k"
    by (cases b, simp_all)
  ultimately have "signed_take_bit 63 (2 * k + of_bool b) = of_bool b + 2 * signed_take_bit 62 k" by simp
  then show ?thesis by (cases b) (simp_all add: drop_bit_Suc)
qed

lemma epoch_wrapping_sub_num:
  "epoch_wrapping_sub a b = signed_take_bit 62 (int (num a) - int (num b))"
proof -
  let ?d = "2 * (int (num a) - int (num b)) + of_bool (is_pinned a)"
  have data: "epoch_data e = word_of_nat (2 * num e + of_bool (is_pinned e))" for e
    unfolding unat_data [symmetric] by simp
  have "epoch_data b AND NOT 1 = word_of_nat (2 * num b)"
  proof -
    have "epoch_data (unpinned b) = word_of_nat (2 * num b)" using data [of "unpinned b"] by simp
    then show ?thesis by (simp only: unpinned_def epoch.sel)
  qed
  moreover have "epoch_data a = word_of_nat (2 * num a + of_bool (is_pinned a))" by (rule data)
  ultimately have "epoch_data a - (epoch_data b AND NOT 1) = word_of_int ?d"
    by (simp add: of_int_of_bool)
  then have "epoch_wrapping_sub a b = drop_bit 1 (signed_take_bit 63 ?d)"
    unfolding epoch_wrapping_sub_def sint_signed_drop_bit_eq by (simp only: signed_of_int) simp
  also have "\<dots> = signed_take_bit 62 (int (num a) - int (num b))" by (rule signed_take_bit_half)
  finally show ?thesis .
qed

text \<open>Close epochs: no wrap-around is involved.\<close>

lemma epoch_wrapping_sub_close:
  assumes "num a < 2 ^ 62" "num b < 2 ^ 62"
  shows "epoch_wrapping_sub a b = int (num a) - int (num b)"
proof -
  have "int (num a) < 2 ^ 62" "int (num b) < 2 ^ 62"
    using assms by (simp_all add: nat_less_iff [symmetric])
  then have "- (2 ^ 62) \<le> int (num a) - int (num b)" "int (num a) - int (num b) < 2 ^ 62"
    by linarith+
  then show ?thesis unfolding epoch_wrapping_sub_num by (rule signed_take_bit_int_eq_self)
qed

lemma num_successor: "num e + 1 < 2 ^ 63 \<Longrightarrow> num (successor e) = num e + 1"
  by (simp add: successor_simps)

text \<open>
  C17: epoch arithmetic. \<^verbatim>\<open>pinned\<close> and \<^verbatim>\<open>unpinned\<close> set and clear the pin bit
  and keep the epoch; \<^verbatim>\<open>successor\<close> keeps the pin bit and advances the epoch by one,
  modulo \<open>2 ^ 63\<close>; \<^verbatim>\<open>wrapping_sub\<close> after at most \<open>2 ^ 62 - 1\<close>
  advancements, across any wrap-around and whatever the pin bits, is the number of advancements.
\<close>

theorem epoch_advance_sub:
  assumes "n < 2 ^ 62"
  shows "epoch_wrapping_sub ((successor ^^ n) e) (if b then pinned e else unpinned e) = int n \<and>
    is_pinned ((successor ^^ n) e) = is_pinned e \<and> unpinned (pinned e) = unpinned e \<and> is_pinned (pinned e)"
proof -
  have adv: "is_pinned ((successor ^^ n) e) = is_pinned e" "num ((successor ^^ n) e) = (num e + n) mod 2 ^ 63"
    by (induction n) (use num_bound [of e] in \<open>simp_all add: successor_simps mod_Suc_eq\<close>)
  have "signed_take_bit 62 (int ((num e + n) mod 2 ^ 63) - int (num e)) = signed_take_bit 62 (int n)"
  proof (rule signed_take_bit_eq_iff_take_bit_eq [THEN iffD2])
    have "take_bit 63 (int ((num e + n) mod 2 ^ 63) - int (num e)) =
        (int (num e + n) - int (num e)) mod 2 ^ 63"
      by (simp add: take_bit_eq_mod zmod_int mod_diff_left_eq)
    then show "take_bit (Suc 62) (int ((num e + n) mod 2 ^ 63) - int (num e)) = take_bit (Suc 62) (int n)"
      by (simp add: take_bit_eq_mod)
  qed
  also have "\<dots> = int n"
  proof (rule signed_take_bit_int_eq_self)
    have "int n < int (2 ^ 62)" using assms by (simp only: of_nat_less_iff)
    then show "int n < 2 ^ 62" by simp
  qed simp
  finally have "epoch_wrapping_sub ((successor ^^ n) e) (if b then pinned e else unpinned e) = int n"
    by (simp add: epoch_wrapping_sub_num adv)
  then show ?thesis by (simp add: adv epoch_eq_iff)
qed

theorem epoch_advance_sub_witness:
  "epoch_wrapping_sub ((successor ^^ 2) (Epoch 18446744073709551614)) (pinned (Epoch 18446744073709551614)) = 2"
  using epoch_advance_sub [of 2 "Epoch 18446744073709551614" True] by simp

end
