(* ===== verification/Epoch_Internal.thy ===== *)
theory Epoch_Internal
  imports Epoch Atomic_Object
begin

text \<open>
  \<^verbatim>\<open>crossbeam-epoch/src/internal.rs\<close>: bags of deferred functions, the global data,
  participants, and their operations: \<^verbatim>\<open>pin\<close>, \<^verbatim>\<open>unpin\<close>,
  \<^verbatim>\<open>repin\<close>, \<^verbatim>\<open>defer\<close>, \<^verbatim>\<open>flush\<close>,
  \<^verbatim>\<open>collect\<close>, \<^verbatim>\<open>try_advance\<close>, handles and
  \<^verbatim>\<open>finalize\<close>. Participants run concurrently; a tick of a participant is one access to
  shared memory: the global epoch, its own or another participant's local epoch, one operation on the
  queue of bags, or one on the list of participants (the queue and the list are components of their
  own, used here through what their operations promise). Calling a deferred function is recorded in
  a log. The path of \<^verbatim>\<open>pin\<close> taken is the one compiled for x86.
\<close>

section \<open>Bags\<close>

definition MAX_OBJECTS :: nat where "MAX_OBJECTS = 64"

type_synonym 'd bag = "'d list"

definition bag_is_empty :: "'d bag \<Rightarrow> bool" where
  "bag_is_empty b \<longleftrightarrow> length b = 0"

definition bag_try_push :: "'d \<Rightarrow> 'd bag \<Rightarrow> (unit, 'd) result \<times> 'd bag" where
  "bag_try_push d b = (if length b < MAX_OBJECTS then (Ok (), b @ [d]) else (Err d, b))"

record 'd sealed_bag =
  sealed_epoch :: epoch
  sealed_contents :: "'d bag"

definition is_expired :: "epoch \<Rightarrow> 'd sealed_bag \<Rightarrow> bool" where
  "is_expired global_epoch b \<longleftrightarrow> epoch_wrapping_sub global_epoch (sealed_epoch b) \<ge> 2"

section \<open>Global and local data\<close>

record 'd local =
  l_bag :: "'d bag"
  guard_count :: usize
  handle_count :: usize
  pin_count :: usize
  l_epoch :: epoch

text \<open>
  What a participant is about to do. \<open>after\<close> says what follows a pinning and its
  collection: return to the caller, or go on with \<^verbatim>\<open>finalize\<close>; \<open>resume\<close> says
  who called \<^verbatim>\<open>push_bag\<close>.
\<close>

datatype after = Return | Finalize

datatype 'd resume = ResumeDefer 'd | ResumeFlush | ResumeFinalize

datatype 'd epc =
    Absent
  | Gone
  | Ready
  | PinLoad after
  | PinStore epoch after
  | AdvLoad after
  | AdvIter epoch "nat list" after
  | AdvStore epoch after
  | Collect nat epoch after
  | PushLoad "'d bag" "'d resume"
  | PushQueue epoch "'d bag" "'d resume"
  | UnpinStore bool
  | RepinLoad
  | RepinStore epoch
  | Delete
  | Panicked

record 'd ebr =
  g_locals :: "nat list"
  g_queue :: "'d sealed_bag list"
  g_epoch :: epoch
  loc :: "nat \<Rightarrow> 'd local"
  epc :: "nat \<Rightarrow> 'd epc"
  called :: "'d list"

definition COLLECT_STEPS :: nat where "COLLECT_STEPS = 8"
definition PINNINGS_BETWEEN_COLLECT :: usize where "PINNINGS_BETWEEN_COLLECT = 128"

definition local_new :: "'d local" where
  "local_new = \<lparr>l_bag = [], guard_count = 0, handle_count = 1, pin_count = 0, l_epoch = starting\<rparr>"

definition global_new :: "'d ebr" where
  "global_new = \<lparr>g_locals = [], g_queue = [], g_epoch = starting, loc = (\<lambda>_. local_new),
     epc = (\<lambda>_. Absent), called = []\<rparr>"

definition goto :: "nat \<Rightarrow> 'd epc \<Rightarrow> 'd ebr \<Rightarrow> 'd ebr" where
  "goto p c s = s\<lparr>epc := (epc s)(p := c)\<rparr>"

definition upd :: "nat \<Rightarrow> ('d local \<Rightarrow> 'd local) \<Rightarrow> 'd ebr \<Rightarrow> 'd ebr" where
  "upd p f s = s\<lparr>loc := (loc s)(p := f (loc s p))\<rparr>"

section \<open>Operations of a participant\<close>

text \<open>\<^verbatim>\<open>Local::register\<close>: a new participant, inserted into the list.\<close>

definition register :: "nat \<Rightarrow> 'd ebr \<Rightarrow> 'd ebr" where
  "register p s = (if epc s p = Absent
     then goto p Ready (upd p (\<lambda>_. local_new) (s\<lparr>g_locals := p # g_locals s\<rparr>)) else s)"

text \<open>\<^verbatim>\<open>push_bag\<close> replaces the bag by an empty one, then loads the epoch, then pushes.\<close>

definition push_bag :: "nat \<Rightarrow> 'd resume \<Rightarrow> 'd ebr \<Rightarrow> 'd ebr" where
  "push_bag p r s = goto p (PushLoad (l_bag (loc s p)) r) (upd p (\<lambda>l. l\<lparr>l_bag := []\<rparr>) s)"

definition local_defer :: "nat \<Rightarrow> 'd \<Rightarrow> 'd ebr \<Rightarrow> 'd ebr" where
  "local_defer p d s =
     (case bag_try_push d (l_bag (loc s p)) of
        (Ok _, b) \<Rightarrow> goto p Ready (upd p (\<lambda>l. l\<lparr>l_bag := b\<rparr>) s)
      | (Err d, b) \<Rightarrow> push_bag p (ResumeDefer d) s)"

definition local_flush :: "nat \<Rightarrow> 'd ebr \<Rightarrow> 'd ebr" where
  "local_flush p s =
     (if \<not> bag_is_empty (l_bag (loc s p)) then push_bag p ResumeFlush s else goto p (AdvLoad Return) s)"

text \<open>\<^verbatim>\<open>pin\<close> up to its first shared access.\<close>

definition local_pin :: "nat \<Rightarrow> after \<Rightarrow> 'd ebr \<Rightarrow> 'd ebr" where
  "local_pin p k s =
     (case checked_add (guard_count (loc s p)) 1 of
        None \<Rightarrow> goto p Panicked s
      | Some n \<Rightarrow>
          (let s' = upd p (\<lambda>l. l\<lparr>guard_count := n\<rparr>) s in
           if guard_count (loc s p) = 0 then goto p (PinLoad k) s' else goto p Ready s'))"

definition finalize :: "nat \<Rightarrow> 'd ebr \<Rightarrow> 'd ebr" where
  "finalize p s = local_pin p Finalize (upd p (\<lambda>l. l\<lparr>handle_count := 1\<rparr>) s)"

definition local_unpin :: "nat \<Rightarrow> bool \<Rightarrow> 'd ebr \<Rightarrow> 'd ebr" where
  "local_unpin p fin s =
     (let n = guard_count (loc s p); s' = upd p (\<lambda>l. l\<lparr>guard_count := n - 1\<rparr>) s in
      if n = 1 then goto p (UnpinStore fin) s' else goto p Ready s')"

definition local_repin :: "nat \<Rightarrow> 'd ebr \<Rightarrow> 'd ebr" where
  "local_repin p s = (if guard_count (loc s p) = 1 then goto p RepinLoad s else s)"

definition acquire_handle :: "nat \<Rightarrow> 'd ebr \<Rightarrow> 'd ebr" where
  "acquire_handle p s = upd p (\<lambda>l. l\<lparr>handle_count := handle_count l + 1\<rparr>) s"

definition release_handle :: "nat \<Rightarrow> 'd ebr \<Rightarrow> 'd ebr" where
  "release_handle p s =
     (let g = guard_count (loc s p); h = handle_count (loc s p);
          s' = upd p (\<lambda>l. l\<lparr>handle_count := h - 1\<rparr>) s
      in if g = 0 \<and> h = 1 then finalize p s' else s')"

text \<open>What follows \<^verbatim>\<open>pin\<close> or \<^verbatim>\<open>collect\<close>.\<close>

definition proceed :: "nat \<Rightarrow> after \<Rightarrow> 'd ebr \<Rightarrow> 'd ebr" where
  "proceed p k s = (case k of Return \<Rightarrow> goto p Ready s | Finalize \<Rightarrow> push_bag p ResumeFinalize s)"

section \<open>Shared accesses\<close>

text \<open>
  What the environment decides in a tick: which participant the iteration of
  \<^verbatim>\<open>try_advance\<close> visits next, or that the iteration is stalled.
\<close>

datatype choice = Visit nat | Stalled | Go

text \<open>
  The list promises that an iteration visits every participant that is in the list all along, or
  stalls; it may visit others that have been inserted since it began. \<open>todo\<close> are the
  participants that were in the list when the iteration began and have not been visited.
\<close>

definition pin_load :: "nat \<Rightarrow> after \<Rightarrow> 'd ebr \<Rightarrow> 'd ebr" where
  "pin_load p k s = goto p (PinStore (g_epoch s) k) s"

definition pin_store :: "nat \<Rightarrow> epoch \<Rightarrow> after \<Rightarrow> 'd ebr \<Rightarrow> 'd ebr" where
  "pin_store p global_epoch k s =
     (let new_epoch = pinned global_epoch;
          s1 = (if l_epoch (loc s p) = starting then upd p (\<lambda>l. l\<lparr>l_epoch := new_epoch\<rparr>) s else s);
          count = pin_count (loc s p);
          s2 = upd p (\<lambda>l. l\<lparr>pin_count := count + 1\<rparr>) s1
      in if count mod PINNINGS_BETWEEN_COLLECT = 0 then goto p (AdvLoad k) s2 else proceed p k s2)"

definition adv_load :: "nat \<Rightarrow> after \<Rightarrow> 'd ebr \<Rightarrow> 'd ebr" where
  "adv_load p k s = goto p (AdvIter (g_epoch s) (g_locals s) k) s"

definition adv_iter :: "nat \<Rightarrow> choice \<Rightarrow> epoch \<Rightarrow> nat list \<Rightarrow> after \<Rightarrow> 'd ebr \<Rightarrow> 'd ebr" where
  "adv_iter p ch global_epoch todo k s =
     (case ch of
        Stalled \<Rightarrow> goto p (Collect COLLECT_STEPS global_epoch k) s
      | Visit r \<Rightarrow>
          (let local_epoch = l_epoch (loc s r) in
           if is_pinned local_epoch \<and> unpinned local_epoch \<noteq> global_epoch
           then goto p (Collect COLLECT_STEPS global_epoch k) s
           else goto p (AdvIter global_epoch (removeAll r todo) k) s)
      | Go \<Rightarrow>
          if filter (\<lambda>r. r \<in> set (g_locals s)) todo = [] then goto p (AdvStore global_epoch k) s else s)"

definition adv_store :: "nat \<Rightarrow> epoch \<Rightarrow> after \<Rightarrow> 'd ebr \<Rightarrow> 'd ebr" where
  "adv_store p global_epoch k s =
     (let new_epoch = successor global_epoch in
      goto p (Collect COLLECT_STEPS new_epoch k) (s\<lparr>g_epoch := new_epoch\<rparr>))"

text \<open>One round of the loop of \<^verbatim>\<open>collect\<close>: pop the first bag if it has expired, and drop it.\<close>

definition collect_step :: "nat \<Rightarrow> nat \<Rightarrow> epoch \<Rightarrow> after \<Rightarrow> 'd ebr \<Rightarrow> 'd ebr" where
  "collect_step p n global_epoch k s =
     (if n = 0 then proceed p k s
      else
        case g_queue s of
          [] \<Rightarrow> proceed p k s
        | b # bs \<Rightarrow>
            if is_expired global_epoch b
            then goto p (Collect (n - 1) global_epoch k)
                   (s\<lparr>g_queue := bs, called := called s @ sealed_contents b\<rparr>)
            else proceed p k s)"

definition push_queue :: "nat \<Rightarrow> epoch \<Rightarrow> 'd bag \<Rightarrow> 'd resume \<Rightarrow> 'd ebr \<Rightarrow> 'd ebr" where
  "push_queue p e b r s =
     (let s' = s\<lparr>g_queue := g_queue s @ [\<lparr>sealed_epoch = e, sealed_contents = b\<rparr>]\<rparr> in
      case r of
        ResumeDefer d \<Rightarrow> local_defer p d s'
      | ResumeFlush \<Rightarrow> goto p (AdvLoad Return) s'
      | ResumeFinalize \<Rightarrow> local_unpin p True s')"

definition unpin_store :: "nat \<Rightarrow> bool \<Rightarrow> 'd ebr \<Rightarrow> 'd ebr" where
  "unpin_store p fin s =
     (let s' = upd p (\<lambda>l. l\<lparr>l_epoch := starting\<rparr>) s in
      if fin then goto p Delete (upd p (\<lambda>l. l\<lparr>handle_count := 0\<rparr>) s')
      else if handle_count (loc s p) = 0 then finalize p s'
      else goto p Ready s')"

definition repin_load :: "nat \<Rightarrow> 'd ebr \<Rightarrow> 'd ebr" where
  "repin_load p s =
     (let epoch = l_epoch (loc s p); global_epoch = pinned (g_epoch s) in
      if epoch \<noteq> global_epoch then goto p (RepinStore global_epoch) s else goto p Ready s)"

definition repin_store :: "nat \<Rightarrow> epoch \<Rightarrow> 'd ebr \<Rightarrow> 'd ebr" where
  "repin_store p e s = goto p Ready (upd p (\<lambda>l. l\<lparr>l_epoch := e\<rparr>) s)"

definition list_delete :: "nat \<Rightarrow> 'd ebr \<Rightarrow> 'd ebr" where
  "list_delete p s = goto p Gone (s\<lparr>g_locals := removeAll p (g_locals s)\<rparr>)"

fun ebr_tick :: "nat \<Rightarrow> choice \<Rightarrow> 'd epc \<Rightarrow> 'd ebr \<Rightarrow> 'd ebr" where
  "ebr_tick p ch (PinLoad k) s = pin_load p k s"
| "ebr_tick p ch (PinStore e k) s = pin_store p e k s"
| "ebr_tick p ch (AdvLoad k) s = adv_load p k s"
| "ebr_tick p ch (AdvIter e todo k) s = adv_iter p ch e todo k s"
| "ebr_tick p ch (AdvStore e k) s = adv_store p e k s"
| "ebr_tick p ch (Collect n e k) s = collect_step p n e k s"
| "ebr_tick p ch (PushLoad b r) s = goto p (PushQueue (g_epoch s) b r) s"
| "ebr_tick p ch (PushQueue e b r) s = push_queue p e b r s"
| "ebr_tick p ch (UnpinStore fin) s = unpin_store p fin s"
| "ebr_tick p ch RepinLoad s = repin_load p s"
| "ebr_tick p ch (RepinStore e) s = repin_store p e s"
| "ebr_tick p ch Delete s = list_delete p s"
| "ebr_tick p ch _ s = s"

text \<open>
  The calls a user can make. A guard is needed for all but \<^verbatim>\<open>pin\<close> and the handle
  operations, and a handle for these.
\<close>

datatype 'd ebr_op = Pin | Unpin | Repin | Defer 'd | Flush | AcquireHandle | ReleaseHandle

definition ebr_call :: "nat \<Rightarrow> 'd ebr_op \<Rightarrow> 'd ebr \<Rightarrow> 'd ebr" where
  "ebr_call p oper s =
     (let guarded = guard_count (loc s p) \<noteq> 0; handled = handle_count (loc s p) \<noteq> 0 in
      if epc s p \<noteq> Ready then s
      else
        case oper of
          Pin \<Rightarrow> if handled then local_pin p Return s else s
        | Unpin \<Rightarrow> if guarded then local_unpin p False s else s
        | Repin \<Rightarrow> if guarded then local_repin p s else s
        | Defer d \<Rightarrow> if guarded then local_defer p d s else s
        | Flush \<Rightarrow> if guarded then local_flush p s else s
        | AcquireHandle \<Rightarrow> if handled then acquire_handle p s else s
        | ReleaseHandle \<Rightarrow> if handled then release_handle p s else s)"

datatype 'd ebr_event = Register nat | Call nat "'d ebr_op" | Tick nat choice

fun ebr_step :: "'d ebr_event \<Rightarrow> 'd ebr \<Rightarrow> 'd ebr" where
  "ebr_step (Register p) s = register p s"
| "ebr_step (Call p oper) s = ebr_call p oper s"
| "ebr_step (Tick p ch) s = ebr_tick p ch (epc s p) s"

end
