(* ===== verification/Epoch_Reclaim.thy ===== *)
theory Epoch_Reclaim
  imports Epoch_Internal
begin

text \<open>
  Safety of epoch-based reclamation: the invariant of the participants of theory
  \<open>Epoch_Internal\<close>, that every step keeps it, and what follows for the deferred functions.
\<close>

section \<open>The invariant\<close>

lemma goto_simps [simp]:
  "epc (goto p c s) = (epc s)(p := c)" "loc (goto p c s) = loc s" "g_locals (goto p c s) = g_locals s"
  "g_queue (goto p c s) = g_queue s" "g_epoch (goto p c s) = g_epoch s" "called (goto p c s) = called s"
  by (simp_all add: goto_def)

lemma upd_simps [simp]:
  "loc (upd p f s) = (loc s)(p := f (loc s p))" "epc (upd p f s) = epc s" "g_locals (upd p f s) = g_locals s"
  "g_queue (upd p f s) = g_queue s" "g_epoch (upd p f s) = g_epoch s" "called (upd p f s) = called s"
  by (simp_all add: upd_def)

abbreviation pn :: "'d ebr \<Rightarrow> nat \<Rightarrow> bool" where
  "pn s p \<equiv> is_pinned (l_epoch (loc s p))"

abbreviation gc :: "'d ebr \<Rightarrow> nat \<Rightarrow> usize" where
  "gc s p \<equiv> guard_count (loc s p)"

abbreviation ge :: "'d ebr \<Rightarrow> nat" where
  "ge s \<equiv> num (g_epoch s)"

text \<open>
  \<open>P p\<close> is the global epoch at the moment participant \<open>p\<close> made itself visible as pinned
  (the epoch it stored then may be older: it was loaded before). What a participant knows at each
  program point; an iteration in \<^verbatim>\<open>try_advance\<close> that has loaded epoch \<open>x\<close> has
  left to visit every participant that became pinned before the global epoch was \<open>x\<close>.
\<close>

fun pc_inv :: "(nat \<Rightarrow> nat) \<Rightarrow> 'd ebr \<Rightarrow> nat \<Rightarrow> 'd epc \<Rightarrow> bool" where
  "pc_inv P s p Ready \<longleftrightarrow> (pn s p \<longleftrightarrow> gc s p \<noteq> 0)"
| "pc_inv P s p (PinLoad k) \<longleftrightarrow> \<not> pn s p \<and> gc s p \<noteq> 0"
| "pc_inv P s p (PinStore e k) \<longleftrightarrow> \<not> pn s p \<and> gc s p \<noteq> 0 \<and> \<not> is_pinned e \<and> num e \<le> ge s"
| "pc_inv P s p (AdvLoad k) \<longleftrightarrow> pn s p \<and> gc s p \<noteq> 0"
| "pc_inv P s p (AdvIter x todo k) \<longleftrightarrow> pn s p \<and> gc s p \<noteq> 0 \<and> \<not> is_pinned x \<and> P p \<le> num x \<and> num x \<le> ge s \<and>
     (\<forall>r. pn s r \<longrightarrow> r \<in> set todo \<or> num x \<le> P r)"
| "pc_inv P s p (AdvStore x k) \<longleftrightarrow> pn s p \<and> gc s p \<noteq> 0 \<and> \<not> is_pinned x \<and> P p \<le> num x \<and> num x \<le> ge s \<and>
     (\<forall>r. pn s r \<longrightarrow> num x \<le> P r)"
| "pc_inv P s p (Collect n x k) \<longleftrightarrow> pn s p \<and> gc s p \<noteq> 0 \<and> num x \<le> ge s"
| "pc_inv P s p (PushLoad b r) \<longleftrightarrow> pn s p \<and> gc s p \<noteq> 0"
| "pc_inv P s p (PushQueue e b r) \<longleftrightarrow> pn s p \<and> gc s p \<noteq> 0 \<and> num e \<le> ge s"
| "pc_inv P s p (UnpinStore fin) \<longleftrightarrow> pn s p \<and> gc s p = 0"
| "pc_inv P s p RepinLoad \<longleftrightarrow> pn s p \<and> gc s p \<noteq> 0"
| "pc_inv P s p (RepinStore e) \<longleftrightarrow> pn s p \<and> gc s p \<noteq> 0 \<and> is_pinned e \<and> num e \<le> ge s"
| "pc_inv P s p Panicked \<longleftrightarrow> True"
| "pc_inv P s p _ \<longleftrightarrow> \<not> pn s p"

definition ebr_inv :: "(nat \<Rightarrow> nat) \<Rightarrow> 'd ebr \<Rightarrow> bool" where
  "ebr_inv P s \<longleftrightarrow>
     \<not> is_pinned (g_epoch s) \<and>
     (\<forall>p. p \<in> set (g_locals s) \<longleftrightarrow> epc s p \<noteq> Absent \<and> epc s p \<noteq> Gone) \<and>
     (\<forall>p. \<not> pn s p \<longrightarrow> l_epoch (loc s p) = starting) \<and>
     (\<forall>p. pn s p \<longrightarrow> num (l_epoch (loc s p)) \<le> P p \<and> P p \<le> ge s \<and> ge s \<le> P p + 1) \<and>
     (\<forall>p. pc_inv P s p (epc s p))"

lemma ebr_invD:
  assumes "ebr_inv P s"
  shows "\<not> is_pinned (g_epoch s)" "p \<in> set (g_locals s) \<longleftrightarrow> epc s p \<noteq> Absent \<and> epc s p \<noteq> Gone"
    "\<not> pn s p \<Longrightarrow> l_epoch (loc s p) = starting"
    "pn s p \<Longrightarrow> num (l_epoch (loc s p)) \<le> P p" "pn s p \<Longrightarrow> P p \<le> ge s" "pn s p \<Longrightarrow> ge s \<le> P p + 1"
    "pc_inv P s p (epc s p)"
  using assms by (simp_all add: ebr_inv_def)

lemma pinned_registered: "ebr_inv P s \<Longrightarrow> pn s p \<Longrightarrow> p \<in> set (g_locals s)"
  using ebr_invD(2,7) [of P s p] by (cases "epc s p") auto

text \<open>What another participant knows is not disturbed.\<close>

lemma pc_inv_frame:
  assumes "pc_inv P s q c" "loc s' q = loc s q" "P' q = P q" "ge s \<le> ge s'"
    and "\<And>r. pn s' r \<Longrightarrow> (pn s r \<and> P' r = P r) \<or> ge s \<le> P' r"
  shows "pc_inv P' s' q c"
  using assms
proof (cases c)
  case (AdvIter x todo k)
  have "r \<in> set todo \<or> num x \<le> P' r" if "pn s' r" for r
    using assms(1) assms(5) [OF that] unfolding AdvIter by auto
  then show ?thesis using assms by (auto simp: AdvIter)
next
  case (AdvStore x k)
  have "num x \<le> P' r" if "pn s' r" for r
    using assms(1) assms(5) [OF that] unfolding AdvStore by auto
  then show ?thesis using assms by (auto simp: AdvStore)
qed auto

lemma ebr_inv_step:
  assumes inv: "ebr_inv P s"
    and others: "\<And>q. q \<noteq> p \<Longrightarrow> loc s' q = loc s q \<and> epc s' q = epc s q \<and> P' q = P q \<and>
      (q \<in> set (g_locals s') \<longleftrightarrow> q \<in> set (g_locals s))"
    and mem: "p \<in> set (g_locals s') \<longleftrightarrow> epc s' p \<noteq> Absent \<and> epc s' p \<noteq> Gone"
    and epoch: "\<not> is_pinned (g_epoch s')" "ge s \<le> ge s'" "\<And>r. pn s' r \<Longrightarrow> ge s' \<le> P' r + 1"
    and own: "\<not> pn s' p \<Longrightarrow> l_epoch (loc s' p) = starting"
      "pn s' p \<Longrightarrow> (pn s p \<and> P' p = P p \<and> l_epoch (loc s' p) = l_epoch (loc s p)) \<or>
         (P' p = ge s \<and> num (l_epoch (loc s' p)) \<le> ge s)"
    and pc: "pc_inv P' s' p (epc s' p)"
  shows "ebr_inv P' s'"
proof -
  note d = ebr_invD [OF inv]
  have pins: "(pn s r \<and> P' r = P r) \<or> ge s \<le> P' r" if "pn s' r" for r
    using that own(2) others [of r] by (cases "r = p") auto
  have "pc_inv P' s' q (epc s' q)" for q
  proof (cases "q = p")
    case False
    then show ?thesis
      using pc_inv_frame [OF d(7) [of q], of s' P'] others [of q] epoch(2) pins by simp
  qed (simp add: pc)
  moreover have "q \<in> set (g_locals s') \<longleftrightarrow> epc s' q \<noteq> Absent \<and> epc s' q \<noteq> Gone" for q
    using mem others [of q] d(2) [of q] by (cases "q = p") auto
  moreover have "\<not> pn s' q \<Longrightarrow> l_epoch (loc s' q) = starting" for q
    using own(1) others [of q] d(3) [of q] by (cases "q = p") auto
  moreover have "num (l_epoch (loc s' q)) \<le> P' q \<and> P' q \<le> ge s'" if "pn s' q" for q
  proof (cases "q = p")
    case True
    then show ?thesis using that own(2) d(4,5) [of p] epoch(2) by auto
  next
    case False
    then show ?thesis using that others [of q] d(4,5) [of q] epoch(2) by auto
  qed
  ultimately show ?thesis using epoch(1,3) by (simp add: ebr_inv_def)
qed

text \<open>The common case: a participant moves on and neither its epoch nor the global epoch change.\<close>

lemma ebr_inv_local:
  assumes inv: "ebr_inv P s"
    and same: "\<And>q. q \<noteq> p \<Longrightarrow> loc s' q = loc s q \<and> epc s' q = epc s q" "g_epoch s' = g_epoch s"
      "g_locals s' = g_locals s" "l_epoch (loc s' p) = l_epoch (loc s p)"
    and pc: "epc s p \<noteq> Absent" "epc s p \<noteq> Gone" "epc s' p \<noteq> Absent" "epc s' p \<noteq> Gone"
      "pc_inv P s' p (epc s' p)"
  shows "ebr_inv P s'"
proof (rule ebr_inv_step [OF inv, where p = p])
  note d = ebr_invD [OF inv]
  show "p \<in> set (g_locals s') \<longleftrightarrow> epc s' p \<noteq> Absent \<and> epc s' p \<noteq> Gone" using d(2) [of p] pc same by simp
  show "ge s' \<le> P r + 1" if "pn s' r" for r
    using that d(6) [of r] same by (cases "r = p") auto
  show "\<not> pn s' p \<Longrightarrow> l_epoch (loc s' p) = starting" using d(3) [of p] same by simp
qed (use same pc ebr_invD(1) [OF inv] in auto)

section \<open>Every step keeps the invariant\<close>

lemmas flow_defs = push_bag_def proceed_def local_defer_def local_flush_def local_pin_def local_unpin_def
  local_repin_def acquire_handle_def release_handle_def finalize_def bag_try_push_def Let_def

lemma step_register: "ebr_inv P s \<Longrightarrow> ebr_inv P (register p s)"
proof -
  assume inv: "ebr_inv P s"
  note d = ebr_invD [OF inv]
  show ?thesis
  proof (cases "epc s p = Absent")
    case True
    have "\<not> pn s p" using d(7) [of p] True by simp
    then show ?thesis
      using True d by (intro ebr_inv_step [OF inv, where p = p]) (auto simp: register_def local_new_def split: if_splits)
  qed (simp add: register_def inv)
qed

lemma minus_1_eq_0: "n - 1 = 0 \<longleftrightarrow> n = (1 :: usize)"
  by auto

lemma checked_add_1: "checked_add n 1 = Some m \<Longrightarrow> m \<noteq> 0" "checked_add n 1 = None \<Longrightarrow> n \<noteq> 0" for n :: usize
proof -
  assume "checked_add n 1 = Some m"
  then have "m = n + 1" "unat n + 1 < 2 ^ 64" by (auto simp: checked_add_def split: if_splits)
  then have "unat m = unat n + 1" by (simp add: unat_word_ariths)
  then show "m \<noteq> 0" by auto
next
  assume "checked_add n 1 = None"
  then show "n \<noteq> 0" by (auto simp: checked_add_def)
qed

lemma step_call: "ebr_inv P s \<Longrightarrow> ebr_inv P (ebr_call p oper s)"
proof -
  assume inv: "ebr_inv P s"
  show ?thesis
  proof (cases "epc s p = Ready")
    case True
    note d = ebr_invD(7) [OF inv, of p, unfolded True, simplified]
    show ?thesis
      using True d
      by (cases oper; (simp add: ebr_call_def inv)?)
        (auto intro!: ebr_inv_local [OF inv, where p = p] simp: flow_defs inv minus_1_eq_0 split: if_splits option.splits
          dest: checked_add_1)
  qed (simp add: ebr_call_def inv)
qed

lemma step_tick:
  assumes inv: "ebr_inv P s" and small: "ge s + 1 < 2 ^ 63"
  obtains P' where "ebr_inv P' (ebr_tick p ch (epc s p) s)"
    "\<And>q. q \<noteq> p \<or> (\<forall>e. epc s p \<noteq> RepinStore e) \<Longrightarrow> pn s q \<Longrightarrow> P' q = P q"
proof (cases "epc s p")
  case (PinStore e k)
  note d = ebr_invD(3,7) [OF inv, of p] PinStore
  let ?P = "P(p := ge s)"
  have "ebr_inv ?P (ebr_tick p ch (PinStore e k) s)"
    using d ebr_invD(1,6) [OF inv] ebr_invD(2) [OF inv, of p]
    by (intro ebr_inv_step [OF inv, where p = p]) (auto simp: pin_store_def flow_defs split: after.splits if_splits)
  moreover have "pn s q \<Longrightarrow> ?P q = P q" for q using d by auto
  ultimately show thesis using that [of ?P] PinStore by simp
next
  case (RepinStore e)
  let ?P = "P(p := ge s)"
  note d = ebr_invD(3,7) [OF inv, of p] RepinStore
  have "ebr_inv ?P (ebr_tick p ch (RepinStore e) s)"
    using d ebr_invD(1,6) [OF inv] ebr_invD(2) [OF inv, of p]
    by (intro ebr_inv_step [OF inv, where p = p]) (auto simp: repin_store_def)
  then show thesis using that [of ?P] RepinStore by simp
next
  case (AdvStore x k)
  note d = ebr_invD(7) [OF inv, of p, unfolded AdvStore, simplified]
  have "ge s \<le> num x + 1" using d ebr_invD(6) [OF inv, of p] by simp
  moreover have "num (successor x) = num x + 1" using d small by (intro num_successor) simp
  ultimately have "ebr_inv P (ebr_tick p ch (AdvStore x k) s)"
    using d ebr_invD(2) [OF inv, of p] AdvStore
    by (intro ebr_inv_step [OF inv, where p = p]) (auto simp: adv_store_def Let_def successor_simps(1) dest: ebr_invD(3) [OF inv])
  then show thesis using that [of P] AdvStore by simp
next
  case (AdvLoad k)
  note d = ebr_invD(7) [OF inv, of p, unfolded AdvLoad, simplified]
  have "ebr_inv P (ebr_tick p ch (AdvLoad k) s)"
    using d AdvLoad ebr_invD(1) [OF inv] ebr_invD(5) [OF inv, of p]
    by (intro ebr_inv_local [OF inv, where p = p]) (auto simp: adv_load_def dest: pinned_registered [OF inv])
  then show thesis using that [of P] AdvLoad by simp
next
  case (AdvIter x todo k)
  note d = ebr_invD(7) [OF inv, of p, unfolded AdvIter, simplified]
  have "ebr_inv P (ebr_tick p ch (AdvIter x todo k) s)"
  proof (cases ch)
    case (Visit r)
    have "num x \<le> P r" if "pn s r" "unpinned (l_epoch (loc s r)) = x"
      using ebr_invD(4) [OF inv, of r] that by auto
    then show ?thesis using d AdvIter Visit
      by (auto intro!: ebr_inv_local [OF inv, where p = p] simp: adv_iter_def Let_def)
  next
    case Go
    have "num x \<le> P r" if "\<forall>q\<in>set todo. q \<notin> set (g_locals s)" "pn s r" for r
      using d that pinned_registered [OF inv that(2)] by blast
    then show ?thesis using d AdvIter Go
      by (auto intro!: ebr_inv_local [OF inv, where p = p] simp: adv_iter_def inv filter_empty_conv)
  qed (use d AdvIter in \<open>auto intro!: ebr_inv_local [OF inv, where p = p] simp: adv_iter_def\<close>)
  then show thesis using that [of P] AdvIter by simp
next
  case (Collect n x k)
  note d = ebr_invD(7) [OF inv, of p, unfolded Collect, simplified]
  have "ebr_inv P (ebr_tick p ch (Collect n x k) s)"
    using d Collect
    by (auto intro!: ebr_inv_local [OF inv, where p = p] simp: collect_step_def flow_defs split: list.split after.split)
  then show thesis using that [of P] Collect by simp
next
  case (PushQueue e b r)
  note d = ebr_invD(7) [OF inv, of p, unfolded PushQueue, simplified]
  have "ebr_inv P (ebr_tick p ch (PushQueue e b r) s)"
    using d PushQueue
    by (auto intro!: ebr_inv_local [OF inv, where p = p] simp: push_queue_def flow_defs minus_1_eq_0 split: resume.split)
  then show thesis using that [of P] PushQueue by simp
next
  case (UnpinStore fin)
  note d = ebr_invD(7) [OF inv, of p, unfolded UnpinStore, simplified]
  have "ebr_inv P (ebr_tick p ch (UnpinStore fin) s)"
    using d UnpinStore ebr_invD(2) [OF inv, of p] ebr_invD(1,6) [OF inv]
    by (intro ebr_inv_step [OF inv, where p = p])
      (auto simp: unpin_store_def flow_defs minus_1_eq_0 split: option.splits if_splits dest: checked_add_1)
  then show thesis using that [of P] UnpinStore by simp
next
  case Delete
  note d = ebr_invD(7) [OF inv, of p, unfolded Delete, simplified]
  have "ebr_inv P (ebr_tick p ch Delete s)"
    using d Delete ebr_invD(2,3) [OF inv, of p] ebr_invD(1,6) [OF inv]
    by (intro ebr_inv_step [OF inv, where p = p]) (auto simp: list_delete_def)
  then show thesis using that [of P] Delete by simp
next
  case RepinLoad
  note d = ebr_invD(7) [OF inv, of p, unfolded RepinLoad, simplified]
  have "ebr_inv P (ebr_tick p ch RepinLoad s)"
    using d RepinLoad by (auto intro!: ebr_inv_local [OF inv, where p = p] simp: repin_load_def Let_def)
  then show thesis using that [of P] RepinLoad by simp
next
  case (PinLoad k)
  have "ebr_inv P (ebr_tick p ch (PinLoad k) s)"
    using PinLoad ebr_invD(7) [OF inv, of p] ebr_invD(1) [OF inv]
    by (auto intro!: ebr_inv_local [OF inv, where p = p] simp: pin_load_def)
  then show thesis using that [of P] PinLoad by simp
next
  case (PushLoad b r)
  have "ebr_inv P (ebr_tick p ch (PushLoad b r) s)"
    using PushLoad ebr_invD(7) [OF inv, of p] by (auto intro!: ebr_inv_local [OF inv, where p = p])
  then show thesis using that [of P] PushLoad by simp
qed (use that [of P] inv in simp_all)

section \<open>Deferred functions wait for pinned participants\<close>

lemma ebr_inv_init: "ebr_inv P global_new"
  by (simp add: ebr_inv_def global_new_def local_new_def)

text \<open>The events that end the pinning of a participant or renew it.\<close>

fun leaving :: "'d epc \<Rightarrow> bool" where
  "leaving (UnpinStore fin) = True"
| "leaving (RepinStore e) = True"
| "leaving _ = False"

fun leaves :: "nat \<Rightarrow> 'd ebr_event \<Rightarrow> 'd ebr \<Rightarrow> bool" where
  "leaves p (Tick q ch) s = (q = p \<and> leaving (epc s p))"
| "leaves p _ s = False"

fun kept :: "nat \<Rightarrow> 'd ebr_event list \<Rightarrow> 'd ebr \<Rightarrow> bool" where
  "kept p [] s = True"
| "kept p (e # es) s = (\<not> leaves p e s \<and> kept p es (ebr_step e s))"

text \<open>Deferred functions that have not been called: in bags, in the queue, or on the way.\<close>

fun resumed :: "'d resume \<Rightarrow> 'd list" where
  "resumed (ResumeDefer d) = [d]"
| "resumed _ = []"

fun held :: "'d epc \<Rightarrow> 'd list" where
  "held (PushLoad b r) = b @ resumed r"
| "held (PushQueue e b r) = b @ resumed r"
| "held _ = []"

definition pending :: "'d ebr \<Rightarrow> 'd set" where
  "pending s = (\<Union>p. set (l_bag (loc s p)) \<union> set (held (epc s p))) \<union> (\<Union>b\<in>set (g_queue s). set (sealed_contents b))"

lemma ebr_inv_run_step:
  assumes "ebr_inv P s" "ge s + 1 < 2 ^ 63"
  obtains P' where "ebr_inv P' (ebr_step e s)"
    "\<And>p. pn s p \<Longrightarrow> \<not> leaves p e s \<Longrightarrow> P' p = P p"
proof (cases e)
  case (Tick q ch)
  from step_tick [OF assms] obtain P' where P': "ebr_inv P' (ebr_tick q ch (epc s q) s)"
    "\<And>r. r \<noteq> q \<or> (\<forall>e. epc s q \<noteq> RepinStore e) \<Longrightarrow> pn s r \<Longrightarrow> P' r = P r" by metis
  have "P' p = P p" if "pn s p" "\<not> leaves p e s" for p
  proof (rule P'(2))
    show "p \<noteq> q \<or> (\<forall>e. epc s q \<noteq> RepinStore e)" using that Tick by fastforce
  qed (rule that)
  with P'(1) Tick that [of P'] show thesis by simp
qed (use that [of P] step_register [OF assms(1)] step_call [OF assms(1)] in simp_all)

lemma tick_pn:
  assumes "ebr_inv P s" "pn s p" "\<not> leaves p e s"
  shows "pn (ebr_step e s) p"
proof (cases e)
  case (Tick q ch)
  show ?thesis
  proof (cases "q = p")
    case True
    then show ?thesis using assms Tick ebr_invD(7) [OF assms(1), of p]
      by (cases "epc s p")
        (auto simp: pin_load_def adv_load_def adv_iter_def adv_store_def collect_step_def push_queue_def repin_load_def
          flow_defs split: choice.splits list.splits after.splits resume.splits)
  next
    case False
    then show ?thesis using assms(2) Tick
      by (cases "epc s q")
        (auto simp: pin_load_def pin_store_def adv_load_def adv_iter_def adv_store_def collect_step_def push_queue_def
          repin_load_def repin_store_def unpin_store_def list_delete_def flow_defs
          split: choice.splits list.splits after.splits resume.splits option.splits)
  qed
next
  case (Register q)
  have "epc s p \<noteq> Absent" using assms ebr_invD(7) [OF assms(1), of p] by auto
  then show ?thesis using assms(2) Register by (auto simp: register_def)
next
  case (Call q oper)
  then show ?thesis using assms(2)
    by (auto simp: ebr_call_def flow_defs split: ebr_op.splits option.splits)
qed

lemma ge_step: "ebr_inv P s \<Longrightarrow> ge s + 1 < 2 ^ 63 \<Longrightarrow> ge s \<le> ge (ebr_step e s) \<and> ge (ebr_step e s) \<le> ge s + 1"
proof (cases e)
  case (Tick q ch)
  assume inv: "ebr_inv P s" and small: "ge s + 1 < 2 ^ 63"
  show ?thesis
  proof (cases "epc s q")
    case (AdvStore x k)
    note d = ebr_invD(7) [OF inv, of q, unfolded AdvStore, simplified]
    moreover have "num (successor x) = num x + 1" using d small by (intro num_successor) simp
    ultimately show ?thesis
      using ebr_invD(6) [OF inv, of q] by (simp add: Tick AdvStore adv_store_def Let_def)
  qed (auto simp: Tick pin_load_def pin_store_def adv_load_def adv_iter_def collect_step_def push_queue_def
          repin_load_def repin_store_def unpin_store_def list_delete_def flow_defs
          split: choice.splits list.splits after.splits resume.splits option.splits)
next
  case (Register q)
  then show ?thesis by (simp add: register_def)
next
  case (Call q oper)
  then show ?thesis by (auto simp: ebr_call_def flow_defs split: ebr_op.splits option.splits)
qed

text \<open>
  While \<open>p\<close> stays pinned: \<open>g0\<close> is the global epoch at the start and \<open>B\<close>
  the functions pending then. Every other function is in a bag sealed no earlier than \<open>g0\<close>.
\<close>

definition sealed_late :: "nat \<Rightarrow> 'd set \<Rightarrow> 'd ebr \<Rightarrow> bool" where
  "sealed_late g0 B s \<longleftrightarrow>
     (\<forall>b\<in>set (g_queue s). set (sealed_contents b) \<subseteq> B \<or> g0 \<le> num (sealed_epoch b)) \<and>
     (\<forall>q e b r. epc s q = PushQueue e b r \<longrightarrow> set b \<subseteq> B \<or> g0 \<le> num e)"

definition queue_past :: "'d ebr \<Rightarrow> bool" where
  "queue_past s \<longleftrightarrow> (\<forall>b\<in>set (g_queue s). num (sealed_epoch b) \<le> ge s)"

lemma sealed_late_start: "sealed_late g0 (pending s) s"
proof -
  have "set b \<subseteq> pending s" if "epc s q = PushQueue e b r" for q e b r
    using that UN_upper [of q UNIV "\<lambda>q. set (l_bag (loc s q)) \<union> set (held (epc s q))"] by (auto simp: pending_def)
  then show ?thesis by (auto simp: sealed_late_def pending_def)
qed

lemmas tick_defs = pin_load_def pin_store_def adv_load_def adv_iter_def adv_store_def collect_step_def push_queue_def
  repin_load_def repin_store_def unpin_store_def list_delete_def flow_defs

lemma sealed_late_step:
  assumes "sealed_late g0 B s" "g0 \<le> ge s"
  shows "sealed_late g0 B (ebr_step e s)"
proof (cases e)
  case (Tick q ch)
  show ?thesis
  proof (cases "epc s q")
    case (PushQueue x b r)
    have "set b \<subseteq> B \<or> g0 \<le> num x" using assms(1) PushQueue unfolding sealed_late_def by blast
    then show ?thesis using assms Tick PushQueue
      by (auto simp: sealed_late_def tick_defs split: resume.splits if_splits)
  qed (use assms Tick in \<open>auto simp: sealed_late_def tick_defs
      split: choice.splits list.splits after.splits option.splits if_splits\<close>)
next
  case (Register q)
  then show ?thesis using assms by (auto simp: sealed_late_def register_def)
next
  case (Call q oper)
  then show ?thesis using assms
    by (auto simp: sealed_late_def ebr_call_def flow_defs split: ebr_op.splits option.splits if_splits)
qed

lemma queue_past_step:
  assumes "queue_past s" "ebr_inv P s" "ge s + 1 < 2 ^ 63"
  shows "queue_past (ebr_step e s)"
proof -
  have "num (sealed_epoch b) \<le> ge s" if "b \<in> set (g_queue (ebr_step e s))" for b
  proof (cases e)
    case (Tick q ch)
    then show ?thesis using assms(1) that ebr_invD(7) [OF assms(2), of q]
      by (cases "epc s q")
        (auto simp: queue_past_def tick_defs split: choice.splits list.splits after.splits resume.splits option.splits if_splits)
  next
    case (Register q)
    then show ?thesis using assms(1) that by (auto simp: queue_past_def register_def split: if_splits)
  next
    case (Call q oper)
    then show ?thesis using assms(1) that
      by (auto simp: queue_past_def ebr_call_def flow_defs split: ebr_op.splits option.splits if_splits)
  qed
  then show ?thesis using ge_step [OF assms(2,3), of e] by (fastforce simp: queue_past_def)
qed

text \<open>Only \<^verbatim>\<open>collect\<close> calls functions, those of an expired bag.\<close>

lemma called_step:
  obtains "called (ebr_step e s) = called s"
  | p n x k b bs ch where "e = Tick p ch" "epc s p = Collect n x k" "g_queue s = b # bs" "is_expired x b"
      "called (ebr_step e s) = called s @ sealed_contents b"
proof (cases "\<exists>p ch n x k b bs. e = Tick p ch \<and> epc s p = Collect n x k \<and> n \<noteq> 0 \<and> g_queue s = b # bs \<and> is_expired x b")
  case True
  then show thesis using that(2) by (fastforce simp: collect_step_def)
next
  case False
  have "called (ebr_step e s) = called s"
  proof (cases e)
    case (Tick q ch)
    then show ?thesis using False
      by (cases "epc s q") (auto simp: tick_defs split: choice.splits list.splits after.splits resume.splits option.splits)
  next
    case (Register q)
    then show ?thesis by (simp add: register_def)
  next
    case (Call q oper)
    then show ?thesis by (auto simp: ebr_call_def flow_defs split: ebr_op.splits option.splits)
  qed
  then show thesis by (rule that(1))
qed

lemma kept_run:
  assumes "ebr_inv P s" "queue_past s" "sealed_late g0 B s" "pn s p" "P p \<le> g0" "g0 \<le> ge s"
    "ge s + length es < 2 ^ 62" "kept p es s"
  shows "\<exists>xs. called (impl_run ebr_step es s) = called s @ xs \<and> set xs \<subseteq> B"
  using assms
proof (induction es arbitrary: s P)
  case (Cons e es)
  have small: "ge s + 1 < 2 ^ 63" using Cons.prems(7) by simp
  have stay: "\<not> leaves p e s" "kept p es (ebr_step e s)" using Cons.prems(8) by simp_all
  from ebr_inv_run_step [OF Cons.prems(1) small] obtain P' where P': "ebr_inv P' (ebr_step e s)"
    "\<And>p. pn s p \<Longrightarrow> \<not> leaves p e s \<Longrightarrow> P' p = P p" by metis
  have "P' p \<le> g0" using P'(2) [OF Cons.prems(4) stay(1)] Cons.prems(5) by simp
  moreover note g = ge_step [OF Cons.prems(1) small, of e]
  moreover have "ge (ebr_step e s) + length es < 2 ^ 62" using g Cons.prems(7) by simp
  ultimately obtain xs where xs: "called (impl_run ebr_step es (ebr_step e s)) = called (ebr_step e s) @ xs" "set xs \<subseteq> B"
    using Cons.IH [OF P'(1) queue_past_step [OF Cons.prems(2,1) small] sealed_late_step [OF Cons.prems(3,6)]
        tick_pn [OF Cons.prems(1,4) stay(1)] _ _ _ stay(2)] Cons.prems(6) by auto
  show ?case
  proof (cases e s rule: called_step)
    case 1
    with xs show ?thesis by simp
  next
    case (2 q n x k b bs ch)
    have x: "num x \<le> ge s" using ebr_invD(7) [OF Cons.prems(1), of q] 2(2) by simp
    moreover have e: "num (sealed_epoch b) \<le> ge s" using Cons.prems(2) 2(3) by (simp add: queue_past_def)
    ultimately have "epoch_wrapping_sub x (sealed_epoch b) = int (num x) - int (num (sealed_epoch b))"
      using Cons.prems(7) by (intro epoch_wrapping_sub_close) simp_all
    then have "num (sealed_epoch b) + 2 \<le> num x" using 2(4) by (simp add: is_expired_def)
    moreover have "ge s \<le> g0 + 1" using ebr_invD(6) [OF Cons.prems(1,4)] Cons.prems(5) by simp
    ultimately have "\<not> g0 \<le> num (sealed_epoch b)" using x by simp
    then have "set (sealed_contents b) \<subseteq> B" using Cons.prems(3) 2(3) by (auto simp: sealed_late_def)
    with xs 2(5) show ?thesis by simp
  qed
qed simp

lemma ebr_run_inv:
  "ebr_inv P s \<Longrightarrow> queue_past s \<Longrightarrow> ge s + length es < 2 ^ 62 \<Longrightarrow>
     \<exists>P'. ebr_inv P' (impl_run ebr_step es s) \<and> queue_past (impl_run ebr_step es s) \<and>
       ge (impl_run ebr_step es s) \<le> ge s + length es"
proof (induction es arbitrary: s P)
  case (Cons e es)
  have small: "ge s + 1 < 2 ^ 63" using Cons.prems(3) by simp
  from ebr_inv_run_step [OF Cons.prems(1) small] obtain P' where P': "ebr_inv P' (ebr_step e s)" by metis
  have "ge (ebr_step e s) \<le> ge s + 1" using ge_step [OF Cons.prems(1) small, of e] by simp
  with Cons.IH [OF P' queue_past_step [OF Cons.prems(2,1) small]] Cons.prems(3) show ?case by fastforce
qed auto

lemma kept_epoch:
  assumes "ebr_inv P s" "pn s p" "ge s + length es < 2 ^ 62" "kept p es s"
  shows "ge s \<le> ge (impl_run ebr_step es s) \<and> ge (impl_run ebr_step es s) \<le> P p + 1"
  using assms
proof (induction es arbitrary: s P)
  case Nil
  then show ?case using ebr_invD(6) [OF Nil(1,2)] by simp
next
  case (Cons e es)
  have small: "ge s + 1 < 2 ^ 63" using Cons.prems(3) by simp
  have stay: "\<not> leaves p e s" "kept p es (ebr_step e s)" using Cons.prems(4) by simp_all
  from ebr_inv_run_step [OF Cons.prems(1) small] obtain P' where P': "ebr_inv P' (ebr_step e s)"
    "\<And>p. pn s p \<Longrightarrow> \<not> leaves p e s \<Longrightarrow> P' p = P p" by metis
  note g = ge_step [OF Cons.prems(1) small, of e]
  have "ge (ebr_step e s) + length es < 2 ^ 62" using g Cons.prems(3) by simp
  from Cons.IH [OF P'(1) tick_pn [OF Cons.prems(1,2) stay(1)] this stay(2)] P'(2) [OF Cons.prems(2) stay(1)] g
  show ?case by simp
qed

lemma reachable_inv:
  fixes es :: "'d ebr_event list"
  assumes "length es < 2 ^ 62"
  shows "\<exists>P. ebr_inv P (impl_run ebr_step es global_new) \<and> queue_past (impl_run ebr_step es global_new) \<and>
    ge (impl_run ebr_step es global_new) \<le> length es"
proof -
  have q0: "queue_past (global_new :: 'd ebr)" "ge (global_new :: 'd ebr) = 0"
    by (simp_all add: queue_past_def global_new_def)
  have "ge (global_new :: 'd ebr) + length es < 2 ^ 62" using assms by (simp add: q0)
  from ebr_run_inv [OF ebr_inv_init q0(1) this] show ?thesis by (auto simp: q0)
qed

section \<open>Properties\<close>

text \<open>
  C14: safe memory reclamation. Let participant \<open>p\<close> be pinned at some moment of a run. Every
  deferred function that is called while \<open>p\<close> stays pinned (that is, before it stores its
  epoch again in \<^verbatim>\<open>unpin\<close> or \<^verbatim>\<open>repin\<close>) was already pending at that
  moment. So a function deferred after \<open>p\<close> has pinned itself is not called before \<open>p\<close>
  unpins, for any number of participants, any interleaving of the accesses of
  \<^verbatim>\<open>pin\<close>, \<^verbatim>\<open>unpin\<close>, \<^verbatim>\<open>repin\<close>, \<^verbatim>\<open>defer\<close>,
  \<^verbatim>\<open>flush\<close>, \<^verbatim>\<open>try_advance\<close>, \<^verbatim>\<open>collect\<close> and
  \<^verbatim>\<open>finalize\<close>, and however stale the epoch that \<open>p\<close> published.
\<close>

theorem deferred_waits_for_pinned:
  fixes es1 es2 :: "'d ebr_event list"
  defines "s1 \<equiv> impl_run ebr_step es1 global_new"
  defines "s2 \<equiv> impl_run ebr_step es2 s1"
  assumes "length es1 + length es2 < 2 ^ 62" "is_pinned (l_epoch (loc s1 p))" "kept p es2 s1"
  shows "set (drop (length (called s1)) (called s2)) \<subseteq> pending s1"
proof -
  have "length es1 < 2 ^ 62" using assms(3) by simp
  from reachable_inv [OF this] obtain P where P: "ebr_inv P s1" "queue_past s1" "ge s1 \<le> length es1"
    unfolding s1_def by blast
  have "ge s1 + length es2 < 2 ^ 62" using P(3) assms(3) by simp
  from kept_run [OF P(1,2) sealed_late_start assms(4) ebr_invD(5) [OF P(1) assms(4)] order_refl this assms(5)]
  show ?thesis unfolding s2_def by auto
qed

text \<open>
  C15: a pinned participant witnesses at most one advancement of the global epoch: from any moment at
  which \<open>p\<close> is pinned, as long as it stays pinned, the global epoch does not go back and
  advances at most once.
\<close>

theorem pinned_witnesses_one_advance:
  fixes es1 es2 :: "'d ebr_event list"
  defines "s1 \<equiv> impl_run ebr_step es1 global_new"
  defines "s2 \<equiv> impl_run ebr_step es2 s1"
  assumes "length es1 + length es2 < 2 ^ 62" "is_pinned (l_epoch (loc s1 p))" "kept p es2 s1"
  shows "num (g_epoch s1) \<le> num (g_epoch s2) \<and> num (g_epoch s2) \<le> num (g_epoch s1) + 1"
proof -
  have "length es1 < 2 ^ 62" using assms(3) by simp
  from reachable_inv [OF this] obtain P where P: "ebr_inv P s1" "queue_past s1" "ge s1 \<le> length es1"
    unfolding s1_def by blast
  have "ge s1 + length es2 < 2 ^ 62" using P(3) assms(3) by simp
  from kept_epoch [OF P(1) assms(4) this assms(5)] ebr_invD(5) [OF P(1) assms(4)]
  show ?thesis unfolding s2_def by simp
qed

section \<open>Instances\<close>

text \<open>
  Participant 0 pins itself; then participant 1 registers, pins itself, defers a function, flushes
  it to the global queue and tries to advance and collect.
\<close>

definition run_pin :: "nat ebr_event list" where
  "run_pin = [Register 0, Call 0 Pin, Tick 0 Go, Tick 0 Go]"

definition run_defer :: "nat ebr_event list" where
  "run_defer = [Register 1, Call 1 Pin, Tick 1 Go, Tick 1 Go, Tick 1 Go, Tick 1 Stalled, Tick 1 Go, Call 1 (Defer 7),
     Call 1 Flush, Tick 1 Go, Tick 1 Go, Tick 1 Go, Tick 1 (Visit 0), Tick 1 (Visit 1), Tick 1 Go, Tick 1 Go, Tick 1 Go]"

lemmas run_defs = impl_run_simps global_new_def local_new_def ebr_call_def register_def goto_def upd_def tick_defs
  checked_add_def PINNINGS_BETWEEN_COLLECT_def COLLECT_STEPS_def MAX_OBJECTS_def bag_is_empty_def

lemma run_pin_state:
  "is_pinned (l_epoch (loc (impl_run ebr_step run_pin global_new) 0))"
  by (simp add: run_pin_def run_defs)

lemma run_pin_defer:
  "kept 0 run_defer (impl_run ebr_step run_pin global_new)"
  by (simp add: run_defer_def run_pin_def run_defs)

theorem deferred_waits_for_pinned_witness:
  "set (drop (length (called (impl_run ebr_step run_pin global_new)))
      (called (impl_run ebr_step run_defer (impl_run ebr_step run_pin global_new)))) \<subseteq>
    pending (impl_run ebr_step run_pin global_new)"
  by (rule deferred_waits_for_pinned [OF _ run_pin_state run_pin_defer]) (simp add: run_pin_def run_defer_def)

theorem pinned_witnesses_one_advance_witness:
  "num (g_epoch (impl_run ebr_step run_defer (impl_run ebr_step run_pin global_new))) \<le>
    num (g_epoch (impl_run ebr_step run_pin global_new)) + 1"
proof -
  have "length run_pin + length run_defer < 2 ^ 62" by (simp add: run_pin_def run_defer_def)
  from pinned_witnesses_one_advance [OF this run_pin_state run_pin_defer] show ?thesis ..
qed

end
