(* ===== verification/Epoch_Garbage.thy ===== *)
theory Epoch_Garbage
  imports Epoch_Reclaim "HOL-Library.Multiset"
begin

text \<open>
  What becomes of deferred functions: along every run of the participants of theory
  \<open>Epoch_Internal\<close>, none is lost and none is called twice.
\<close>

section \<open>Every deferred function is called at most once\<close>

definition own :: "'d ebr \<Rightarrow> nat \<Rightarrow> 'd multiset" where
  "own s p = mset (l_bag (loc s p)) + mset (held (epc s p))"

definition waiting :: "'d ebr \<Rightarrow> 'd multiset" where
  "waiting s = (\<Sum>p\<in>set (g_locals s). own s p) + mset (concat (map sealed_contents (g_queue s)))"

text \<open>The functions accepted by \<^verbatim>\<open>defer\<close> along a run.\<close>

fun accepts :: "'d ebr_event \<Rightarrow> 'd ebr \<Rightarrow> 'd list" where
  "accepts (Call p (Defer d)) s = (if epc s p = Ready \<and> guard_count (loc s p) \<noteq> 0 then [d] else [])"
| "accepts _ s = []"

fun deferred :: "'d ebr_event list \<Rightarrow> 'd ebr \<Rightarrow> 'd list" where
  "deferred [] s = []"
| "deferred (e # es) s = accepts e s @ deferred es (ebr_step e s)"

text \<open>A participant leaves with an empty bag.\<close>

fun leaves_empty :: "'d epc \<Rightarrow> bool" where
  "leaves_empty Absent = True"
| "leaves_empty Gone = True"
| "leaves_empty Delete = True"
| "leaves_empty (UnpinStore fin) = fin"
| "leaves_empty (PushLoad b r) = (r = ResumeFinalize)"
| "leaves_empty (PushQueue e b r) = (r = ResumeFinalize)"
| "leaves_empty _ = False"

definition bag_inv :: "'d ebr \<Rightarrow> bool" where
  "bag_inv s \<longleftrightarrow> (\<forall>p. leaves_empty (epc s p) \<longrightarrow> l_bag (loc s p) = []) \<and>
     (\<forall>p. p \<in> set (g_locals s) \<longleftrightarrow> epc s p \<noteq> Absent \<and> epc s p \<noteq> Gone)"

abbreviation queued :: "'d ebr \<Rightarrow> 'd multiset" where
  "queued s \<equiv> mset (concat (map sealed_contents (g_queue s)))"

text \<open>
  What \<open>p\<close> accounts for: its bag, the queue and the log, and what its program point holds.
\<close>

definition base :: "nat \<Rightarrow> 'd ebr \<Rightarrow> 'd multiset" where
  "base p s = mset (l_bag (loc s p)) + queued s + mset (called s)"

definition acct :: "nat \<Rightarrow> 'd ebr \<Rightarrow> 'd multiset" where
  "acct p s = own s p + queued s + mset (called s)"

lemma acct_base: "acct p s = base p s + mset (held (epc s p))"
  by (simp add: acct_def base_def own_def)

lemma base_simps [simp]:
  "base p (goto p c s) = base p s"
  "(\<And>l. l_bag (f l) = l_bag l) \<Longrightarrow> base p (upd p f s) = base p s"
  "base p (s\<lparr>g_epoch := e\<rparr>) = base p s"
  by (simp_all add: base_def)

lemma acct_simps [simp]:
  "acct p (goto p c s) = base p s + mset (held c)"
  "acct p (push_bag p r s) = base p s + mset (resumed r)"
  "acct p (local_defer p d s) = base p s + {#d#}"
  "acct p (proceed p k s) = base p s"
  by (cases k; simp add: acct_base base_def push_bag_def local_defer_def proceed_def bag_try_push_def)+

lemma acct_pin [simp]:
  "acct p (local_pin p k s) = base p s" "acct p (finalize p s) = base p s" "acct p (local_unpin p fin s) = base p s"
  by (simp_all add: local_pin_def finalize_def local_unpin_def Let_def split: option.split)

lemma acct_tick:
  assumes "c \<noteq> Absent" "c \<noteq> Gone" "c \<noteq> Delete" "epc s q = c"
  shows "acct q (ebr_tick q ch c s) = acct q s"
proof (cases c)
  case (Collect n x k)
  then show ?thesis using assms(4)
    by (auto simp: acct_base [of q s] collect_step_def base_def split: list.split)
next
  case (PushQueue e b r)
  then show ?thesis using assms(4)
    by (cases r) (auto simp: acct_base [of q s] push_queue_def base_def Let_def)
qed (use assms in \<open>auto simp: acct_base [of q s] pin_load_def pin_store_def adv_load_def
    adv_iter_def adv_store_def repin_load_def repin_store_def unpin_store_def Let_def split: choice.splits\<close>)

lemma acct_call:
  assumes "epc s q = Ready"
  shows "acct q (ebr_call q oper s) = acct q s + mset (accepts (Call q oper) s)"
  using assms
  by (cases oper) (auto simp: ebr_call_def acct_base [of q s] local_flush_def release_handle_def acquire_handle_def
      local_repin_def Let_def acct_base [of q "upd q f s" for f])

lemma call_frame:
  assumes "r \<noteq> q"
  shows "loc (ebr_call q oper s) r = loc s r" "epc (ebr_call q oper s) r = epc s r"
  using assms
  by (cases oper; auto simp: ebr_call_def flow_defs split: option.splits)+

lemma call_locals: "g_locals (ebr_call q oper s) = g_locals s"
  by (cases oper) (auto simp: ebr_call_def flow_defs split: option.splits)

lemma tick_frame:
  assumes "r \<noteq> q"
  shows "loc (ebr_tick q ch c s) r = loc s r" "epc (ebr_tick q ch c s) r = epc s r"
  by (cases c; simp add: tick_defs assms split: choice.splits list.splits after.splits resume.splits option.splits)+

lemma tick_locals: "c \<noteq> Delete \<Longrightarrow> g_locals (ebr_tick q ch c s) = g_locals s"
  by (cases c) (simp_all add: tick_defs split: choice.splits list.splits after.splits resume.splits option.splits)

text \<open>A step of \<open>p\<close> is accounted for by what \<open>p\<close>, the queue and the log hold.\<close>

lemma conserved:
  assumes p: "p \<in> set (g_locals s)" and same: "g_locals s' = g_locals s"
      "\<And>q. q \<noteq> p \<Longrightarrow> loc s' q = loc s q \<and> epc s' q = epc s q"
    and own: "acct p s' = acct p s + X"
  shows "mset (called s') + waiting s' = mset (called s) + waiting s + X"
proof -
  have "(\<Sum>q\<in>set (g_locals s) - {p}. own s' q) = (\<Sum>q\<in>set (g_locals s) - {p}. own s q)"
    using same(2) by (intro sum.cong) (auto simp: own_def)
  then have "mset (called s') + waiting s' =
      acct p s' + (\<Sum>q\<in>set (g_locals s) - {p}. own s q)"
    by (simp add: waiting_def acct_def same(1) sum.remove [OF finite_set p] ac_simps)
  also have "\<dots> = mset (called s) + waiting s + X"
    unfolding own by (simp add: waiting_def acct_def sum.remove [OF finite_set p] ac_simps)
  finally show ?thesis .
qed

lemma bag_inv_frame:
  assumes "bag_inv s" "\<And>q. q \<noteq> p \<Longrightarrow> loc s' q = loc s q \<and> epc s' q = epc s q \<and>
      (q \<in> set (g_locals s') \<longleftrightarrow> q \<in> set (g_locals s))"
    and "leaves_empty (epc s' p) \<Longrightarrow> l_bag (loc s' p) = []" "p \<in> set (g_locals s') \<longleftrightarrow> epc s' p \<noteq> Absent \<and> epc s' p \<noteq> Gone"
  shows "bag_inv s'"
  unfolding bag_inv_def
proof (intro conjI allI impI)
  fix q
  show "l_bag (loc s' q) = []" if "leaves_empty (epc s' q)"
    using assms that by (cases "q = p") (simp_all add: bag_inv_def)
  show "q \<in> set (g_locals s') \<longleftrightarrow> epc s' q \<noteq> Absent \<and> epc s' q \<noteq> Gone"
    using assms by (cases "q = p") (simp_all add: bag_inv_def)
qed

lemma bag_inv_tick:
  assumes inv: "bag_inv s"
  shows "bag_inv (ebr_tick q ch (epc s q) s)"
proof (cases "epc s q = Delete")
  case True
  then have "l_bag (loc s q) = []" using inv by (simp add: bag_inv_def)
  then show ?thesis using True by (intro bag_inv_frame [OF inv, where p = q]) (auto simp: list_delete_def)
next
  case False
  have mem: "q \<in> set (g_locals s) \<longleftrightarrow> epc s q \<noteq> Absent \<and> epc s q \<noteq> Gone"
    "leaves_empty (epc s q) \<Longrightarrow> l_bag (loc s q) = []" using inv by (simp_all add: bag_inv_def)
  have "leaves_empty (epc (ebr_tick q ch (epc s q) s) q) \<Longrightarrow> l_bag (loc (ebr_tick q ch (epc s q) s) q) = []"
    using False mem(2)
    by (cases "epc s q") (auto simp: tick_defs split: choice.splits list.splits after.splits resume.splits option.splits if_splits)
  moreover have "(epc (ebr_tick q ch (epc s q) s) q = Absent \<longleftrightarrow> epc s q = Absent) \<and>
      (epc (ebr_tick q ch (epc s q) s) q = Gone \<longleftrightarrow> epc s q = Gone)"
    using False
    by (cases "epc s q") (auto simp: tick_defs split: choice.splits list.splits after.splits resume.splits option.splits)
  ultimately show ?thesis
    using mem(1) False by (intro bag_inv_frame [OF inv, where p = q]) (auto simp: tick_frame tick_locals)
qed

lemma call_own:
  assumes "epc s q = Ready"
  shows "leaves_empty (epc (ebr_call q oper s) q) \<Longrightarrow> l_bag (loc (ebr_call q oper s) q) = []"
    "epc (ebr_call q oper s) q \<noteq> Absent" "epc (ebr_call q oper s) q \<noteq> Gone"
  using assms
  by (cases oper; auto simp: ebr_call_def flow_defs split: option.splits if_splits)+

lemma bag_inv_step:
  assumes "bag_inv s"
  shows "bag_inv (ebr_step e s)"
proof (cases e)
  case (Tick q ch)
  then show ?thesis using bag_inv_tick [OF assms] by simp
next
  case (Register q)
  then show ?thesis using assms by (auto simp: bag_inv_def register_def local_new_def)
next
  case (Call q oper)
  show ?thesis
  proof (cases "epc s q = Ready")
    case True
    then have "q \<in> set (g_locals s)" using assms by (simp add: bag_inv_def)
    then show ?thesis
      using call_own [OF True] Call by (intro bag_inv_frame [OF assms, where p = q]) (auto simp: call_frame call_locals)
  qed (use assms Call in \<open>simp add: ebr_call_def Let_def\<close>)
qed

lemma waiting_step:
  assumes "bag_inv s"
  shows "mset (called (ebr_step e s)) + waiting (ebr_step e s) = mset (called s) + waiting s + mset (accepts e s)"
proof (cases e)
  case (Tick q ch)
  consider "epc s q = Absent \<or> epc s q = Gone" | "epc s q = Delete"
    | "epc s q \<noteq> Absent \<and> epc s q \<noteq> Gone \<and> epc s q \<noteq> Delete" by blast
  then show ?thesis
  proof cases
    case 1
    then show ?thesis using Tick by auto
  next
    case 2
    then have q: "q \<in> set (g_locals s)" "own s q = {#}" using assms by (simp_all add: bag_inv_def own_def)
    have "(\<Sum>r\<in>set (g_locals s) - {q}. own (list_delete q s) r) = (\<Sum>r\<in>set (g_locals s). own s r)"
      unfolding sum.remove [OF finite_set q(1)] using q(2)
      by (simp, intro sum.cong) (auto simp: own_def list_delete_def)
    then show ?thesis using Tick 2 by (simp add: waiting_def list_delete_def)
  next
    case 3
    then have p: "q \<in> set (g_locals s)" using assms by (simp add: bag_inv_def)
    have "acct q (ebr_step e s) = acct q s + {#}"
      using 3 Tick acct_tick [of "epc s q" s q ch] by simp
    moreover have "g_locals (ebr_step e s) = g_locals s"
      "\<And>r. r \<noteq> q \<Longrightarrow> loc (ebr_step e s) r = loc s r \<and> epc (ebr_step e s) r = epc s r"
      using 3 Tick by (simp_all add: tick_frame tick_locals)
    ultimately have "mset (called (ebr_step e s)) + waiting (ebr_step e s) = mset (called s) + waiting s + {#}"
      by (intro conserved [OF p])
    then show ?thesis by (simp add: Tick)
  qed
next
  case (Register q)
  show ?thesis
  proof (cases "epc s q = Absent")
    case True
    then have q: "q \<notin> set (g_locals s)" using assms by (simp add: bag_inv_def)
    have "own (register q s) q = {#}" using True by (simp add: register_def own_def local_new_def)
    moreover have "(\<Sum>r\<in>set (g_locals s). own (register q s) r) = (\<Sum>r\<in>set (g_locals s). own s r)"
      using q by (intro sum.cong) (auto simp: own_def register_def)
    ultimately show ?thesis using Register True q by (simp add: waiting_def register_def)
  qed (simp add: Register register_def)
next
  case (Call q oper)
  show ?thesis
  proof (cases "epc s q = Ready")
    case True
    then have p: "q \<in> set (g_locals s)" using assms by (simp add: bag_inv_def)
    show ?thesis
      using acct_call [OF True] Call by (intro conserved [OF p]) (simp_all add: call_frame call_locals)
  next
    case False
    then show ?thesis using Call by (cases oper) (auto simp: ebr_call_def Let_def)
  qed
qed

lemma waiting_run:
  "bag_inv s \<Longrightarrow> mset (called (impl_run ebr_step es s)) + waiting (impl_run ebr_step es s) =
     mset (called s) + waiting s + mset (deferred es s)"
proof (induction es arbitrary: s)
  case (Cons e es)
  from Cons.IH [OF bag_inv_step [OF Cons.prems, of e]] waiting_step [OF Cons.prems, of e] show ?case
    by (simp add: ac_simps)
qed simp

text \<open>
  C16: no deferred function is lost or called twice. At every moment of every run, the functions
  called so far together with those still waiting (in a participant's bag, in the global queue, or
  being moved between them) are exactly the functions accepted by \<^verbatim>\<open>defer\<close>, counted
  with multiplicity.
\<close>

theorem deferred_called_once:
  fixes es :: "'d ebr_event list"
  shows "mset (called (impl_run ebr_step es global_new)) + waiting (impl_run ebr_step es global_new) =
    mset (deferred es global_new)"
proof -
  have "bag_inv (global_new :: 'd ebr)" by (simp add: bag_inv_def global_new_def local_new_def)
  from waiting_run [OF this, of es] show ?thesis by (simp add: waiting_def global_new_def)
qed

end
