(* ===== verification/Backoff.thy ===== *)
theory Backoff
  imports Prelude
begin

text \<open>
  \<^verbatim>\<open>crossbeam-utils/src/backoff.rs\<close>: exponential backoff in spin loops. The calls of
  \<^verbatim>\<open>hint::spin_loop\<close> and \<^verbatim>\<open>thread::yield_now\<close> have no effect on the
  state; the model returns them, in order, beside the new state.
\<close>

definition SPIN_LIMIT :: u32 where "SPIN_LIMIT = 6"
definition YIELD_LIMIT :: u32 where "YIELD_LIMIT = 10"

record backoff =
  backoff_step :: u32

datatype cpu_hint = SpinLoop | YieldNow

definition backoff_new :: backoff where
  "backoff_new = \<lparr>backoff_step = 0\<rparr>"

definition backoff_reset :: "backoff \<Rightarrow> backoff" where
  "backoff_reset self = self\<lparr>backoff_step := 0\<rparr>"

text \<open>\<^verbatim>\<open>for _ in 0..1 << n\<close>, on the default integer type of 32 bits.\<close>

definition spin_loops :: "u32 \<Rightarrow> cpu_hint list" where
  "spin_loops n = replicate (unat (push_bit (unat n) (1 :: u32))) SpinLoop"

definition backoff_spin :: "backoff \<Rightarrow> cpu_hint list \<times> backoff" where
  "backoff_spin self =
     (spin_loops (min (backoff_step self) SPIN_LIMIT),
      if backoff_step self \<le> SPIN_LIMIT then self\<lparr>backoff_step := backoff_step self + 1\<rparr> else self)"

text \<open>\<open>std\<close> says whether the feature of that name is enabled.\<close>

definition backoff_snooze :: "bool \<Rightarrow> backoff \<Rightarrow> cpu_hint list \<times> backoff" where
  "backoff_snooze std self =
     (if backoff_step self \<le> SPIN_LIMIT then spin_loops (backoff_step self)
      else if std then [YieldNow] else spin_loops (backoff_step self),
      if backoff_step self \<le> YIELD_LIMIT then self\<lparr>backoff_step := backoff_step self + 1\<rparr> else self)"

definition is_completed :: "backoff \<Rightarrow> bool" where
  "is_completed self \<longleftrightarrow> backoff_step self > YIELD_LIMIT"

text \<open>A sequence of calls between two resets.\<close>

datatype backoff_call = Spin | Snooze

fun backoff_apply :: "bool \<Rightarrow> backoff_call \<Rightarrow> backoff \<Rightarrow> cpu_hint list \<times> backoff" where
  "backoff_apply std Spin b = backoff_spin b"
| "backoff_apply std Snooze b = backoff_snooze std b"

fun backoff_calls :: "bool \<Rightarrow> backoff_call list \<Rightarrow> backoff \<Rightarrow> backoff" where
  "backoff_calls std [] b = b"
| "backoff_calls std (c # cs) b = backoff_calls std cs (snd (backoff_apply std c b))"

section \<open>The step counter\<close>

text \<open>The counter as a natural number: both calls move it up to 7, only \<open>Snooze\<close> up to 11.\<close>

fun climb :: "backoff_call \<Rightarrow> nat \<Rightarrow> nat" where
  "climb Spin n = (if n \<le> 6 then Suc n else n)"
| "climb Snooze n = (if n \<le> 10 then Suc n else n)"

lemmas limit_defs = SPIN_LIMIT_def YIELD_LIMIT_def

lemma unat_step:
  "w \<le> 10 \<Longrightarrow> unat (w + 1) = Suc (unat w)" for w :: u32
  by (simp add: word_le_nat_alt unat_plus_simple [THEN iffD1] unat_word_ariths)

lemma step_backoff_apply:
  "unat (backoff_step (snd (backoff_apply std c b))) = climb c (unat (backoff_step b))"
  by (cases c) (auto simp: backoff_spin_def backoff_snooze_def limit_defs unat_step word_le_nat_alt)

lemma step_backoff_calls:
  "unat (backoff_step (backoff_calls std cs b)) = fold climb cs (unat (backoff_step b))"
  by (induction cs arbitrary: b) (simp_all add: step_backoff_apply)

lemma fold_climb_low: "n + length cs \<le> 7 \<Longrightarrow> fold climb cs n = n + length cs"
proof (induction cs arbitrary: n)
  case (Cons c cs)
  then show ?case by (cases c) simp_all
qed simp

lemma fold_climb_high:
  "7 \<le> n \<Longrightarrow> n \<le> 11 \<Longrightarrow>
     fold climb cs n = min 11 (n + length (filter (\<lambda>c. c = Snooze) cs))"
proof (induction cs arbitrary: n)
  case (Cons c cs)
  then show ?case by (cases c) auto
qed simp

lemma fold_climb:
  "fold climb cs 0 = min 7 (length cs) + min 4 (length (filter (\<lambda>c. c = Snooze) (drop 7 cs)))"
proof (cases "length cs \<le> 7")
  case True
  then show ?thesis using fold_climb_low [of 0 cs] by simp
next
  case False
  then have "fold climb cs 0 = fold climb (drop 7 cs) (fold climb (take 7 cs) 0)"
    by (metis append_take_drop_id comp_apply fold_append)
  also have "fold climb (take 7 cs) 0 = 7"
    using False fold_climb_low [of 0 "take 7 cs"] by simp
  finally show ?thesis using False by (simp add: fold_climb_high)
qed

lemma length_spin_loops: "unat n < 32 \<Longrightarrow> length (spin_loops n) = 2 ^ unat n"
  by (simp add: spin_loops_def push_bit_eq_mult unat_exp)

lemma spin_bound:
  "length (fst (backoff_spin b)) \<le> 64"
proof -
  have le: "unat (min (backoff_step b) SPIN_LIMIT) \<le> 6"
    by (simp add: limit_defs min_def word_le_nat_alt)
  then have "length (fst (backoff_spin b)) = 2 ^ unat (min (backoff_step b) SPIN_LIMIT)"
    by (simp add: backoff_spin_def length_spin_loops)
  also have "\<dots> \<le> 2 ^ 6" using le by (intro power_increasing) simp_all
  finally show ?thesis by simp
qed

lemma snooze_bound:
  "unat (backoff_step b) \<le> 11 \<Longrightarrow> length (fst (backoff_snooze std b)) \<le> (if std then 64 else 2048)"
proof -
  assume le: "unat (backoff_step b) \<le> 11"
  have "(2::nat) ^ unat (backoff_step b) \<le> 2 ^ 11" using le by (intro power_increasing) simp_all
  moreover have "(2::nat) ^ unat (backoff_step b) \<le> 2 ^ 6" if "backoff_step b \<le> SPIN_LIMIT"
    using that by (intro power_increasing) (simp_all add: limit_defs word_le_nat_alt)
  ultimately show ?thesis using le
    by (simp add: backoff_snooze_def length_spin_loops)
qed

lemma snooze_spin_agree:
  assumes "backoff_step b \<le> SPIN_LIMIT"
  shows "backoff_snooze std b = backoff_spin b"
proof -
  have "backoff_step b \<le> YIELD_LIMIT" "min (backoff_step b) SPIN_LIMIT = backoff_step b"
    using assms by (simp_all add: limit_defs word_le_nat_alt min_def)
  with assms show ?thesis by (simp add: backoff_snooze_def backoff_spin_def)
qed

lemma snooze_spin_differ:
  assumes "SPIN_LIMIT < backoff_step b" "unat (backoff_step b) \<le> 11"
  shows "fst (backoff_snooze std b) \<noteq> fst (backoff_spin b)"
proof -
  have spin: "length (fst (backoff_spin b)) = 64"
    using assms by (auto simp: backoff_spin_def limit_defs min_def length_spin_loops word_less_nat_alt word_le_nat_alt)
  have "(2::nat) ^ 7 \<le> 2 ^ unat (backoff_step b)"
    using assms(1) by (intro power_increasing) (simp_all add: limit_defs word_less_nat_alt)
  then have "length (fst (backoff_snooze std b)) \<noteq> 64"
    using assms by (simp add: backoff_snooze_def length_spin_loops)
  with spin show ?thesis by metis
qed

text \<open>
  C22: \<^verbatim>\<open>Backoff\<close> is exponential and bounded. After any calls of \<^verbatim>\<open>spin\<close>
  and \<^verbatim>\<open>snooze\<close> since creation or \<^verbatim>\<open>reset\<close>, the counter is the number of
  calls up to seven plus, up to four, the number of later calls of \<^verbatim>\<open>snooze\<close>; so
  \<^verbatim>\<open>is_completed\<close> holds exactly when at least four of the calls after the first seven
  were \<^verbatim>\<open>snooze\<close>. The next call spins for at most 64 rounds (2048 for
  \<^verbatim>\<open>snooze\<close> without the feature \<^verbatim>\<open>std\<close>), exactly \<open>2 ^ n\<close> rounds when
  it is the call number \<open>n \<le> 6\<close>. \<^verbatim>\<open>snooze\<close> does what \<^verbatim>\<open>spin\<close>
  does for the first seven calls and something else afterwards, with and without the feature: this
  contradicts the documentation of \<^verbatim>\<open>snooze\<close>, which calls it equivalent to
  \<^verbatim>\<open>spin\<close> without \<^verbatim>\<open>std\<close>.
\<close>

theorem backoff_schedule:
  "let b = backoff_calls std cs (backoff_reset b0);
       late = length (filter (\<lambda>c. c = Snooze) (drop 7 cs))
   in unat (backoff_step b) = min 7 (length cs) + min 4 late \<and>
      (is_completed b \<longleftrightarrow> late \<ge> 4) \<and>
      length (fst (backoff_spin b)) \<le> 64 \<and>
      length (fst (backoff_snooze std b)) \<le> (if std then 64 else 2048) \<and>
      (length cs \<le> 6 \<longrightarrow> fst (backoff_apply std c b) = replicate (2 ^ length cs) SpinLoop) \<and>
      (if length cs \<le> 6 then backoff_snooze std b = backoff_spin b
       else fst (backoff_snooze std b) \<noteq> fst (backoff_spin b))"
proof -
  let ?n = "length (filter (\<lambda>c. c = Snooze) (drop 7 cs))"
  let ?b = "backoff_calls std cs (backoff_reset b0)"
  have st: "unat (backoff_step ?b) = min 7 (length cs) + min 4 ?n"
    by (simp add: step_backoff_calls backoff_reset_def fold_climb)
  have n: "?n \<le> length cs - 7" using length_filter_le [of _ "drop 7 cs"] by simp
  then have "is_completed ?b \<longleftrightarrow> ?n \<ge> 4"
    by (auto simp: is_completed_def limit_defs word_less_nat_alt st)
  moreover have "fst (backoff_apply std c ?b) = replicate (2 ^ length cs) SpinLoop" if "length cs \<le> 6"
  proof -
    have u: "unat (backoff_step ?b) = length cs" using that st by simp
    have "spin_loops (backoff_step ?b) = replicate (2 ^ length cs) SpinLoop"
      using that by (simp add: spin_loops_def push_bit_eq_mult unat_exp u)
    with that u show ?thesis
      by (cases c) (simp_all add: backoff_spin_def backoff_snooze_def limit_defs min_def word_le_nat_alt)
  qed
  moreover have "backoff_step ?b \<le> SPIN_LIMIT \<longleftrightarrow> length cs \<le> 6"
    using st n by (simp add: limit_defs word_le_nat_alt) linarith
  then have "if length cs \<le> 6 then backoff_snooze std ?b = backoff_spin ?b
      else fst (backoff_snooze std ?b) \<noteq> fst (backoff_spin ?b)"
    using st snooze_spin_agree [of ?b std] snooze_spin_differ [of ?b std] by (auto simp: not_le)
  ultimately show ?thesis using st spin_bound snooze_bound [of ?b std] by (simp add: Let_def)
qed

theorem backoff_schedule_witness:
  "fst (backoff_apply True Snooze (backoff_calls True [Spin, Snooze] (backoff_reset backoff_new))) =
     replicate 4 SpinLoop \<and>
   fst (backoff_snooze False (backoff_calls False (replicate 7 Spin) (backoff_reset backoff_new))) \<noteq>
     fst (backoff_spin (backoff_calls False (replicate 7 Spin) (backoff_reset backoff_new)))"
  (is "?exact \<and> ?differ")
proof
  have "length [Spin, Snooze] \<le> 6" by simp
  with backoff_schedule [of True "[Spin, Snooze]" backoff_new Snooze, unfolded Let_def] have
    "fst (backoff_apply True Snooze (backoff_calls True [Spin, Snooze] (backoff_reset backoff_new))) =
       replicate (2 ^ length [Spin, Snooze]) SpinLoop" by blast
  moreover have "2 ^ length [Spin, Snooze] = (4::nat)" by simp
  ultimately show ?exact by metis
  have "\<not> length (replicate 7 Spin) \<le> 6" by simp
  with backoff_schedule [of False "replicate 7 Spin" backoff_new Spin, unfolded Let_def] show ?differ
    by meson
qed

end
