(* ===== verification/Parker.thy ===== *)
theory Parker
  imports Atomic_Object
begin

text \<open>
  \<^verbatim>\<open>crossbeam-utils/src/sync/parker.rs\<close>: thread parking. A \<^verbatim>\<open>Parker\<close>
  is not \<^verbatim>\<open>Sync\<close>, so one thread at a time parks on it, while any number of threads
  unpark it. A tick is one access to the atomic state, one operation on the mutex, or one on the
  condition variable. The standard library's mutex and condition variable are modelled by what they
  document: \<^verbatim>\<open>wait\<close> releases the mutex and starts waiting in one step, it may wake up
  spuriously, and it returns once the mutex has been acquired again. Instants are natural numbers.
\<close>

definition EMPTY :: usize where "EMPTY = 0"
definition PARKED :: usize where "PARKED = 1"
definition NOTIFIED :: usize where "NOTIFIED = 2"

datatype unpark_reason = Unparked | Timeout

text \<open>Who holds the mutex.\<close>

datatype holder = Free | ByParker | ByUnparker tid

datatype park_pc =
    NotParking
  | ParkFast "nat option"
  | ParkNow "nat option"
  | ParkLock "nat option"
  | ParkCas "nat option"
  | ParkSwap "nat option"
  | ParkLoop "nat option"
  | ParkWaiting "nat option"
  | ParkWoken "nat option"
  | ParkCheck "nat option"
  | ParkTimedOut "nat option"
  | ParkUnlock "nat option" unpark_reason
  | ParkPanic

datatype unpark_pc = NotUnparking | UnparkLock | UnparkUnlock | UnparkNotify | UnparkPanic

record parker =
  pk_state :: usize
  pk_lock :: holder
  pk_pc :: park_pc
  up_pc :: "tid \<Rightarrow> unpark_pc"
  pk_now :: nat
  pk_log :: "(nat option \<times> unpark_reason \<times> nat) list"

text \<open>
  The log records each return of \<^verbatim>\<open>Inner::park\<close>: the deadline, the reason, and the
  time of the return.
\<close>

definition parker_new :: parker where
  "parker_new = \<lparr>pk_state = EMPTY, pk_lock = Free, pk_pc = NotParking, up_pc = (\<lambda>_. NotUnparking),
     pk_now = 0, pk_log = []\<rparr>"

definition park_goto :: "park_pc \<Rightarrow> parker \<Rightarrow> parker" where
  "park_goto c s = s\<lparr>pk_pc := c\<rparr>"

definition park_return :: "nat option \<Rightarrow> unpark_reason \<Rightarrow> parker \<Rightarrow> parker" where
  "park_return d r s = s\<lparr>pk_pc := NotParking, pk_log := pk_log s @ [(d, r, pk_now s)]\<rparr>"

section \<open>park\<close>

text \<open>\<^verbatim>\<open>Parker::park\<close> and \<^verbatim>\<open>Parker::park_deadline\<close> call \<^verbatim>\<open>Inner::park\<close>.\<close>

definition park_deadline :: "nat option \<Rightarrow> parker \<Rightarrow> parker" where
  "park_deadline deadline s = (if pk_pc s = NotParking then park_goto (ParkFast deadline) s else s)"

text \<open>
  \<^verbatim>\<open>Parker::park_timeout\<close>: \<open>latest\<close> is the last representable instant, beyond
  which \<^verbatim>\<open>checked_add\<close> fails.
\<close>

definition park_timeout :: "nat \<Rightarrow> nat \<Rightarrow> parker \<Rightarrow> parker" where
  "park_timeout latest timeout s =
     park_deadline (if pk_now s + timeout \<le> latest then Some (pk_now s + timeout) else None) s"

fun park_tick :: "park_pc \<Rightarrow> parker \<Rightarrow> parker" where
  "park_tick (ParkFast d) s =
     (if pk_state s = NOTIFIED then park_return d Unparked (s\<lparr>pk_state := EMPTY\<rparr>)
      else park_goto (ParkNow d) s)"
| "park_tick (ParkNow d) s =
     (case d of
        None \<Rightarrow> park_goto (ParkLock d) s
      | Some deadline \<Rightarrow>
          if deadline \<le> pk_now s then park_return d Timeout s else park_goto (ParkLock d) s)"
| "park_tick (ParkLock d) s =
     (if pk_lock s = Free then park_goto (ParkCas d) (s\<lparr>pk_lock := ByParker\<rparr>) else s)"
| "park_tick (ParkCas d) s =
     (if pk_state s = EMPTY then park_goto (ParkLoop d) (s\<lparr>pk_state := PARKED\<rparr>)
      else if pk_state s = NOTIFIED then park_goto (ParkSwap d) s
      else park_goto ParkPanic s)"
| "park_tick (ParkSwap d) s =
     (if pk_state s = NOTIFIED then park_goto (ParkUnlock d Unparked) (s\<lparr>pk_state := EMPTY\<rparr>)
      else park_goto ParkPanic (s\<lparr>pk_state := EMPTY\<rparr>))"
| "park_tick (ParkLoop d) s =
     (case d of
        None \<Rightarrow> park_goto (ParkWaiting d) (s\<lparr>pk_lock := Free\<rparr>)
      | Some deadline \<Rightarrow>
          if pk_now s < deadline then park_goto (ParkWaiting d) (s\<lparr>pk_lock := Free\<rparr>)
          else park_goto (ParkTimedOut d) s)"
| "park_tick (ParkTimedOut d) s =
     (if pk_state s = NOTIFIED then park_goto (ParkUnlock d Unparked) (s\<lparr>pk_state := EMPTY\<rparr>)
      else if pk_state s = PARKED then park_goto (ParkUnlock d Timeout) (s\<lparr>pk_state := EMPTY\<rparr>)
      else park_goto ParkPanic (s\<lparr>pk_state := EMPTY\<rparr>))"
| "park_tick (ParkWoken d) s =
     (if pk_lock s = Free then park_goto (ParkCheck d) (s\<lparr>pk_lock := ByParker\<rparr>) else s)"
| "park_tick (ParkCheck d) s =
     (if pk_state s = NOTIFIED then park_goto (ParkUnlock d Unparked) (s\<lparr>pk_state := EMPTY\<rparr>)
      else park_goto (ParkLoop d) s)"
| "park_tick (ParkUnlock d r) s = park_return d r (s\<lparr>pk_lock := Free\<rparr>)"
| "park_tick _ s = s"

text \<open>A wake-up of the waiting thread: by \<^verbatim>\<open>notify_one\<close>, by the timeout, or spurious.\<close>

fun wake_up :: "park_pc \<Rightarrow> park_pc" where
  "wake_up (ParkWaiting d) = ParkWoken d"
| "wake_up c = c"

section \<open>unpark\<close>

definition up_goto :: "tid \<Rightarrow> unpark_pc \<Rightarrow> parker \<Rightarrow> parker" where
  "up_goto i c s = s\<lparr>up_pc := (up_pc s)(i := c)\<rparr>"

text \<open>The call begins with its access to the state.\<close>

definition unpark_swap :: "tid \<Rightarrow> parker \<Rightarrow> parker" where
  "unpark_swap i s =
     (let old = pk_state s; s' = s\<lparr>pk_state := NOTIFIED\<rparr> in
      if old = EMPTY then s'
      else if old = NOTIFIED then s'
      else if old = PARKED then up_goto i UnparkLock s'
      else up_goto i UnparkPanic s')"

fun unpark_tick :: "tid \<Rightarrow> unpark_pc \<Rightarrow> parker \<Rightarrow> parker" where
  "unpark_tick i UnparkLock s =
     (if pk_lock s = Free then up_goto i UnparkUnlock (s\<lparr>pk_lock := ByUnparker i\<rparr>) else s)"
| "unpark_tick i UnparkUnlock s = up_goto i UnparkNotify (s\<lparr>pk_lock := Free\<rparr>)"
| "unpark_tick i UnparkNotify s = up_goto i NotUnparking (s\<lparr>pk_pc := wake_up (pk_pc s)\<rparr>)"
| "unpark_tick i _ s = s"

datatype park_event =
    Park "nat option" | ParkTimeout nat nat | ParkTick | WakeUp | Unpark tid | UnparkTick tid | Clock

fun park_step :: "park_event \<Rightarrow> parker \<Rightarrow> parker" where
  "park_step (Park d) s = park_deadline d s"
| "park_step (ParkTimeout latest t) s = park_timeout latest t s"
| "park_step ParkTick s = park_tick (pk_pc s) s"
| "park_step WakeUp s = s\<lparr>pk_pc := wake_up (pk_pc s)\<rparr>"
| "park_step (Unpark i) s = (if up_pc s i = NotUnparking then unpark_swap i s else s)"
| "park_step (UnparkTick i) s = unpark_tick i (up_pc s i) s"
| "park_step Clock s = s\<lparr>pk_now := Suc (pk_now s)\<rparr>"

section \<open>Invariant\<close>

text \<open>Where the parking thread holds the mutex, and where it has announced itself.\<close>

fun locks :: "park_pc \<Rightarrow> bool" where
  "locks (ParkCas d) = True" | "locks (ParkSwap d) = True" | "locks (ParkLoop d) = True"
| "locks (ParkCheck d) = True" | "locks (ParkTimedOut d) = True" | "locks (ParkUnlock d r) = True"
| "locks _ = False"

fun announced :: "park_pc \<Rightarrow> bool" where
  "announced (ParkLoop d) = True" | "announced (ParkWaiting d) = True"
| "announced (ParkWoken d) = True" | "announced (ParkCheck d) = True"
| "announced (ParkTimedOut d) = True"
| "announced _ = False"

fun waits :: "park_pc \<Rightarrow> bool" where
  "waits (ParkWaiting d) = True" | "waits (ParkLoop d) = True" | "waits _ = False"

definition pk_state_ok :: "parker \<Rightarrow> bool" where
  "pk_state_ok s \<longleftrightarrow>
     (if announced (pk_pc s) then pk_state s \<in> {PARKED, NOTIFIED}
      else if \<exists>d. pk_pc s = ParkSwap d then pk_state s = NOTIFIED
      else pk_state s \<in> {EMPTY, NOTIFIED})"

definition pk_locks_ok :: "parker \<Rightarrow> bool" where
  "pk_locks_ok s \<longleftrightarrow> (locks (pk_pc s) \<longleftrightarrow> pk_lock s = ByParker) \<and>
     (\<forall>i. up_pc s i = UnparkUnlock \<longrightarrow> pk_lock s = ByUnparker i) \<and>
     (\<forall>i. pk_lock s = ByUnparker i \<longrightarrow> up_pc s i = UnparkUnlock) \<and>
     pk_pc s \<noteq> ParkPanic \<and> (\<forall>i. up_pc s i \<noteq> UnparkPanic)"

lemma pk_locks_okD:
  assumes "pk_locks_ok s"
  shows "locks (pk_pc s) \<longleftrightarrow> pk_lock s = ByParker"
    "up_pc s i = UnparkUnlock \<longleftrightarrow> pk_lock s = ByUnparker i"
    "pk_pc s \<noteq> ParkPanic" "up_pc s i \<noteq> UnparkPanic"
  using assms unfolding pk_locks_ok_def by blast+

text \<open>
  A thread that has the token and is about to wait, or waits, will be notified: an unparker is
  still before its \<^verbatim>\<open>notify_one\<close>, and before its lock if the thread has not released
  the mutex yet.
\<close>

definition pk_wakes :: "parker \<Rightarrow> bool" where
  "pk_wakes s \<longleftrightarrow> (pk_state s = NOTIFIED \<and> waits (pk_pc s) \<longrightarrow>
     (\<exists>i. if locks (pk_pc s) then up_pc s i = UnparkLock
          else up_pc s i \<in> {UnparkLock, UnparkUnlock, UnparkNotify}))"

fun timely :: "park_pc \<Rightarrow> nat \<Rightarrow> bool" where
  "timely (ParkUnlock d r) now \<longleftrightarrow> (r = Timeout \<longrightarrow> (\<exists>t. d = Some t \<and> t \<le> now))"
| "timely (ParkTimedOut d) now \<longleftrightarrow> (\<exists>t. d = Some t \<and> t \<le> now)"
| "timely _ now \<longleftrightarrow> True"

definition pk_timely :: "parker \<Rightarrow> bool" where
  "pk_timely s \<longleftrightarrow> timely (pk_pc s) (pk_now s) \<and>
     (\<forall>(d, r, now)\<in>set (pk_log s). r = Timeout \<longrightarrow> (\<exists>t. d = Some t \<and> t \<le> now))"

lemma park_state_simps [simp]:
  "EMPTY \<noteq> PARKED" "PARKED \<noteq> EMPTY" "EMPTY \<noteq> NOTIFIED" "NOTIFIED \<noteq> EMPTY"
  "PARKED \<noteq> NOTIFIED" "NOTIFIED \<noteq> PARKED"
  by (simp_all add: EMPTY_def PARKED_def NOTIFIED_def)

lemmas park_defs = park_goto_def park_return_def park_deadline_def park_timeout_def up_goto_def

lemma wake_up_simps [simp]:
  "locks (wake_up c) \<longleftrightarrow> locks c" "announced (wake_up c) \<longleftrightarrow> announced c"
  "wake_up c = ParkPanic \<longleftrightarrow> c = ParkPanic" "wake_up c = ParkSwap d \<longleftrightarrow> c = ParkSwap d"
  "wake_up c = ParkUnlock d r \<longleftrightarrow> c = ParkUnlock d r" "timely (wake_up c) now \<longleftrightarrow> timely c now"
  by (cases c; simp)+

lemma waits_wake_up: "waits (wake_up c) \<Longrightarrow> waits c \<and> locks c"
  by (cases c) simp_all

lemma unpark_swap_eq:
  "pk_state_ok s \<Longrightarrow> unpark_swap i s =
     (if pk_state s = PARKED then up_goto i UnparkLock (s\<lparr>pk_state := NOTIFIED\<rparr>) else s\<lparr>pk_state := NOTIFIED\<rparr>)"
  by (auto simp: unpark_swap_def pk_state_ok_def split: if_splits)

lemma pk_state_ok_step:
  assumes "pk_state_ok s"
  shows "pk_state_ok (park_step e s)"
proof (cases e)
  case ParkTick
  then show ?thesis using assms
    by (cases "pk_pc s") (auto simp: pk_state_ok_def park_defs split: option.splits)
next
  case WakeUp
  then show ?thesis using assms by (auto simp: pk_state_ok_def)
next
  case (Unpark i)
  then show ?thesis using assms
    by (simp add: unpark_swap_eq) (auto simp: pk_state_ok_def park_defs)
next
  case (UnparkTick i)
  then show ?thesis using assms
    by (cases "up_pc s i") (auto simp: pk_state_ok_def park_defs)
qed (use assms in \<open>auto simp: pk_state_ok_def park_defs\<close>)

lemma up_pc_park_tick [simp]: "up_pc (park_tick c s) = up_pc s"
  by (cases c) (auto simp: park_defs split: option.splits)

lemma park_tick_locks:
  assumes "pk_locks_ok s" "pk_state_ok s"
  shows "(locks (pk_pc (park_tick (pk_pc s) s)) \<longleftrightarrow> pk_lock (park_tick (pk_pc s) s) = ByParker) \<and>
    (pk_lock (park_tick (pk_pc s) s) = ByUnparker i \<longleftrightarrow> pk_lock s = ByUnparker i) \<and>
    pk_pc (park_tick (pk_pc s) s) \<noteq> ParkPanic"
proof -
  have "locks (pk_pc s) \<longleftrightarrow> pk_lock s = ByParker" "pk_pc s \<noteq> ParkPanic"
    using assms(1) by (rule pk_locks_okD)+
  with assms(2) show ?thesis
    by (cases "pk_pc s") (auto simp: pk_state_ok_def park_defs split: option.splits)
qed

lemma pk_locks_ok_step:
  assumes "pk_locks_ok s" "pk_state_ok s"
  shows "pk_locks_ok (park_step e s)"
proof (cases e)
  case ParkTick
  then show ?thesis using park_tick_locks [OF assms] pk_locks_okD [OF assms(1)]
    unfolding pk_locks_ok_def by simp
next
  case WakeUp
  then show ?thesis using pk_locks_okD [OF assms(1)] unfolding pk_locks_ok_def by simp
next
  case (Unpark i)
  have "up_pc s i = NotUnparking \<Longrightarrow> pk_lock s \<noteq> ByUnparker i"
    using pk_locks_okD(2) [OF assms(1), of i] by simp
  with Unpark pk_locks_okD [OF assms(1)] assms(2) show ?thesis
    unfolding pk_locks_ok_def by (simp add: unpark_swap_eq park_defs)
next
  case (UnparkTick i)
  note inv = pk_locks_okD [OF assms(1)]
  show ?thesis
  proof (cases "up_pc s i")
    case UnparkLock
    with UnparkTick inv(1,3,4) inv(2) show ?thesis unfolding pk_locks_ok_def
      by (cases "pk_lock s = Free") (simp_all add: park_defs)
  next
    case UnparkUnlock
    have "park_step e s = up_goto i UnparkNotify (s\<lparr>pk_lock := Free\<rparr>)"
      by (simp add: UnparkTick UnparkUnlock)
    moreover have "pk_lock s = ByUnparker i" using UnparkUnlock by (simp add: inv(2))
    ultimately show ?thesis using inv unfolding pk_locks_ok_def by (simp add: park_defs)
  next
    case UnparkNotify
    then have "pk_lock s \<noteq> ByUnparker i" using inv(2) [of i] by simp
    with UnparkTick UnparkNotify inv show ?thesis unfolding pk_locks_ok_def by (simp add: park_defs)
  qed (use UnparkTick inv in \<open>auto simp: pk_locks_ok_def park_defs\<close>)
qed (use pk_locks_okD [OF assms(1)] in \<open>auto simp: pk_locks_ok_def park_defs\<close>)

text \<open>An unparker on its way to \<^verbatim>\<open>notify_one\<close> keeps a waiting thread safe.\<close>

lemma pk_wakes_step:
  assumes "pk_wakes s" "pk_state_ok s" "pk_locks_ok s"
  shows "pk_wakes (park_step e s)"
proof (cases e)
  case ParkTick
  then show ?thesis using assms
    by (cases "pk_pc s")
      (auto simp: pk_wakes_def pk_state_ok_def park_defs split: option.splits)
next
  case WakeUp
  then show ?thesis using assms(1) waits_wake_up [of "pk_pc s"] by (auto simp: pk_wakes_def)
next
  case (Unpark i)
  show ?thesis
  proof (cases "up_pc s i = NotUnparking \<and> pk_state s = PARKED")
    case True
    then show ?thesis using Unpark assms(2)
      by (simp add: unpark_swap_eq) (auto simp: pk_wakes_def park_defs)
  next
    case False
    then have "pk_state s = NOTIFIED" if "waits (pk_pc s)" "up_pc s i = NotUnparking"
      using that assms(2) by (cases "pk_pc s") (auto simp: pk_state_ok_def)
    then show ?thesis using Unpark assms False
      by (auto simp: unpark_swap_eq pk_wakes_def)
  qed
next
  case (UnparkTick i)
  show ?thesis
  proof (cases "up_pc s i = UnparkNotify")
    case True
    have "\<exists>j. j \<noteq> i \<and> up_pc s j = UnparkLock" if "pk_state s = NOTIFIED" "waits (wake_up (pk_pc s))"
      using that waits_wake_up [of "pk_pc s"] assms(1) True
      by (auto simp: pk_wakes_def) (metis unpark_pc.distinct)
    with True show ?thesis using UnparkTick waits_wake_up [of "pk_pc s"]
      by (auto simp: pk_wakes_def park_defs)
  next
    case False
    have nl: "\<not> locks (pk_pc s)" if "pk_lock s \<noteq> ByParker"
      using that pk_locks_okD(1) [OF assms(3)] by simp
    have "pk_lock s = ByUnparker i" if "up_pc s i = UnparkUnlock"
      using that pk_locks_okD(2) [OF assms(3)] by simp
    with False UnparkTick assms(1) nl show ?thesis
      by (cases "up_pc s i") (auto simp: pk_wakes_def park_defs split: if_splits)
  qed
qed (use assms(1) in \<open>auto simp: pk_wakes_def park_defs\<close>)

lemma pk_timely_step: "pk_timely s \<Longrightarrow> pk_timely (park_step e s)"
proof (cases e)
  case ParkTick
  assume "pk_timely s"
  with ParkTick show ?thesis
    by (cases "pk_pc s") (auto simp: pk_timely_def park_defs split: option.splits)
next
  case Clock
  have "timely c n \<Longrightarrow> timely c (Suc n)" for c n by (cases c) auto
  moreover assume "pk_timely s"
  ultimately show ?thesis using Clock by (auto simp: pk_timely_def)
next
  case (UnparkTick i)
  assume "pk_timely s"
  with UnparkTick show ?thesis by (cases "up_pc s i") (auto simp: pk_timely_def park_defs)
next
  case (Unpark i)
  assume "pk_timely s"
  with Unpark show ?thesis by (auto simp: pk_timely_def park_defs unpark_swap_def Let_def)
qed (auto simp: pk_timely_def park_defs)

definition pk_inv :: "parker \<Rightarrow> bool" where
  "pk_inv s \<longleftrightarrow> pk_state_ok s \<and> pk_locks_ok s \<and> pk_wakes s \<and> pk_timely s"

interpretation pk: invariant_system park_step pk_inv
  by unfold_locales
    (simp add: pk_inv_def pk_state_ok_step pk_locks_ok_step pk_wakes_step pk_timely_step)

lemma pk_inv_new: "pk_inv parker_new"
  by (simp add: pk_inv_def parker_new_def pk_state_ok_def pk_locks_ok_def pk_wakes_def pk_timely_def)

lemmas pk_inv_run = pk.run_inv [OF pk_inv_new]

section \<open>Tokens\<close>

text \<open>Tokens handed to a return of \<^verbatim>\<open>park\<close>, being returned, or in the state.\<close>

definition unparked_returns :: "parker \<Rightarrow> nat" where
  "unparked_returns s = length (filter (\<lambda>(d, r, t). r = Unparked) (pk_log s))"

definition tokens :: "parker \<Rightarrow> nat" where
  "tokens s = unparked_returns s + of_bool (\<exists>d. pk_pc s = ParkUnlock d Unparked) +
     of_bool (pk_state s = NOTIFIED)"

fun is_unpark :: "park_event \<Rightarrow> bool" where
  "is_unpark (Unpark i) = True" | "is_unpark _ = False"

lemma tokens_step: "tokens (park_step e s) \<le> tokens s + of_bool (is_unpark e)"
proof (cases e)
  case ParkTick
  then show ?thesis
    by (cases "pk_pc s")
      (auto simp: tokens_def unparked_returns_def park_defs split: option.splits)
next
  case (UnparkTick i)
  then show ?thesis by (cases "up_pc s i") (auto simp: tokens_def unparked_returns_def park_defs)
qed (auto simp: tokens_def unparked_returns_def park_defs unpark_swap_def Let_def)

lemma tokens_run:
  "tokens (impl_run park_step es s) \<le> tokens s + length (filter is_unpark es)"
proof (induction es arbitrary: s)
  case (Cons e es)
  show ?case using Cons.IH [of "park_step e s"] tokens_step [of e s] by (cases "is_unpark e") simp_all
qed simp

section \<open>Returning\<close>

definition drains :: "nat \<Rightarrow> parker \<Rightarrow> bool" where
  "drains m s \<longleftrightarrow> (\<exists>n\<le>m. pk_pc (impl_run park_step (replicate n ParkTick) s) = NotParking)"

lemma drains_tick: "drains m (park_tick (pk_pc s) s) \<Longrightarrow> drains (Suc m) s"
  unfolding drains_def
proof (elim exE conjE)
  fix n assume "n \<le> m" "pk_pc (impl_run park_step (replicate n ParkTick) (park_tick (pk_pc s) s)) = NotParking"
  then show "\<exists>n\<le>Suc m. pk_pc (impl_run park_step (replicate n ParkTick) s) = NotParking"
    by (intro exI [of _ "Suc n"]) simp
qed

lemma drains_idle: "pk_pc s = NotParking \<Longrightarrow> drains m s"
  by (auto simp: drains_def intro: exI [of _ 0])

lemma drains_ticks:
  shows "pk_pc s = NotParking \<Longrightarrow> drains m s"
    and "pk_pc s = ParkUnlock d r \<Longrightarrow> drains 5 s"
    and "pk_pc s = ParkCheck d \<Longrightarrow> pk_state s = NOTIFIED \<Longrightarrow> drains 5 s"
    and "pk_pc s = ParkTimedOut d \<Longrightarrow> pk_state s = NOTIFIED \<Longrightarrow> drains 5 s"
    and "pk_pc s = ParkWoken d \<Longrightarrow> pk_state s = NOTIFIED \<Longrightarrow> pk_lock s = Free \<Longrightarrow> drains 5 s"
    and "pk_pc s = ParkSwap d \<Longrightarrow> pk_state s = NOTIFIED \<Longrightarrow> drains 5 s"
    and "pk_pc s = ParkCas d \<Longrightarrow> pk_state s = NOTIFIED \<Longrightarrow> drains 5 s"
    and "pk_pc s = ParkLock d \<Longrightarrow> pk_state s = NOTIFIED \<Longrightarrow> pk_lock s = Free \<Longrightarrow> drains 5 s"
    and "pk_pc s = ParkNow d \<Longrightarrow> pk_state s = NOTIFIED \<Longrightarrow> pk_lock s = Free \<Longrightarrow> drains 5 s"
    and "pk_pc s = ParkFast d \<Longrightarrow> pk_state s = NOTIFIED \<Longrightarrow> drains 5 s"
proof -
  have unlock: "pk_pc s = ParkUnlock d r \<Longrightarrow> drains (Suc m) s" for m s d r
    by (rule drains_tick) (simp add: drains_idle park_defs)
  have check: "pk_pc s = ParkCheck d \<or> pk_pc s = ParkTimedOut d \<or> pk_pc s = ParkSwap d \<Longrightarrow>
      pk_state s = NOTIFIED \<Longrightarrow> drains (Suc (Suc m)) s" for m s d
    by (rule drains_tick, rule unlock [of _ d Unparked]) (auto simp: park_defs)
  have woken: "pk_pc s = ParkWoken d \<or> pk_pc s = ParkCas d \<Longrightarrow>
      pk_state s = NOTIFIED \<Longrightarrow> locks (pk_pc s) \<or> pk_lock s = Free \<Longrightarrow> drains (Suc (Suc (Suc m))) s" for m s d
    by (rule drains_tick, rule check [of _ d]) (auto simp: park_defs)
  have lock: "pk_pc s = ParkLock d \<Longrightarrow> pk_state s = NOTIFIED \<Longrightarrow> pk_lock s = Free \<Longrightarrow>
      drains (Suc (Suc (Suc (Suc m)))) s" for m s d
    by (rule drains_tick, rule woken [of _ d]) (auto simp: park_defs)
  have now: "pk_pc s = ParkNow d \<Longrightarrow> pk_state s = NOTIFIED \<Longrightarrow> pk_lock s = Free \<Longrightarrow>
      drains (Suc (Suc (Suc (Suc (Suc m))))) s" for m s d
    by (rule drains_tick, cases d) (auto simp: park_defs intro: drains_idle lock)
  have fast: "pk_pc s = ParkFast d \<Longrightarrow> pk_state s = NOTIFIED \<Longrightarrow> drains (Suc m) s" for m s d
    by (rule drains_tick) (simp add: drains_idle park_defs)
  have five: "5 = Suc (Suc (Suc (Suc (Suc 0))))" by simp
  show "pk_pc s = NotParking \<Longrightarrow> drains m s"
    and "pk_pc s = ParkUnlock d r \<Longrightarrow> drains 5 s"
    and "pk_pc s = ParkCheck d \<Longrightarrow> pk_state s = NOTIFIED \<Longrightarrow> drains 5 s"
    and "pk_pc s = ParkTimedOut d \<Longrightarrow> pk_state s = NOTIFIED \<Longrightarrow> drains 5 s"
    and "pk_pc s = ParkWoken d \<Longrightarrow> pk_state s = NOTIFIED \<Longrightarrow> pk_lock s = Free \<Longrightarrow> drains 5 s"
    and "pk_pc s = ParkSwap d \<Longrightarrow> pk_state s = NOTIFIED \<Longrightarrow> drains 5 s"
    and "pk_pc s = ParkCas d \<Longrightarrow> pk_state s = NOTIFIED \<Longrightarrow> drains 5 s"
    and "pk_pc s = ParkLock d \<Longrightarrow> pk_state s = NOTIFIED \<Longrightarrow> pk_lock s = Free \<Longrightarrow> drains 5 s"
    and "pk_pc s = ParkNow d \<Longrightarrow> pk_state s = NOTIFIED \<Longrightarrow> pk_lock s = Free \<Longrightarrow> drains 5 s"
    and "pk_pc s = ParkFast d \<Longrightarrow> pk_state s = NOTIFIED \<Longrightarrow> drains 5 s"
    unfolding five by (auto intro: drains_idle unlock check woken lock now fast)
qed

section \<open>Properties\<close>

text \<open>
  C19: a \<^verbatim>\<open>Parker\<close> never panics, whatever the interleaving of one parking thread, any
  number of unparking threads, spurious wake-ups and timeouts; and no wake-up is lost: a thread that
  waits on the condition variable while no call of \<^verbatim>\<open>unpark\<close> is in progress has no
  token to take (the state is \<^verbatim>\<open>PARKED\<close>), and whenever the token is there and the calls of
  \<^verbatim>\<open>unpark\<close> have finished, at most five steps of the parking thread alone make
  \<^verbatim>\<open>park\<close> return.
\<close>

theorem parker_no_lost_wakeup:
  "let s = impl_run park_step es parker_new in
     pk_pc s \<noteq> ParkPanic \<and> up_pc s i \<noteq> UnparkPanic \<and>
     ((\<forall>i. up_pc s i = NotUnparking) \<longrightarrow>
       (\<forall>d. pk_pc s = ParkWaiting d \<longrightarrow> pk_state s = PARKED) \<and>
       (pk_state s = NOTIFIED \<longrightarrow>
          (\<exists>n\<le>5. pk_pc (impl_run park_step (replicate n ParkTick) s) = NotParking)))"
proof -
  define s where "s = impl_run park_step es parker_new"
  have inv: "pk_state_ok s" "pk_locks_ok s" "pk_wakes s"
    using pk_inv_run [of es] by (auto simp: pk_inv_def s_def)
  have wait: "pk_state s = PARKED" if "\<forall>i. up_pc s i = NotUnparking" "pk_pc s = ParkWaiting d" for d
    using inv(1,3) that by (auto simp: pk_state_ok_def pk_wakes_def)
  have "drains 5 s" if idle: "\<forall>i. up_pc s i = NotUnparking" and tok: "pk_state s = NOTIFIED"
  proof -
    have free: "pk_lock s = (if locks (pk_pc s) then ByParker else Free)"
      using pk_locks_okD [OF inv(2)] idle by (cases "pk_lock s") auto
    have ready: "\<not> waits (pk_pc s)" "pk_pc s \<noteq> ParkPanic"
      using inv(3) idle tok pk_locks_okD(3) [OF inv(2)] by (auto simp: pk_wakes_def split: if_splits)
    then show ?thesis
      using free tok by (cases "pk_pc s") (auto intro: drains_ticks)
  qed
  with wait pk_locks_okD(3,4) [OF inv(2)] show ?thesis
    unfolding Let_def s_def [symmetric] drains_def by blast
qed

theorem parker_no_lost_wakeup_witness:
  "pk_state (impl_run park_step [Park None, ParkTick, Unpark 7] parker_new) = NOTIFIED \<and>
   (\<exists>n\<le>5. pk_pc (impl_run park_step (replicate n ParkTick)
      (impl_run park_step [Park None, ParkTick, Unpark 7] parker_new)) = NotParking)"
proof -
  have st: "pk_state (impl_run park_step [Park None, ParkTick, Unpark 7] parker_new) = NOTIFIED"
    by (simp add: parker_new_def park_defs unpark_swap_def)
  have idle: "\<forall>i. up_pc (impl_run park_step [Park None, ParkTick, Unpark 7] parker_new) i = NotUnparking"
    by (simp add: parker_new_def park_defs unpark_swap_def)
  from st idle parker_no_lost_wakeup [of "[Park None, ParkTick, Unpark 7]" 0] show ?thesis
    unfolding Let_def by blast
qed

text \<open>
  C20: tokens do not accumulate and are not invented. In every run, the calls of
  \<^verbatim>\<open>park\<close> that returned \<^verbatim>\<open>Unparked\<close> are at most as many as the calls of
  \<^verbatim>\<open>unpark\<close>, and a call returned \<^verbatim>\<open>Timeout\<close> only when it had a deadline
  that has passed; in particular \<^verbatim>\<open>park\<close> and a \<^verbatim>\<open>park_timeout\<close> whose
  deadline overflows only return \<^verbatim>\<open>Unparked\<close>.
\<close>

theorem parker_tokens:
  "let s = impl_run park_step es parker_new in
     unparked_returns s \<le> length (filter is_unpark es) \<and>
     list_all (\<lambda>(deadline, reason, now). reason = Unparked \<or> (case deadline of None \<Rightarrow> False | Some t \<Rightarrow> t \<le> now))
       (pk_log s)"
proof -
  have "unparked_returns (impl_run park_step es parker_new) \<le> length (filter is_unpark es)"
    using tokens_run [of es parker_new]
    by (simp add: tokens_def parker_new_def unparked_returns_def)
  moreover have "pk_timely (impl_run park_step es parker_new)"
    using pk_inv_run [of es] by (simp add: pk_inv_def)
  then have "list_all (\<lambda>(deadline, reason, now). reason = Unparked \<or> (case deadline of None \<Rightarrow> False | Some t \<Rightarrow> t \<le> now))
       (pk_log (impl_run park_step es parker_new))"
    unfolding pk_timely_def list_all_iff
    by (force split: option.split intro: unpark_reason.exhaust)
  ultimately show ?thesis by (simp add: Let_def)
qed

end
