(* ===== verification/Wait_Group.thy ===== *)
theory Wait_Group
  imports Atomic_Object
begin

text \<open>
  \<^verbatim>\<open>crossbeam-utils/src/sync/wait_group.rs\<close>. A reference of a
  \<^verbatim>\<open>WaitGroup\<close> is consumed by \<^verbatim>\<open>wait\<close> or \<^verbatim>\<open>drop\<close> and
  multiplied by \<^verbatim>\<open>clone\<close>; references are numbered, and \<open>wg_pc\<close> says where the
  call that consumes a reference has got to. A tick is one access to the counter, one operation on the
  mutex, or one on the condition variable, which behave as documented by the standard library:
  \<^verbatim>\<open>wait\<close> releases the mutex and starts waiting in one step, and may wake up spuriously.
  \<open>wg_arcs\<close> is the strong count of the \<^verbatim>\<open>Arc\<close>, whose \<^verbatim>\<open>clone\<close>
  aborts the process above \<^verbatim>\<open>isize::MAX\<close>.
\<close>

datatype wg_pc =
    NoRef | Held
  | WaitLock | WaitLoad | WaitSleep | WaitWaiting | WaitWoken | WaitUnlock
  | NotifyLock bool | NotifyUnlock bool | NotifyAll bool
  | Gone

record wait_group =
  wg_count :: usize
  wg_lock :: "nat option"
  wg_arcs :: nat
  wg_pc :: "nat \<Rightarrow> wg_pc"
  wg_returned :: "nat list"
  wg_aborted :: bool

definition wg_new :: wait_group where
  "wg_new = \<lparr>wg_count = 1, wg_lock = None, wg_arcs = 1, wg_pc = (\<lambda>_. NoRef)(0 := Held),
     wg_returned = [], wg_aborted = False\<rparr>"

definition wg_goto :: "nat \<Rightarrow> wg_pc \<Rightarrow> wait_group \<Rightarrow> wait_group" where
  "wg_goto r c s = s\<lparr>wg_pc := (wg_pc s)(r := c)\<rparr>"

text \<open>The end of a call that consumes a reference: its \<^verbatim>\<open>Arc\<close> is dropped.\<close>

definition wg_finish :: "nat \<Rightarrow> bool \<Rightarrow> wait_group \<Rightarrow> wait_group" where
  "wg_finish r waited s = wg_goto r Gone
     (s\<lparr>wg_arcs := wg_arcs s - 1, wg_returned := (if waited then wg_returned s @ [r] else wg_returned s)\<rparr>)"

definition wg_clone :: "nat \<Rightarrow> nat \<Rightarrow> wait_group \<Rightarrow> wait_group" where
  "wg_clone r r' s =
     (if wg_pc s r = Held \<and> wg_pc s r' = NoRef then
        let s1 = s\<lparr>wg_count := wg_count s + 1\<rparr> in
        if wg_arcs s > 2 ^ 63 - 1 then s1\<lparr>wg_aborted := True\<rparr>
        else wg_goto r' Held (s1\<lparr>wg_arcs := wg_arcs s + 1\<rparr>)
      else s)"

definition wg_wait :: "nat \<Rightarrow> wait_group \<Rightarrow> wait_group" where
  "wg_wait r s =
     (if wg_pc s r = Held then
        let old = wg_count s; s1 = s\<lparr>wg_count := old - 1\<rparr> in
        if old = 1 then wg_goto r (NotifyLock True) s1 else wg_goto r WaitLock s1
      else s)"

definition wg_drop :: "nat \<Rightarrow> wait_group \<Rightarrow> wait_group" where
  "wg_drop r s =
     (if wg_pc s r = Held then
        let old = wg_count s; s1 = s\<lparr>wg_count := old - 1\<rparr> in
        if old = 1 then wg_goto r (NotifyLock False) s1 else wg_finish r False s1
      else s)"

fun wg_wake :: "wg_pc \<Rightarrow> wg_pc" where
  "wg_wake WaitWaiting = WaitWoken"
| "wg_wake c = c"

fun wg_tick :: "nat \<Rightarrow> wg_pc \<Rightarrow> wait_group \<Rightarrow> wait_group" where
  "wg_tick r WaitLock s =
     (if wg_lock s = None then wg_goto r WaitLoad (s\<lparr>wg_lock := Some r\<rparr>) else s)"
| "wg_tick r WaitLoad s =
     (if wg_count s \<noteq> 0 then wg_goto r WaitSleep s else wg_goto r WaitUnlock s)"
| "wg_tick r WaitSleep s = wg_goto r WaitWaiting (s\<lparr>wg_lock := None\<rparr>)"
| "wg_tick r WaitWoken s =
     (if wg_lock s = None then wg_goto r WaitLoad (s\<lparr>wg_lock := Some r\<rparr>) else s)"
| "wg_tick r WaitUnlock s = wg_finish r True (s\<lparr>wg_lock := None\<rparr>)"
| "wg_tick r (NotifyLock w) s =
     (if wg_lock s = None then wg_goto r (NotifyUnlock w) (s\<lparr>wg_lock := Some r\<rparr>) else s)"
| "wg_tick r (NotifyUnlock w) s = wg_goto r (NotifyAll w) (s\<lparr>wg_lock := None\<rparr>)"
| "wg_tick r (NotifyAll w) s = wg_finish r w (s\<lparr>wg_pc := \<lambda>q. wg_wake (wg_pc s q)\<rparr>)"
| "wg_tick r _ s = s"

datatype wg_event = WgClone nat nat | WgWait nat | WgDrop nat | WgTick nat | WgSpurious nat

fun wg_apply :: "wg_event \<Rightarrow> wait_group \<Rightarrow> wait_group" where
  "wg_apply (WgClone r r') s = wg_clone r r' s"
| "wg_apply (WgWait r) s = wg_wait r s"
| "wg_apply (WgDrop r) s = wg_drop r s"
| "wg_apply (WgTick r) s = wg_tick r (wg_pc s r) s"
| "wg_apply (WgSpurious r) s = wg_goto r (wg_wake (wg_pc s r)) s"

definition wg_step :: "wg_event \<Rightarrow> wait_group \<Rightarrow> wait_group" where
  "wg_step e s = (if wg_aborted s then s else wg_apply e s)"

section \<open>Counting\<close>

definition held :: "wait_group \<Rightarrow> nat set" where
  "held s = {r. wg_pc s r = Held}"

definition alive :: "wait_group \<Rightarrow> nat set" where
  "alive s = {r. wg_pc s r \<noteq> NoRef \<and> wg_pc s r \<noteq> Gone}"

definition wg_counts :: "wait_group \<Rightarrow> bool" where
  "wg_counts s \<longleftrightarrow> finite (alive s) \<and> wg_arcs s = card (alive s) \<and> wg_arcs s \<le> 2 ^ 63 \<and>
     (\<not> wg_aborted s \<longrightarrow> unat (wg_count s) = card (held s))"

lemmas wg_defs = wg_goto_def wg_finish_def

lemma wg_goto_frame [simp]:
  "wg_count (wg_goto r c s) = wg_count s" "wg_arcs (wg_goto r c s) = wg_arcs s"
  "wg_lock (wg_goto r c s) = wg_lock s" "wg_aborted (wg_goto r c s) = wg_aborted s"
  "wg_returned (wg_goto r c s) = wg_returned s" "wg_pc (wg_goto r c s) = (wg_pc s)(r := c)"
  by (simp_all add: wg_goto_def)

lemma held_alive: "held s \<subseteq> alive s"
  by (auto simp: held_def alive_def)

lemma held_simps [simp]:
  "held (wg_goto r c s) = (if c = Held then insert r (held s) else held s - {r})"
  "held (s\<lparr>wg_count := n\<rparr>) = held s" "held (s\<lparr>wg_arcs := m\<rparr>) = held s"
  "held (s\<lparr>wg_lock := l\<rparr>) = held s" "held (s\<lparr>wg_aborted := b\<rparr>) = held s"
  "held (s\<lparr>wg_returned := rs\<rparr>) = held s"
  by (auto simp: held_def wg_goto_def)

lemma alive_simps [simp]:
  "alive (wg_goto r c s) = (if c \<noteq> NoRef \<and> c \<noteq> Gone then insert r (alive s) else alive s - {r})"
  "alive (s\<lparr>wg_count := n\<rparr>) = alive s" "alive (s\<lparr>wg_arcs := m\<rparr>) = alive s"
  "alive (s\<lparr>wg_lock := l\<rparr>) = alive s" "alive (s\<lparr>wg_aborted := b\<rparr>) = alive s"
  "alive (s\<lparr>wg_returned := rs\<rparr>) = alive s"
  by (auto simp: alive_def wg_goto_def)

lemma wg_wake_simps [simp]:
  "wg_wake c = Held \<longleftrightarrow> c = Held" "wg_wake c = NoRef \<longleftrightarrow> c = NoRef" "wg_wake c = Gone \<longleftrightarrow> c = Gone"
  "wg_wake c = WaitUnlock \<longleftrightarrow> c = WaitUnlock" "wg_wake c = WaitSleep \<longleftrightarrow> c = WaitSleep"
  "wg_wake c = NotifyLock w \<longleftrightarrow> c = NotifyLock w" "wg_wake c = NotifyUnlock w \<longleftrightarrow> c = NotifyUnlock w"
  "wg_wake c = NotifyAll w \<longleftrightarrow> c = NotifyAll w" "wg_wake c \<noteq> WaitWaiting"
  by (cases c; simp)+

lemma held_alive_wake [simp]:
  "held (s\<lparr>wg_pc := \<lambda>q. wg_wake (wg_pc s q)\<rparr>) = held s"
  "alive (s\<lparr>wg_pc := \<lambda>q. wg_wake (wg_pc s q)\<rparr>) = alive s"
  by (simp_all add: held_def alive_def)

lemma not_held: "wg_pc s r \<noteq> Held \<Longrightarrow> held s - {r} = held s"
  by (auto simp: held_def)

lemma alive_insert: "wg_pc s r \<noteq> NoRef \<Longrightarrow> wg_pc s r \<noteq> Gone \<Longrightarrow> insert r (alive s) = alive s"
  by (auto simp: alive_def)

lemma finite_held: "wg_counts s \<Longrightarrow> finite (held s)"
  using held_alive [of s] by (auto simp: wg_counts_def intro: finite_subset)

lemma held_bound: "wg_counts s \<Longrightarrow> card (held s) \<le> 2 ^ 63"
  using card_mono [OF _ held_alive, of s] by (simp add: wg_counts_def)

text \<open>A step that gives up a held reference.\<close>

lemma counts_consume:
  assumes "wg_counts s" "wg_pc s r = Held" "\<not> wg_aborted s"
  shows "unat (wg_count s - 1) = card (held s - {r})" "wg_count s = 1 \<longleftrightarrow> held s = {r}"
proof -
  have r: "r \<in> held s" using assms(2) by (simp add: held_def)
  have u: "unat (wg_count s) = card (held s)" using assms by (simp add: wg_counts_def)
  have pos: "card (held s) > 0" using r finite_held [OF assms(1)] by (auto simp: card_gt_0_iff)
  have "wg_count s \<noteq> 0" using u pos by (auto simp flip: unsigned_eq_0_iff)
  then show "unat (wg_count s - 1) = card (held s - {r})"
    using u r finite_held [OF assms(1)] by (simp add: unat_minus_one)
  have "wg_count s = 1 \<longleftrightarrow> card (held s) = 1" using u by (metis unat_1 unsigned_word_eqI)
  then show "wg_count s = 1 \<longleftrightarrow> held s = {r}" using r by (auto simp: card_1_singleton_iff)
qed

lemma wg_count_zero:
  assumes "wg_counts s" "\<not> wg_aborted s"
  shows "wg_count s = 0 \<longleftrightarrow> held s = {}"
proof -
  have "wg_count s = 0 \<longleftrightarrow> unat (wg_count s) = 0" by (simp add: unsigned_eq_0_iff)
  also have "\<dots> \<longleftrightarrow> held s = {}" using assms finite_held [OF assms(1)] by (simp add: wg_counts_def)
  finally show ?thesis .
qed

lemma wg_goto_same: "wg_goto r (wg_pc s r) s = s"
  by (cases s) (simp add: wg_goto_def)

lemma wg_spurious: "wg_goto r (wg_wake (wg_pc s r)) s = (if wg_pc s r = WaitWaiting then wg_goto r WaitWoken s else s)"
  using wg_goto_same [of r s] by (cases "wg_pc s r") simp_all

lemma wg_counts_finish:
  assumes "wg_counts s" "wg_pc s r \<noteq> NoRef" "wg_pc s r \<noteq> Gone"
    and "unat n = card (held s - {r})" "s' = s\<lparr>wg_count := n\<rparr>"
  shows "wg_counts (wg_finish r w s')"
proof -
  have "r \<in> alive s" using assms by (simp add: alive_def)
  with assms show ?thesis
    by (auto simp: wg_counts_def wg_finish_def card_Diff_singleton)
qed

lemma wg_counts_clone:
  assumes "wg_counts s" "\<not> wg_aborted s"
  shows "wg_counts (wg_clone r r' s)"
proof (cases "wg_pc s r = Held \<and> wg_pc s r' = NoRef \<and> wg_arcs s \<le> 2 ^ 63 - 1")
  case True
  then have new: "r' \<notin> held s" "r' \<notin> alive s" by (auto simp: held_def alive_def)
  have "card (held s) \<le> 2 ^ 63" by (rule held_bound [OF assms(1)])
  then have "unat (wg_count s + 1) = Suc (card (held s))"
    using assms by (simp add: wg_counts_def unat_word_ariths)
  with assms True new finite_held [OF assms(1)] show ?thesis
    by (auto simp: wg_clone_def wg_counts_def Let_def)
next
  case False
  with assms show ?thesis by (auto simp: wg_clone_def wg_counts_def Let_def)
qed

lemma wg_counts_lock [simp]: "wg_counts (s\<lparr>wg_lock := l\<rparr>) \<longleftrightarrow> wg_counts s"
  by (simp add: wg_counts_def)

lemma wg_counts_goto:
  assumes "wg_counts s" "wg_pc s r \<noteq> NoRef" "wg_pc s r \<noteq> Gone" "wg_pc s r \<noteq> Held"
    and "c \<noteq> NoRef" "c \<noteq> Gone" "c \<noteq> Held"
  shows "wg_counts (wg_goto r c s)"
  using assms by (simp add: wg_counts_def alive_insert not_held)

lemma wg_counts_step:
  assumes "wg_counts s"
  shows "wg_counts (wg_step e s)"
proof (cases "wg_aborted s")
  case live: False
  show ?thesis
  proof (cases e)
    case (WgClone r r')
    with assms live show ?thesis by (simp add: wg_step_def wg_counts_clone)
  next
    case (WgWait r)
    with assms live counts_consume(1) [OF assms _ live, of r] show ?thesis
      by (auto simp: wg_step_def wg_wait_def wg_counts_def Let_def alive_insert)
  next
    case (WgDrop r)
    show ?thesis
    proof (cases "wg_pc s r = Held")
      case True
      with wg_counts_finish [OF assms, of r "wg_count s - 1"] counts_consume(1) [OF assms True live] assms
      show ?thesis
        by (auto simp: WgDrop wg_step_def live wg_drop_def Let_def) (auto simp: wg_counts_def alive_insert)
    qed (use assms live WgDrop in \<open>simp add: wg_step_def wg_drop_def\<close>)
  next
    case (WgTick r)
    have fin: "wg_counts (wg_finish r w (s\<lparr>wg_lock := None\<rparr>))"
      "wg_counts (wg_finish r w (s\<lparr>wg_pc := \<lambda>q. wg_wake (wg_pc s q)\<rparr>))"
      if "wg_pc s r \<noteq> NoRef" "wg_pc s r \<noteq> Gone" "wg_pc s r \<noteq> Held" for w
    proof -
      have "r \<in> alive s" using that by (simp add: alive_def)
      then show "wg_counts (wg_finish r w (s\<lparr>wg_lock := None\<rparr>))"
        "wg_counts (wg_finish r w (s\<lparr>wg_pc := \<lambda>q. wg_wake (wg_pc s q)\<rparr>))"
        using assms that by (auto simp: wg_counts_def wg_finish_def card_Diff_singleton not_held)
    qed
    show ?thesis
      using assms live WgTick fin by (cases "wg_pc s r") (auto simp: wg_step_def intro: wg_counts_goto)
  next
    case (WgSpurious r)
    with assms live WgSpurious show ?thesis
      by (auto simp: wg_step_def wg_spurious intro: wg_counts_goto)
  qed
qed (use assms in \<open>simp add: wg_step_def\<close>)

section \<open>Locking and waking\<close>

fun wg_locks :: "wg_pc \<Rightarrow> bool" where
  "wg_locks WaitLoad = True" | "wg_locks WaitSleep = True" | "wg_locks WaitUnlock = True"
| "wg_locks (NotifyUnlock w) = True" | "wg_locks _ = False"

fun notifies :: "wg_pc \<Rightarrow> bool" where
  "notifies (NotifyLock w) = True" | "notifies (NotifyUnlock w) = True"
| "notifies (NotifyAll w) = True" | "notifies _ = False"

fun notify_lock :: "wg_pc \<Rightarrow> bool" where
  "notify_lock (NotifyLock w) = True" | "notify_lock _ = False"

definition wg_excl :: "wait_group \<Rightarrow> bool" where
  "wg_excl s \<longleftrightarrow> (\<forall>r. wg_lock s = Some r \<longleftrightarrow> wg_locks (wg_pc s r))"

definition wg_done :: "wait_group \<Rightarrow> bool" where
  "wg_done s \<longleftrightarrow> (held s \<noteq> {} \<longrightarrow> wg_returned s = [] \<and>
     (\<forall>r. \<not> notifies (wg_pc s r) \<and> wg_pc s r \<noteq> WaitUnlock))"

definition wg_wakes :: "wait_group \<Rightarrow> bool" where
  "wg_wakes s \<longleftrightarrow> (held s = {} \<longrightarrow>
     (\<forall>r. wg_pc s r = WaitWaiting \<longrightarrow> (\<exists>q. notifies (wg_pc s q))) \<and>
     (\<forall>r. wg_pc s r = WaitSleep \<longrightarrow> (\<exists>q. notify_lock (wg_pc s q))))"

lemma wg_excl_step:
  assumes "wg_excl s"
  shows "wg_excl (wg_step e s)"
proof -
  have ex: "wg_lock s = Some r \<longleftrightarrow> wg_locks (wg_pc s r)" for r using assms by (simp add: wg_excl_def)
  have wk: "wg_locks (wg_wake c) \<longleftrightarrow> wg_locks c" for c by (cases c) simp_all
  show ?thesis
  proof (cases e)
    case (WgTick r)
    have "wg_excl (wg_tick r (wg_pc s r) s)"
    proof (cases "wg_locks (wg_pc s r)")
      case True
      then have "\<not> wg_locks (wg_pc s q)" if "q \<noteq> r" for q using that ex [of r] ex [of q] by simp
      with True ex [of r] show ?thesis
        by (cases "wg_pc s r") (auto simp: wg_excl_def wg_finish_def)
    next
      case False
      show ?thesis
      proof (cases "wg_lock s")
        case None
        then have "\<not> wg_locks (wg_pc s q)" for q using ex [of q] by simp
        with False None show ?thesis by (cases "wg_pc s r") (auto simp: wg_excl_def wg_finish_def wk)
      next
        case (Some q)
        with False ex have "q \<noteq> r" by auto
        with False Some ex show ?thesis
          by (cases "wg_pc s r") (auto simp: wg_excl_def wg_finish_def wk)
      qed
    qed
    then show ?thesis using assms by (simp add: WgTick wg_step_def)
  next
    case (WgClone r r')
    with ex [of r'] ex show ?thesis
      by (auto simp: wg_step_def wg_clone_def wg_excl_def Let_def)
  next
    case (WgWait r)
    with ex [of r] ex show ?thesis by (auto simp: wg_step_def wg_wait_def wg_excl_def Let_def)
  next
    case (WgDrop r)
    with ex [of r] ex show ?thesis
      by (auto simp: wg_step_def wg_drop_def wg_finish_def wg_excl_def Let_def)
  next
    case (WgSpurious r)
    with ex show ?thesis by (auto simp: wg_step_def wg_excl_def wk)
  qed
qed

lemma wake_kinds [simp]:
  "notifies (wg_wake c) \<longleftrightarrow> notifies c" "notify_lock (wg_wake c) \<longleftrightarrow> notify_lock c"
  by (cases c; simp)+

lemma wg_done_step:
  assumes "wg_done s" "wg_counts s"
  shows "wg_done (wg_step e s)"
proof (cases "wg_aborted s")
  case live: False
  note c1 = counts_consume(2) [OF assms(2) _ live]
  show ?thesis
  proof (cases e)
    case (WgTick r)
    have "wg_count s = 0 \<longleftrightarrow> held s = {}"
      by (rule wg_count_zero [OF assms(2) live])
    moreover have "held s \<noteq> {} \<Longrightarrow> \<not> notifies (wg_pc s r) \<and> wg_pc s r \<noteq> WaitUnlock"
      using assms(1) by (simp add: wg_done_def)
    ultimately show ?thesis using assms(1) live WgTick
      by (cases "wg_pc s r") (auto simp: wg_step_def wg_done_def wg_finish_def not_held)
  next
    case (WgClone r r')
    then show ?thesis using assms(1) live
      by (auto simp: wg_step_def wg_done_def wg_clone_def Let_def held_def)
  next
    case (WgWait r)
    then show ?thesis using assms(1) live c1 [of r]
      by (auto simp: wg_step_def wg_done_def wg_wait_def Let_def)
  next
    case (WgDrop r)
    then show ?thesis using assms(1) live c1 [of r]
      by (auto simp: wg_step_def wg_done_def wg_drop_def wg_finish_def Let_def)
  next
    case (WgSpurious r)
    then show ?thesis using assms(1) live
      by (auto simp: wg_step_def wg_done_def wg_spurious not_held)
  qed
qed (use assms in \<open>simp add: wg_step_def\<close>)

text \<open>What a call that consumes a reference leaves: other references, or a notifier.\<close>

lemma wg_wakes_intro:
  "(held s = {} \<Longrightarrow> \<exists>q. notify_lock (wg_pc s q)) \<Longrightarrow> wg_wakes s"
proof -
  have "notify_lock c \<Longrightarrow> notifies c" for c by (cases c) simp_all
  then show "(held s = {} \<Longrightarrow> \<exists>q. notify_lock (wg_pc s q)) \<Longrightarrow> wg_wakes s"
    unfolding wg_wakes_def by blast
qed

lemma wg_wakes_consume:
  assumes "wg_counts s" "\<not> wg_aborted s" "wg_wakes s"
  shows "wg_wakes (wg_wait r s)" "wg_wakes (wg_drop r s)"
proof -
  have c: "wg_count s = 1 \<longleftrightarrow> held s = {r}" if "wg_pc s r = Held"
    using counts_consume(2) [OF assms(1) that assms(2)] .
  have ne: "r \<in> held s" if "wg_pc s r = Held" using that by (simp add: held_def)
  have "\<exists>q. notify_lock (wg_pc (wg_wait r s) q)" if "wg_pc s r = Held" "held (wg_wait r s) = {}"
  proof (rule exI [of _ r])
    have "held s = {r}" using that c ne by (auto simp: wg_wait_def Let_def split: if_splits)
    then show "notify_lock (wg_pc (wg_wait r s) r)" using that c by (simp add: wg_wait_def)
  qed
  moreover have "\<exists>q. notify_lock (wg_pc (wg_drop r s) q)" if "wg_pc s r = Held" "held (wg_drop r s) = {}"
  proof (rule exI [of _ r])
    have "held s = {r}" using that c ne by (auto simp: wg_drop_def wg_finish_def Let_def split: if_splits)
    then show "notify_lock (wg_pc (wg_drop r s) r)" using that c by (simp add: wg_drop_def)
  qed
  moreover have "wg_pc s r \<noteq> Held \<Longrightarrow> wg_wait r s = s \<and> wg_drop r s = s"
    by (simp add: wg_wait_def wg_drop_def)
  ultimately show "wg_wakes (wg_wait r s)" "wg_wakes (wg_drop r s)"
    using assms(3) by (cases "wg_pc s r = Held"; auto intro: wg_wakes_intro)+
qed

lemma other_notifier:
  "wg_wakes s \<Longrightarrow> held s = {} \<Longrightarrow> wg_pc s p = WaitSleep \<Longrightarrow> \<not> notify_lock (wg_pc s r) \<Longrightarrow>
     \<exists>q. q \<noteq> r \<and> notify_lock (wg_pc s q)"
  by (metis wg_wakes_def)

lemma wg_wakes_goto:
  assumes "wg_wakes s" "\<not> notifies (wg_pc s r)" "wg_pc s r \<noteq> Held"
    and "c \<noteq> Held" "c \<noteq> WaitWaiting" "c \<noteq> WaitSleep"
  shows "wg_wakes (wg_goto r c s)"
proof -
  have "q \<noteq> r" if "notifies (wg_pc s q) \<or> notify_lock (wg_pc s q)" for q
    using that assms(2) by (cases "wg_pc s q") auto
  with assms show ?thesis unfolding wg_wakes_def by (simp add: not_held) metis
qed

lemma wg_wakes_frame [simp]:
  "wg_wakes (s\<lparr>wg_lock := l\<rparr>) = wg_wakes s" "wg_wakes (s\<lparr>wg_arcs := m\<rparr>) = wg_wakes s"
  "wg_wakes (s\<lparr>wg_returned := rs\<rparr>) = wg_wakes s"
  by (simp_all add: wg_wakes_def)

lemma wg_wakes_tick:
  assumes "wg_wakes s" "wg_excl s" "wg_count s = 0 \<longleftrightarrow> held s = {}"
  shows "wg_wakes (wg_tick r (wg_pc s r) s)"
proof (cases "wg_pc s r")
  case (NotifyLock w)
  have "wg_pc s q \<noteq> WaitSleep" if "wg_lock s = None" for q
  proof
    assume "wg_pc s q = WaitSleep"
    then have "wg_lock s = Some q" using assms(2) by (simp add: wg_excl_def)
    with that show False by simp
  qed
  moreover have "notifies (wg_pc (wg_goto r (NotifyUnlock w) s') r)" for s' by simp
  ultimately show ?thesis using NotifyLock assms(1)
    by (auto simp: wg_wakes_def not_held intro: exI [of _ r])
next
  case (NotifyUnlock w)
  have nl: "\<exists>q. q \<noteq> r \<and> notify_lock (wg_pc s q)" if "wg_pc s p = WaitSleep" "held s = {}" for p
    using other_notifier [OF assms(1) that(2,1)] NotifyUnlock by simp
  show ?thesis using NotifyUnlock nl
    by (auto simp: wg_wakes_def not_held intro: exI [of _ r])
next
  case (NotifyAll w)
  have nl: "\<exists>q. q \<noteq> r \<and> notify_lock (wg_pc s q)" if "wg_pc s p = WaitSleep" "held s = {}" for p
    using other_notifier [OF assms(1) that(2,1)] NotifyAll by simp
  show ?thesis using NotifyAll nl
    by (auto simp: wg_wakes_def wg_finish_def not_held)
next
  case WaitSleep
  have one: "wg_pc s q \<noteq> WaitSleep" if "q \<noteq> r" for q
  proof
    assume "wg_pc s q = WaitSleep"
    then have "wg_lock s = Some q" using assms(2) by (simp add: wg_excl_def)
    moreover have "wg_lock s = Some r" using assms(2) WaitSleep by (simp add: wg_excl_def)
    ultimately show False using that by simp
  qed
  have "\<exists>q. q \<noteq> r \<and> notifies (wg_pc s q)" if emp: "held s = {}"
  proof -
    obtain q where "q \<noteq> r" "notify_lock (wg_pc s q)"
      using other_notifier [OF assms(1) emp WaitSleep, of r] WaitSleep by auto
    then show ?thesis by (intro exI [of _ q]) (cases "wg_pc s q"; simp)
  qed
  then show ?thesis using WaitSleep one
    by (auto simp: wg_wakes_def not_held)
next
  case WaitLoad
  have "wg_wakes (wg_goto r WaitSleep s)" if "held s \<noteq> {}"
    using that WaitLoad by (intro wg_wakes_intro) (simp add: not_held)
  then show ?thesis using WaitLoad assms by (auto intro: wg_wakes_goto)
qed (use assms(1) in \<open>auto simp: wg_finish_def intro!: wg_wakes_goto\<close>)

lemma wg_wakes_step:
  assumes "wg_wakes s" "wg_excl s" "wg_counts s"
  shows "wg_wakes (wg_step e s)"
proof (cases "wg_aborted s")
  case live: False
  show ?thesis
  proof (cases e)
    case (WgTick r)
    with assms live wg_wakes_tick [OF assms(1,2) wg_count_zero [OF assms(3) live]] show ?thesis
      by (simp add: wg_step_def)
  next
    case (WgClone r r')
    then have "held (wg_clone r r' s) \<noteq> {}" if "wg_pc s r = Held" using that
      by (auto simp: wg_clone_def Let_def held_def)
    then show ?thesis using assms(1) live WgClone
      by (cases "wg_pc s r = Held") (auto simp: wg_step_def wg_clone_def intro!: wg_wakes_intro)
  next
    case (WgSpurious r)
    have "wg_wakes (wg_goto r WaitWoken s)" if "wg_pc s r = WaitWaiting"
      using that assms(1) by (simp add: wg_wakes_goto)
    with assms(1) live WgSpurious show ?thesis by (simp add: wg_step_def wg_spurious)
  qed (use assms live wg_wakes_consume [OF assms(3) live assms(1)] in \<open>simp_all add: wg_step_def\<close>)
qed (use assms in \<open>simp add: wg_step_def\<close>)

definition wg_inv :: "wait_group \<Rightarrow> bool" where
  "wg_inv s \<longleftrightarrow> wg_counts s \<and> wg_excl s \<and> wg_done s \<and> wg_wakes s"

interpretation wg: invariant_system wg_step wg_inv
  by unfold_locales
    (simp add: wg_inv_def wg_counts_step wg_excl_step wg_done_step wg_wakes_step)

lemma wg_inv_new: "wg_inv wg_new"
proof -
  have "alive wg_new = {0}" "held wg_new = {0}" by (auto simp: alive_def held_def wg_new_def)
  then show ?thesis
    by (simp add: wg_inv_def wg_counts_def wg_excl_def wg_done_def wg_wakes_def) (simp add: wg_new_def)
qed

section \<open>Properties\<close>

text \<open>
  C21: \<^verbatim>\<open>WaitGroup::wait\<close> returns only when all references are gone, and no waiter is left
  behind. In every run: when some \<^verbatim>\<open>wait\<close> has returned, no reference is held any more (each
  was dropped or has called \<^verbatim>\<open>wait\<close>), so that none can be cloned either; the counter is the
  number of held references; and when no reference is held and no last dropper is still on its way to
  \<^verbatim>\<open>notify_all\<close>, no thread waits on the condition variable or is about to.
\<close>

theorem wait_group_synchronizes:
  assumes "s = impl_run wg_step es wg_new" and "\<not> wg_aborted s"
  shows "(wg_returned s \<noteq> [] \<longrightarrow> (\<forall>r. wg_pc s r \<noteq> Held)) \<and>
    unat (wg_count s) = card {r. wg_pc s r = Held} \<and>
    ((\<forall>r. wg_pc s r \<noteq> Held \<and> \<not> notifies (wg_pc s r)) \<longrightarrow>
       (\<forall>r. wg_pc s r \<noteq> WaitWaiting \<and> wg_pc s r \<noteq> WaitSleep))"
proof -
  have inv: "wg_counts s" "wg_done s" "wg_wakes s"
    using wg.run_inv [OF wg_inv_new, of es] assms(1) by (simp_all add: wg_inv_def)
  have nl: "\<exists>q. notifies (wg_pc s q)" if "\<exists>q. notify_lock (wg_pc s q)"
  proof -
    from that obtain q where "notify_lock (wg_pc s q)" by (rule exE)
    then show ?thesis by (intro exI [of _ q]) (cases "wg_pc s q"; simp)
  qed
  have "held s = {} \<longleftrightarrow> (\<forall>r. wg_pc s r \<noteq> Held)" by (auto simp: held_def)
  then show ?thesis
    using inv assms(2) nl unfolding wg_counts_def wg_done_def wg_wakes_def held_def by blast
qed

theorem wait_group_synchronizes_witness:
  "let s = impl_run wg_step [WgClone 0 1, WgWait 0, WgTick 0, WgTick 0, WgTick 0,
       WgDrop 1, WgTick 1, WgTick 1, WgTick 1, WgTick 0, WgTick 0, WgTick 0] wg_new
   in wg_returned s = [0] \<and> (\<forall>r. wg_pc s r \<noteq> Held)"
proof -
  let ?s = "impl_run wg_step [WgClone 0 1, WgWait 0, WgTick 0, WgTick 0, WgTick 0,
       WgDrop 1, WgTick 1, WgTick 1, WgTick 1, WgTick 0, WgTick 0, WgTick 0] wg_new"
  have "wg_returned ?s = [0]" "\<not> wg_aborted ?s"
    by (simp_all add: wg_new_def wg_step_def wg_clone_def wg_wait_def wg_drop_def wg_defs Let_def)
  with wait_group_synchronizes [OF refl, of "[WgClone 0 1, WgWait 0, WgTick 0, WgTick 0, WgTick 0,
       WgDrop 1, WgTick 1, WgTick 1, WgTick 1, WgTick 0, WgTick 0, WgTick 0]"]
  show ?thesis unfolding Let_def by simp
qed

end
