(* ===== verification/Seq_Lock.thy ===== *)
theory Seq_Lock
  imports Atomic_Object
begin

text \<open>
  \<^verbatim>\<open>crossbeam-utils/src/atomic/seq_lock.rs\<close>: a stamped lock in one word. When the
  lock is free the word is the stamp, an even number that grows by two with every write; when it is
  taken the word is 1 and the guard holds the stamp. Each operation is one access to the word; the
  loop of \<^verbatim>\<open>write\<close> repeats its access until it succeeds.
\<close>

record seq_lock =
  sl_state :: usize

record seq_lock_write_guard =
  guard_state :: usize

definition seq_lock_new :: seq_lock where
  "seq_lock_new = \<lparr>sl_state = 0\<rparr>"

definition optimistic_read :: "seq_lock \<Rightarrow> usize option" where
  "optimistic_read self = (let state = sl_state self in if state = 1 then None else Some state)"

definition validate_read :: "seq_lock \<Rightarrow> usize \<Rightarrow> bool" where
  "validate_read self stamp \<longleftrightarrow> sl_state self = stamp"

text \<open>One round of the loop of \<^verbatim>\<open>write\<close>: no guard means that the lock was taken.\<close>

definition seq_lock_write :: "seq_lock \<Rightarrow> seq_lock_write_guard option \<times> seq_lock" where
  "seq_lock_write self =
     (let previous = sl_state self; self' = self\<lparr>sl_state := 1\<rparr> in
      if previous \<noteq> 1 then (Some \<lparr>guard_state = previous\<rparr>, self') else (None, self'))"

definition guard_abort :: "seq_lock_write_guard \<Rightarrow> seq_lock \<Rightarrow> seq_lock" where
  "guard_abort g lock = lock\<lparr>sl_state := guard_state g\<rparr>"

definition guard_drop :: "seq_lock_write_guard \<Rightarrow> seq_lock \<Rightarrow> seq_lock" where
  "guard_drop g lock = lock\<lparr>sl_state := guard_state g + 2\<rparr>"

section \<open>Stamps\<close>

text \<open>\<open>stamp_of v\<close> is the stamp after \<open>v\<close> writes.\<close>

definition stamp_of :: "nat \<Rightarrow> usize" where
  "stamp_of v = word_of_nat (2 * v)"

lemma unat_stamp_of: "v < 2 ^ 63 \<Longrightarrow> unat (stamp_of v) = 2 * v"
  unfolding stamp_of_def by (simp add: unat_of_nat del: of_nat_mult)

lemma stamp_of_inj:
  assumes "v < 2 ^ 63" "w < 2 ^ 63" "stamp_of v = stamp_of w"
  shows "v = w"
proof -
  have "2 * v = 2 * w"
    unfolding unat_stamp_of [OF assms(1), symmetric] unat_stamp_of [OF assms(2), symmetric] assms(3) ..
  then show ?thesis by simp
qed

lemma stamp_of_not_one [simp]: "stamp_of v \<noteq> 1"
proof
  assume "stamp_of v = 1"
  then have "(2 * v) mod 2 ^ 64 = 1 mod 2 ^ 64"
    unfolding stamp_of_def using word_of_nat_eq_mod [of "2 * v" 1, where ?'a = 64] by simp
  then have "even ((2 * v) mod 2 ^ 64) \<longleftrightarrow> even (1 :: nat)" by simp
  then show False by (simp add: dvd_mod_iff)
qed

lemma stamp_of_Suc: "stamp_of v + 2 = stamp_of (Suc v)"
  by (simp add: stamp_of_def)

lemma stamp_of_0 [simp]: "stamp_of 0 = 0"
  by (simp add: stamp_of_def)

end
