(* ===== verification/Atomic_Cell.thy ===== *)
theory Atomic_Cell
  imports Seq_Lock
begin

text \<open>
  \<^verbatim>\<open>crossbeam-utils/src/atomic/atomic_cell.rs\<close>: \<^verbatim>\<open>AtomicCell\<close> where its
  type fits no primitive atomic, so that every operation takes the fallback branch of
  \<^verbatim>\<open>atomic!\<close>: the value is a sequence of bytes guarded by one of 67 global sequence locks,
  chosen by the address. Any number of threads work on any number of cells; a tick is one access to a
  lock or to one byte, except that the value is read at once by a thread that holds the lock. The layout
  of the type in memory is a parameter: \<open>enc\<close> gives the bytes of a value and \<open>dec\<close>
  the value of bytes; so is its equality \<open>eq\<close>.
\<close>

definition LEN :: usize where "LEN = 67"

definition lock_of :: "usize \<Rightarrow> usize" where
  "lock_of addr = addr mod LEN"

record 'b cells =
  LOCKS :: "usize \<Rightarrow> seq_lock"
  cell_mem :: "usize \<Rightarrow> 'b list"

datatype 't cell_op = Load | Store 't | Swap 't | CompareExchange 't 't | Fetch "'t \<Rightarrow> 't"

datatype 't cell_ret = RUnit | RVal 't | RCas "('t, 't) result"

section \<open>Operations\<close>

text \<open>
  What the operations do with the value once they hold the lock: the new value, if it is to be
  written (otherwise the guard is aborted), and the result.
\<close>

fun atomic_locked :: "('t \<Rightarrow> 't \<Rightarrow> bool) \<Rightarrow> 't cell_op \<Rightarrow> 't \<Rightarrow> 't option \<times> 't cell_ret" where
  "atomic_locked eq Load old = (None, RVal old)"
| "atomic_locked eq (Store val) old = (Some val, RUnit)"
| "atomic_locked eq (Swap val) old = (Some val, RVal old)"
| "atomic_locked eq (CompareExchange current new) old =
     (if eq old current then (Some new, RCas (Ok old)) else (None, RCas (Err old)))"
| "atomic_locked eq (Fetch f) old = (Some (f old), RVal old)"

definition fetch_add :: "'a::len word \<Rightarrow> 'a word cell_op" where
  "fetch_add val = Fetch (\<lambda>old. old + val)"

definition fetch_sub :: "'a::len word \<Rightarrow> 'a word cell_op" where
  "fetch_sub val = Fetch (\<lambda>old. old - val)"

definition fetch_and :: "'a::len word \<Rightarrow> 'a word cell_op" where
  "fetch_and val = Fetch (\<lambda>old. old AND val)"

definition fetch_nand :: "'a::len word \<Rightarrow> 'a word cell_op" where
  "fetch_nand val = Fetch (\<lambda>old. NOT (old AND val))"

definition fetch_or :: "'a::len word \<Rightarrow> 'a word cell_op" where
  "fetch_or val = Fetch (\<lambda>old. old OR val)"

definition fetch_xor :: "'a::len word \<Rightarrow> 'a word cell_op" where
  "fetch_xor val = Fetch (\<lambda>old. old XOR val)"

text \<open>\<open>is_signed\<close> says whether the type is one of the signed integers.\<close>

definition fetch_max :: "bool \<Rightarrow> 'a::len word \<Rightarrow> 'a word cell_op" where
  "fetch_max is_signed val = Fetch (\<lambda>old.
     if is_signed then (if sint old > sint val then old else val) else (if old > val then old else val))"

definition fetch_min :: "bool \<Rightarrow> 'a::len word \<Rightarrow> 'a word cell_op" where
  "fetch_min is_signed val = Fetch (\<lambda>old.
     if is_signed then (if sint old \<le> sint val then old else val) else (if old \<le> val then old else val))"

definition bool_fetch_and :: "bool \<Rightarrow> bool cell_op" where
  "bool_fetch_and val = Fetch (\<lambda>old. old \<and> val)"

definition bool_fetch_nand :: "bool \<Rightarrow> bool cell_op" where
  "bool_fetch_nand val = Fetch (\<lambda>old. \<not> (old \<and> val))"

definition bool_fetch_or :: "bool \<Rightarrow> bool cell_op" where
  "bool_fetch_or val = Fetch (\<lambda>old. old \<or> val)"

definition bool_fetch_xor :: "bool \<Rightarrow> bool cell_op" where
  "bool_fetch_xor val = Fetch (\<lambda>old. old \<noteq> val)"

text \<open>\<^verbatim>\<open>store\<close> swaps when the old value has to be dropped; \<^verbatim>\<open>take\<close> swaps in the default.\<close>

definition cell_store :: "bool \<Rightarrow> 't \<Rightarrow> 't cell_op" where
  "cell_store needs_drop val = (if needs_drop then Swap val else Store val)"

definition cell_take :: "'t \<Rightarrow> 't cell_op" where
  "cell_take dflt = Swap dflt"

datatype ('t, 'b) cell_pc =
    OptimisticRead usize
  | ReadVolatile usize usize "'b list"
  | Write usize "'t cell_op"
  | Locked usize "'t cell_op" seq_lock_write_guard
  | WriteBytes usize seq_lock_write_guard "'b list" nat "'t cell_ret"
  | Abort usize seq_lock_write_guard "'t cell_ret"

text \<open>An operation and the address of its cell.\<close>

fun cell_start :: "usize \<times> 't cell_op \<Rightarrow> ('t, 'b) cell_pc" where
  "cell_start (a, Load) = OptimisticRead a"
| "cell_start (a, oper) = Write a oper"

definition set_lock :: "usize \<Rightarrow> seq_lock \<Rightarrow> 'b cells \<Rightarrow> 'b cells" where
  "set_lock a l q = q\<lparr>LOCKS := (LOCKS q)(lock_of a := l)\<rparr>"

definition get_lock :: "usize \<Rightarrow> 'b cells \<Rightarrow> seq_lock" where
  "get_lock a q = LOCKS q (lock_of a)"

fun cell_tick ::
  "('t \<Rightarrow> 'b list) \<Rightarrow> ('b list \<Rightarrow> 't) \<Rightarrow> ('t \<Rightarrow> 't \<Rightarrow> bool) \<Rightarrow> unit \<Rightarrow> 'b cells \<Rightarrow> ('t, 'b) cell_pc \<Rightarrow>
     'b cells \<times> (('t, 'b) cell_pc, 't cell_ret) thread" where
  "cell_tick enc dec eq u q (OptimisticRead a) =
     (case optimistic_read (get_lock a q) of
        Some stamp \<Rightarrow> (q, Running (ReadVolatile a stamp []))
      | None \<Rightarrow> (q, Running (Write a Load)))"
| "cell_tick enc dec eq u q (ReadVolatile a stamp val) =
     (if length val < length (cell_mem q a)
      then (q, Running (ReadVolatile a stamp (val @ [cell_mem q a ! length val])))
      else if validate_read (get_lock a q) stamp then (q, Done (RVal (dec val)))
      else (q, Running (Write a Load)))"
| "cell_tick enc dec eq u q (Write a oper) =
     (case seq_lock_write (get_lock a q) of
        (Some guard, l) \<Rightarrow> (set_lock a l q, Running (Locked a oper guard))
      | (None, l) \<Rightarrow> (set_lock a l q, Running (Write a oper)))"
| "cell_tick enc dec eq u q (Locked a oper guard) =
     (case atomic_locked eq oper (dec (cell_mem q a)) of
        (Some new, r) \<Rightarrow> (q, Running (WriteBytes a guard (enc new) 0 r))
      | (None, r) \<Rightarrow> (q, Running (Abort a guard r)))"
| "cell_tick enc dec eq u q (WriteBytes a guard bs k r) =
     (if k < length bs
      then (q\<lparr>cell_mem := (cell_mem q)(a := (cell_mem q a)[k := bs ! k])\<rparr>,
            Running (WriteBytes a guard bs (Suc k) r))
      else (set_lock a (guard_drop guard (get_lock a q)) q, Done r))"
| "cell_tick enc dec eq u q (Abort a guard r) =
     (set_lock a (guard_abort guard (get_lock a q)) q, Done r)"

text \<open>Cells that hold the values \<open>v\<close>, and no thread in an operation.\<close>

definition cells_new :: "('t \<Rightarrow> 'b list) \<Rightarrow> (usize \<Rightarrow> 't) \<Rightarrow> 'b cells" where
  "cells_new enc v = \<lparr>LOCKS = (\<lambda>_. seq_lock_new), cell_mem = (\<lambda>a. enc (v a))\<rparr>"

section \<open>Specification\<close>

text \<open>Each operation on the value of its cell, in one instant.\<close>

fun cell_spec :: "('t \<Rightarrow> 't \<Rightarrow> bool) \<Rightarrow> 't cell_op \<Rightarrow> 't \<Rightarrow> 't cell_ret \<Rightarrow> 't \<Rightarrow> bool" where
  "cell_spec eq Load v r v' \<longleftrightarrow> r = RVal v \<and> v' = v"
| "cell_spec eq (Store w) v r v' \<longleftrightarrow> r = RUnit \<and> v' = w"
| "cell_spec eq (Swap w) v r v' \<longleftrightarrow> r = RVal v \<and> v' = w"
| "cell_spec eq (CompareExchange c w) v r v' \<longleftrightarrow>
     (if eq v c then r = RCas (Ok v) \<and> v' = w else r = RCas (Err v) \<and> v' = v)"
| "cell_spec eq (Fetch f) v r v' \<longleftrightarrow> r = RVal v \<and> v' = f v"

definition cells_spec ::
  "('t \<Rightarrow> 't \<Rightarrow> bool) \<Rightarrow> usize \<times> 't cell_op \<Rightarrow> (usize \<Rightarrow> 't) \<Rightarrow> 't cell_ret \<Rightarrow> (usize \<Rightarrow> 't) \<Rightarrow> bool" where
  "cells_spec eq aop m r m' \<longleftrightarrow>
     (case aop of (a, oper) \<Rightarrow> \<exists>v'. cell_spec eq oper (m a) r v' \<and> m' = m(a := v'))"

lemma atomic_locked_spec:
  "atomic_locked eq oper v = (w, r) \<Longrightarrow> cell_spec eq oper v r (case w of None \<Rightarrow> v | Some v' \<Rightarrow> v')"
  by (cases oper) (auto split: if_splits)

section \<open>Invariant\<close>

type_synonym ('t, 'b) cell_thread = "(('t, 'b) cell_pc, 't cell_ret) thread"

text \<open>The lock a thread holds with the stamp in its guard, and the cell it is writing.\<close>

fun holding :: "('t, 'b) cell_thread \<Rightarrow> (usize \<times> usize) option" where
  "holding (Running (Locked a oper g)) = Some (lock_of a, guard_state g)"
| "holding (Running (WriteBytes a g bs k r)) = Some (lock_of a, guard_state g)"
| "holding (Running (Abort a g r)) = Some (lock_of a, guard_state g)"
| "holding _ = None"

fun writing :: "('t, 'b) cell_thread \<Rightarrow> usize option" where
  "writing (Running (WriteBytes a g bs k r)) = Some a"
| "writing _ = None"

text \<open>\<open>ver l\<close> is the number of writes completed under lock \<open>l\<close>.\<close>

definition locks_ok :: "(usize \<Rightarrow> nat) \<Rightarrow> 'b cells \<Rightarrow> (tid \<Rightarrow> ('t, 'b) cell_thread) \<Rightarrow> bool" where
  "locks_ok ver q ts \<longleftrightarrow>
     (\<forall>l. sl_state (LOCKS q l) \<in> {1, stamp_of (ver l)}) \<and>
     (\<forall>i l p. holding (ts i) = Some (l, p) \<longrightarrow> sl_state (LOCKS q l) = 1 \<and> p = stamp_of (ver l) \<and>
        (\<forall>j p'. holding (ts j) = Some (l, p') \<longrightarrow> j = i))"

definition dirty :: "usize \<Rightarrow> (tid \<Rightarrow> ('t, 'b) cell_thread) \<Rightarrow> bool" where
  "dirty l ts \<longleftrightarrow> (\<exists>i a. writing (ts i) = Some a \<and> lock_of a = l)"

fun thread_ok ::
  "nat \<Rightarrow> ('b list \<Rightarrow> 't) \<Rightarrow> (usize \<Rightarrow> nat) \<Rightarrow> (usize \<Rightarrow> bool) \<Rightarrow> (usize \<Rightarrow> 'b list) \<Rightarrow> (usize \<Rightarrow> 't) \<Rightarrow>
     ('t, 'b) cell_thread \<Rightarrow> (usize \<times> 't cell_op, 't cell_ret) status \<Rightarrow> bool" where
  "thread_ok N dec ver dr mem m Resting st \<longleftrightarrow> st = Quiet"
| "thread_ok N dec ver dr mem m (Done r) st \<longleftrightarrow> st = Answered r"
| "thread_ok N dec ver dr mem m (Running (OptimisticRead a)) st \<longleftrightarrow> st = Pending (a, Load)"
| "thread_ok N dec ver dr mem m (Running (ReadVolatile a stamp val)) st \<longleftrightarrow> st = Pending (a, Load) \<and>
     length val \<le> N \<and>
     (\<exists>v\<le>ver (lock_of a). stamp = stamp_of v \<and>
        (v = ver (lock_of a) \<longrightarrow> \<not> dr (lock_of a) \<longrightarrow> val = take (length val) (mem a)))"
| "thread_ok N dec ver dr mem m (Running (Write a oper)) st \<longleftrightarrow> st = Pending (a, oper)"
| "thread_ok N dec ver dr mem m (Running (Locked a oper g)) st \<longleftrightarrow> st = Pending (a, oper)"
| "thread_ok N dec ver dr mem m (Running (WriteBytes a g bs k r)) st \<longleftrightarrow> st = Answered r \<and>
     length bs = N \<and> k \<le> N \<and> take k (mem a) = take k bs \<and> m a = dec bs"
| "thread_ok N dec ver dr mem m (Running (Abort a g r)) st \<longleftrightarrow> st = Answered r"

definition values_ok :: "nat \<Rightarrow> ('b list \<Rightarrow> 't) \<Rightarrow> 'b cells \<Rightarrow> (tid \<Rightarrow> ('t, 'b) cell_thread) \<Rightarrow> (usize \<Rightarrow> 't) \<Rightarrow> bool" where
  "values_ok N dec q ts m \<longleftrightarrow> (\<forall>a. length (cell_mem q a) = N) \<and>
     (\<forall>a. (\<forall>i. writing (ts i) \<noteq> Some a) \<longrightarrow> m a = dec (cell_mem q a))"

definition cell_good ::
  "nat \<Rightarrow> ('b list \<Rightarrow> 't) \<Rightarrow> nat \<Rightarrow> 'b cells \<Rightarrow> (tid \<Rightarrow> ('t, 'b) cell_thread) \<Rightarrow> (usize \<Rightarrow> 't) \<Rightarrow>
     (tid \<Rightarrow> (usize \<times> 't cell_op, 't cell_ret) status) \<Rightarrow> bool" where
  "cell_good N dec n q ts m st \<longleftrightarrow> (\<exists>ver. (\<forall>l. ver l \<le> n) \<and> locks_ok ver q ts \<and> values_ok N dec q ts m \<and>
     (\<forall>i. thread_ok N dec ver (\<lambda>l. dirty l ts) (cell_mem q) m (ts i) (st i)))"

definition cell_inv ::
  "nat \<Rightarrow> ('b list \<Rightarrow> 't) \<Rightarrow> (usize \<Rightarrow> nat) \<Rightarrow> 'b cells \<Rightarrow> (tid \<Rightarrow> ('t, 'b) cell_thread) \<Rightarrow> (usize \<Rightarrow> 't) \<Rightarrow>
     (tid \<Rightarrow> (usize \<times> 't cell_op, 't cell_ret) status) \<Rightarrow> bool" where
  "cell_inv N dec ver q ts m st \<longleftrightarrow> locks_ok ver q ts \<and> values_ok N dec q ts m \<and>
     (\<forall>i. thread_ok N dec ver (\<lambda>l. dirty l ts) (cell_mem q) m (ts i) (st i))"

lemma cell_goodI: "cell_inv N dec ver q ts m st \<Longrightarrow> (\<And>l. ver l \<le> n) \<Longrightarrow> cell_good N dec n q ts m st"
  unfolding cell_good_def cell_inv_def by blast

lemma cell_goodE:
  assumes "cell_good N dec n q ts m st"
  obtains ver where "cell_inv N dec ver q ts m st" "\<And>l. ver l \<le> n"
  using assms unfolding cell_good_def cell_inv_def by blast

text \<open>A step of a thread that touches neither locks nor memory and neither starts nor ends a writing.\<close>

lemma locks_ok_upd:
  "locks_ok ver q ts \<Longrightarrow> holding t = holding (ts i) \<Longrightarrow> locks_ok ver q (ts(i := t))"
  unfolding locks_ok_def by (metis fun_upd_apply)

lemma dirty_upd: "writing t = writing (ts i) \<Longrightarrow> dirty l (ts(i := t)) = dirty l ts"
  unfolding dirty_def by (metis fun_upd_apply)

lemma values_ok_upd:
  "values_ok N dec q ts m \<Longrightarrow> writing t = writing (ts i) \<Longrightarrow> values_ok N dec q (ts(i := t)) m"
  unfolding values_ok_def by (metis fun_upd_apply)

lemma cell_inv_local:
  assumes "cell_inv N dec ver q ts m st"
    and "holding t = holding (ts i)" "writing t = writing (ts i)"
    and "thread_ok N dec ver (\<lambda>l. dirty l ts) (cell_mem q) m t s"
  shows "cell_inv N dec ver q (ts(i := t)) m (st(i := s))"
  using assms unfolding cell_inv_def by (simp add: locks_ok_upd values_ok_upd dirty_upd)

lemma thread_ok_frame:
  assumes "thread_ok N dec ver dr mem m t s"
    and "\<And>l. ver l \<le> ver' l" "\<And>l. ver' l = ver l \<Longrightarrow> \<not> dr' l \<Longrightarrow> \<not> dr l"
    and "\<And>a. ver' (lock_of a) = ver (lock_of a) \<Longrightarrow> \<not> dr' (lock_of a) \<Longrightarrow> mem' a = mem a"
    and "\<And>a. writing t = Some a \<Longrightarrow> mem' a = mem a \<and> m' a = m a"
  shows "thread_ok N dec ver' dr' mem' m' t s"
proof (cases t)
  case (Running pc)
  show ?thesis
  proof (cases pc)
    case (ReadVolatile a stamp val)
    from assms(1) obtain v where v: "s = Pending (a, Load)" "length val \<le> N" "v \<le> ver (lock_of a)"
      "stamp = stamp_of v" "v = ver (lock_of a) \<Longrightarrow> \<not> dr (lock_of a) \<Longrightarrow> val = take (length val) (mem a)"
      by (auto simp: Running ReadVolatile)
    have "val = take (length val) (mem' a)" if eq: "v = ver' (lock_of a)" and nd: "\<not> dr' (lock_of a)"
    proof -
      have "ver' (lock_of a) = ver (lock_of a)" using v(3) eq assms(2) [of "lock_of a"] by simp
      then show ?thesis using v(5) eq nd assms(3,4) by auto
    qed
    with v assms(2) [of "lock_of a"] show ?thesis
      by (auto simp: Running ReadVolatile intro!: exI [of _ v])
  qed (use assms in \<open>auto simp: Running\<close>)
qed (use assms in auto)

lemma holder_unique:
  assumes "locks_ok ver q ts" "holding (ts i) = Some (l, p)" "holding (ts j) = Some (l, p')"
  shows "j = i"
  using assms unfolding locks_ok_def by blast

lemma no_holder:
  assumes "locks_ok ver q ts" "sl_state (LOCKS q l) \<noteq> 1"
  shows "holding (ts j) \<noteq> Some (l, p)"
  using assms unfolding locks_ok_def by blast

lemma writing_holding: "writing t = Some a \<Longrightarrow> \<exists>p. holding t = Some (lock_of a, p)"
  by (cases t rule: writing.cases) auto

lemma not_writing:
  assumes "locks_ok ver q ts" "holding (ts i) = Some (lock_of a, p)" "j \<noteq> i"
  shows "writing (ts j) \<noteq> Some b \<or> lock_of b \<noteq> lock_of a"
proof (rule ccontr)
  assume "\<not> ?thesis"
  then obtain p' where "holding (ts j) = Some (lock_of a, p')" using writing_holding [of "ts j" b] by auto
  with holder_unique [OF assms(1,2)] assms(3) show False by blast
qed

lemma clean:
  assumes "locks_ok ver q ts" "sl_state (LOCKS q l) \<noteq> 1"
  shows "\<not> dirty l ts"
proof
  assume "dirty l ts"
  then obtain j a where "writing (ts j) = Some a" "lock_of a = l" by (auto simp: dirty_def)
  with writing_holding [of "ts j" a] no_holder [OF assms, of j] show False by auto
qed

section \<open>Steps\<close>

lemma get_set_lock [simp]:
  "cell_mem (set_lock a l q) = cell_mem q"
  "LOCKS (set_lock a l q) k = (if k = lock_of a then l else LOCKS q k)"
  by (simp_all add: set_lock_def)

lemmas seq_lock_defs = optimistic_read_def validate_read_def seq_lock_write_def guard_abort_def
  guard_drop_def get_lock_def Let_def

lemma state_cases:
  "cell_inv N dec ver q ts m st \<Longrightarrow> sl_state (LOCKS q l) = 1 \<or> sl_state (LOCKS q l) = stamp_of (ver l)"
  unfolding cell_inv_def locks_ok_def by blast

lemma tick_optimistic:
  assumes inv: "cell_inv N dec ver q ts m st" and pc: "ts i = Running (OptimisticRead a)"
    and t: "cell_tick enc dec eq u q (OptimisticRead a) = (q', t)"
  shows "cell_inv N dec ver q' (ts(i := t)) m st"
proof -
  have st: "st i = Pending (a, Load)" using inv pc by (auto simp: cell_inv_def dest: spec [of _ i])
  have "cell_inv N dec ver q (ts(i := t)) m (st(i := Pending (a, Load)))"
    using t state_cases [OF inv, of "lock_of a"] pc
    by (intro cell_inv_local [OF inv]) (auto simp: seq_lock_defs split: if_splits)
  moreover have "q' = q" using t by (auto simp: seq_lock_defs split: if_splits)
  ultimately show ?thesis using st by (simp add: fun_upd_idem)
qed

lemma tick_read:
  assumes inv: "cell_inv N dec ver q ts m st" and pc: "ts i = Running (ReadVolatile a stamp val)"
    and t: "cell_tick enc dec eq u q (ReadVolatile a stamp val) = (q', t)"
    and small: "\<And>l. ver l < 2 ^ 63"
  shows "cell_inv N dec ver q' (ts(i := t)) m st \<or>
    (\<exists>r. cells_spec eq (a, Load) m r m \<and> cell_inv N dec ver q' (ts(i := t)) m (st(i := Answered r)) \<and>
      st i = Pending (a, Load))"
proof -
  have ok: "thread_ok N dec ver (\<lambda>l. dirty l ts) (cell_mem q) m (ts i) (st i)"
    and vals: "values_ok N dec q ts m" and lk: "locks_ok ver q ts"
    using inv by (auto simp: cell_inv_def)
  from ok obtain v where v: "st i = Pending (a, Load)" "length val \<le> N" "v \<le> ver (lock_of a)"
    "stamp = stamp_of v" "v = ver (lock_of a) \<Longrightarrow> \<not> dirty (lock_of a) ts \<Longrightarrow> val = take (length val) (cell_mem q a)"
    by (auto simp: pc)
  have len: "length (cell_mem q a) = N" using vals by (simp add: values_ok_def)
  consider (copy) "length val < N" | (valid) "length val = N" "sl_state (LOCKS q (lock_of a)) = stamp"
    | (retry) "length val = N" "sl_state (LOCKS q (lock_of a)) \<noteq> stamp" using v(2) by linarith
  then show ?thesis
  proof cases
    case copy
    have "val @ [cell_mem q a ! length val] = take (Suc (length val)) (cell_mem q a)"
      if "v = ver (lock_of a)" "\<not> dirty (lock_of a) ts"
      using v(5) [OF that] copy len by (simp add: take_Suc_conv_app_nth)
    then have "cell_inv N dec ver q (ts(i := t)) m (st(i := Pending (a, Load)))"
      using t pc copy len v by (intro cell_inv_local [OF inv]) (auto intro!: exI [of _ v])
    then show ?thesis using t copy len v(1) by (simp add: fun_upd_idem)
  next
    case valid
    have s1: "sl_state (LOCKS q (lock_of a)) \<noteq> 1" using valid v(4) by simp
    have "stamp_of v = stamp_of (ver (lock_of a))"
      using state_cases [OF inv, of "lock_of a"] s1 valid v(4) by simp
    then have "v = ver (lock_of a)" using stamp_of_inj small v(3) by (meson le_less_trans)
    then have val: "val = cell_mem q a" using v(5) clean [OF lk s1] valid len by simp
    have "writing (ts j) \<noteq> Some a" for j
      using clean [OF lk s1] by (auto simp: dirty_def)
    then have "m a = dec val" using vals val by (simp add: values_ok_def)
    then have "cells_spec eq (a, Load) m (RVal (dec val)) m" by (auto simp: cells_spec_def)
    moreover have "cell_inv N dec ver q (ts(i := t)) m (st(i := Answered (RVal (dec val))))"
      using t pc valid len by (intro cell_inv_local [OF inv]) (auto simp: seq_lock_defs)
    moreover have "q' = q" using t valid len by (simp add: seq_lock_defs)
    ultimately show ?thesis using v(1) by blast
  next
    case retry
    then have "cell_inv N dec ver q (ts(i := t)) m (st(i := Pending (a, Load)))"
      using t pc len by (intro cell_inv_local [OF inv]) (auto simp: seq_lock_defs)
    then show ?thesis using t retry len v(1) by (simp add: fun_upd_idem seq_lock_defs)
  qed
qed

lemma set_lock_same: "l = LOCKS q (lock_of a) \<Longrightarrow> set_lock a l q = q"
  by (cases q) (simp add: set_lock_def fun_upd_idem)

lemma tick_write:
  assumes inv: "cell_inv N dec ver q ts m st" and pc: "ts i = Running (Write a oper)"
    and t: "cell_tick enc dec eq u q (Write a oper) = (q', t)"
  shows "cell_inv N dec ver q' (ts(i := t)) m st"
proof (cases "sl_state (LOCKS q (lock_of a)) = 1")
  case True
  then have same: "(LOCKS q (lock_of a))\<lparr>sl_state := 1\<rparr> = LOCKS q (lock_of a)"
    by (cases "LOCKS q (lock_of a)") simp
  have "t = ts i" "q' = set_lock a ((LOCKS q (lock_of a))\<lparr>sl_state := 1\<rparr>) q"
    using t pc True by (auto simp: seq_lock_defs)
  then have "t = ts i" "q' = q" using set_lock_same [OF same] by simp_all
  then show ?thesis using inv by (simp add: fun_upd_idem)
next
  case False
  let ?l = "lock_of a"
  have lk: "locks_ok ver q ts" and ok: "\<And>j. thread_ok N dec ver (\<lambda>l. dirty l ts) (cell_mem q) m (ts j) (st j)"
    and vals: "values_ok N dec q ts m" using inv by (auto simp: cell_inv_def)
  have t': "t = Running (Locked a oper \<lparr>guard_state = stamp_of (ver ?l)\<rparr>)"
    "q' = set_lock a (LOCKS q ?l\<lparr>sl_state := 1\<rparr>) q"
    using t False state_cases [OF inv, of ?l] by (auto simp: seq_lock_defs)
  have dr: "dirty l (ts(i := t)) = dirty l ts" for l by (rule dirty_upd) (simp add: t' pc)
  have "locks_ok ver q' (ts(i := t))"
    unfolding locks_ok_def
  proof (intro conjI allI impI)
    show "sl_state (LOCKS q' l) \<in> {1, stamp_of (ver l)}" for l
      using lk by (auto simp: t' locks_ok_def)
  next
    fix j l p assume h: "holding ((ts(i := t)) j) = Some (l, p)"
    have other: "l \<noteq> ?l \<and> sl_state (LOCKS q l) = 1 \<and> p = stamp_of (ver l)" if "j \<noteq> i"
      using h that no_holder [OF lk False, of j] lk by (auto simp: locks_ok_def)
    then show "sl_state (LOCKS q' l) = 1" "p = stamp_of (ver l)"
      using h by (cases "j = i"; auto simp: t')+
    fix k p' assume h': "holding ((ts(i := t)) k) = Some (l, p')"
    have "l \<noteq> ?l" if "k \<noteq> i" using h' that no_holder [OF lk False, of k] by auto
    then show "k = j"
      using h h' other holder_unique [OF lk] by (cases "j = i"; cases "k = i") (auto simp: t')
  qed
  moreover have "values_ok N dec q' (ts(i := t)) m"
    using values_ok_upd [OF vals, of t i] by (simp add: t' pc values_ok_def)
  moreover have "thread_ok N dec ver (\<lambda>l. dirty l (ts(i := t))) (cell_mem q') m ((ts(i := t)) j) (st j)" for j
    using ok [of j] ok [of i] unfolding dr by (simp add: t' pc)
  ultimately show ?thesis by (simp add: cell_inv_def)
qed

text \<open>The thread that holds the lock reads the value and decides: this is where its operation takes effect.\<close>

lemma tick_locked:
  assumes inv: "cell_inv N dec ver q ts m st" and pc: "ts i = Running (Locked a oper g)"
    and t: "cell_tick enc dec eq u q (Locked a oper g) = (q', t)"
    and layout: "\<And>v. dec (enc v) = v" "\<And>v. length (enc v) = N"
  shows "\<exists>r m'. cells_spec eq (a, oper) m r m' \<and> cell_inv N dec ver q' (ts(i := t)) m' (st(i := Answered r)) \<and>
      st i = Pending (a, oper)"
proof -
  have lk: "locks_ok ver q ts" and ok: "\<And>j. thread_ok N dec ver (\<lambda>l. dirty l ts) (cell_mem q) m (ts j) (st j)"
    and vals: "values_ok N dec q ts m" using inv by (auto simp: cell_inv_def)
  have st: "st i = Pending (a, oper)" using ok [of i] by (simp add: pc)
  have hold: "holding (ts i) = Some (lock_of a, guard_state g)" by (simp add: pc)
  have nw: "writing (ts j) \<noteq> Some a" for j
    using not_writing [OF lk hold, of j a] by (cases "j = i") (auto simp: pc)
  then have ma: "m a = dec (cell_mem q a)" using vals by (simp add: values_ok_def)
  obtain w r where wr: "atomic_locked eq oper (m a) = (w, r)" by fastforce
  from atomic_locked_spec [OF wr] have sp: "cell_spec eq oper (m a) r (case w of None \<Rightarrow> m a | Some v \<Rightarrow> v)" .
  have q': "q' = q" using t wr ma by (auto split: option.splits)
  show ?thesis
  proof (cases w)
    case None
    then have "t = Running (Abort a g r)" using t wr ma by simp
    then have "cell_inv N dec ver q (ts(i := t)) m (st(i := Answered r))"
      by (intro cell_inv_local [OF inv]) (simp_all add: pc)
    moreover have "cells_spec eq (a, oper) m r m"
      using sp None by (auto simp: cells_spec_def intro!: exI [of _ "m a"])
    ultimately show ?thesis using q' st by blast
  next
    case (Some v)
    then have t': "t = Running (WriteBytes a g (enc v) 0 r)" using t wr ma by simp
    have "locks_ok ver q (ts(i := t))" by (rule locks_ok_upd [OF lk]) (simp add: t' pc)
    moreover have "values_ok N dec q (ts(i := t)) (m(a := v))"
      unfolding values_ok_def
    proof (intro conjI allI impI)
      show "length (cell_mem q b) = N" for b using vals by (simp add: values_ok_def)
      fix b assume n: "\<forall>j. writing ((ts(i := t)) j) \<noteq> Some b"
      from n [rule_format, of i] have "b \<noteq> a" by (auto simp: t')
      moreover have "writing (ts j) \<noteq> Some b" for j using n [rule_format, of j] by (cases "j = i") (simp_all add: pc)
      ultimately show "(m(a := v)) b = dec (cell_mem q b)" using vals by (simp add: values_ok_def)
    qed
    moreover have "thread_ok N dec ver (\<lambda>l. dirty l (ts(i := t))) (cell_mem q) (m(a := v))
        ((ts(i := t)) j) ((st(i := Answered r)) j)" for j
    proof (cases "j = i")
      case True
      then show ?thesis by (simp add: t' layout)
    next
      case False
      have "dirty l ts \<Longrightarrow> dirty l (ts(i := t))" for l
        unfolding dirty_def using pc by (metis fun_upd_apply option.distinct(1) writing.simps(6))
      with False nw [of j] show ?thesis by (auto intro!: thread_ok_frame [OF ok [of j]])
    qed
    ultimately have "cell_inv N dec ver q (ts(i := t)) (m(a := v)) (st(i := Answered r))"
      by (simp add: cell_inv_def)
    moreover have "cells_spec eq (a, oper) m r (m(a := v))"
      using sp Some by (auto simp: cells_spec_def)
    ultimately show ?thesis using q' st by blast
  qed
qed

lemma locks_ok_release:
  assumes lk: "locks_ok ver q ts" and hold: "holding (ts i) = Some (lock_of a, p)" and t: "holding t = None"
    and v: "v = ver \<or> v = ver(lock_of a := Suc (ver (lock_of a)))"
    and l: "sl_state l = stamp_of (v (lock_of a))"
  shows "locks_ok v (set_lock a l q) (ts(i := t))"
  unfolding locks_ok_def
proof (intro conjI allI impI)
  show "sl_state (LOCKS (set_lock a l q) k) \<in> {1, stamp_of (v k)}" for k
    using lk l v by (auto simp: locks_ok_def)
next
  fix j k p' assume h: "holding ((ts(i := t)) j) = Some (k, p')"
  then have ji: "j \<noteq> i" "holding (ts j) = Some (k, p')" using t by (auto split: if_splits)
  then have k: "k \<noteq> lock_of a" using holder_unique [OF lk hold, of j] by auto
  then show "sl_state (LOCKS (set_lock a l q) k) = 1" "p' = stamp_of (v k)"
    using lk ji v by (auto simp: locks_ok_def)
  fix j' p'' assume "holding ((ts(i := t)) j') = Some (k, p'')"
  then have "holding (ts j') = Some (k, p'')" using t by (auto split: if_splits)
  with holder_unique [OF lk ji(2)] show "j' = j" by blast
qed

lemma tick_abort:
  assumes inv: "cell_inv N dec ver q ts m st" and pc: "ts i = Running (Abort a g r)"
    and t: "cell_tick enc dec eq u q (Abort a g r) = (q', t)"
  shows "cell_inv N dec ver q' (ts(i := t)) m st"
proof -
  have lk: "locks_ok ver q ts" and ok: "\<And>j. thread_ok N dec ver (\<lambda>l. dirty l ts) (cell_mem q) m (ts j) (st j)"
    and vals: "values_ok N dec q ts m" using inv by (auto simp: cell_inv_def)
  have hold: "holding (ts i) = Some (lock_of a, guard_state g)" by (simp add: pc)
  then have g: "guard_state g = stamp_of (ver (lock_of a))" using lk by (simp add: locks_ok_def)
  have t': "t = Done r" "q' = set_lock a (guard_abort g (LOCKS q (lock_of a))) q"
    using t by (auto simp: get_lock_def)
  have dr: "dirty l (ts(i := t)) = dirty l ts" for l by (rule dirty_upd) (simp add: t' pc)
  have "locks_ok ver q' (ts(i := t))"
    unfolding t'(2) by (rule locks_ok_release [OF lk hold]) (simp_all add: t' guard_abort_def g)
  moreover have "values_ok N dec q' (ts(i := t)) m"
    using values_ok_upd [OF vals, of t i] by (simp add: t' pc values_ok_def)
  moreover have "thread_ok N dec ver (\<lambda>l. dirty l (ts(i := t))) (cell_mem q') m ((ts(i := t)) j) (st j)" for j
    using ok [of j] ok [of i] unfolding dr by (simp add: t' pc)
  ultimately show ?thesis by (simp add: cell_inv_def)
qed

lemma tick_byte:
  assumes inv: "cell_inv N dec ver q ts m st" and pc: "ts i = Running (WriteBytes a g bs k r)"
    and k: "k < length bs"
    and t: "cell_tick enc dec eq u q (WriteBytes a g bs k r) = (q', t)"
  shows "cell_inv N dec ver q' (ts(i := t)) m st"
proof -
  have lk: "locks_ok ver q ts" and ok: "\<And>j. thread_ok N dec ver (\<lambda>l. dirty l ts) (cell_mem q) m (ts j) (st j)"
    and vals: "values_ok N dec q ts m" using inv by (auto simp: cell_inv_def)
  have hold: "holding (ts i) = Some (lock_of a, guard_state g)" by (simp add: pc)
  have w: "st i = Answered r" "length bs = N" "take k (cell_mem q a) = take k bs" "m a = dec bs"
    using ok [of i] by (auto simp: pc)
  have len: "length (cell_mem q a) = N" using vals by (simp add: values_ok_def)
  have t': "t = Running (WriteBytes a g bs (Suc k) r)"
    "cell_mem q' = (cell_mem q)(a := (cell_mem q a)[k := bs ! k])" "LOCKS q' = LOCKS q"
    using t k by auto
  have same: "holding t = holding (ts i)" "writing t = writing (ts i)" by (simp_all add: t' pc)
  have dr: "dirty l (ts(i := t)) = dirty l ts" for l by (rule dirty_upd) (rule same)
  have da: "dirty (lock_of a) ts" unfolding dirty_def by (intro exI [of _ i] exI [of _ a]) (simp add: pc)
  have "locks_ok ver q' (ts(i := t))"
    using locks_ok_upd [OF lk same(1)] by (simp add: locks_ok_def t'(3))
  moreover have "values_ok N dec q' (ts(i := t)) m"
    using values_ok_upd [OF vals same(2)] unfolding values_ok_def t'(2)
    by (auto simp: pc t'(1))
  moreover have "thread_ok N dec ver (\<lambda>l. dirty l ts) (cell_mem q') m ((ts(i := t)) j) (st j)" for j
  proof (cases "j = i")
    case True
    have "take (Suc k) ((cell_mem q a)[k := bs ! k]) = take (Suc k) bs"
      using w(2,3) k len by (simp add: take_Suc_conv_app_nth)
    then show ?thesis using True w k by (simp add: t')
  next
    case False
    have "thread_ok N dec ver (\<lambda>l. dirty l ts) (cell_mem q') m (ts j) (st j)"
    proof (rule thread_ok_frame [OF ok [of j]])
      show "cell_mem q' b = cell_mem q b" if "\<not> dirty (lock_of b) ts" for b
        using that da by (auto simp: t')
      show "cell_mem q' b = cell_mem q b \<and> m b = m b" if "writing (ts j) = Some b" for b
        using that not_writing [OF lk hold False, of b] by (auto simp: t')
    qed simp_all
    then show ?thesis using False by simp
  qed
  ultimately show ?thesis by (simp add: cell_inv_def dr)
qed

lemma tick_drop:
  assumes inv: "cell_inv N dec ver q ts m st" and pc: "ts i = Running (WriteBytes a g bs k r)"
    and k: "\<not> k < length bs"
    and t: "cell_tick enc dec eq u q (WriteBytes a g bs k r) = (q', t)"
  shows "cell_inv N dec (ver(lock_of a := Suc (ver (lock_of a)))) q' (ts(i := t)) m st"
proof -
  let ?v = "ver(lock_of a := Suc (ver (lock_of a)))"
  have lk: "locks_ok ver q ts" and ok: "\<And>j. thread_ok N dec ver (\<lambda>l. dirty l ts) (cell_mem q) m (ts j) (st j)"
    and vals: "values_ok N dec q ts m" using inv by (auto simp: cell_inv_def)
  have hold: "holding (ts i) = Some (lock_of a, guard_state g)" by (simp add: pc)
  then have g: "guard_state g = stamp_of (ver (lock_of a))" using lk by (simp add: locks_ok_def)
  have len: "length (cell_mem q a) = N" using vals by (simp add: values_ok_def)
  have w: "st i = Answered r" "cell_mem q a = bs" "m a = dec bs"
    using ok [of i] k len by (auto simp: pc)
  have t': "t = Done r" "q' = set_lock a (guard_drop g (LOCKS q (lock_of a))) q"
    using t k by (auto simp: get_lock_def)
  have "locks_ok ?v q' (ts(i := t))"
    unfolding t'(2) by (rule locks_ok_release [OF lk hold]) (simp_all add: t' guard_drop_def g stamp_of_Suc)
  moreover have "values_ok N dec q' (ts(i := t)) m"
    unfolding values_ok_def
  proof (intro conjI allI impI)
    show "length (cell_mem q' b) = N" for b using vals by (simp add: values_ok_def t')
    fix b assume n: "\<forall>j. writing ((ts(i := t)) j) \<noteq> Some b"
    show "m b = dec (cell_mem q' b)"
    proof (cases "b = a")
      case False
      then have "writing (ts j) \<noteq> Some b" for j using n [rule_format, of j] by (cases "j = i") (auto simp: pc)
      then show ?thesis using vals by (simp add: values_ok_def t')
    qed (use w in \<open>simp add: t'\<close>)
  qed
  moreover have "thread_ok N dec ?v (\<lambda>l. dirty l (ts(i := t))) (cell_mem q') m ((ts(i := t)) j) (st j)" for j
  proof (cases "j = i")
    case False
    have "thread_ok N dec ?v (\<lambda>l. dirty l (ts(i := t))) (cell_mem q') m (ts j) (st j)"
    proof (rule thread_ok_frame [OF ok [of j]])
      show "\<not> dirty l ts" if eq: "?v l = ver l" and nd: "\<not> dirty l (ts(i := t))" for l
      proof
        assume "dirty l ts"
        then obtain n b where b: "writing (ts n) = Some b" "lock_of b = l" by (auto simp: dirty_def)
        have "l \<noteq> lock_of a" using eq by (auto split: if_splits)
        then have "n \<noteq> i" using b by (auto simp: pc)
        with b nd show False unfolding dirty_def by (metis fun_upd_other)
      qed
    qed (simp_all add: t')
    then show ?thesis using False by simp
  qed (simp add: t' w)
  ultimately show ?thesis by (simp add: cell_inv_def)
qed

section \<open>Linearizability\<close>

lemma cell_good_tick:
  assumes good: "cell_good N dec n q ts m st" and n: "n < 2 ^ 63"
    and pc: "ts i = Running pc" and t: "cell_tick enc dec eq u q pc = (q', t)"
    and layout: "\<And>v. dec (enc v) = v" "\<And>v. length (enc v) = N"
  shows "cell_good N dec (Suc n) q' (ts(i := t)) m st \<or>
    (\<exists>oper r m'. st i = Pending oper \<and> cells_spec eq oper m r m' \<and>
       cell_good N dec (Suc n) q' (ts(i := t)) m' (st(i := Answered r)))"
proof -
  from good obtain ver where inv: "cell_inv N dec ver q ts m st" and v: "\<And>l. ver l \<le> n"
    by (elim cell_goodE) blast
  have small: "ver l < 2 ^ 63" for l using v [of l] n by simp
  have v': "ver l \<le> Suc n" for l using v [of l] by simp
  show ?thesis
  proof (cases pc)
    case (OptimisticRead a)
    with tick_optimistic [OF inv, of i a enc eq u] pc t v' show ?thesis by (auto intro: cell_goodI)
  next
    case (ReadVolatile a stamp val)
    with tick_read [OF inv, of i a stamp val enc eq u] pc t v' small show ?thesis by (blast intro: cell_goodI)
  next
    case (Write a oper)
    with tick_write [OF inv, of i a oper enc eq u] pc t v' show ?thesis by (auto intro: cell_goodI)
  next
    case (Locked a oper g)
    with tick_locked [OF inv, of i a oper g enc eq u] pc t v' layout show ?thesis by (blast intro: cell_goodI)
  next
    case (WriteBytes a g bs k r)
    have v'': "(ver(lock_of a := Suc (ver (lock_of a)))) l \<le> Suc n" for l using v [of l] v [of "lock_of a"] by simp
    show ?thesis
    proof (cases "k < length bs")
      case True
      with tick_byte [OF inv, of i a g bs k r enc eq u] WriteBytes pc t v' show ?thesis by (auto intro: cell_goodI)
    next
      case False
      with tick_drop [OF inv, of i a g bs k r enc eq u] WriteBytes pc t v'' show ?thesis
        by (blast intro: cell_goodI)
    qed
  next
    case (Abort a g r)
    with tick_abort [OF inv, of i a g r enc eq u] pc t v' show ?thesis by (auto intro: cell_goodI)
  qed
qed

lemma cell_good_upd:
  assumes "cell_good N dec n q ts m st" "holding t = holding (ts i)" "writing t = writing (ts i)"
    and "\<And>ver. thread_ok N dec ver (\<lambda>l. dirty l ts) (cell_mem q) m (ts i) (st i) \<Longrightarrow>
      thread_ok N dec ver (\<lambda>l. dirty l ts) (cell_mem q) m t s"
  shows "cell_good N dec n q (ts(i := t)) m (st(i := s))"
proof -
  from assms(1) obtain ver where inv: "cell_inv N dec ver q ts m st" and v: "\<And>l. ver l \<le> n"
    by (elim cell_goodE) blast
  have "thread_ok N dec ver (\<lambda>l. dirty l ts) (cell_mem q) m (ts i) (st i)" using inv by (simp add: cell_inv_def)
  from cell_inv_local [OF inv assms(2,3) assms(4) [OF this]] v show ?thesis by (rule cell_goodI)
qed

lemma cell_good_stat:
  assumes "cell_good N dec n q ts m st"
  shows "\<exists>ver. thread_ok N dec ver (\<lambda>l. dirty l ts) (cell_mem q) m (ts i) (st i)"
  using assms by (elim cell_goodE) (auto simp: cell_inv_def)

lemma cell_simulation:
  assumes "\<And>v. dec (enc v) = v" "\<And>v. length (enc v) = N"
  shows "thread_simulation cell_start (cell_tick enc dec eq) (cells_spec eq) (cell_good N dec) (2 ^ 63)"
proof
  fix n :: nat and q :: "'b cells" and ts :: "tid \<Rightarrow> ('a, 'b) cell_thread" and x :: "usize \<Rightarrow> 'a"
    and st :: "tid \<Rightarrow> (usize \<times> 'a cell_op, 'a cell_ret) status"
  assume good: "cell_good N dec n q ts x st"
  show "cell_good N dec (Suc n) q ts x st"
    using good by (elim cell_goodE) (auto intro: cell_goodI le_SucI)
  show "st i = Quiet \<and> cell_good N dec n q (ts(i := Running (cell_start oper))) x (st(i := Pending oper))"
    if r: "ts i = Resting" for i oper
  proof
    show "st i = Quiet" using cell_good_stat [OF good, of i] r by auto
    obtain a op where oper: "oper = (a, op)" by fastforce
    have "holding (Running (cell_start oper) :: ('a, 'b) cell_thread) = None"
      "writing (Running (cell_start oper) :: ('a, 'b) cell_thread) = None"
      "thread_ok N dec ver dr mem x (Running (cell_start oper)) (Pending oper)" for ver dr mem
      by (cases op; simp add: oper)+
    then show "cell_good N dec n q (ts(i := Running (cell_start oper))) x (st(i := Pending oper))"
      using r by (intro cell_good_upd [OF good]) simp_all
  qed
  show "st i = Answered r \<and> cell_good N dec n q (ts(i := Resting)) x (st(i := Quiet))"
    if r: "ts i = Done r" for i r
  proof
    show "st i = Answered r" using cell_good_stat [OF good, of i] r by auto
    show "cell_good N dec n q (ts(i := Resting)) x (st(i := Quiet))"
      using r by (intro cell_good_upd [OF good]) auto
  qed
qed (rule cell_good_tick; use assms in blast)

text \<open>The layout of \<^verbatim>\<open>u128\<close> on a little-endian machine.\<close>

definition to_le_bytes :: "128 word \<Rightarrow> 8 word list" where
  "to_le_bytes w = map (\<lambda>i. ucast (drop_bit (8 * i) w)) [0..<16]"

definition from_le_bytes :: "8 word list \<Rightarrow> 128 word" where
  "from_le_bytes bs = foldr (\<lambda>b acc. ucast b OR push_bit 8 acc) bs 0"

lemma from_le_bytes_take:
  "from_le_bytes (map (\<lambda>i. ucast (drop_bit (8 * i) w)) [0..<n]) = take_bit (8 * n) w"
proof (induction n arbitrary: w)
  case (Suc n)
  have "map (\<lambda>i. ucast (drop_bit (8 * i) w) :: 8 word) [0..<Suc n] =
      ucast w # map (\<lambda>i. ucast (drop_bit (8 * i) (drop_bit 8 w))) [0..<n]"
    by (simp add: upt_conv_Cons map_Suc_upt [symmetric] add.commute del: upt_Suc)
  then have "from_le_bytes (map (\<lambda>i. ucast (drop_bit (8 * i) w)) [0..<Suc n]) =
      ucast (ucast w :: 8 word) OR push_bit 8 (take_bit (8 * n) (drop_bit 8 w))"
    using Suc.IH [of "drop_bit 8 w"] by (simp add: from_le_bytes_def)
  also have "\<dots> = take_bit (8 * Suc n) w"
    by (rule bit_word_eqI) (auto simp: bit_simps)
  finally show ?case .
qed (simp add: from_le_bytes_def)

lemma le_bytes_inverse: "from_le_bytes (to_le_bytes w) = w"
  unfolding to_le_bytes_def from_le_bytes_take by (rule bit_word_eqI) (simp add: bit_simps)

interpretation u128: thread_simulation cell_start "cell_tick to_le_bytes from_le_bytes (=)" "cells_spec (=)"
    "cell_good 16 from_le_bytes" "2 ^ 63"
  by (rule cell_simulation) (rule le_bytes_inverse, simp add: to_le_bytes_def)

lemma cell_good_init:
  assumes "\<And>v. dec (enc v) = v" "\<And>v. length (enc v) = N"
  shows "cell_good N dec 0 (cells_new enc x) (\<lambda>_. Resting) x (\<lambda>_. Quiet)"
  using assms by (intro cell_goodI [of _ _ "\<lambda>_. 0"])
    (auto simp: cell_inv_def locks_ok_def values_ok_def cells_new_def seq_lock_new_def)

text \<open>
  C18: the lock-based \<^verbatim>\<open>AtomicCell\<close> is linearizable. Any number of threads run
  \<^verbatim>\<open>load\<close>, \<^verbatim>\<open>store\<close>, \<^verbatim>\<open>swap\<close>,
  \<^verbatim>\<open>compare_exchange\<close> and the \<^verbatim>\<open>fetch_\<close> operations on any cells, some of
  which share their lock, reading and writing the values byte by byte, in any interleaving of fewer
  than \<open>2 ^ 63\<close> events (so that no stamp wraps around): the calls and returns are those of
  cells on which every operation happens in one instant. In particular an optimistic load never
  returns a value that is torn between two writes. The bytes of a value determine it, and all values
  take the same number of bytes.
\<close>

theorem atomic_cell_linearizable:
  assumes "\<And>v. dec (enc v) = v" "\<And>v. length (enc v) = N" and "length es < 2 ^ 63"
  shows "\<exists>b. ao_run (cells_spec eq) (x, \<lambda>_. Quiet)
    (impl_trace (threads_step cell_start (cell_tick enc dec eq)) threads_label es (cells_new enc x, \<lambda>_. Resting)) b"
  using thread_simulation.free_linearizable [OF cell_simulation [OF assms(1,2)] cell_good_init [OF assms(1,2)]]
    assms(3) less_imp_le by blast

theorem atomic_cell_linearizable_witness:
  "\<exists>b. ao_run (cells_spec (=)) (\<lambda>_. 7, \<lambda>_. Quiet)
    (impl_trace (threads_step cell_start (cell_tick to_le_bytes from_le_bytes (=))) threads_label
      [CallOp 0 (4, Load), CallOp 1 (4, fetch_add 5), TickOp 0 (), TickOp 1 (), TickOp 0 (), TickOp 1 ()]
      (cells_new to_le_bytes (\<lambda>_. 7), \<lambda>_. Resting)) b"
proof (rule atomic_cell_linearizable)
  show "length (to_le_bytes v) = 16" for v by (simp add: to_le_bytes_def)
qed (simp_all add: le_bytes_inverse)

end
