(* ===== verification/Sharded_Lock.thy ===== *)
theory Sharded_Lock
  imports Atomic_Object
begin

text \<open>
  \<^verbatim>\<open>crossbeam-utils/src/sync/sharded_lock.rs\<close>: a reader-writer lock of eight shards. A
  reader locks one shard, chosen by the index of its thread; a writer locks all shards in order and
  unlocks them in reverse. The shards are the standard library's \<^verbatim>\<open>RwLock\<close>, modelled by
  what it documents: a read lock is granted when no writer holds the lock, a write lock when nobody
  does, and the lock becomes poisoned when a write guard is dropped in a panic. A lock that is free may
  still be refused by \<^verbatim>\<open>try_read\<close> and \<^verbatim>\<open>try_write\<close>. An agent makes one
  request at a time; a tick is one operation on one shard.
\<close>

definition NUM_SHARDS :: nat where "NUM_SHARDS = 8"

text \<open>
  \<open>write_guard\<close> is the guard stored in the shard, named by its owner; it is read but not cleared
  when the shard is unlocked.
\<close>

record shard =
  sh_readers :: "tid list"
  sh_writer :: "tid option"
  sh_poisoned :: bool
  write_guard :: "tid option"

datatype shl_pc =
    Away
  | ReadWait nat
  | Reading nat bool
  | WriteWait nat bool
  | Writing bool
  | TryWriting nat bool
  | Unwinding nat
  | Refused
  | WriteDropping nat bool
  | BadGuard

record 'v sharded_lock =
  shards :: "shard list"
  shl_value :: 'v
  shl_pc :: "tid \<Rightarrow> shl_pc"

definition shard_new :: shard where
  "shard_new = \<lparr>sh_readers = [], sh_writer = None, sh_poisoned = False, write_guard = None\<rparr>"

definition shl_new :: "'v \<Rightarrow> 'v sharded_lock" where
  "shl_new value = \<lparr>shards = map (\<lambda>_. shard_new) [0..<NUM_SHARDS], shl_value = value, shl_pc = (\<lambda>_. Away)\<rparr>"

definition shl_is_poisoned :: "'v sharded_lock \<Rightarrow> bool" where
  "shl_is_poisoned self = sh_poisoned (shards self ! 0)"

text \<open>\<^verbatim>\<open>into_inner\<close> and \<^verbatim>\<open>get_mut\<close>: the value, as an error when poisoned.\<close>

definition into_inner :: "'v sharded_lock \<Rightarrow> ('v, 'v) result" where
  "into_inner self = (let is_poisoned = shl_is_poisoned self; inner = shl_value self in
     if is_poisoned then Err inner else Ok inner)"

definition get_mut :: "'v sharded_lock \<Rightarrow> ('v, 'v) result" where
  "get_mut self = (let is_poisoned = shl_is_poisoned self; inner = shl_value self in
     if is_poisoned then Err inner else Ok inner)"

text \<open>The shard of a thread index; a thread without an index takes 0.\<close>

definition shard_index :: "usize option \<Rightarrow> 'v sharded_lock \<Rightarrow> nat" where
  "shard_index current_index self =
     unat ((case current_index of None \<Rightarrow> 0 | Some i \<Rightarrow> i) AND (word_of_nat (length (shards self)) - 1))"

definition shl_goto :: "tid \<Rightarrow> shl_pc \<Rightarrow> 'v sharded_lock \<Rightarrow> 'v sharded_lock" where
  "shl_goto i c s = s\<lparr>shl_pc := (shl_pc s)(i := c)\<rparr>"

definition on_shard :: "nat \<Rightarrow> (shard \<Rightarrow> shard) \<Rightarrow> 'v sharded_lock \<Rightarrow> 'v sharded_lock" where
  "on_shard k f s = s\<lparr>shards := (shards s)[k := f (shards s ! k)]\<rparr>"

section \<open>Requests\<close>

definition free_to_read :: "shard \<Rightarrow> bool" where
  "free_to_read sh \<longleftrightarrow> sh_writer sh = None"

definition free_to_write :: "shard \<Rightarrow> bool" where
  "free_to_write sh \<longleftrightarrow> sh_writer sh = None \<and> sh_readers sh = []"

definition take_read :: "tid \<Rightarrow> nat \<Rightarrow> 'v sharded_lock \<Rightarrow> 'v sharded_lock" where
  "take_read i k s = shl_goto i (Reading k (sh_poisoned (shards s ! k)))
     (on_shard k (\<lambda>sh. sh\<lparr>sh_readers := i # sh_readers sh\<rparr>) s)"

definition shl_read :: "tid \<Rightarrow> usize option \<Rightarrow> 'v sharded_lock \<Rightarrow> 'v sharded_lock" where
  "shl_read i idx s = shl_goto i (ReadWait (shard_index idx s)) s"

definition shl_try_read :: "tid \<Rightarrow> usize option \<Rightarrow> bool \<Rightarrow> 'v sharded_lock \<Rightarrow> 'v sharded_lock" where
  "shl_try_read i idx busy s =
     (let k = shard_index idx s in
      if free_to_read (shards s ! k) \<and> \<not> busy then take_read i k s else shl_goto i Refused s)"

text \<open>Write-locking one shard and storing the guard into it.\<close>

definition take_write :: "tid \<Rightarrow> nat \<Rightarrow> 'v sharded_lock \<Rightarrow> 'v sharded_lock" where
  "take_write i k s = on_shard k (\<lambda>sh. sh\<lparr>sh_writer := Some i, write_guard := Some i\<rparr>) s"

text \<open>
  Reading the guard out of a shard and dropping it. A guard that is not this agent's, or of a shard
  it has not locked, would be undefined behaviour.
\<close>

definition drop_write :: "tid \<Rightarrow> nat \<Rightarrow> bool \<Rightarrow> shl_pc \<Rightarrow> 'v sharded_lock \<Rightarrow> 'v sharded_lock" where
  "drop_write i k panicking after s =
     (if write_guard (shards s ! k) = Some i \<and> sh_writer (shards s ! k) = Some i
      then shl_goto i after
        (on_shard k (\<lambda>sh. sh\<lparr>sh_writer := None, sh_poisoned := sh_poisoned sh \<or> panicking\<rparr>) s)
      else shl_goto i BadGuard s)"

fun shl_tick :: "tid \<Rightarrow> bool \<Rightarrow> shl_pc \<Rightarrow> 'v sharded_lock \<Rightarrow> 'v sharded_lock" where
  "shl_tick i busy (ReadWait k) s = (if free_to_read (shards s ! k) then take_read i k s else s)"
| "shl_tick i busy (WriteWait k poisoned) s =
     (if k = length (shards s) then shl_goto i (Writing poisoned) s
      else if free_to_write (shards s ! k)
      then shl_goto i (WriteWait (Suc k) (poisoned \<or> sh_poisoned (shards s ! k))) (take_write i k s)
      else s)"
| "shl_tick i busy (TryWriting k poisoned) s =
     (if k = length (shards s) then shl_goto i (Writing poisoned) s
      else if free_to_write (shards s ! k) \<and> \<not> busy
      then shl_goto i (TryWriting (Suc k) (poisoned \<or> sh_poisoned (shards s ! k))) (take_write i k s)
      else shl_goto i (Unwinding k) s)"
| "shl_tick i busy (Unwinding k) s =
     (case k of 0 \<Rightarrow> shl_goto i Refused s | Suc j \<Rightarrow> drop_write i j False (Unwinding j) s)"
| "shl_tick i busy (WriteDropping k panicking) s =
     (case k of 0 \<Rightarrow> shl_goto i Away s | Suc j \<Rightarrow> drop_write i j panicking (WriteDropping j panicking) s)"
| "shl_tick i busy Refused s = shl_goto i Away s"
| "shl_tick i busy _ s = s"

text \<open>Dropping a read guard, and writing to the value through a write guard.\<close>

definition read_drop :: "tid \<Rightarrow> 'v sharded_lock \<Rightarrow> 'v sharded_lock" where
  "read_drop i s = (case shl_pc s i of
     Reading k p \<Rightarrow> shl_goto i Away (on_shard k (\<lambda>sh. sh\<lparr>sh_readers := removeAll i (sh_readers sh)\<rparr>) s)
   | _ \<Rightarrow> s)"

definition write_drop :: "tid \<Rightarrow> bool \<Rightarrow> 'v sharded_lock \<Rightarrow> 'v sharded_lock" where
  "write_drop i panicking s = (case shl_pc s i of
     Writing p \<Rightarrow> shl_goto i (WriteDropping (length (shards s)) panicking) s
   | _ \<Rightarrow> s)"

definition deref_mut :: "tid \<Rightarrow> 'v \<Rightarrow> 'v sharded_lock \<Rightarrow> 'v sharded_lock" where
  "deref_mut i v s = (case shl_pc s i of Writing p \<Rightarrow> s\<lparr>shl_value := v\<rparr> | _ \<Rightarrow> s)"

datatype 'v shl_event =
    Read tid "usize option" | TryRead tid "usize option" bool | WriteLock tid | TryWrite tid
  | ShlTick tid bool | ReadDrop tid | WriteDrop tid bool | SetValue tid 'v

fun shl_step :: "'v shl_event \<Rightarrow> 'v sharded_lock \<Rightarrow> 'v sharded_lock" where
  "shl_step (Read i idx) s = (if shl_pc s i = Away then shl_read i idx s else s)"
| "shl_step (TryRead i idx busy) s = (if shl_pc s i = Away then shl_try_read i idx busy s else s)"
| "shl_step (WriteLock i) s = (if shl_pc s i = Away then shl_goto i (WriteWait 0 False) s else s)"
| "shl_step (TryWrite i) s = (if shl_pc s i = Away then shl_goto i (TryWriting 0 False) s else s)"
| "shl_step (ShlTick i busy) s = shl_tick i busy (shl_pc s i) s"
| "shl_step (ReadDrop i) s = read_drop i s"
| "shl_step (WriteDrop i panicking) s = write_drop i panicking s"
| "shl_step (SetValue i v) s = deref_mut i v s"

section \<open>Invariant\<close>

text \<open>The shards an agent has locked.\<close>

fun write_held :: "shl_pc \<Rightarrow> nat \<Rightarrow> bool" where
  "write_held (WriteWait k p) j \<longleftrightarrow> j < k"
| "write_held (Writing p) j \<longleftrightarrow> True"
| "write_held (TryWriting k p) j \<longleftrightarrow> j < k"
| "write_held (Unwinding k) j \<longleftrightarrow> j < k"
| "write_held (WriteDropping k p) j \<longleftrightarrow> j < k"
| "write_held _ j \<longleftrightarrow> False"

fun read_held :: "shl_pc \<Rightarrow> nat \<Rightarrow> bool" where
  "read_held (Reading k p) j \<longleftrightarrow> j = k"
| "read_held _ j \<longleftrightarrow> False"

fun pc_bounds :: "shl_pc \<Rightarrow> bool" where
  "pc_bounds (ReadWait k) \<longleftrightarrow> k < NUM_SHARDS"
| "pc_bounds (Reading k p) \<longleftrightarrow> k < NUM_SHARDS"
| "pc_bounds (WriteWait k p) \<longleftrightarrow> k \<le> NUM_SHARDS"
| "pc_bounds (TryWriting k p) \<longleftrightarrow> k \<le> NUM_SHARDS"
| "pc_bounds (Unwinding k) \<longleftrightarrow> k \<le> NUM_SHARDS"
| "pc_bounds (WriteDropping k p) \<longleftrightarrow> k \<le> NUM_SHARDS"
| "pc_bounds BadGuard \<longleftrightarrow> False"
| "pc_bounds _ \<longleftrightarrow> True"

text \<open>One shard agrees with the agents.\<close>

definition shard_ok :: "nat \<Rightarrow> shard \<Rightarrow> (tid \<Rightarrow> shl_pc) \<Rightarrow> bool" where
  "shard_ok k sh pcs \<longleftrightarrow>
     (\<forall>i. sh_writer sh = Some i \<longleftrightarrow> write_held (pcs i) k) \<and>
     (\<forall>i. i \<in> set (sh_readers sh) \<longleftrightarrow> read_held (pcs i) k) \<and>
     (sh_writer sh \<noteq> None \<longrightarrow> sh_readers sh = [] \<and> write_guard sh = sh_writer sh)"

definition shl_inv :: "'v sharded_lock \<Rightarrow> bool" where
  "shl_inv s \<longleftrightarrow> length (shards s) = NUM_SHARDS \<and> (\<forall>i. pc_bounds (shl_pc s i)) \<and>
     (\<forall>k<NUM_SHARDS. shard_ok k (shards s ! k) (shl_pc s))"

lemma shard_ok_goto:
  assumes "shard_ok k sh pcs" "write_held c k = write_held (pcs i) k" "read_held c k = read_held (pcs i) k"
  shows "shard_ok k sh (pcs(i := c))"
  using assms unfolding shard_ok_def by (simp add: fun_upd_apply)

lemma shl_goto_simps [simp]:
  "shards (shl_goto i c s) = shards s" "shl_pc (shl_goto i c s) = (shl_pc s)(i := c)"
  "shl_value (shl_goto i c s) = shl_value s"
  "shards (on_shard k f s) = (shards s)[k := f (shards s ! k)]" "shl_pc (on_shard k f s) = shl_pc s"
  "shl_value (on_shard k f s) = shl_value s"
  by (simp_all add: shl_goto_def on_shard_def)

text \<open>An agent moves without touching a shard.\<close>

lemma shl_inv_goto:
  assumes "shl_inv s" "pc_bounds c"
    and "\<And>j. j < NUM_SHARDS \<Longrightarrow> write_held c j = write_held (shl_pc s i) j \<and> read_held c j = read_held (shl_pc s i) j"
  shows "shl_inv (shl_goto i c s)"
  using assms unfolding shl_inv_def by (auto simp: shard_ok_goto)

text \<open>An agent moves and changes one shard.\<close>

lemma shl_inv_shard:
  assumes "shl_inv s" "pc_bounds c" "k < NUM_SHARDS"
    and "\<And>j. j < NUM_SHARDS \<Longrightarrow> j \<noteq> k \<Longrightarrow>
      write_held c j = write_held (shl_pc s i) j \<and> read_held c j = read_held (shl_pc s i) j"
    and "shard_ok k (f (shards s ! k)) ((shl_pc s)(i := c))"
  shows "shl_inv (shl_goto i c (on_shard k f s))"
  using assms unfolding shl_inv_def
  by (auto simp: nth_list_update intro!: shard_ok_goto)

lemma take_read_inv:
  assumes "shl_inv s" "k < NUM_SHARDS" "free_to_read (shards s ! k)"
    and "\<And>j. \<not> write_held (shl_pc s i) j" "\<And>j. \<not> read_held (shl_pc s i) j"
  shows "shl_inv (take_read i k s)"
proof -
  have "shard_ok k (shards s ! k) (shl_pc s)" using assms(1,2) by (simp add: shl_inv_def)
  with assms(3-) have "shard_ok k ((\<lambda>sh. sh\<lparr>sh_readers := i # sh_readers sh\<rparr>) (shards s ! k))
      ((shl_pc s)(i := Reading k (sh_poisoned (shards s ! k))))"
    unfolding shard_ok_def free_to_read_def by simp
  with assms show ?thesis unfolding take_read_def by (intro shl_inv_shard) auto
qed

lemma shard_index_bound: "shl_inv s \<Longrightarrow> shard_index idx s < NUM_SHARDS"
proof -
  assume "shl_inv s"
  then have "shard_index idx s = unat ((case idx of None \<Rightarrow> 0 | Some i \<Rightarrow> i) AND (2 ^ 3 - 1))"
    by (simp add: shard_index_def shl_inv_def NUM_SHARDS_def)
  also have "\<dots> = unat (take_bit 3 (case idx of None \<Rightarrow> 0 | Some i \<Rightarrow> i))"
    by (simp only: and_exp_minus_1)
  also have "\<dots> < 2 ^ 3" by (simp add: unsigned_take_bit_eq take_bit_nat_less_exp [where n = 3, simplified])
  finally show ?thesis by (simp add: NUM_SHARDS_def)
qed

lemma take_write_inv:
  assumes "shl_inv s" "k < NUM_SHARDS" "free_to_write (shards s ! k)"
    and held: "\<And>j. write_held (shl_pc s i) j \<longleftrightarrow> j < k" "\<And>j. \<not> read_held (shl_pc s i) j"
    and c: "pc_bounds c" "\<And>j. write_held c j \<longleftrightarrow> j < Suc k" "\<And>j. \<not> read_held c j"
  shows "shl_inv (shl_goto i c (take_write i k s))"
  unfolding take_write_def
proof (rule shl_inv_shard [OF assms(1) c(1) assms(2)])
  show "write_held c j = write_held (shl_pc s i) j \<and> read_held c j = read_held (shl_pc s i) j" if "j \<noteq> k" for j
    using that c held by auto
  have "shard_ok k (shards s ! k) (shl_pc s)" using assms(1,2) by (simp add: shl_inv_def)
  with assms(3) c held show "shard_ok k ((\<lambda>sh. sh\<lparr>sh_writer := Some i, write_guard := Some i\<rparr>) (shards s ! k))
      ((shl_pc s)(i := c))"
    unfolding shard_ok_def free_to_write_def by auto
qed

lemma drop_write_inv:
  assumes "shl_inv s" "k < NUM_SHARDS"
    and held: "\<And>j. write_held (shl_pc s i) j \<longleftrightarrow> j < Suc k" "\<And>j. \<not> read_held (shl_pc s i) j"
    and c: "pc_bounds c" "\<And>j. write_held c j \<longleftrightarrow> j < k" "\<And>j. \<not> read_held c j"
  shows "shl_inv (drop_write i k panicking c s)"
proof -
  have ok: "shard_ok k (shards s ! k) (shl_pc s)" using assms(1,2) by (simp add: shl_inv_def)
  then have w1: "sh_writer (shards s ! k) = Some i" using held(1) [of k] by (simp add: shard_ok_def)
  then have w: "sh_writer (shards s ! k) = Some i" "write_guard (shards s ! k) = Some i"
    using ok by (auto simp: shard_ok_def)
  have "shl_inv (shl_goto i c
      (on_shard k (\<lambda>sh. sh\<lparr>sh_writer := None, sh_poisoned := sh_poisoned sh \<or> panicking\<rparr>) s))"
  proof (rule shl_inv_shard [OF assms(1) c(1) assms(2)])
    show "write_held c j = write_held (shl_pc s i) j \<and> read_held c j = read_held (shl_pc s i) j" if "j \<noteq> k" for j
      using that c held by auto
    have "\<not> write_held (shl_pc s j) k" if "j \<noteq> i" for j
      using ok w that unfolding shard_ok_def by (metis option.inject)
    with ok w c held show "shard_ok k ((\<lambda>sh. sh\<lparr>sh_writer := None, sh_poisoned := sh_poisoned sh \<or> panicking\<rparr>) (shards s ! k))
        ((shl_pc s)(i := c))"
      unfolding shard_ok_def by auto
  qed
  with w show ?thesis by (simp add: drop_write_def)
qed

lemma tick_inv:
  assumes inv: "shl_inv s"
  shows "shl_inv (shl_tick i busy (shl_pc s i) s)"
proof -
  have b: "pc_bounds (shl_pc s i)" and len: "length (shards s) = NUM_SHARDS"
    using inv by (simp_all add: shl_inv_def)
  show ?thesis
  proof (cases "shl_pc s i")
    case (ReadWait k)
    then show ?thesis using inv b by (auto intro: take_read_inv)
  next
    case (WriteWait k p)
    then show ?thesis using inv b len
      by (cases "k = NUM_SHARDS"; cases "free_to_write (shards s ! k) \<and> (True)")
        (auto intro: take_write_inv shl_inv_goto)
  next
    case (TryWriting k p)
    then show ?thesis using inv b len
      by (cases "k = NUM_SHARDS"; cases "free_to_write (shards s ! k) \<and> (\<not> busy)")
        (auto intro: take_write_inv shl_inv_goto)
  next
    case (Unwinding k)
    then show ?thesis using inv b
      by (auto intro!: drop_write_inv shl_inv_goto split: nat.split)
  next
    case (WriteDropping k p)
    then show ?thesis using inv b
      by (auto intro!: drop_write_inv shl_inv_goto split: nat.split)
  next
    case Refused
    then show ?thesis using inv by (auto intro!: shl_inv_goto)
  qed (use inv in auto)
qed

lemma read_drop_inv:
  assumes inv: "shl_inv s"
  shows "shl_inv (read_drop i s)"
proof (cases "shl_pc s i")
  case (Reading k p)
  have k: "k < NUM_SHARDS" using inv Reading by (auto simp: shl_inv_def dest: spec [of _ i])
  have "shl_inv (shl_goto i Away (on_shard k (\<lambda>sh. sh\<lparr>sh_readers := removeAll i (sh_readers sh)\<rparr>) s))"
  proof (rule shl_inv_shard [OF inv _ k])
    have "shard_ok k (shards s ! k) (shl_pc s)" using inv k by (simp add: shl_inv_def)
    with Reading show "shard_ok k ((\<lambda>sh. sh\<lparr>sh_readers := removeAll i (sh_readers sh)\<rparr>) (shards s ! k)) ((shl_pc s)(i := Away))"
      unfolding shard_ok_def by auto
  qed (use Reading in auto)
  then show ?thesis by (simp add: read_drop_def Reading)
qed (use inv in \<open>auto simp: read_drop_def\<close>)

lemma shl_inv_step:
  assumes inv: "shl_inv s"
  shows "shl_inv (shl_step e s)"
proof (cases e)
  case (Read i idx)
  then show ?thesis using inv shard_index_bound [OF inv]
    by (auto simp: shl_read_def intro!: shl_inv_goto)
next
  case (TryRead i idx busy)
  then show ?thesis using inv shard_index_bound [OF inv]
    by (auto simp: shl_try_read_def Let_def intro!: shl_inv_goto take_read_inv)
next
  case (WriteDrop i p)
  have len: "length (shards s) = NUM_SHARDS" using inv by (simp add: shl_inv_def)
  show ?thesis using inv WriteDrop
    by (cases "shl_pc s i") (auto simp: write_drop_def len intro!: shl_inv_goto)
next
  case (SetValue i v)
  then show ?thesis using inv
    by (cases "shl_pc s i") (auto simp: deref_mut_def shl_inv_def)
qed (use inv in \<open>auto intro!: shl_inv_goto tick_inv read_drop_inv\<close>)

interpretation shl: invariant_system shl_step shl_inv
  by unfold_locales (rule shl_inv_step)

lemma shl_inv_new: "shl_inv (shl_new v)"
  by (simp add: shl_inv_def shl_new_def shard_ok_def shard_new_def)

section \<open>Exclusion and progress\<close>

lemma shard_okD:
  assumes "shl_inv s" "k < NUM_SHARDS"
  shows "sh_writer (shards s ! k) = Some i \<longleftrightarrow> write_held (shl_pc s i) k"
    "i \<in> set (sh_readers (shards s ! k)) \<longleftrightarrow> read_held (shl_pc s i) k"
    "sh_writer (shards s ! k) = Some i \<Longrightarrow> sh_readers (shards s ! k) = []"
  using assms unfolding shl_inv_def shard_ok_def by auto

text \<open>An agent that waits for others, or whose guard is in the hands of the user.\<close>

fun waiting_for :: "shl_pc \<Rightarrow> nat option" where
  "waiting_for (ReadWait k) = Some k"
| "waiting_for (WriteWait k p) = (if k < NUM_SHARDS then Some k else None)"
| "waiting_for _ = None"

fun user_holds :: "shl_pc \<Rightarrow> bool" where
  "user_holds (Reading k p) \<longleftrightarrow> True"
| "user_holds (Writing p) \<longleftrightarrow> True"
| "user_holds _ \<longleftrightarrow> False"

lemma goto_changes: "c \<noteq> shl_pc s i \<Longrightarrow> shl_goto i c s' \<noteq> s"
  by (metis fun_upd_same shl_goto_simps(2))

text \<open>An agent that neither rests, nor waits, nor leaves its guard to the user can always move.\<close>

lemma can_move:
  assumes "shl_inv s" "shl_pc s i \<noteq> Away" "\<not> user_holds (shl_pc s i)" "waiting_for (shl_pc s i) = None"
  shows "shl_tick i False (shl_pc s i) s \<noteq> s"
proof -
  have b: "pc_bounds (shl_pc s i)" "length (shards s) = NUM_SHARDS" using assms(1) by (simp_all add: shl_inv_def)
  show ?thesis
  proof (cases "shl_pc s i")
    case (WriteWait k p)
    with assms b have "k = NUM_SHARDS" by (auto split: if_splits)
    with WriteWait b show ?thesis by (simp add: goto_changes)
  next
    case (TryWriting k p)
    then show ?thesis using b by (auto simp: goto_changes)
  next
    case (Unwinding k)
    then show ?thesis by (auto simp: drop_write_def goto_changes split: nat.split)
  next
    case (WriteDropping k p)
    then show ?thesis by (auto simp: drop_write_def goto_changes split: nat.split)
  qed (use assms b in \<open>auto simp: goto_changes\<close>)
qed

text \<open>
  An agent that waits for a shard waits for an agent that is further on in the order of the shards.
\<close>

lemma waiting_moves:
  assumes inv: "shl_inv s" and users: "\<forall>j. \<not> user_holds (shl_pc s j)"
  shows "waiting_for (shl_pc s i) = Some k \<Longrightarrow> \<exists>j. shl_tick j False (shl_pc s j) s \<noteq> s"
proof (induction "NUM_SHARDS - k" arbitrary: i k rule: less_induct)
  case less
  have k: "k < NUM_SHARDS" using inv less.prems
    by (cases "shl_pc s i") (auto simp: shl_inv_def split: if_splits dest: spec [of _ i])
  have len: "length (shards s) = NUM_SHARDS" using inv by (simp add: shl_inv_def)
  have nr: "sh_readers (shards s ! k) = []"
  proof (rule ccontr)
    assume "sh_readers (shards s ! k) \<noteq> []"
    then have "hd (sh_readers (shards s ! k)) \<in> set (sh_readers (shards s ! k))" by simp
    then have "read_held (shl_pc s (hd (sh_readers (shards s ! k)))) k" using shard_okD(2) [OF inv k] by simp
    with users show False by (metis read_held.elims(2) user_holds.simps(1))
  qed
  show ?case
  proof (cases "sh_writer (shards s ! k)")
    case None
    with nr have "free_to_write (shards s ! k)" "free_to_read (shards s ! k)"
      by (simp_all add: free_to_write_def free_to_read_def)
    with less.prems k len have "shl_tick i False (shl_pc s i) s \<noteq> s"
      by (cases "shl_pc s i") (auto simp: take_read_def goto_changes split: if_splits)
    then show ?thesis by blast
  next
    case (Some j)
    then have held: "write_held (shl_pc s j) k" using shard_okD(1) [OF inv k] by simp
    show ?thesis
    proof (cases "waiting_for (shl_pc s j)")
      case None
      moreover have "shl_pc s j \<noteq> Away" using held by auto
      ultimately show ?thesis using can_move [OF inv _ users [rule_format]] by blast
    next
      case (Some k')
      with held have "k < k'" "k' < NUM_SHARDS" by (cases "shl_pc s j"; auto split: if_splits)+
      then show ?thesis using less.hyps [of k' j] Some k by auto
    qed
  qed
qed

text \<open>
  C23: a \<^verbatim>\<open>ShardedLock\<close> excludes. In every run of any agents, with any shard indices,
  refused attempts and panics: while one agent has a write guard, no other agent has a read or a write
  guard; while some agent has a read guard, the value does not change; no stored guard is misused; and
  an agent outside all requests, in particular one whose \<^verbatim>\<open>try_write\<close> was refused, has no
  shard locked.
\<close>

theorem sharded_lock_excludes:
  assumes "s = impl_run shl_step es (shl_new v)"
  shows "(shl_pc s i = Writing p \<and> j \<noteq> i \<longrightarrow> \<not> user_holds (shl_pc s j)) \<and>
    (shl_pc s i = Reading k p \<longrightarrow> shl_value (shl_step e s) = shl_value s) \<and>
    shl_pc s i \<noteq> BadGuard \<and>
    (shl_pc s i \<in> {Away, Refused} \<and> k < NUM_SHARDS \<longrightarrow>
       sh_writer (shards s ! k) \<noteq> Some i \<and> i \<notin> set (sh_readers (shards s ! k)))"
proof -
  have inv: "shl_inv s" unfolding assms(1) by (rule shl.run_inv [OF shl_inv_new])
  have excl: "\<not> user_holds (shl_pc s j)" if "shl_pc s i = Writing p" "j \<noteq> i" for i j p
  proof
    assume "user_holds (shl_pc s j)"
    then obtain k where k: "k < NUM_SHARDS" "read_held (shl_pc s j) k \<or> write_held (shl_pc s j) k"
    proof (cases "shl_pc s j")
      case (Reading k q)
      with inv have "k < NUM_SHARDS" by (auto simp: shl_inv_def dest: spec [of _ j])
      then show ?thesis using that Reading by simp
    next
      case (Writing q)
      then show ?thesis using that [of 0] by (simp add: NUM_SHARDS_def)
    qed auto
    have w: "sh_writer (shards s ! k) = Some i" using shard_okD(1) [OF inv k(1)] \<open>shl_pc s i = Writing p\<close> by simp
    with k(2) shard_okD [OF inv k(1), of j] shard_okD(3) [OF inv k(1) w] \<open>j \<noteq> i\<close> show False by auto
  qed
  have "shl_value (shl_step e s) = shl_value s" if r: "shl_pc s i = Reading k p"
  proof (cases e)
    case (SetValue j x)
    have "shl_pc s j \<noteq> Writing q" for q using excl [of j q i] r by (cases "i = j") auto
    then show ?thesis using SetValue by (auto simp: deref_mut_def split: shl_pc.split)
  next
    case (ShlTick j b)
    then show ?thesis by (cases "shl_pc s j") (auto simp: take_read_def take_write_def drop_write_def split: nat.split)
  qed (auto simp: shl_read_def shl_try_read_def take_read_def read_drop_def write_drop_def Let_def split: shl_pc.split)
  moreover have "pc_bounds (shl_pc s i)" using inv by (simp add: shl_inv_def)
  moreover have "sh_writer (shards s ! k) \<noteq> Some i \<and> i \<notin> set (sh_readers (shards s ! k))"
    if "shl_pc s i \<in> {Away, Refused}" "k < NUM_SHARDS"
    using that shard_okD [OF inv that(2), of i] by auto
  ultimately show ?thesis using excl by auto
qed

theorem sharded_lock_excludes_witness:
  "let s = impl_run shl_step ([WriteLock 1] @ replicate 9 (ShlTick 1 False) @ [Read 2 None, ShlTick 2 False])
       (shl_new (0 :: nat))
   in shl_pc s 1 = Writing False \<and> \<not> user_holds (shl_pc s 2)"
proof -
  let ?s = "impl_run shl_step ([WriteLock 1] @ replicate 9 (ShlTick 1 False) @ [Read 2 None, ShlTick 2 False])
       (shl_new (0 :: nat))"
  have "shl_pc ?s 1 = Writing False"
    by (simp add: numeral_eq_Suc shl_new_def shard_new_def NUM_SHARDS_def shl_goto_def on_shard_def take_write_def
        free_to_write_def free_to_read_def shl_read_def shard_index_def upt_rec)
  with sharded_lock_excludes [OF refl, of "[WriteLock 1] @ replicate 9 (ShlTick 1 False) @ [Read 2 None, ShlTick 2 False]"
      "0 :: nat" 1 False 2] show ?thesis unfolding Let_def by auto
qed

text \<open>
  C24: a \<^verbatim>\<open>ShardedLock\<close> does not deadlock. Whenever no guard is in the hands of a user and
  some agent is inside a request, some agent can take a step: writers lock the shards in the same
  order, and one that is refused gives up what it had locked.
\<close>

theorem sharded_lock_progress:
  assumes "s = impl_run shl_step es (shl_new v)"
    and "\<forall>j. \<not> user_holds (shl_pc s j)" "shl_pc s i \<noteq> Away"
  shows "\<exists>j. shl_step (ShlTick j False) s \<noteq> s"
proof -
  have inv: "shl_inv s" unfolding assms(1) by (rule shl.run_inv [OF shl_inv_new])
  show ?thesis
  proof (cases "waiting_for (shl_pc s i)")
    case None
    with can_move [OF inv assms(3)] assms(2) show ?thesis by auto
  next
    case (Some k)
    with waiting_moves [OF inv assms(2) Some] show ?thesis by simp
  qed
qed

theorem sharded_lock_progress_witness:
  "\<exists>j. shl_step (ShlTick j False) (impl_run shl_step [WriteLock 1, ShlTick 1 False, WriteLock 2] (shl_new (0 :: nat))) \<noteq>
     impl_run shl_step [WriteLock 1, ShlTick 1 False, WriteLock 2] (shl_new (0 :: nat))"
  by (rule sharded_lock_progress [OF refl, of _ _ 1])
    (simp_all add: shl_new_def shard_new_def NUM_SHARDS_def shl_goto_def on_shard_def take_write_def
      free_to_write_def upt_rec)

end
