(* ===== verification/Thread_Indices.thy ===== *)
theory Thread_Indices
  imports Prelude
begin

text \<open>
  The registration of threads in \<^verbatim>\<open>crossbeam-utils/src/sync/sharded_lock.rs\<close>: a thread gets
  an index when it first asks for one, and gives it back when it exits. The global table is behind a
  mutex, so each registration and each exit is one step. Indices are natural numbers: their number is
  bounded by that of the threads alive at the same time, as proved below.
\<close>

record thread_indices =
  mapping :: "nat \<rightharpoonup> nat"
  free_list :: "nat list"
  next_index :: nat

record registration =
  reg_index :: nat
  reg_thread_id :: nat

definition thread_indices_init :: thread_indices where
  "thread_indices_init = \<lparr>mapping = Map.empty, free_list = [], next_index = 0\<rparr>"

text \<open>The initializer of the thread-local \<^verbatim>\<open>REGISTRATION\<close>; a \<^verbatim>\<open>Vec\<close> pops its last element.\<close>

definition registration_init :: "nat \<Rightarrow> thread_indices \<Rightarrow> registration \<times> thread_indices" where
  "registration_init thread_id indices =
     (let (index, indices1) =
        (if free_list indices = []
         then (next_index indices, indices\<lparr>next_index := next_index indices + 1\<rparr>)
         else (last (free_list indices), indices\<lparr>free_list := butlast (free_list indices)\<rparr>))
      in (\<lparr>reg_index = index, reg_thread_id = thread_id\<rparr>,
          indices1\<lparr>mapping := (mapping indices1)(thread_id \<mapsto> index)\<rparr>))"

definition registration_drop :: "registration \<Rightarrow> thread_indices \<Rightarrow> thread_indices" where
  "registration_drop self indices =
     indices\<lparr>mapping := (mapping indices)(reg_thread_id self := None),
       free_list := free_list indices @ [reg_index self]\<rparr>"

text \<open>
  Threads with their thread-local registrations: a thread registers on its first access, and drops
  its registration when it exits; from then on an access answers \<open>None\<close>. A thread that exits
  without a registration has nothing to drop.
\<close>

type_synonym threads = "thread_indices \<times> (nat \<rightharpoonup> registration) \<times> nat set"

datatype thread_access = CurrentIndex nat | Exit nat

definition current_index :: "nat \<Rightarrow> threads \<Rightarrow> nat option \<times> threads" where
  "current_index i s = (case s of (t, regs, torn_down) \<Rightarrow>
     if i \<in> torn_down then (None, s)
     else case regs i of
       Some reg \<Rightarrow> (Some (reg_index reg), s)
     | None \<Rightarrow>
         (let (reg, t') = registration_init i t in (Some (reg_index reg), (t', regs(i \<mapsto> reg), torn_down))))"

fun thread_step :: "thread_access \<Rightarrow> threads \<Rightarrow> threads" where
  "thread_step (CurrentIndex i) s = snd (current_index i s)"
| "thread_step (Exit i) (t, regs, torn_down) =
     (case regs i of
        None \<Rightarrow> (t, regs, torn_down)
      | Some reg \<Rightarrow> (registration_drop reg t, regs(i := None), insert i torn_down))"

text \<open>The largest number of threads that were registered at the same time.\<close>

fun peak :: "thread_access list \<Rightarrow> nat \<Rightarrow> threads \<Rightarrow> nat" where
  "peak [] n s = n"
| "peak (e # es) n s =
     (let s' = thread_step e s in peak es (max n (card (dom (fst (snd s'))))) s')"

section \<open>Invariant\<close>

text \<open>
  The mapping holds the registered threads; the indices in use and the free ones together are the
  numbers below \<open>next_index\<close>, each once.
\<close>

definition indices_ok :: "threads \<Rightarrow> bool" where
  "indices_ok s \<longleftrightarrow> (case s of (t, regs, torn_down) \<Rightarrow>
     finite (dom regs) \<and> dom regs \<inter> torn_down = {} \<and> mapping t = (\<lambda>i. map_option reg_index (regs i)) \<and>
     (\<forall>i reg. regs i = Some reg \<longrightarrow> reg_thread_id reg = i) \<and>
     inj_on (mapping t) (dom (mapping t)) \<and> distinct (free_list t) \<and>
     ran (mapping t) \<inter> set (free_list t) = {} \<and>
     ran (mapping t) \<union> set (free_list t) = {..<next_index t})"

lemma indices_okE:
  assumes "indices_ok (t, regs, torn_down)"
  obtains "finite (dom regs)" "dom regs \<inter> torn_down = {}" "mapping t = (\<lambda>i. map_option reg_index (regs i))"
    "\<And>i reg. regs i = Some reg \<Longrightarrow> reg_thread_id reg = i"
    "inj_on (mapping t) (dom (mapping t))" "distinct (free_list t)"
    "ran (mapping t) \<inter> set (free_list t) = {}" "ran (mapping t) \<union> set (free_list t) = {..<next_index t}"
  using assms unfolding indices_ok_def by blast

lemma inj_on_upd:
  "inj_on m (dom m) \<Longrightarrow> x \<notin> ran m \<Longrightarrow> inj_on (m(i \<mapsto> x)) (dom (m(i \<mapsto> x)))"
  by (auto simp: inj_on_def ran_def dom_def split: if_splits)

lemma inj_on_del: "inj_on m (dom m) \<Longrightarrow> inj_on (m(i := None)) (dom (m(i := None)))"
  by (auto simp: inj_on_def dom_def)

lemma ran_del:
  assumes "inj_on m (dom m)" "m i = Some x"
  shows "ran (m(i := None)) = ran m - {x}"
proof (intro equalityI subsetI)
  have u: "j = i" if "m j = Some x" for j
    using inj_onD [OF assms(1), of j i] that assms(2) by (simp add: domI)
  fix y assume "y \<in> ran (m(i := None))"
  then obtain j where "j \<noteq> i" "m j = Some y" unfolding ran_def by (auto split: if_splits)
  with u [of j] show "y \<in> ran m - {x}" by (auto intro: ranI)
next
  fix y assume "y \<in> ran m - {x}"
  then obtain j where "m j = Some y" "y \<noteq> x" unfolding ran_def by blast
  with assms(2) show "y \<in> ran (m(i := None))" by (intro ranI [of _ j]) auto
qed

lemma indices_ok_register:
  assumes ok: "indices_ok (t, regs, torn_down)" and new: "regs i = None" "i \<notin> torn_down" and r: "registration_init i t = (reg, t')"
  shows "indices_ok (t', regs(i \<mapsto> reg), torn_down)"
proof -
  from ok have fin: "finite (dom regs)" and td: "dom regs \<inter> torn_down = {}" and m: "mapping t = (\<lambda>i. map_option reg_index (regs i))"
    and id: "\<And>i reg. regs i = Some reg \<Longrightarrow> reg_thread_id reg = i"
    and inj: "inj_on (mapping t) (dom (mapping t))" and d: "distinct (free_list t)"
    and dis: "ran (mapping t) \<inter> set (free_list t) = {}"
    and un: "ran (mapping t) \<union> set (free_list t) = {..<next_index t}" by (elim indices_okE; blast)+
  have mi: "mapping t i = None" by (simp add: m new)
  have mt: "mapping t' = (mapping t)(i \<mapsto> reg_index reg)" "reg_thread_id reg = i"
    using r by (auto simp: registration_init_def Let_def split: if_splits)
  have ran: "ran (mapping t') = insert (reg_index reg) (ran (mapping t))" unfolding mt using mi by simp
  have frame: "finite (dom (regs(i \<mapsto> reg)))" "dom (regs(i \<mapsto> reg)) \<inter> torn_down = {}" "mapping t' = (\<lambda>j. map_option reg_index ((regs(i \<mapsto> reg)) j))"
    "\<And>j rg. (regs(i \<mapsto> reg)) j = Some rg \<Longrightarrow> reg_thread_id rg = j"
    using fin td m id mt new(2) by (auto split: if_splits)
  show ?thesis
  proof (cases "free_list t" rule: rev_cases)
    case Nil
    then have v: "reg_index reg = next_index t" "free_list t' = []" "next_index t' = Suc (next_index t)"
      using r by (auto simp: registration_init_def)
    have "next_index t \<notin> ran (mapping t)" using un by auto
    then have "inj_on (mapping t') (dom (mapping t'))" unfolding mt using inj v by (intro inj_on_upd) simp_all
    moreover have "ran (mapping t') \<union> set (free_list t') = {..<next_index t'}"
      using un Nil by (auto simp: ran v lessThan_Suc)
    ultimately show ?thesis using frame v by (simp add: indices_ok_def)
  next
    case (snoc ys y)
    then have v: "reg_index reg = y" "free_list t' = ys" "next_index t' = next_index t"
      using r by (auto simp: registration_init_def)
    have "y \<notin> ran (mapping t)" using dis snoc by auto
    then have "inj_on (mapping t') (dom (mapping t'))" unfolding mt using inj v by (intro inj_on_upd) simp_all
    moreover have "ran (mapping t') \<union> set (free_list t') = {..<next_index t'}"
      using un snoc by (auto simp: ran v)
    moreover have "ran (mapping t') \<inter> set (free_list t') = {}" "distinct (free_list t')"
      using dis d snoc by (auto simp: ran v)
    ultimately show ?thesis using frame by (simp add: indices_ok_def)
  qed
qed

lemma indices_ok_exit:
  assumes ok: "indices_ok (t, regs, torn_down)" and reg: "regs i = Some reg"
  shows "indices_ok (registration_drop reg t, regs(i := None), insert i torn_down)"
proof -
  from ok have fin: "finite (dom regs)" and td: "dom regs \<inter> torn_down = {}" and m: "mapping t = (\<lambda>i. map_option reg_index (regs i))"
    and id: "\<And>i reg. regs i = Some reg \<Longrightarrow> reg_thread_id reg = i"
    and inj: "inj_on (mapping t) (dom (mapping t))" and d: "distinct (free_list t)"
    and dis: "ran (mapping t) \<inter> set (free_list t) = {}"
    and un: "ran (mapping t) \<union> set (free_list t) = {..<next_index t}" by (elim indices_okE; blast)+
  have x: "mapping t i = Some (reg_index reg)" by (simp add: m reg)
  then have "reg_index reg \<in> ran (mapping t)" by (auto simp: ran_def)
  then show ?thesis
    using fin td id inj d dis un reg ran_del [OF inj x] inj_on_del [OF inj, of i]
    by (auto simp: indices_ok_def registration_drop_def m split: if_splits)
qed

lemma indices_ok_step: "indices_ok s \<Longrightarrow> indices_ok (thread_step e s)"
proof (cases e)
  case (CurrentIndex i)
  assume "indices_ok s"
  then show ?thesis using indices_ok_register [of "fst s" "fst (snd s)" "snd (snd s)" i]
    by (auto simp: CurrentIndex current_index_def Let_def split: option.splits prod.splits)
next
  case (Exit i)
  assume "indices_ok s"
  then show ?thesis using indices_ok_exit [of "fst s" "fst (snd s)" "snd (snd s)" i]
    by (cases s) (auto simp: Exit split: option.splits)
qed

section \<open>Density\<close>

lemma indices_count:
  assumes "indices_ok (t, regs, torn_down)"
  shows "next_index t = card (dom regs) + length (free_list t)"
proof -
  from assms have fin: "finite (dom regs)" and m: "mapping t = (\<lambda>i. map_option reg_index (regs i))"
    and inj: "inj_on (mapping t) (dom (mapping t))" and d: "distinct (free_list t)"
    and dis: "ran (mapping t) \<inter> set (free_list t) = {}"
    and un: "ran (mapping t) \<union> set (free_list t) = {..<next_index t}" by (elim indices_okE; blast)+
  have dom: "dom (mapping t) = dom regs" by (auto simp: m dom_def)
  have "Some ` ran (mapping t) = mapping t ` dom (mapping t)" by (force simp: ran_def)
  then have "card (ran (mapping t)) = card (dom regs)"
    using card_image [OF inj] dom by (metis card_image inj_Some inj_on_subset subset_UNIV)
  moreover have "finite (ran (mapping t))" using un by (metis finite_Un finite_lessThan)
  ultimately show ?thesis
    using card_Un_disjoint [OF _ _ dis] un distinct_card [OF d] by simp
qed

lemma next_index_step:
  assumes ok: "indices_ok s"
  shows "next_index (fst (thread_step e s)) = max (next_index (fst s)) (card (dom (fst (snd (thread_step e s)))))"
proof -
  obtain t regs torn_down where s: "s = (t, regs, torn_down)" by (cases s) auto
  have fin: "finite (dom regs)" using ok s by (auto elim: indices_okE)
  have n: "next_index t = card (dom regs) + length (free_list t)" using indices_count ok s by simp
  show ?thesis
  proof (cases e)
    case (Exit i)
    have "card (dom regs - {i}) \<le> card (dom regs)" using fin by (intro card_mono) auto
    then show ?thesis using n by (auto simp: s Exit registration_drop_def split: option.splits)
  next
    case (CurrentIndex i)
    show ?thesis
    proof (cases "regs i")
      case None
      then have "i \<notin> dom regs" by auto
      then have "card (insert i (dom regs)) = Suc (card (dom regs))" using fin by simp
      then show ?thesis using n None
        by (cases "free_list t") (auto simp: s CurrentIndex current_index_def registration_init_def Let_def)
    next
      case (Some reg)
      then show ?thesis using n by (simp add: s CurrentIndex current_index_def)
    qed
  qed
qed

lemma peak_run:
  "indices_ok s \<Longrightarrow> indices_ok (fold thread_step es s) \<and>
     peak es (next_index (fst s)) s = next_index (fst (fold thread_step es s))"
proof (induction es arbitrary: s)
  case (Cons e es)
  from Cons.IH [OF indices_ok_step [OF Cons.prems, of e]] show ?case
    by (simp add: Let_def next_index_step [OF Cons.prems])
qed simp

lemma next_init: "next_index thread_indices_init = 0"
  by (simp add: thread_indices_init_def)

lemma indices_ok_init: "indices_ok (thread_indices_init, Map.empty, {})"
  by (simp add: indices_ok_def thread_indices_init_def)

text \<open>
  C25: the registered threads have distinct indices, all below the largest number of threads that were
  registered at the same time, whatever threads came and went before: indices are reused, so they stay
  dense, and the table maps every registered thread to its index. A thread whose registration has been
  dropped does not register again.
\<close>

theorem thread_indices_dense:
  "case fold thread_step es (thread_indices_init, Map.empty, {}) of (t, regs, torn_down) \<Rightarrow>
     next_index t = peak es 0 (thread_indices_init, Map.empty, {}) \<and>
     mapping t = (\<lambda>i. map_option reg_index (regs i)) \<and>
     inj_on (mapping t) (dom regs) \<and> ran (mapping t) \<subseteq> {..<next_index t} \<and> dom regs \<inter> torn_down = {}"
proof -
  obtain t regs torn_down where s: "fold thread_step es (thread_indices_init, Map.empty, {}) = (t, regs, torn_down)"
    by (cases "fold thread_step es (thread_indices_init, Map.empty, {})") auto
  from peak_run [OF indices_ok_init, of es] have
    "peak es 0 (thread_indices_init, Map.empty, {}) = next_index t" and ok: "indices_ok (t, regs, torn_down)"
    by (simp_all add: s next_init)
  moreover from ok have "dom regs \<inter> torn_down = {}" and m: "mapping t = (\<lambda>i. map_option reg_index (regs i))"
    and "inj_on (mapping t) (dom (mapping t))"
    and "ran (mapping t) \<union> set (free_list t) = {..<next_index t}" by (elim indices_okE; blast)+
  moreover have "dom (mapping t) = dom regs" by (auto simp: m dom_def)
  ultimately show ?thesis by (auto simp: s)
qed

end
