(* ===== verification/Waker.thy ===== *)
theory Waker
  imports Prelude
begin

text \<open>
  The blocking mechanism of the channels: \<^verbatim>\<open>Selected\<close> and \<^verbatim>\<open>Operation\<close> of
  \<^verbatim>\<open>crossbeam-channel/src/select.rs\<close>, the context of a blocked thread of
  \<^verbatim>\<open>context.rs\<close>, and the queues of blocked threads of \<^verbatim>\<open>waker.rs\<close>. Contexts are
  kept in a map from threads, as each thread has its own and entries refer to it. Operations and packets
  are addresses, which are natural numbers here, 0 being null.
\<close>

type_synonym addr = nat

section \<open>Selected\<close>

datatype selected = Waiting | Aborted | Disconnected | Operation addr

definition selected_from :: "addr \<Rightarrow> selected" where
  "selected_from val = (if val = 0 then Waiting else if val = 1 then Aborted
     else if val = 2 then Disconnected else Operation val)"

fun selected_into :: "selected \<Rightarrow> addr" where
  "selected_into Waiting = 0"
| "selected_into Aborted = 1"
| "selected_into Disconnected = 2"
| "selected_into (Operation val) = val"

text \<open>The assertion of \<^verbatim>\<open>Operation::hook\<close>: no operation is created for other addresses.\<close>

definition operation_hook :: "addr \<Rightarrow> selected option" where
  "operation_hook val = (if val > 2 then Some (Operation val) else None)"

section \<open>Contexts\<close>

record cx_inner =
  cx_select :: selected
  cx_packet :: addr
  cx_unparked :: bool

type_synonym contexts = "tid \<Rightarrow> cx_inner"

definition cx_new :: cx_inner where
  "cx_new = \<lparr>cx_select = Waiting, cx_packet = 0, cx_unparked = False\<rparr>"

definition cx_reset :: "cx_inner \<Rightarrow> cx_inner" where
  "cx_reset self = self\<lparr>cx_select := Waiting, cx_packet := 0\<rparr>"

definition cx_try_select :: "selected \<Rightarrow> cx_inner \<Rightarrow> (unit, selected) result \<times> cx_inner" where
  "cx_try_select sel self =
     (if cx_select self = Waiting then (Ok (), self\<lparr>cx_select := sel\<rparr>) else (Err (cx_select self), self))"

definition cx_store_packet :: "addr \<Rightarrow> cx_inner \<Rightarrow> cx_inner" where
  "cx_store_packet packet self = (if packet \<noteq> 0 then self\<lparr>cx_packet := packet\<rparr> else self)"

definition cx_unpark :: "cx_inner \<Rightarrow> cx_inner" where
  "cx_unpark self = self\<lparr>cx_unparked := True\<rparr>"

text \<open>
  One round of the loop of \<^verbatim>\<open>wait_until\<close>: a result, or a parked thread that looks again
  when it is unparked, when its time is over, or spuriously. \<open>late\<close> says whether the deadline,
  if there is one, has passed.
\<close>

definition cx_wait_until :: "nat option \<Rightarrow> bool \<Rightarrow> cx_inner \<Rightarrow> selected option \<times> cx_inner" where
  "cx_wait_until deadline late self =
     (if cx_select self \<noteq> Waiting then (Some (cx_select self), self)
      else if deadline \<noteq> None \<and> late then
        (case cx_try_select Aborted self of
           (Ok _, self') \<Rightarrow> (Some Aborted, self')
         | (Err s, self') \<Rightarrow> (Some s, self'))
      else (None, self))"

section \<open>Wakers\<close>

record entry =
  e_oper :: addr
  e_packet :: addr
  e_cx :: tid

record waker =
  selectors :: "entry list"
  observers :: "entry list"

definition waker_new :: waker where
  "waker_new = \<lparr>selectors = [], observers = []\<rparr>"

definition register_with_packet :: "addr \<Rightarrow> addr \<Rightarrow> tid \<Rightarrow> waker \<Rightarrow> waker" where
  "register_with_packet oper packet cx self =
     self\<lparr>selectors := selectors self @ [\<lparr>e_oper = oper, e_packet = packet, e_cx = cx\<rparr>]\<rparr>"

definition waker_register :: "addr \<Rightarrow> tid \<Rightarrow> waker \<Rightarrow> waker" where
  "waker_register oper cx self = register_with_packet oper 0 cx self"

definition waker_unregister :: "addr \<Rightarrow> waker \<Rightarrow> entry option \<times> waker" where
  "waker_unregister oper self =
     (case List.extract (\<lambda>e. e_oper e = oper) (selectors self) of
        Some (pre, entry, post) \<Rightarrow> (Some entry, self\<lparr>selectors := pre @ post\<rparr>)
      | None \<Rightarrow> (None, self))"

text \<open>
  The closure of \<^verbatim>\<open>try_select\<close> on the selectors in order: the first entry of another thread
  whose context can be selected.
\<close>

fun select_position :: "tid \<Rightarrow> entry list \<Rightarrow> contexts \<Rightarrow> nat option \<times> contexts" where
  "select_position me [] cxs = (None, cxs)"
| "select_position me (e # es) cxs =
     (if e_cx e \<noteq> me \<and> cx_select (cxs (e_cx e)) = Waiting
      then (Some 0, cxs(e_cx e := cx_unpark (cx_store_packet (e_packet e)
              (snd (cx_try_select (Operation (e_oper e)) (cxs (e_cx e)))))))
      else case select_position me es cxs of (p, cxs') \<Rightarrow> (map_option Suc p, cxs'))"

definition waker_try_select :: "tid \<Rightarrow> waker \<Rightarrow> contexts \<Rightarrow> entry option \<times> waker \<times> contexts" where
  "waker_try_select me self cxs =
     (case select_position me (selectors self) cxs of
        (None, cxs') \<Rightarrow> (None, self, cxs')
      | (Some pos, cxs') \<Rightarrow>
          (Some (selectors self ! pos),
           self\<lparr>selectors := take pos (selectors self) @ drop (Suc pos) (selectors self)\<rparr>, cxs'))"

definition waker_can_select :: "tid \<Rightarrow> waker \<Rightarrow> contexts \<Rightarrow> bool" where
  "waker_can_select me self cxs \<longleftrightarrow>
     list_ex (\<lambda>e. e_cx e \<noteq> me \<and> cx_select (cxs (e_cx e)) = Waiting) (selectors self)"

definition waker_watch :: "addr \<Rightarrow> tid \<Rightarrow> waker \<Rightarrow> waker" where
  "waker_watch oper cx self =
     self\<lparr>observers := observers self @ [\<lparr>e_oper = oper, e_packet = 0, e_cx = cx\<rparr>]\<rparr>"

definition waker_unwatch :: "addr \<Rightarrow> waker \<Rightarrow> waker" where
  "waker_unwatch oper self = self\<lparr>observers := filter (\<lambda>e. e_oper e \<noteq> oper) (observers self)\<rparr>"

text \<open>Selecting each of a list of entries that is still waiting, and waking its thread.\<close>

definition wake_entry :: "(entry \<Rightarrow> selected) \<Rightarrow> entry \<Rightarrow> contexts \<Rightarrow> contexts" where
  "wake_entry sel e cxs =
     (case cx_try_select (sel e) (cxs (e_cx e)) of
        (Ok _, c) \<Rightarrow> cxs(e_cx e := cx_unpark c)
      | (Err _, c) \<Rightarrow> cxs)"

definition waker_notify :: "waker \<Rightarrow> contexts \<Rightarrow> waker \<times> contexts" where
  "waker_notify self cxs =
     (self\<lparr>observers := []\<rparr>, fold (wake_entry (\<lambda>e. Operation (e_oper e))) (observers self) cxs)"

definition waker_disconnect :: "waker \<Rightarrow> contexts \<Rightarrow> waker \<times> contexts" where
  "waker_disconnect self cxs =
     waker_notify self (fold (wake_entry (\<lambda>_. Disconnected)) (selectors self) cxs)"

section \<open>Wakers shared between threads\<close>

text \<open>
  The mutex makes each operation one step; the flag is an atomic that \<^verbatim>\<open>notify\<close> reads
  before it takes the mutex.
\<close>

record sync_waker =
  sw_inner :: waker
  sw_is_empty :: bool

definition sync_waker_new :: sync_waker where
  "sync_waker_new = \<lparr>sw_inner = waker_new, sw_is_empty = True\<rparr>"

definition waker_is_empty :: "waker \<Rightarrow> bool" where
  "waker_is_empty w \<longleftrightarrow> selectors w = [] \<and> observers w = []"

definition sw_store :: "waker \<Rightarrow> sync_waker \<Rightarrow> sync_waker" where
  "sw_store inner self = self\<lparr>sw_inner := inner, sw_is_empty := waker_is_empty inner\<rparr>"

definition sw_register :: "addr \<Rightarrow> tid \<Rightarrow> sync_waker \<Rightarrow> sync_waker" where
  "sw_register oper cx self = sw_store (waker_register oper cx (sw_inner self)) self"

definition sw_unregister :: "addr \<Rightarrow> sync_waker \<Rightarrow> entry option \<times> sync_waker" where
  "sw_unregister oper self =
     (case waker_unregister oper (sw_inner self) of (entry, inner) \<Rightarrow> (entry, sw_store inner self))"

definition sw_notify :: "tid \<Rightarrow> sync_waker \<Rightarrow> contexts \<Rightarrow> sync_waker \<times> contexts" where
  "sw_notify me self cxs =
     (if \<not> sw_is_empty self then
        (case waker_try_select me (sw_inner self) cxs of (_, inner1, cxs1) \<Rightarrow>
         case waker_notify inner1 cxs1 of (inner2, cxs2) \<Rightarrow> (sw_store inner2 self, cxs2))
      else (self, cxs))"

definition sw_watch :: "addr \<Rightarrow> tid \<Rightarrow> sync_waker \<Rightarrow> sync_waker" where
  "sw_watch oper cx self = sw_store (waker_watch oper cx (sw_inner self)) self"

definition sw_unwatch :: "addr \<Rightarrow> sync_waker \<Rightarrow> sync_waker" where
  "sw_unwatch oper self = sw_store (waker_unwatch oper (sw_inner self)) self"

definition sw_disconnect :: "sync_waker \<Rightarrow> contexts \<Rightarrow> sync_waker \<times> contexts" where
  "sw_disconnect self cxs =
     (case waker_disconnect (sw_inner self) cxs of (inner, cxs') \<Rightarrow> (sw_store inner self, cxs'))"

section \<open>Facts\<close>

lemma selected_from_into: "selected_from (selected_into s) = s" if "\<And>v. s = Operation v \<Longrightarrow> v > 2"
proof (cases s)
  case (Operation v)
  with that have "v > 2" by blast
  with Operation show ?thesis by (simp add: selected_from_def)
qed (simp_all add: selected_from_def)

text \<open>Entries that a thread can select.\<close>

definition eligible :: "tid \<Rightarrow> contexts \<Rightarrow> entry \<Rightarrow> bool" where
  "eligible me cxs e \<longleftrightarrow> e_cx e \<noteq> me \<and> cx_select (cxs (e_cx e)) = Waiting"

definition select_entry :: "entry \<Rightarrow> contexts \<Rightarrow> contexts" where
  "select_entry e cxs = cxs(e_cx e := (cxs (e_cx e))\<lparr>cx_select := Operation (e_oper e),
     cx_packet := (if e_packet e \<noteq> 0 then e_packet e else cx_packet (cxs (e_cx e))), cx_unparked := True\<rparr>)"

lemma select_position_eq:
  "select_position me es cxs =
     (case List.extract (eligible me cxs) es of
        None \<Rightarrow> (None, cxs)
      | Some (pre, e, post) \<Rightarrow> (Some (length pre), select_entry e cxs))"
proof (induction es)
  case (Cons e es)
  show ?case
  proof (cases "eligible me cxs e")
    case True
    then show ?thesis
      by (simp add: extract_Cons_code select_entry_def cx_unpark_def cx_store_packet_def cx_try_select_def eligible_def)
  next
    case False
    then have "select_position me (e # es) cxs = (case select_position me es cxs of (p, cxs') \<Rightarrow> (map_option Suc p, cxs'))"
      by (auto simp: eligible_def)
    with False Cons.IH show ?thesis by (simp add: extract_Cons_code split: option.split)
  qed
qed (simp add: extract_Nil_code)

text \<open>
  \<^verbatim>\<open>try_select\<close> takes the first entry that can be selected out of the queue, selects its context
  and no other, and hands it the packet; without such an entry it changes nothing.
\<close>

lemma waker_try_select_eq:
  "waker_try_select me w cxs =
     (case List.extract (eligible me cxs) (selectors w) of
        None \<Rightarrow> (None, w, cxs)
      | Some (pre, e, post) \<Rightarrow> (Some e, w\<lparr>selectors := pre @ post\<rparr>, select_entry e cxs))"
proof (cases "List.extract (eligible me cxs) (selectors w)")
  case (Some x)
  obtain pre e post where x: "x = (pre, e, post)" by (cases x)
  then have "selectors w = pre @ e # post" using Some by (simp add: extract_Some_iff)
  with Some x show ?thesis by (simp add: waker_try_select_def select_position_eq)
qed (simp add: waker_try_select_def select_position_eq)

lemma waker_can_select_iff: "waker_can_select me w cxs \<longleftrightarrow> fst (waker_try_select me w cxs) \<noteq> None"
proof (cases "List.extract (eligible me cxs) (selectors w)")
  case None
  then have "\<not> eligible me cxs e" if "e \<in> set (selectors w)" for e using that by (simp add: extract_None_iff)
  with None show ?thesis by (auto simp: waker_can_select_def waker_try_select_eq list_ex_iff eligible_def)
next
  case (Some x)
  then obtain pre e post where "x = (pre, e, post)" "selectors w = pre @ e # post" "eligible me cxs e"
    by (cases x) (simp add: extract_Some_iff)
  with Some show ?thesis
    by (auto simp: waker_can_select_def waker_try_select_eq eligible_def)
qed

lemma wake_entry_simps:
  "cx_select (wake_entry sel e cxs i) =
     (if i = e_cx e \<and> cx_select (cxs i) = Waiting then sel e else cx_select (cxs i))"
  by (auto simp: wake_entry_def cx_try_select_def cx_unpark_def)

text \<open>The flag of a shared waker, as its operations leave it.\<close>

definition sw_ok :: "sync_waker \<Rightarrow> bool" where
  "sw_ok w \<longleftrightarrow> sw_is_empty w = waker_is_empty (sw_inner w)"

lemma sw_ok_operations:
  "sw_ok sync_waker_new" "sw_ok (sw_register oper cx w)" "sw_ok (snd (sw_unregister oper w))"
  "sw_ok w \<Longrightarrow> sw_ok (fst (sw_notify me w cxs))" "sw_ok (sw_watch oper cx w)" "sw_ok (sw_unwatch oper w)"
  "sw_ok (fst (sw_disconnect w cxs))"
  by (auto simp: sw_ok_def sync_waker_new_def waker_new_def waker_is_empty_def sw_register_def sw_unregister_def
      sw_notify_def sw_watch_def sw_unwatch_def sw_disconnect_def sw_store_def split: prod.split)

section \<open>The threads in a queue\<close>

text \<open>
  The address of the token of a thread's operation. In the queues of the channels every thread has at most one entry,
  for its own operation and with the packet \<open>pk\<close>.
\<close>

definition hook :: "tid \<Rightarrow> addr" where
  "hook i = i + 3"

definition queued :: "waker \<Rightarrow> tid \<Rightarrow> bool" where
  "queued w i \<longleftrightarrow> i \<in> e_cx ` set (selectors w)"

definition entries_ok :: "(tid \<Rightarrow> addr) \<Rightarrow> waker \<Rightarrow> bool" where
  "entries_ok pk w \<longleftrightarrow> distinct (map e_cx (selectors w)) \<and> observers w = [] \<and>
     (\<forall>e\<in>set (selectors w). e_oper e = hook (e_cx e) \<and> e_packet e = pk (e_cx e))"

lemma hook_simps [simp]: "hook i = hook j \<longleftrightarrow> i = j" "hook i \<noteq> 0"
  by (auto simp: hook_def)

lemma queued_remove:
  assumes "entries_ok pk w" "selectors w = pre @ e # post"
  shows "queued (w\<lparr>selectors := pre @ post\<rparr>) j \<longleftrightarrow> queued w j \<and> j \<noteq> e_cx e"
proof -
  have out: "e_cx e \<notin> e_cx ` set pre \<union> e_cx ` set post" using assms by (auto simp: entries_ok_def)
  have "queued (w\<lparr>selectors := pre @ post\<rparr>) j \<longleftrightarrow> j \<in> e_cx ` set pre \<union> e_cx ` set post"
    by (simp add: queued_def image_Un)
  moreover have "queued w j \<longleftrightarrow> j \<in> insert (e_cx e) (e_cx ` set pre \<union> e_cx ` set post)"
    unfolding queued_def assms(2) by (simp add: image_Un)
  ultimately show ?thesis using out by blast
qed

lemma try_select_Some:
  assumes ok: "entries_ok pk w" and t: "waker_try_select me w cxs = (Some e, w', cxs')"
  shows "e_cx e \<noteq> me" "cx_select (cxs (e_cx e)) = Waiting" "queued w (e_cx e)" "e_packet e = pk (e_cx e)"
    "entries_ok pk w'" "queued w' j \<longleftrightarrow> queued w j \<and> j \<noteq> e_cx e"
    "cx_select (cxs' j) = (if j = e_cx e then Operation (e_oper e) else cx_select (cxs j))"
proof -
  from t obtain pre post where x: "List.extract (eligible me cxs) (selectors w) = Some (pre, e, post)"
    and w': "w' = w\<lparr>selectors := pre @ post\<rparr>" and c: "cxs' = select_entry e cxs"
    by (auto simp: waker_try_select_eq split: option.splits)
  then have sel: "selectors w = pre @ e # post" "eligible me cxs e" by (simp_all add: extract_Some_iff)
  then show "e_cx e \<noteq> me" "cx_select (cxs (e_cx e)) = Waiting" "queued w (e_cx e)"
    by (auto simp: eligible_def queued_def)
  show "e_packet e = pk (e_cx e)" "entries_ok pk w'" using ok by (auto simp: entries_ok_def sel(1) w')
  show "queued w' j \<longleftrightarrow> queued w j \<and> j \<noteq> e_cx e" unfolding w' by (rule queued_remove [OF ok sel(1)])
  show "cx_select (cxs' j) = (if j = e_cx e then Operation (e_oper e) else cx_select (cxs j))"
    by (simp add: c select_entry_def)
qed

lemma try_select_None:
  assumes "waker_try_select me w cxs = (None, w', cxs')"
  shows "w' = w" "cxs' = cxs" "queued w j \<Longrightarrow> j \<noteq> me \<Longrightarrow> cx_select (cxs j) \<noteq> Waiting"
proof -
  have x: "List.extract (eligible me cxs) (selectors w) = None"
    using assms by (auto simp: waker_try_select_eq split: option.splits)
  then show "w' = w" "cxs' = cxs" using assms by (simp_all add: waker_try_select_eq)
  from x show "queued w j \<Longrightarrow> j \<noteq> me \<Longrightarrow> cx_select (cxs j) \<noteq> Waiting"
    by (auto simp: extract_None_iff eligible_def queued_def)
qed

lemma unregister_queued:
  assumes ok: "entries_ok pk w" and q: "queued w i"
  obtains e w' where "waker_unregister (hook i) w = (Some e, w')" "entries_ok pk w'"
    "\<And>j. queued w' j \<longleftrightarrow> queued w j \<and> j \<noteq> i"
proof -
  obtain pre e post where x: "List.extract (\<lambda>e. e_oper e = hook i) (selectors w) = Some (pre, e, post)"
  proof (cases "List.extract (\<lambda>e. e_oper e = hook i) (selectors w)")
    case None
    with ok q show ?thesis by (auto simp: extract_None_iff queued_def entries_ok_def)
  qed (use that in fastforce)
  then have sel: "selectors w = pre @ e # post" "e_oper e = hook i" by (simp_all add: extract_Some_iff)
  have "e_cx e = i" using ok sel by (auto simp: entries_ok_def)
  show thesis
  proof (rule that)
    show "waker_unregister (hook i) w = (Some e, w\<lparr>selectors := pre @ post\<rparr>)" by (simp add: waker_unregister_def x)
    show "entries_ok pk (w\<lparr>selectors := pre @ post\<rparr>)" using ok by (auto simp: entries_ok_def sel)
    show "queued (w\<lparr>selectors := pre @ post\<rparr>) j \<longleftrightarrow> queued w j \<and> j \<noteq> i" for j
      using queued_remove [OF ok sel(1)] \<open>e_cx e = i\<close> by simp
  qed
qed

lemma register_queued:
  "queued (register_with_packet o1 p i w) j \<longleftrightarrow> queued w j \<or> j = i"
  "entries_ok pk w \<Longrightarrow> \<not> queued w i \<Longrightarrow> entries_ok pk (register_with_packet (hook i) (pk i) i w)"
  by (auto simp: queued_def register_with_packet_def entries_ok_def)

lemma notify_none: "entries_ok pk w \<Longrightarrow> waker_notify w cxs = (w, cxs)"
  by (cases w) (simp add: waker_notify_def entries_ok_def)

lemma fold_wake:
  "cx_select (fold (wake_entry (\<lambda>_. Disconnected)) es cxs j) =
     (if j \<in> e_cx ` set es \<and> cx_select (cxs j) = Waiting then Disconnected else cx_select (cxs j))"
  by (induction es arbitrary: cxs) (auto simp: wake_entry_simps)

lemma disconnect_queued:
  "entries_ok pk w \<Longrightarrow> waker_disconnect w cxs = (w, fold (wake_entry (\<lambda>_. Disconnected)) (selectors w) cxs)"
  by (simp add: waker_disconnect_def notify_none)

section \<open>Properties\<close>

text \<open>
  C27: the state of a blocked operation survives its encoding in one atomic word: decoding what was
  encoded gives it back, for every value except operations with the addresses 0, 1 and 2, for which
  \<^verbatim>\<open>Operation::hook\<close> panics; and the encoding is onto.
\<close>

theorem selected_roundtrip:
  "selected_into (selected_from val) = val \<and>
   (case operation_hook val of
      None \<Rightarrow> selected_from val \<in> {Waiting, Aborted, Disconnected}
    | Some oper \<Rightarrow> selected_from (selected_into oper) = oper \<and> selected_into oper = val) \<and>
   selected_from (selected_into Waiting) = Waiting \<and> selected_from (selected_into Aborted) = Aborted \<and>
   selected_from (selected_into Disconnected) = Disconnected"
  by (auto simp: selected_from_def operation_hook_def)

end
