(* ===== verification/Channel_Err.thy ===== *)
theory Channel_Err
  imports Prelude
begin

text \<open>
  \<^verbatim>\<open>crossbeam-channel/src/err.rs\<close>: the errors of channel operations, the conversions
  between them, their predicates and the texts they print. Constructors carry the name of their type,
  since two of the enumerations share the names of their variants.
\<close>

datatype 't send_error = SendError 't

datatype 't try_send_error = TSFull 't | TSDisconnected 't

datatype 't send_timeout_error = STTimeout 't | STDisconnected 't

datatype recv_error = RecvError

datatype try_recv_error = TREmpty | TRDisconnected

datatype recv_timeout_error = RTTimeout | RTDisconnected

datatype select_error = TrySelectError | SelectTimeoutError | TryReadyError | ReadyTimeoutError

section \<open>Contents and conversions\<close>

fun send_error_into_inner :: "'t send_error \<Rightarrow> 't" where
  "send_error_into_inner (SendError t) = t"

fun try_send_error_from :: "'t send_error \<Rightarrow> 't try_send_error" where
  "try_send_error_from (SendError t) = TSDisconnected t"

fun try_send_error_into_inner :: "'t try_send_error \<Rightarrow> 't" where
  "try_send_error_into_inner (TSFull v) = v"
| "try_send_error_into_inner (TSDisconnected v) = v"

fun try_send_error_is_full :: "'t try_send_error \<Rightarrow> bool" where
  "try_send_error_is_full (TSFull _) = True"
| "try_send_error_is_full _ = False"

fun try_send_error_is_disconnected :: "'t try_send_error \<Rightarrow> bool" where
  "try_send_error_is_disconnected (TSDisconnected _) = True"
| "try_send_error_is_disconnected _ = False"

fun send_timeout_error_from :: "'t send_error \<Rightarrow> 't send_timeout_error" where
  "send_timeout_error_from (SendError e) = STDisconnected e"

fun send_timeout_error_into_inner :: "'t send_timeout_error \<Rightarrow> 't" where
  "send_timeout_error_into_inner (STTimeout v) = v"
| "send_timeout_error_into_inner (STDisconnected v) = v"

fun send_timeout_error_is_timeout :: "'t send_timeout_error \<Rightarrow> bool" where
  "send_timeout_error_is_timeout (STTimeout _) = True"
| "send_timeout_error_is_timeout _ = False"

fun send_timeout_error_is_disconnected :: "'t send_timeout_error \<Rightarrow> bool" where
  "send_timeout_error_is_disconnected (STDisconnected _) = True"
| "send_timeout_error_is_disconnected _ = False"

fun try_recv_error_from :: "recv_error \<Rightarrow> try_recv_error" where
  "try_recv_error_from RecvError = TRDisconnected"

fun try_recv_error_is_empty :: "try_recv_error \<Rightarrow> bool" where
  "try_recv_error_is_empty TREmpty = True"
| "try_recv_error_is_empty _ = False"

fun try_recv_error_is_disconnected :: "try_recv_error \<Rightarrow> bool" where
  "try_recv_error_is_disconnected TRDisconnected = True"
| "try_recv_error_is_disconnected _ = False"

fun recv_timeout_error_from :: "recv_error \<Rightarrow> recv_timeout_error" where
  "recv_timeout_error_from RecvError = RTDisconnected"

fun recv_timeout_error_is_timeout :: "recv_timeout_error \<Rightarrow> bool" where
  "recv_timeout_error_is_timeout RTTimeout = True"
| "recv_timeout_error_is_timeout _ = False"

fun recv_timeout_error_is_disconnected :: "recv_timeout_error \<Rightarrow> bool" where
  "recv_timeout_error_is_disconnected RTDisconnected = True"
| "recv_timeout_error_is_disconnected _ = False"

section \<open>Texts\<close>

fun send_error_debug :: "'t send_error \<Rightarrow> string" where
  "send_error_debug _ = ''SendError(..)''"

fun send_error_display :: "'t send_error \<Rightarrow> string" where
  "send_error_display _ = ''sending on a disconnected channel''"

fun try_send_error_debug :: "'t try_send_error \<Rightarrow> string" where
  "try_send_error_debug (TSFull _) = ''Full(..)''"
| "try_send_error_debug (TSDisconnected _) = ''Disconnected(..)''"

fun try_send_error_display :: "'t try_send_error \<Rightarrow> string" where
  "try_send_error_display (TSFull _) = ''sending on a full channel''"
| "try_send_error_display (TSDisconnected _) = ''sending on a disconnected channel''"

fun send_timeout_error_debug :: "'t send_timeout_error \<Rightarrow> string" where
  "send_timeout_error_debug _ = ''SendTimeoutError(..)''"

fun send_timeout_error_display :: "'t send_timeout_error \<Rightarrow> string" where
  "send_timeout_error_display (STTimeout _) = ''timed out waiting on send operation''"
| "send_timeout_error_display (STDisconnected _) = ''sending on a disconnected channel''"

fun recv_error_display :: "recv_error \<Rightarrow> string" where
  "recv_error_display RecvError = ''receiving on an empty and disconnected channel''"

fun try_recv_error_display :: "try_recv_error \<Rightarrow> string" where
  "try_recv_error_display TREmpty = ''receiving on an empty channel''"
| "try_recv_error_display TRDisconnected = ''receiving on an empty and disconnected channel''"

fun recv_timeout_error_display :: "recv_timeout_error \<Rightarrow> string" where
  "recv_timeout_error_display RTTimeout = ''timed out waiting on receive operation''"
| "recv_timeout_error_display RTDisconnected = ''channel is empty and disconnected''"

fun select_error_display :: "select_error \<Rightarrow> string" where
  "select_error_display TrySelectError = ''all operations in select would block''"
| "select_error_display SelectTimeoutError = ''timed out waiting on select''"
| "select_error_display TryReadyError = ''all operations in select would block''"
| "select_error_display ReadyTimeoutError = ''timed out waiting on select''"

section \<open>Properties\<close>

text \<open>
  C26: the predicates, the conversions and the texts of the errors agree. Each predicate holds of
  exactly one variant; a predicate for disconnection holds exactly of the errors that print the text of
  the error without variants, and the predicate for a full or empty channel or a timeout exactly of
  those that say so; converting the error of a blocking operation gives the variant that the
  predicate for disconnection recognises, with the message of the original. Only the text of a
  disconnected \<^verbatim>\<open>RecvTimeoutError\<close> is not that of \<^verbatim>\<open>RecvError\<close>.
\<close>

theorem errors_classified:
  "(try_send_error_is_full a \<longleftrightarrow> a = TSFull (try_send_error_into_inner a)) \<and>
   (try_send_error_is_disconnected a \<longleftrightarrow> a = try_send_error_from (SendError (try_send_error_into_inner a))) \<and>
   (try_send_error_is_full a \<longleftrightarrow> try_send_error_display a = ''sending on a full channel'') \<and>
   (try_send_error_is_disconnected a \<longleftrightarrow> try_send_error_display a = send_error_display e) \<and>
   (send_timeout_error_is_timeout b \<longleftrightarrow> b = STTimeout (send_timeout_error_into_inner b)) \<and>
   (send_timeout_error_is_disconnected b \<longleftrightarrow> b = send_timeout_error_from (SendError (send_timeout_error_into_inner b))) \<and>
   (send_timeout_error_is_timeout b \<longleftrightarrow> send_timeout_error_display b = ''timed out waiting on send operation'') \<and>
   (send_timeout_error_is_disconnected b \<longleftrightarrow> send_timeout_error_display b = send_error_display e) \<and>
   (try_recv_error_is_empty c \<longleftrightarrow> c \<noteq> try_recv_error_from r) \<and>
   (try_recv_error_is_disconnected c \<longleftrightarrow> c = try_recv_error_from r) \<and>
   (try_recv_error_is_empty c \<longleftrightarrow> try_recv_error_display c = ''receiving on an empty channel'') \<and>
   (try_recv_error_is_disconnected c \<longleftrightarrow> try_recv_error_display c = recv_error_display r) \<and>
   (recv_timeout_error_is_timeout d \<longleftrightarrow> recv_timeout_error_display d = ''timed out waiting on receive operation'') \<and>
   (recv_timeout_error_is_disconnected d \<longleftrightarrow> d = recv_timeout_error_from r) \<and>
   recv_timeout_error_display d \<noteq> recv_error_display r"
  by (cases a; cases b; cases c; cases d; cases e; cases r) simp_all

end
