(* ===== verification/Zero_Channel.thy ===== *)
theory Zero_Channel
  imports Waker Channel_Err Atomic_Object
begin

text \<open>
  \<^verbatim>\<open>crossbeam-channel/src/flavors/zero.rs\<close>: the channel of capacity zero, where a sender and a
  receiver meet. Any number of threads run \<^verbatim>\<open>send\<close>, \<^verbatim>\<open>try_send\<close>,
  \<^verbatim>\<open>recv\<close>, \<^verbatim>\<open>try_recv\<close> and \<^verbatim>\<open>disconnect\<close>. A tick is one
  critical section of the channel's mutex, one access to a packet, or one look at the own context in
  \<^verbatim>\<open>wait_until\<close>; a parked thread may look again at any time. The selections made in a critical
  section count as made at its end: the only other change of a context is that its owner aborts, and the
  entry of an aborted operation stays in the queue until its owner takes the mutex.
  A blocked operation keeps its packet on the stack of its thread, so that the packets of consecutive
  operations of a thread share an address; the address is freed when the operation returns, and an
  access to a packet that is gone is undefined behaviour, like the failure of an \<^verbatim>\<open>unwrap\<close> a
  panic. The entries of select operations, with packets on the heap, are not modelled here.
\<close>

record 'm packet =
  on_stack :: bool
  ready :: bool
  p_msg :: "'m option"

definition empty_on_stack :: "'m packet" where
  "empty_on_stack = \<lparr>on_stack = True, ready = False, p_msg = None\<rparr>"

definition message_on_stack :: "'m \<Rightarrow> 'm packet" where
  "message_on_stack m = \<lparr>on_stack = True, ready = False, p_msg = Some m\<rparr>"

text \<open>Where a thread is; messages are kept by the thread as long as they are its own.\<close>

datatype 'm zpc =
    ZIdle
  | ZSend 'm "nat option"
  | ZTrySend 'm
  | ZWrite addr 'm
  | ZWriteReady addr 'm
  | ZSendWait 'm "nat option"
  | ZSendUnregister 'm selected
  | ZSendReady 'm
  | ZRecv "nat option"
  | ZTryRecv
  | ZRead bool addr
  | ZReadReady addr 'm
  | ZRecvWait "nat option"
  | ZRecvUnregister selected
  | ZRecvReady
  | ZDisconnect
  | ZPanic

text \<open>The results of operations, as they are returned.\<close>

datatype 'm zret =
    Sent 'm
  | SendFailed "'m send_timeout_error"
  | TrySendFailed "'m try_send_error"
  | Received 'm
  | RecvFailed recv_timeout_error
  | TryRecvFailed try_recv_error
  | DisconnectRet bool

record 'm zero =
  z_senders :: waker
  z_receivers :: waker
  z_disconnected :: bool
  z_cxs :: contexts
  z_packets :: "addr \<rightharpoonup> 'm packet"
  z_pc :: "tid \<Rightarrow> 'm zpc"
  z_log :: "(tid \<times> 'm zret) list"

definition zero_new :: "'m zero" where
  "zero_new = \<lparr>z_senders = waker_new, z_receivers = waker_new, z_disconnected = False, z_cxs = (\<lambda>_. cx_new),
     z_packets = Map.empty, z_pc = (\<lambda>_. ZIdle), z_log = []\<rparr>"

definition z_goto :: "tid \<Rightarrow> 'm zpc \<Rightarrow> 'm zero \<Rightarrow> 'm zero" where
  "z_goto i c s = s\<lparr>z_pc := (z_pc s)(i := c)\<rparr>"

definition z_return :: "tid \<Rightarrow> 'm zret \<Rightarrow> 'm zero \<Rightarrow> 'm zero" where
  "z_return i r s = s\<lparr>z_pc := (z_pc s)(i := ZIdle), z_log := z_log s @ [(i, r)]\<rparr>"

definition z_packet :: "addr \<Rightarrow> 'm packet option \<Rightarrow> 'm zero \<Rightarrow> 'm zero" where
  "z_packet p pk s = s\<lparr>z_packets := (z_packets s)(p := pk)\<rparr>"

section \<open>Sending\<close>

text \<open>Pairing up with a waiting receiver; \<open>fail\<close> is what is done without one.\<close>

definition pair_receiver :: "tid \<Rightarrow> (addr \<Rightarrow> 'm zpc) \<Rightarrow> ('m zero \<Rightarrow> 'm zero) \<Rightarrow> 'm zero \<Rightarrow> 'm zero" where
  "pair_receiver i paired fail s =
     (case waker_try_select i (z_receivers s) (z_cxs s) of
        (Some operation, rs, cxs) \<Rightarrow> z_goto i (paired (e_packet operation)) (s\<lparr>z_receivers := rs, z_cxs := cxs\<rparr>)
      | (None, _, _) \<Rightarrow> fail s)"

definition block_sender :: "tid \<Rightarrow> 'm \<Rightarrow> nat option \<Rightarrow> 'm zero \<Rightarrow> 'm zero" where
  "block_sender i m d s =
     (let cxs1 = (z_cxs s)(i := cx_reset (z_cxs s i));
          ss = register_with_packet (hook i) (hook i) i (z_senders s);
          (rs, cxs2) = waker_notify (z_receivers s) cxs1
      in z_goto i (ZSendWait m d) (z_packet (hook i) (Some (message_on_stack m))
           (s\<lparr>z_senders := ss, z_receivers := rs, z_cxs := cxs2\<rparr>)))"

definition send_lock :: "tid \<Rightarrow> 'm \<Rightarrow> nat option \<Rightarrow> 'm zero \<Rightarrow> 'm zero" where
  "send_lock i m d s = pair_receiver i (\<lambda>p. ZWrite p m)
     (\<lambda>s. if z_disconnected s then z_return i (SendFailed (STDisconnected m)) s else block_sender i m d s) s"

definition try_send_lock :: "tid \<Rightarrow> 'm \<Rightarrow> 'm zero \<Rightarrow> 'm zero" where
  "try_send_lock i m s = pair_receiver i (\<lambda>p. ZWrite p m)
     (\<lambda>s. if z_disconnected s then z_return i (TrySendFailed (TSDisconnected m)) s
          else z_return i (TrySendFailed (TSFull m)) s) s"

text \<open>\<^verbatim>\<open>write\<close>, whose error would fail the \<^verbatim>\<open>unwrap\<close> of its callers.\<close>

definition write_msg :: "tid \<Rightarrow> addr \<Rightarrow> 'm \<Rightarrow> 'm zero \<Rightarrow> 'm zero" where
  "write_msg i p m s =
     (if p = 0 then z_goto i ZPanic s
      else case z_packets s p of
        None \<Rightarrow> z_goto i ZPanic s
      | Some pk \<Rightarrow> z_goto i (ZWriteReady p m) (z_packet p (Some (pk\<lparr>p_msg := Some m\<rparr>)) s))"

definition write_ready :: "tid \<Rightarrow> addr \<Rightarrow> 'm \<Rightarrow> 'm zero \<Rightarrow> 'm zero" where
  "write_ready i p m s =
     (case z_packets s p of
        None \<Rightarrow> z_goto i ZPanic s
      | Some pk \<Rightarrow> z_return i (Sent m) (z_packet p (Some (pk\<lparr>ready := True\<rparr>)) s))"

definition send_wait :: "tid \<Rightarrow> bool \<Rightarrow> 'm \<Rightarrow> nat option \<Rightarrow> 'm zero \<Rightarrow> 'm zero" where
  "send_wait i late m d s =
     (case cx_wait_until d late (z_cxs s i) of
        (None, c) \<Rightarrow> s
      | (Some sel, c) \<Rightarrow>
          (let s' = s\<lparr>z_cxs := (z_cxs s)(i := c)\<rparr> in
           case sel of
             Waiting \<Rightarrow> z_goto i ZPanic s'
           | Aborted \<Rightarrow> z_goto i (ZSendUnregister m sel) s'
           | Disconnected \<Rightarrow> z_goto i (ZSendUnregister m sel) s'
           | Operation _ \<Rightarrow> z_goto i (ZSendReady m) s'))"

definition send_unregister :: "tid \<Rightarrow> selected \<Rightarrow> 'm zero \<Rightarrow> 'm zero" where
  "send_unregister i sel s =
     (case waker_unregister (hook i) (z_senders s) of
        (None, _) \<Rightarrow> z_goto i ZPanic s
      | (Some _, ss) \<Rightarrow>
          (case Option.bind (z_packets s (hook i)) p_msg of
             None \<Rightarrow> z_goto i ZPanic s
           | Some m \<Rightarrow> z_return i (SendFailed (if sel = Aborted then STTimeout m else STDisconnected m))
               (z_packet (hook i) None (s\<lparr>z_senders := ss\<rparr>))))"

definition send_ready :: "tid \<Rightarrow> 'm \<Rightarrow> 'm zero \<Rightarrow> 'm zero" where
  "send_ready i m s =
     (case z_packets s (hook i) of
        None \<Rightarrow> z_goto i ZPanic s
      | Some pk \<Rightarrow> if ready pk then z_return i (Sent m) (z_packet (hook i) None s) else s)"

section \<open>Receiving\<close>

definition pair_sender :: "tid \<Rightarrow> (addr \<Rightarrow> 'm zpc) \<Rightarrow> ('m zero \<Rightarrow> 'm zero) \<Rightarrow> 'm zero \<Rightarrow> 'm zero" where
  "pair_sender i paired fail s =
     (case waker_try_select i (z_senders s) (z_cxs s) of
        (Some operation, ss, cxs) \<Rightarrow> z_goto i (paired (e_packet operation)) (s\<lparr>z_senders := ss, z_cxs := cxs\<rparr>)
      | (None, _, _) \<Rightarrow> fail s)"

definition block_receiver :: "tid \<Rightarrow> nat option \<Rightarrow> 'm zero \<Rightarrow> 'm zero" where
  "block_receiver i d s =
     (let cxs1 = (z_cxs s)(i := cx_reset (z_cxs s i));
          rs = register_with_packet (hook i) (hook i) i (z_receivers s);
          (ss, cxs2) = waker_notify (z_senders s) cxs1
      in z_goto i (ZRecvWait d) (z_packet (hook i) (Some empty_on_stack)
           (s\<lparr>z_senders := ss, z_receivers := rs, z_cxs := cxs2\<rparr>)))"

definition recv_lock :: "tid \<Rightarrow> nat option \<Rightarrow> 'm zero \<Rightarrow> 'm zero" where
  "recv_lock i d s = pair_sender i (ZRead False)
     (\<lambda>s. if z_disconnected s then z_return i (RecvFailed RTDisconnected) s else block_receiver i d s) s"

definition try_recv_lock :: "tid \<Rightarrow> 'm zero \<Rightarrow> 'm zero" where
  "try_recv_lock i s = pair_sender i (ZRead True)
     (\<lambda>s. if z_disconnected s then z_return i (TryRecvFailed TRDisconnected) s
          else z_return i (TryRecvFailed TREmpty) s) s"

text \<open>\<^verbatim>\<open>read\<close>, called by \<^verbatim>\<open>try_recv\<close> (\<open>t\<close>) or \<^verbatim>\<open>recv\<close>.\<close>

definition read_msg :: "tid \<Rightarrow> bool \<Rightarrow> addr \<Rightarrow> 'm zero \<Rightarrow> 'm zero" where
  "read_msg i t p s =
     (if p = 0 then z_return i (if t then TryRecvFailed TRDisconnected else RecvFailed RTDisconnected) s
      else case z_packets s p of
        None \<Rightarrow> z_goto i ZPanic s
      | Some pk \<Rightarrow>
          if on_stack pk then
            (case p_msg pk of
               None \<Rightarrow> z_goto i ZPanic s
             | Some m \<Rightarrow> z_goto i (ZReadReady p m) (z_packet p (Some (pk\<lparr>p_msg := None\<rparr>)) s))
          else if ready pk then
            (case p_msg pk of
               None \<Rightarrow> z_goto i ZPanic s
             | Some m \<Rightarrow> z_return i (Received m) (z_packet p None s))
          else s)"

definition read_ready :: "tid \<Rightarrow> addr \<Rightarrow> 'm \<Rightarrow> 'm zero \<Rightarrow> 'm zero" where
  "read_ready i p m s =
     (case z_packets s p of
        None \<Rightarrow> z_goto i ZPanic s
      | Some pk \<Rightarrow> z_return i (Received m) (z_packet p (Some (pk\<lparr>ready := True\<rparr>)) s))"

definition recv_wait :: "tid \<Rightarrow> bool \<Rightarrow> nat option \<Rightarrow> 'm zero \<Rightarrow> 'm zero" where
  "recv_wait i late d s =
     (case cx_wait_until d late (z_cxs s i) of
        (None, c) \<Rightarrow> s
      | (Some sel, c) \<Rightarrow>
          (let s' = s\<lparr>z_cxs := (z_cxs s)(i := c)\<rparr> in
           case sel of
             Waiting \<Rightarrow> z_goto i ZPanic s'
           | Aborted \<Rightarrow> z_goto i (ZRecvUnregister sel) s'
           | Disconnected \<Rightarrow> z_goto i (ZRecvUnregister sel) s'
           | Operation _ \<Rightarrow> z_goto i ZRecvReady s'))"

definition recv_unregister :: "tid \<Rightarrow> selected \<Rightarrow> 'm zero \<Rightarrow> 'm zero" where
  "recv_unregister i sel s =
     (case waker_unregister (hook i) (z_receivers s) of
        (None, _) \<Rightarrow> z_goto i ZPanic s
      | (Some _, rs) \<Rightarrow> z_return i (RecvFailed (if sel = Aborted then RTTimeout else RTDisconnected))
          (z_packet (hook i) None (s\<lparr>z_receivers := rs\<rparr>)))"

definition recv_ready :: "tid \<Rightarrow> 'm zero \<Rightarrow> 'm zero" where
  "recv_ready i s =
     (case z_packets s (hook i) of
        None \<Rightarrow> z_goto i ZPanic s
      | Some pk \<Rightarrow>
          if ready pk then
            (case p_msg pk of
               None \<Rightarrow> z_goto i ZPanic s
             | Some m \<Rightarrow> z_return i (Received m) (z_packet (hook i) None s))
          else s)"

section \<open>Disconnecting, and the whole channel\<close>

definition zero_disconnect :: "tid \<Rightarrow> 'm zero \<Rightarrow> 'm zero" where
  "zero_disconnect i s =
     (if \<not> z_disconnected s then
        (case waker_disconnect (z_senders s) (z_cxs s) of (ss, cxs1) \<Rightarrow>
         case waker_disconnect (z_receivers s) cxs1 of (rs, cxs2) \<Rightarrow>
           z_return i (DisconnectRet True)
             (s\<lparr>z_disconnected := True, z_senders := ss, z_receivers := rs, z_cxs := cxs2\<rparr>))
      else z_return i (DisconnectRet False) s)"

definition zero_len :: "'m zero \<Rightarrow> nat" where "zero_len s = 0"
definition zero_capacity :: "'m zero \<Rightarrow> nat option" where "zero_capacity s = Some 0"
definition zero_is_empty :: "'m zero \<Rightarrow> bool" where "zero_is_empty s = True"
definition zero_is_full :: "'m zero \<Rightarrow> bool" where "zero_is_full s = True"

fun z_tick :: "tid \<Rightarrow> bool \<Rightarrow> 'm zpc \<Rightarrow> 'm zero \<Rightarrow> 'm zero" where
  "z_tick i late (ZSend m d) s = send_lock i m d s"
| "z_tick i late (ZTrySend m) s = try_send_lock i m s"
| "z_tick i late (ZWrite p m) s = write_msg i p m s"
| "z_tick i late (ZWriteReady p m) s = write_ready i p m s"
| "z_tick i late (ZSendWait m d) s = send_wait i late m d s"
| "z_tick i late (ZSendUnregister m sel) s = send_unregister i sel s"
| "z_tick i late (ZSendReady m) s = send_ready i m s"
| "z_tick i late (ZRecv d) s = recv_lock i d s"
| "z_tick i late ZTryRecv s = try_recv_lock i s"
| "z_tick i late (ZRead t p) s = read_msg i t p s"
| "z_tick i late (ZReadReady p m) s = read_ready i p m s"
| "z_tick i late (ZRecvWait d) s = recv_wait i late d s"
| "z_tick i late (ZRecvUnregister sel) s = recv_unregister i sel s"
| "z_tick i late ZRecvReady s = recv_ready i s"
| "z_tick i late ZDisconnect s = zero_disconnect i s"
| "z_tick i late ZIdle s = s"
| "z_tick i late ZPanic s = s"

datatype 'm z_op = OpSend 'm "nat option" | OpTrySend 'm | OpRecv "nat option" | OpTryRecv | OpDisconnect

fun z_start :: "'m z_op \<Rightarrow> 'm zpc" where
  "z_start (OpSend m d) = ZSend m d"
| "z_start (OpTrySend m) = ZTrySend m"
| "z_start (OpRecv d) = ZRecv d"
| "z_start OpTryRecv = ZTryRecv"
| "z_start OpDisconnect = ZDisconnect"

datatype 'm z_event = ZCall tid "'m z_op" | ZTick tid bool

fun z_step :: "'m z_event \<Rightarrow> 'm zero \<Rightarrow> 'm zero" where
  "z_step (ZCall i oper) s = (if z_pc s i = ZIdle then z_goto i (z_start oper) s else s)"
| "z_step (ZTick i late) s = z_tick i late (z_pc s i) s"

end
