(* ===== verification/Zero_Rendezvous.thy ===== *)
theory Zero_Rendezvous
  imports Zero_Channel "HOL-Library.Multiset"
begin

text \<open>
  The zero-capacity channel of theory \<open>Zero_Channel\<close> never panics or touches a dead packet, hands
  every message to exactly one receiver, and never leaves a sender and a receiver waiting for each other.
  The invariant describes, for every thread, the packet on its stack: who is allowed to touch it and what
  is in it.
\<close>

section \<open>Packets and who touches them\<close>

fun touches :: "'m zpc \<Rightarrow> addr option" where
  "touches (ZWrite p m) = Some p"
| "touches (ZWriteReady p m) = Some p"
| "touches (ZRead t p) = Some p"
| "touches (ZReadReady p m) = Some p"
| "touches _ = None"

definition peers :: "(tid \<Rightarrow> 'm zpc) \<Rightarrow> addr \<Rightarrow> (tid \<rightharpoonup> 'm zpc)" where
  "peers pcs p = (\<lambda>r. if touches (pcs r) = Some p then Some (pcs r) else None)"

lemma peers_upd: "peers (pcs(i := c)) p = (peers pcs p)(i := (if touches c = Some p then Some c else None))"
  by (auto simp: peers_def fun_eq_iff)

lemma peers_None: "touches (pcs i) \<noteq> Some p \<Longrightarrow> (peers pcs p)(i := None) = peers pcs p"
  by (auto simp: peers_def fun_eq_iff)

lemma peers_at: "peers pcs p i = (if touches (pcs i) = Some p then Some (pcs i) else None)"
  by (simp add: peers_def)

text \<open>The packet of a sender, or of a receiver, that another thread has selected.\<close>

definition claimed_send :: "addr \<Rightarrow> 'm \<Rightarrow> 'm packet \<Rightarrow> (tid \<rightharpoonup> 'm zpc) \<Rightarrow> bool" where
  "claimed_send p m pk ps \<longleftrightarrow>
     (\<exists>r t. ps = [r \<mapsto> ZRead t p] \<and> pk = message_on_stack m) \<or>
     (\<exists>r. ps = [r \<mapsto> ZReadReady p m] \<and> pk = empty_on_stack) \<or>
     (ps = Map.empty \<and> pk = \<lparr>on_stack = True, ready = True, p_msg = None\<rparr>)"

definition claimed_recv :: "addr \<Rightarrow> 'm packet \<Rightarrow> (tid \<rightharpoonup> 'm zpc) \<Rightarrow> bool" where
  "claimed_recv p pk ps \<longleftrightarrow>
     (\<exists>w m. ps = [w \<mapsto> ZWrite p m] \<and> pk = empty_on_stack) \<or>
     (\<exists>w m. ps = [w \<mapsto> ZWriteReady p m] \<and> pk = message_on_stack m) \<or>
     (\<exists>m. ps = Map.empty \<and> pk = \<lparr>on_stack = True, ready = True, p_msg = Some m\<rparr>)"

fun owner_ok :: "addr \<Rightarrow> 'm zpc \<Rightarrow> selected \<Rightarrow> 'm packet option \<Rightarrow> (tid \<rightharpoonup> 'm zpc) \<Rightarrow> bool \<Rightarrow> bool \<Rightarrow> bool" where
  "owner_ok p (ZSendWait m d) sel pk ps qs qr \<longleftrightarrow> \<not> qr \<and>
     (case sel of
        Operation _ \<Rightarrow> \<not> qs \<and> (\<exists>k. pk = Some k \<and> claimed_send p m k ps)
      | Aborted \<Rightarrow> False
      | _ \<Rightarrow> qs \<and> pk = Some (message_on_stack m) \<and> ps = Map.empty)"
| "owner_ok p (ZSendUnregister m sl) sel pk ps qs qr \<longleftrightarrow> sel = sl \<and> sl \<in> {Aborted, Disconnected} \<and>
     qs \<and> \<not> qr \<and> pk = Some (message_on_stack m) \<and> ps = Map.empty"
| "owner_ok p (ZSendReady m) sel pk ps qs qr \<longleftrightarrow> (\<exists>x. sel = Operation x) \<and> \<not> qs \<and> \<not> qr \<and>
     (\<exists>k. pk = Some k \<and> claimed_send p m k ps)"
| "owner_ok p (ZRecvWait d) sel pk ps qs qr \<longleftrightarrow> \<not> qs \<and>
     (case sel of
        Operation _ \<Rightarrow> \<not> qr \<and> (\<exists>k. pk = Some k \<and> claimed_recv p k ps)
      | Aborted \<Rightarrow> False
      | _ \<Rightarrow> qr \<and> pk = Some empty_on_stack \<and> ps = Map.empty)"
| "owner_ok p (ZRecvUnregister sl) sel pk ps qs qr \<longleftrightarrow> sel = sl \<and> sl \<in> {Aborted, Disconnected} \<and>
     \<not> qs \<and> qr \<and> pk = Some empty_on_stack \<and> ps = Map.empty"
| "owner_ok p ZRecvReady sel pk ps qs qr \<longleftrightarrow> (\<exists>x. sel = Operation x) \<and> \<not> qs \<and> \<not> qr \<and>
     (\<exists>k. pk = Some k \<and> claimed_recv p k ps)"
| "owner_ok p ZPanic sel pk ps qs qr \<longleftrightarrow> False"
| "owner_ok p _ sel pk ps qs qr \<longleftrightarrow> \<not> qs \<and> \<not> qr \<and> pk = None \<and> ps = Map.empty"

definition thread_okz :: "'m zero \<Rightarrow> tid \<Rightarrow> bool" where
  "thread_okz s j \<longleftrightarrow> owner_ok (hook j) (z_pc s j) (cx_select (z_cxs s j)) (z_packets s (hook j))
     (peers (z_pc s) (hook j)) (queued (z_senders s) j) (queued (z_receivers s) j)"

definition z_inv :: "'m zero \<Rightarrow> bool" where
  "z_inv s \<longleftrightarrow> entries_ok hook (z_senders s) \<and> entries_ok hook (z_receivers s) \<and> (\<forall>j. thread_okz s j) \<and>
     (\<forall>r p. touches (z_pc s r) = Some p \<longrightarrow> (\<exists>j. p = hook j))"

text \<open>A thread whose view of the state has not changed is still all right.\<close>

lemma thread_okz_frame:
  assumes "thread_okz s j" "z_pc s' j = z_pc s j" "cx_select (z_cxs s' j) = cx_select (z_cxs s j)"
    and "z_packets s' (hook j) = z_packets s (hook j)" "peers (z_pc s') (hook j) = peers (z_pc s) (hook j)"
    and "queued (z_senders s') j = queued (z_senders s) j" "queued (z_receivers s') j = queued (z_receivers s) j"
  shows "thread_okz s' j"
  using assms by (simp add: thread_okz_def)

lemma z_invD:
  assumes "z_inv s"
  shows "entries_ok hook (z_senders s)" "entries_ok hook (z_receivers s)" "thread_okz s j"
    "touches (z_pc s r) = Some p \<Longrightarrow> \<exists>j. p = hook j"
  using assms by (auto simp: z_inv_def)

lemma z_simps [simp]:
  "z_pc (z_goto i c s) = (z_pc s)(i := c)" "z_cxs (z_goto i c s) = z_cxs s" "z_packets (z_goto i c s) = z_packets s"
  "z_senders (z_goto i c s) = z_senders s" "z_receivers (z_goto i c s) = z_receivers s" "z_log (z_goto i c s) = z_log s"
  "z_disconnected (z_goto i c s) = z_disconnected s"
  "z_pc (z_return i x s) = (z_pc s)(i := ZIdle)" "z_cxs (z_return i x s) = z_cxs s"
  "z_packets (z_return i x s) = z_packets s" "z_senders (z_return i x s) = z_senders s"
  "z_receivers (z_return i x s) = z_receivers s" "z_log (z_return i x s) = z_log s @ [(i, x)]"
  "z_disconnected (z_return i x s) = z_disconnected s"
  "z_pc (z_packet p pk s) = z_pc s" "z_cxs (z_packet p pk s) = z_cxs s"
  "z_packets (z_packet p pk s) = (z_packets s)(p := pk)" "z_senders (z_packet p pk s) = z_senders s"
  "z_receivers (z_packet p pk s) = z_receivers s" "z_log (z_packet p pk s) = z_log s"
  "z_disconnected (z_packet p pk s) = z_disconnected s"
  by (simp_all add: z_goto_def z_return_def z_packet_def)

text \<open>Threads that have no packet of their own.\<close>

fun plain :: "'m zpc \<Rightarrow> bool" where
  "plain (ZSendWait m d) = False" | "plain (ZSendUnregister m sl) = False" | "plain (ZSendReady m) = False"
| "plain (ZRecvWait d) = False" | "plain (ZRecvUnregister sl) = False" | "plain ZRecvReady = False"
| "plain ZPanic = False" | "plain _ = True"

lemma owner_ok_plain: "plain c \<Longrightarrow> owner_ok p c sel pk ps qs qr \<longleftrightarrow> \<not> qs \<and> \<not> qr \<and> pk = None \<and> ps = Map.empty"
  by (cases c) simp_all

text \<open>A thread moves between points where neither it touches a packet nor owns one.\<close>

lemma z_inv_plain:
  assumes inv: "z_inv s" and "plain (z_pc s i)" "plain c" "touches (z_pc s i) = None" "touches c = None"
    and s': "z_pc s' = (z_pc s)(i := c)" "z_cxs s' = z_cxs s" "z_packets s' = z_packets s"
      "z_senders s' = z_senders s" "z_receivers s' = z_receivers s"
  shows "z_inv s'"
proof -
  have "thread_okz s' j" for j
  proof (cases "j = i")
    case True
    have "thread_okz s i" by (rule z_invD(3) [OF inv])
    with assms True show ?thesis by (simp add: thread_okz_def owner_ok_plain peers_upd peers_None)
  next
    case False
    then show ?thesis using assms
      by (intro thread_okz_frame [OF z_invD(3) [OF inv, of j]]) (simp_all add: peers_upd peers_None)
  qed
  with assms show ?thesis by (auto simp: z_inv_def)
qed

section \<open>Steps\<close>

lemma z_inv_pair_receiver:
  assumes inv: "z_inv s" and pc: "plain (z_pc s i)" "touches (z_pc s i) = None"
    and t: "waker_try_select i (z_receivers s) (z_cxs s) = (Some e, rs, cxs)"
  shows "z_inv (z_goto i (ZWrite (e_packet e) m) (s\<lparr>z_receivers := rs, z_cxs := cxs\<rparr>))" (is "z_inv ?s'")
proof -
  define k where "k = e_cx e"
  note ts = try_select_Some [OF z_invD(2) [OF inv] t, folded k_def]
  obtain d where k: "z_pc s k = ZRecvWait d" "z_packets s (hook k) = Some empty_on_stack"
    "peers (z_pc s) (hook k) = Map.empty" "\<not> queued (z_senders s) k"
    using z_invD(3) [OF inv, of k] ts(2,3) unfolding thread_okz_def by (cases "z_pc s k") auto
  have "thread_okz ?s' j" for j
  proof -
    consider "j = i" | "j = k" | "j \<noteq> i" "j \<noteq> k" by blast
    then show ?thesis
    proof cases
      case 1
      have "thread_okz s i" by (rule z_invD(3) [OF inv])
      then show ?thesis using pc ts(1) 1 ts(4)
        by (simp add: thread_okz_def owner_ok_plain peers_upd peers_None ts(6))
    next
      case 2
      then show ?thesis using k ts(1) ts(4) ts(7)
        by (auto simp: thread_okz_def claimed_recv_def peers_upd ts(6))
    next
      case 3
      then show ?thesis using pc ts(4)
        by (intro thread_okz_frame [OF z_invD(3) [OF inv, of j]]) (simp_all add: peers_upd peers_None ts(6) ts(7))
    qed
  qed
  with inv ts(4,5) show ?thesis by (auto simp: z_inv_def)
qed

lemma z_inv_pair_sender:
  assumes inv: "z_inv s" and pc: "plain (z_pc s i)" "touches (z_pc s i) = None"
    and t: "waker_try_select i (z_senders s) (z_cxs s) = (Some e, ss, cxs)"
  shows "z_inv (z_goto i (ZRead b (e_packet e)) (s\<lparr>z_senders := ss, z_cxs := cxs\<rparr>))" (is "z_inv ?s'")
proof -
  define k where "k = e_cx e"
  note ts = try_select_Some [OF z_invD(1) [OF inv] t, folded k_def]
  obtain m d where k: "z_pc s k = ZSendWait m d" "z_packets s (hook k) = Some (message_on_stack m)"
    "peers (z_pc s) (hook k) = Map.empty" "\<not> queued (z_receivers s) k"
    using z_invD(3) [OF inv, of k] ts(2,3) unfolding thread_okz_def by (cases "z_pc s k") auto
  have "thread_okz ?s' j" for j
  proof -
    consider "j = i" | "j = k" | "j \<noteq> i" "j \<noteq> k" by blast
    then show ?thesis
    proof cases
      case 1
      have "thread_okz s i" by (rule z_invD(3) [OF inv])
      then show ?thesis using pc ts(1) 1 ts(4)
        by (simp add: thread_okz_def owner_ok_plain peers_upd peers_None ts(6))
    next
      case 2
      then show ?thesis using k ts(1) ts(4) ts(7)
        by (auto simp: thread_okz_def claimed_send_def peers_upd ts(6))
    next
      case 3
      then show ?thesis using pc ts(4)
        by (intro thread_okz_frame [OF z_invD(3) [OF inv, of j]]) (simp_all add: peers_upd peers_None ts(6) ts(7))
    qed
  qed
  with inv ts(4,5) show ?thesis by (auto simp: z_inv_def)
qed

lemma z_inv_block_sender:
  assumes inv: "z_inv s" and pc: "plain (z_pc s i)" "touches (z_pc s i) = None"
  shows "z_inv (block_sender i m d s)" (is "z_inv ?s'")
proof -
  have own: "\<not> queued (z_senders s) i" "\<not> queued (z_receivers s) i" "peers (z_pc s) (hook i) = Map.empty"
    using z_invD(3) [OF inv, of i] pc by (simp_all add: thread_okz_def owner_ok_plain)
  have s': "?s' = z_goto i (ZSendWait m d) (z_packet (hook i) (Some (message_on_stack m))
      (s\<lparr>z_senders := register_with_packet (hook i) (hook i) i (z_senders s),
         z_receivers := z_receivers s, z_cxs := (z_cxs s)(i := cx_reset (z_cxs s i))\<rparr>))"
    by (simp add: block_sender_def notify_none [OF z_invD(2) [OF inv]])
  have "thread_okz ?s' j" for j
  proof (cases "j = i")
    case True
    then show ?thesis using own pc unfolding s' thread_okz_def
      by (simp add: peers_upd peers_None register_queued cx_reset_def)
  next
    case False
    then show ?thesis using pc unfolding s'
      by (intro thread_okz_frame [OF z_invD(3) [OF inv, of j]]) (simp_all add: peers_upd peers_None register_queued)
  qed
  with inv own show ?thesis unfolding z_inv_def by (auto simp: s' register_queued)
qed

lemma z_inv_block_receiver:
  assumes inv: "z_inv s" and pc: "plain (z_pc s i)" "touches (z_pc s i) = None"
  shows "z_inv (block_receiver i d s)" (is "z_inv ?s'")
proof -
  have own: "\<not> queued (z_senders s) i" "\<not> queued (z_receivers s) i" "peers (z_pc s) (hook i) = Map.empty"
    using z_invD(3) [OF inv, of i] pc by (simp_all add: thread_okz_def owner_ok_plain)
  have s': "?s' = z_goto i (ZRecvWait d) (z_packet (hook i) (Some empty_on_stack)
      (s\<lparr>z_senders := z_senders s, z_receivers := register_with_packet (hook i) (hook i) i (z_receivers s),
         z_cxs := (z_cxs s)(i := cx_reset (z_cxs s i))\<rparr>))"
    by (simp add: block_receiver_def notify_none [OF z_invD(1) [OF inv]])
  have "thread_okz ?s' j" for j
  proof (cases "j = i")
    case True
    then show ?thesis using own pc unfolding s' thread_okz_def
      by (simp add: peers_upd peers_None register_queued cx_reset_def)
  next
    case False
    then show ?thesis using pc unfolding s'
      by (intro thread_okz_frame [OF z_invD(3) [OF inv, of j]]) (simp_all add: peers_upd peers_None register_queued)
  qed
  with inv own show ?thesis unfolding z_inv_def by (auto simp: s' register_queued)
qed

text \<open>What a thread that touches a packet may rely on.\<close>

lemma owner_touched:
  assumes "owner_ok p c sel pk ps qs qr"
  shows "ps i = Some (ZWrite p m) \<Longrightarrow> pk = Some empty_on_stack \<and> ps = [i \<mapsto> ZWrite p m] \<and>
      (\<forall>pk' ps'. claimed_recv p pk' ps' \<longrightarrow> owner_ok p c sel (Some pk') ps' qs qr)"
    and "ps i = Some (ZWriteReady p m) \<Longrightarrow> pk = Some (message_on_stack m) \<and> ps = [i \<mapsto> ZWriteReady p m] \<and>
      (\<forall>pk' ps'. claimed_recv p pk' ps' \<longrightarrow> owner_ok p c sel (Some pk') ps' qs qr)"
    and "ps i = Some (ZRead t p) \<Longrightarrow> \<exists>m. pk = Some (message_on_stack m) \<and> ps = [i \<mapsto> ZRead t p] \<and>
      (\<forall>pk' ps'. claimed_send p m pk' ps' \<longrightarrow> owner_ok p c sel (Some pk') ps' qs qr)"
    and "ps i = Some (ZReadReady p m) \<Longrightarrow> pk = Some empty_on_stack \<and> ps = [i \<mapsto> ZReadReady p m] \<and>
      (\<forall>pk' ps'. claimed_send p m pk' ps' \<longrightarrow> owner_ok p c sel (Some pk') ps' qs qr)"
  using assms by (cases c; auto simp: claimed_recv_def claimed_send_def split: selected.splits if_splits)+

lemma claimed_intros:
  "claimed_recv p (message_on_stack m) [i \<mapsto> ZWriteReady p m]"
  "claimed_recv p (message_on_stack m\<lparr>ready := True\<rparr>) Map.empty"
  "claimed_send p m empty_on_stack [i \<mapsto> ZReadReady p m]"
  "claimed_send p m (empty_on_stack\<lparr>ready := True\<rparr>) Map.empty"
  by (auto simp: claimed_recv_def claimed_send_def message_on_stack_def empty_on_stack_def)

lemma unmap: "[i \<mapsto> x](i := None) = Map.empty"
  by auto

lemma z_inv_touch:
  assumes inv: "z_inv s" and pc: "touches (z_pc s i) = Some (hook k)" "plain (z_pc s i)" "plain c" "i \<noteq> k"
    and c: "touches c = None \<or> touches c = Some (hook k)"
    and new: "owner_ok (hook k) (z_pc s k) (cx_select (z_cxs s k)) pk
      ((peers (z_pc s) (hook k))(i := (if touches c = Some (hook k) then Some c else None)))
      (queued (z_senders s) k) (queued (z_receivers s) k)"
    and s': "z_pc s' = (z_pc s)(i := c)" "z_cxs s' = z_cxs s" "z_packets s' = (z_packets s)(hook k := pk)"
      "z_senders s' = z_senders s" "z_receivers s' = z_receivers s"
  shows "z_inv s'"
proof -
  have "thread_okz s' j" for j
  proof -
    consider "j = i" | "j = k" | "j \<noteq> i" "j \<noteq> k" by blast
    then show ?thesis
    proof cases
      case 1
      have "thread_okz s i" by (rule z_invD(3) [OF inv])
      then show ?thesis using 1 pc c s' by (auto simp: thread_okz_def owner_ok_plain peers_upd peers_None)
    next
      case 2
      then show ?thesis using new s' pc by (simp add: thread_okz_def peers_upd)
    next
      case 3
      then show ?thesis using s' pc c
        by (intro thread_okz_frame [OF z_invD(3) [OF inv, of j]]) (auto simp: peers_upd peers_None)
    qed
  qed
  with inv c s' show ?thesis by (auto simp: z_inv_def)
qed

lemma z_touched:
  assumes inv: "z_inv s" and t: "touches (z_pc s i) = Some p"
  obtains k where "p = hook k" "i \<noteq> k" "owner_ok (hook k) (z_pc s k) (cx_select (z_cxs s k)) (z_packets s (hook k))
      (peers (z_pc s) (hook k)) (queued (z_senders s) k) (queued (z_receivers s) k)"
    "peers (z_pc s) (hook k) i = Some (z_pc s i)"
proof -
  obtain k where p: "p = hook k" using z_invD(4) [OF inv t] by blast
  have "thread_okz s k" by (rule z_invD(3) [OF inv])
  moreover have at: "peers (z_pc s) (hook k) i = Some (z_pc s i)" using t p by (simp add: peers_at)
  moreover have "i \<noteq> k"
  proof
    assume "i = k"
    then have "plain (z_pc s k)" using t by (cases "z_pc s i") auto
    with calculation show False by (simp add: thread_okz_def owner_ok_plain)
  qed
  ultimately show thesis using that p by (simp add: thread_okz_def)
qed

lemma z_inv_write_msg:
  assumes inv: "z_inv s" and pc: "z_pc s i = ZWrite p m"
  shows "z_inv (write_msg i p m s)"
proof -
  from pc have "touches (z_pc s i) = Some p" by simp
  with inv obtain k where k: "p = hook k" "i \<noteq> k" "owner_ok (hook k) (z_pc s k) (cx_select (z_cxs s k)) (z_packets s (hook k))
      (peers (z_pc s) (hook k)) (queued (z_senders s) k) (queued (z_receivers s) k)"
    "peers (z_pc s) (hook k) i = Some (z_pc s i)" by (rule z_touched)
  from owner_touched(1) [OF k(3), of i m] k(4) pc k(1) have
    ow: "z_packets s (hook k) = Some empty_on_stack" "peers (z_pc s) (hook k) = [i \<mapsto> ZWrite (hook k) m]"
      "\<And>pk' ps'. claimed_recv (hook k) pk' ps' \<Longrightarrow> owner_ok (hook k) (z_pc s k) (cx_select (z_cxs s k)) (Some pk') ps'
         (queued (z_senders s) k) (queued (z_receivers s) k)" by auto
  have "write_msg i p m s = z_goto i (ZWriteReady p m) (z_packet p (Some (message_on_stack m)) s)"
    using ow k pc by (simp add: write_msg_def empty_on_stack_def message_on_stack_def)
  moreover have "z_inv \<dots>"
    using k pc by (intro z_inv_touch [OF inv, of i k]) (simp_all add: ow unmap claimed_intros)
  ultimately show ?thesis by simp
qed

lemma z_inv_write_ready:
  assumes inv: "z_inv s" and pc: "z_pc s i = ZWriteReady p m"
  shows "z_inv (write_ready i p m s)"
proof -
  from pc have "touches (z_pc s i) = Some p" by simp
  with inv obtain k where k: "p = hook k" "i \<noteq> k" "owner_ok (hook k) (z_pc s k) (cx_select (z_cxs s k)) (z_packets s (hook k))
      (peers (z_pc s) (hook k)) (queued (z_senders s) k) (queued (z_receivers s) k)"
    "peers (z_pc s) (hook k) i = Some (z_pc s i)" by (rule z_touched)
  from owner_touched(2) [OF k(3), of i m] k(4) pc k(1) have
    ow: "z_packets s (hook k) = Some (message_on_stack m)" "peers (z_pc s) (hook k) = [i \<mapsto> ZWriteReady (hook k) m]"
      "\<And>pk' ps'. claimed_recv (hook k) pk' ps' \<Longrightarrow> owner_ok (hook k) (z_pc s k) (cx_select (z_cxs s k)) (Some pk') ps'
         (queued (z_senders s) k) (queued (z_receivers s) k)" by auto
  have "write_ready i p m s = z_return i (Sent m) (z_packet p (Some (message_on_stack m\<lparr>ready := True\<rparr>)) s)"
    using ow k pc by (simp add: write_ready_def)
  moreover have "z_inv \<dots>"
    using k pc by (intro z_inv_touch [OF inv, of i k]) (simp_all add: ow unmap claimed_intros)
  ultimately show ?thesis by simp
qed

lemma z_inv_read_msg:
  assumes inv: "z_inv s" and pc: "z_pc s i = ZRead t p"
  shows "z_inv (read_msg i t p s)"
proof -
  from pc have "touches (z_pc s i) = Some p" by simp
  with inv obtain k where k: "p = hook k" "i \<noteq> k" "owner_ok (hook k) (z_pc s k) (cx_select (z_cxs s k)) (z_packets s (hook k))
      (peers (z_pc s) (hook k)) (queued (z_senders s) k) (queued (z_receivers s) k)"
    "peers (z_pc s) (hook k) i = Some (z_pc s i)" by (rule z_touched)
  from owner_touched(3) [OF k(3), of i t] k(4) pc k(1) obtain m where
    ow: "z_packets s (hook k) = Some (message_on_stack m)" "peers (z_pc s) (hook k) = [i \<mapsto> ZRead t (hook k)]"
      "\<And>pk' ps'. claimed_send (hook k) m pk' ps' \<Longrightarrow> owner_ok (hook k) (z_pc s k) (cx_select (z_cxs s k)) (Some pk') ps'
         (queued (z_senders s) k) (queued (z_receivers s) k)" by auto
  have "read_msg i t p s = z_goto i (ZReadReady p m) (z_packet p (Some empty_on_stack) s)"
    using ow k by (simp add: read_msg_def empty_on_stack_def message_on_stack_def)
  moreover have "z_inv \<dots>"
    using k pc by (intro z_inv_touch [OF inv, of i k]) (simp_all add: ow unmap claimed_intros)
  ultimately show ?thesis by simp
qed

lemma z_inv_read_ready:
  assumes inv: "z_inv s" and pc: "z_pc s i = ZReadReady p m"
  shows "z_inv (read_ready i p m s)"
proof -
  from pc have "touches (z_pc s i) = Some p" by simp
  with inv obtain k where k: "p = hook k" "i \<noteq> k" "owner_ok (hook k) (z_pc s k) (cx_select (z_cxs s k)) (z_packets s (hook k))
      (peers (z_pc s) (hook k)) (queued (z_senders s) k) (queued (z_receivers s) k)"
    "peers (z_pc s) (hook k) i = Some (z_pc s i)" by (rule z_touched)
  from owner_touched(4) [OF k(3), of i m] k(4) pc k(1) have
    ow: "z_packets s (hook k) = Some empty_on_stack" "peers (z_pc s) (hook k) = [i \<mapsto> ZReadReady (hook k) m]"
      "\<And>pk' ps'. claimed_send (hook k) m pk' ps' \<Longrightarrow> owner_ok (hook k) (z_pc s k) (cx_select (z_cxs s k)) (Some pk') ps'
         (queued (z_senders s) k) (queued (z_receivers s) k)" by auto
  have "read_ready i p m s = z_return i (Received m) (z_packet p (Some (empty_on_stack\<lparr>ready := True\<rparr>)) s)"
    using ow k pc by (simp add: read_ready_def)
  moreover have "z_inv \<dots>"
    using k pc by (intro z_inv_touch [OF inv, of i k]) (simp_all add: ow unmap claimed_intros)
  ultimately show ?thesis by simp
qed

text \<open>A thread that works on its own packet and entry.\<close>

lemma z_inv_own:
  assumes inv: "z_inv s" and pc: "touches (z_pc s i) = None" "touches c = None"
    and s': "z_pc s' = (z_pc s)(i := c)" "\<And>j. j \<noteq> i \<Longrightarrow> cx_select (z_cxs s' j) = cx_select (z_cxs s j)"
      "\<And>j. j \<noteq> i \<Longrightarrow> z_packets s' (hook j) = z_packets s (hook j)"
      "\<And>j. j \<noteq> i \<Longrightarrow> queued (z_senders s') j = queued (z_senders s) j"
      "\<And>j. j \<noteq> i \<Longrightarrow> queued (z_receivers s') j = queued (z_receivers s) j"
      "entries_ok hook (z_senders s')" "entries_ok hook (z_receivers s')"
    and own: "owner_ok (hook i) c (cx_select (z_cxs s' i)) (z_packets s' (hook i)) (peers (z_pc s) (hook i))
      (queued (z_senders s') i) (queued (z_receivers s') i)"
  shows "z_inv s'"
proof -
  have pe: "peers (z_pc s') p = peers (z_pc s) p" for p using pc s' by (simp add: peers_upd peers_None)
  have "thread_okz s' j" for j
  proof (cases "j = i")
    case True
    then show ?thesis using own pe s' by (simp add: thread_okz_def)
  next
    case False
    then show ?thesis using s' pe by (intro thread_okz_frame [OF z_invD(3) [OF inv, of j]]) simp_all
  qed
  with inv pc s' show ?thesis by (auto simp: z_inv_def)
qed

lemma z_inv_send_wait:
  assumes inv: "z_inv s" and pc: "z_pc s i = ZSendWait m d"
  shows "z_inv (send_wait i late m d s)"
proof -
  have own: "thread_okz s i" by (rule z_invD(3) [OF inv])
  note e = z_invD(1,2) [OF inv]
  consider (look) "cx_select (z_cxs s i) = Waiting" "\<not> (d \<noteq> None \<and> late)"
    | (late) "cx_select (z_cxs s i) = Waiting" "d \<noteq> None \<and> late"
    | (sel) "cx_select (z_cxs s i) \<noteq> Waiting" by blast
  then show ?thesis
  proof cases
    case look
    then show ?thesis using inv by (auto simp: send_wait_def cx_wait_until_def)
  next
    case late
    have "send_wait i late m d s = z_goto i (ZSendUnregister m Aborted)
        (s\<lparr>z_cxs := (z_cxs s)(i := (z_cxs s i)\<lparr>cx_select := Aborted\<rparr>)\<rparr>)"
      using late by (simp add: send_wait_def cx_wait_until_def cx_try_select_def)
    moreover have "z_inv \<dots>" using own pc late e
      by (intro z_inv_own [OF inv, of i]) (auto simp: thread_okz_def)
    ultimately show ?thesis by simp
  next
    case sel
    define c where "c = (case cx_select (z_cxs s i) of Operation _ \<Rightarrow> ZSendReady m | sl \<Rightarrow> ZSendUnregister m sl)"
    have "cx_select (z_cxs s i) \<noteq> Aborted" using own pc by (auto simp: thread_okz_def)
    with sel have "send_wait i late m d s = z_goto i c (s\<lparr>z_cxs := (z_cxs s)(i := z_cxs s i)\<rparr>)"
      by (cases "cx_select (z_cxs s i)") (simp_all add: send_wait_def cx_wait_until_def c_def)
    moreover have "z_inv \<dots>" using own pc sel e
      by (intro z_inv_own [OF inv, of i c]; cases "cx_select (z_cxs s i)") (auto simp: thread_okz_def c_def)
    ultimately show ?thesis by simp
  qed
qed

lemma z_inv_recv_wait:
  assumes inv: "z_inv s" and pc: "z_pc s i = ZRecvWait d"
  shows "z_inv (recv_wait i late d s)"
proof -
  have own: "thread_okz s i" by (rule z_invD(3) [OF inv])
  note e = z_invD(1,2) [OF inv]
  consider (look) "cx_select (z_cxs s i) = Waiting" "\<not> (d \<noteq> None \<and> late)"
    | (late) "cx_select (z_cxs s i) = Waiting" "d \<noteq> None \<and> late"
    | (sel) "cx_select (z_cxs s i) \<noteq> Waiting" by blast
  then show ?thesis
  proof cases
    case look
    then show ?thesis using inv by (auto simp: recv_wait_def cx_wait_until_def)
  next
    case late
    have "recv_wait i late d s = z_goto i (ZRecvUnregister Aborted)
        (s\<lparr>z_cxs := (z_cxs s)(i := (z_cxs s i)\<lparr>cx_select := Aborted\<rparr>)\<rparr>)"
      using late by (simp add: recv_wait_def cx_wait_until_def cx_try_select_def)
    moreover have "z_inv \<dots>" using own pc late e
      by (intro z_inv_own [OF inv, of i]) (auto simp: thread_okz_def)
    ultimately show ?thesis by simp
  next
    case sel
    define c where "c = (case cx_select (z_cxs s i) of Operation _ \<Rightarrow> ZRecvReady | sl \<Rightarrow> (ZRecvUnregister sl :: 'a zpc))"
    have "cx_select (z_cxs s i) \<noteq> Aborted" using own pc by (auto simp: thread_okz_def)
    with sel have "recv_wait i late d s = z_goto i c (s\<lparr>z_cxs := (z_cxs s)(i := z_cxs s i)\<rparr>)"
      by (cases "cx_select (z_cxs s i)") (simp_all add: recv_wait_def cx_wait_until_def c_def)
    moreover have "z_inv \<dots>" using own pc sel e
      by (intro z_inv_own [OF inv, of i c]; cases "cx_select (z_cxs s i)") (auto simp: thread_okz_def c_def)
    ultimately show ?thesis by simp
  qed
qed

lemma z_inv_send_unregister:
  assumes inv: "z_inv s" and pc: "z_pc s i = ZSendUnregister m sl"
  shows "z_inv (send_unregister i sl s)"
proof -
  have own: "queued (z_senders s) i" "\<not> queued (z_receivers s) i" "z_packets s (hook i) = Some (message_on_stack m)"
    "peers (z_pc s) (hook i) = Map.empty" using z_invD(3) [OF inv, of i] pc by (simp_all add: thread_okz_def)
  from unregister_queued [OF z_invD(1) [OF inv] own(1)] obtain e ss where
    u: "waker_unregister (hook i) (z_senders s) = (Some e, ss)" "entries_ok hook ss"
      "\<And>j. queued ss j \<longleftrightarrow> queued (z_senders s) j \<and> j \<noteq> i" by metis
  have "send_unregister i sl s = z_return i (SendFailed (if sl = Aborted then STTimeout m else STDisconnected m))
      (z_packet (hook i) None (s\<lparr>z_senders := ss\<rparr>))"
    by (simp add: send_unregister_def u(1) own(3) message_on_stack_def)
  moreover have "z_inv \<dots>"
    by (rule z_inv_own [OF inv, of i ZIdle]) (simp_all add: pc own u(2,3) z_invD(2) [OF inv])
  ultimately show ?thesis by simp
qed

lemma z_inv_recv_unregister:
  assumes inv: "z_inv s" and pc: "z_pc s i = ZRecvUnregister sl"
  shows "z_inv (recv_unregister i sl s)"
proof -
  have own: "\<not> queued (z_senders s) i" "queued (z_receivers s) i"
    "peers (z_pc s) (hook i) = Map.empty" using z_invD(3) [OF inv, of i] pc by (simp_all add: thread_okz_def)
  from unregister_queued [OF z_invD(2) [OF inv] own(2)] obtain e rs where
    u: "waker_unregister (hook i) (z_receivers s) = (Some e, rs)" "entries_ok hook rs"
      "\<And>j. queued rs j \<longleftrightarrow> queued (z_receivers s) j \<and> j \<noteq> i" by metis
  have "recv_unregister i sl s = z_return i (RecvFailed (if sl = Aborted then RTTimeout else RTDisconnected))
      (z_packet (hook i) None (s\<lparr>z_receivers := rs\<rparr>))"
    by (simp add: recv_unregister_def u(1))
  moreover have "z_inv \<dots>"
    by (rule z_inv_own [OF inv, of i ZIdle]) (simp_all add: pc own u(2,3) z_invD(1) [OF inv])
  ultimately show ?thesis by simp
qed

lemma z_inv_send_ready:
  assumes inv: "z_inv s" and pc: "z_pc s i = ZSendReady m"
  shows "z_inv (send_ready i m s)"
proof -
  obtain k where own: "\<not> queued (z_senders s) i" "\<not> queued (z_receivers s) i" "z_packets s (hook i) = Some k"
    "claimed_send (hook i) m k (peers (z_pc s) (hook i))"
    using z_invD(3) [OF inv, of i] pc by (auto simp: thread_okz_def)
  then have "ready k \<Longrightarrow> peers (z_pc s) (hook i) = Map.empty"
    by (auto simp: claimed_send_def message_on_stack_def empty_on_stack_def)
  then show ?thesis using own pc z_invD(1,2) [OF inv] inv
    by (auto simp: send_ready_def intro!: z_inv_own [OF inv, of i])
qed

lemma z_inv_recv_ready:
  assumes inv: "z_inv s" and pc: "z_pc s i = ZRecvReady"
  shows "z_inv (recv_ready i s)"
proof -
  obtain k where own: "\<not> queued (z_senders s) i" "\<not> queued (z_receivers s) i" "z_packets s (hook i) = Some k"
    "claimed_recv (hook i) k (peers (z_pc s) (hook i))"
    using z_invD(3) [OF inv, of i] pc by (auto simp: thread_okz_def)
  then have "ready k \<Longrightarrow> peers (z_pc s) (hook i) = Map.empty \<and> (\<exists>m. p_msg k = Some m)"
    by (auto simp: claimed_recv_def message_on_stack_def empty_on_stack_def)
  then show ?thesis using own pc z_invD(1,2) [OF inv] inv
    by (auto simp: recv_ready_def intro!: z_inv_own [OF inv, of i])
qed

lemma z_inv_disconnect:
  assumes inv: "z_inv s" and pc: "z_pc s i = ZDisconnect"
  shows "z_inv (zero_disconnect i s)"
proof (cases "z_disconnected s")
  case True
  then show ?thesis using pc
    by (simp add: zero_disconnect_def) (rule z_inv_plain [OF inv, of i ZIdle], simp_all)
next
  case False
  note e = z_invD(1,2) [OF inv]
  let ?c1 = "fold (wake_entry (\<lambda>_. Disconnected)) (selectors (z_senders s)) (z_cxs s)"
  let ?c2 = "fold (wake_entry (\<lambda>_. Disconnected)) (selectors (z_receivers s)) ?c1"
  let ?s = "s\<lparr>z_disconnected := True, z_senders := z_senders s, z_receivers := z_receivers s, z_cxs := ?c2\<rparr>"
  have sel: "cx_select (?c2 j) = (if (queued (z_senders s) j \<or> queued (z_receivers s) j) \<and>
      cx_select (z_cxs s j) = Waiting then Disconnected else cx_select (z_cxs s j))" for j
    by (simp add: fold_wake queued_def)
  have "thread_okz ?s j" for j
    using z_invD(3) [OF inv, of j] unfolding thread_okz_def
    by (cases "z_pc s j") (auto simp: sel split: selected.splits)
  then have "z_inv ?s" using inv by (simp add: z_inv_def)
  then have "z_inv (z_return i (DisconnectRet True) ?s)"
    by (rule z_inv_plain [of _ i ZIdle]) (use pc in simp_all)
  then show ?thesis using False by (simp add: zero_disconnect_def disconnect_queued [OF e(1)] disconnect_queued [OF e(2)])
qed

lemma z_inv_step:
  assumes inv: "z_inv s"
  shows "z_inv (z_step e s)"
proof (cases e)
  case (ZCall i oper)
  have "z_inv (z_goto i (z_start oper) s)" if "z_pc s i = ZIdle"
    by (rule z_inv_plain [OF inv, of i "z_start oper"]; cases oper; use that in simp)
  then show ?thesis using inv ZCall by simp
next
  case (ZTick i late)
  have ret: "z_inv (z_return i r s)" if "plain (z_pc s i)" "touches (z_pc s i) = None" for r
    by (rule z_inv_plain [OF inv, of i ZIdle]) (use that in simp_all)
  have lock: "z_inv (pair_receiver i (\<lambda>p. ZWrite p m) f s)" "z_inv (pair_sender i (ZRead t) f s)"
    if "plain (z_pc s i)" "touches (z_pc s i) = None" "z_inv (f s)" for m t f
    using that z_inv_pair_receiver [OF inv that(1,2)] z_inv_pair_sender [OF inv that(1,2)]
    by (auto simp: pair_receiver_def pair_sender_def split: prod.split option.split)
  note blk = z_inv_block_sender [OF inv] z_inv_block_receiver [OF inv]
  show ?thesis
  proof (cases "z_pc s i")
    case (ZSend m d)
    then show ?thesis using ret blk(1) ZTick by (auto simp: send_lock_def intro!: lock)
  next
    case (ZTrySend m)
    then show ?thesis using ret ZTick by (auto simp: try_send_lock_def intro!: lock)
  next
    case (ZRecv d)
    then show ?thesis using ret blk(2) ZTick by (auto simp: recv_lock_def intro!: lock)
  next
    case ZTryRecv
    then show ?thesis using ret ZTick by (auto simp: try_recv_lock_def intro!: lock)
  qed (use inv ZTick in \<open>simp_all add: z_inv_write_msg z_inv_write_ready z_inv_send_wait z_inv_send_unregister
    z_inv_send_ready z_inv_read_msg z_inv_read_ready z_inv_recv_wait z_inv_recv_unregister z_inv_recv_ready z_inv_disconnect\<close>)
qed

interpretation zch: invariant_system z_step z_inv
  by unfold_locales (rule z_inv_step)

lemma z_inv_new: "z_inv zero_new"
  by (simp add: z_inv_def zero_new_def thread_okz_def entries_ok_def waker_new_def queued_def peers_def)

section \<open>Counting messages\<close>

text \<open>
  Messages in the hands of a thread that are not in a packet, messages in packets, and messages given
  out by the operations that have returned.
\<close>

fun holds_msg :: "'m zpc \<Rightarrow> 'm multiset" where
  "holds_msg (ZSend m d) = {#m#}" | "holds_msg (ZTrySend m) = {#m#}" | "holds_msg (ZWrite p m) = {#m#}"
| "holds_msg (ZReadReady p m) = {#m#}" | "holds_msg _ = {#}"

definition packet_msg :: "'m packet option \<Rightarrow> 'm multiset" where
  "packet_msg pk = (case pk of None \<Rightarrow> {#} | Some k \<Rightarrow> (case p_msg k of None \<Rightarrow> {#} | Some m \<Rightarrow> {#m#}))"

fun given :: "'m zret \<Rightarrow> 'm multiset" where
  "given (SendFailed e) = {#send_timeout_error_into_inner e#}"
| "given (TrySendFailed e) = {#try_send_error_into_inner e#}"
| "given (Received m) = {#m#}"
| "given _ = {#}"

text \<open>The messages of senders whose call has not returned, and of those whose call has.\<close>

fun sending :: "'m zpc \<Rightarrow> 'm multiset" where
  "sending (ZSend m d) = {#m#}" | "sending (ZTrySend m) = {#m#}" | "sending (ZWrite p m) = {#m#}"
| "sending (ZWriteReady p m) = {#m#}" | "sending (ZSendWait m d) = {#m#}"
| "sending (ZSendUnregister m sl) = {#m#}" | "sending (ZSendReady m) = {#m#}" | "sending _ = {#}"

fun answered :: "'m zret \<Rightarrow> 'm multiset" where
  "answered (SendFailed e) = {#send_timeout_error_into_inner e#}"
| "answered (TrySendFailed e) = {#try_send_error_into_inner e#}"
| "answered (Sent m) = {#m#}"
| "answered _ = {#}"

definition log_sum :: "('m zret \<Rightarrow> 'm multiset) \<Rightarrow> 'm zero \<Rightarrow> 'm multiset" where
  "log_sum f s = sum_list (map (f \<circ> snd) (z_log s))"

definition in_flight :: "tid set \<Rightarrow> 'm zero \<Rightarrow> 'm multiset" where
  "in_flight B s = (\<Sum>i\<in>B. holds_msg (z_pc s i)) + (\<Sum>i\<in>B. packet_msg (z_packets s (hook i)))"

definition in_calls :: "tid set \<Rightarrow> 'm zero \<Rightarrow> 'm multiset" where
  "in_calls B s = (\<Sum>i\<in>B. sending (z_pc s i))"

lemma sum_fun_upd:
  fixes f :: "'b \<Rightarrow> 'a multiset"
  assumes "finite B" "i \<in> B"
  shows "(\<Sum>x\<in>B. f ((g(i := v)) x)) + f (g i) = (\<Sum>x\<in>B. f (g x)) + f v"
proof -
  have "(\<Sum>x\<in>B. f ((g(i := v)) x)) = f v + (\<Sum>x\<in>B - {i}. f (g x))"
    using assms by (simp add: sum.remove [of B i])
  moreover have "(\<Sum>x\<in>B. f (g x)) = f (g i) + (\<Sum>x\<in>B - {i}. f (g x))"
    using assms by (rule sum.remove)
  ultimately show ?thesis by (simp add: ac_simps)
qed

lemma sum_hook_upd:
  fixes f :: "'b \<Rightarrow> 'a multiset"
  assumes "finite B" "k \<in> B"
  shows "(\<Sum>x\<in>B. f ((g(hook k := v)) (hook x))) + f (g (hook k)) = (\<Sum>x\<in>B. f (g (hook x))) + f v"
proof -
  have "(g(hook k := v)) (hook x) = ((\<lambda>x. g (hook x))(k := v)) x" for x by simp
  then show ?thesis using sum_fun_upd [OF assms, of f "\<lambda>x. g (hook x)" v] by simp
qed

text \<open>Thread \<open>i\<close> moves on, one packet may change, and one result may be returned.\<close>

definition result_msg :: "('m zret \<Rightarrow> 'm multiset) \<Rightarrow> 'm zret option \<Rightarrow> 'm multiset" where
  "result_msg f r = (case r of None \<Rightarrow> {#} | Some x \<Rightarrow> f x)"

lemma account_flight:
  assumes B: "finite B" "i \<in> B" "k \<in> B"
    and s': "z_pc s' = (z_pc s)(i := c)" "z_packets s' = (z_packets s)(hook k := pk)"
      "z_log s' = z_log s @ (case r of None \<Rightarrow> [] | Some x \<Rightarrow> [(i, x)])"
    and bal: "holds_msg c + packet_msg pk + result_msg given r =
      holds_msg (z_pc s i) + packet_msg (z_packets s (hook k))"
  shows "in_flight B s' + log_sum given s' = in_flight B s + log_sum given s"
proof -
  let ?P = "\<lambda>s. \<Sum>i\<in>B. holds_msg (z_pc s i)" and ?Q = "\<lambda>s. \<Sum>i\<in>B. packet_msg (z_packets s (hook i))"
  have "?P s' + holds_msg (z_pc s i) = ?P s + holds_msg c" using sum_fun_upd [OF B(1,2)] s'(1) by simp
  moreover have "?Q s' + packet_msg (z_packets s (hook k)) = ?Q s + packet_msg pk"
    using sum_hook_upd [OF B(1,3)] s'(2) by simp
  moreover have "log_sum given s' = log_sum given s + result_msg given r"
    using s'(3) by (cases r) (simp_all add: log_sum_def result_msg_def)
  ultimately have "?P s' + ?Q s' + log_sum given s' + (holds_msg (z_pc s i) + packet_msg (z_packets s (hook k))) =
      ?P s + ?Q s + log_sum given s + (holds_msg c + packet_msg pk + result_msg given r)"
    by (simp add: ac_simps)
  then show ?thesis unfolding bal in_flight_def by simp
qed

lemma account_calls:
  assumes B: "finite B" "i \<in> B" and s': "z_pc s' = (z_pc s)(i := c)"
      "z_log s' = z_log s @ (case r of None \<Rightarrow> [] | Some x \<Rightarrow> [(i, x)])"
    and bal: "sending c + result_msg answered r = sending (z_pc s i)"
  shows "in_calls B s' + log_sum answered s' = in_calls B s + log_sum answered s"
proof -
  have "in_calls B s' + sending (z_pc s i) = in_calls B s + sending c"
    unfolding in_calls_def using sum_fun_upd [OF B] s'(1) by simp
  moreover have "log_sum answered s' = log_sum answered s + result_msg answered r"
    using s'(2) by (cases r) (simp_all add: log_sum_def result_msg_def)
  ultimately have "in_calls B s' + log_sum answered s' + sending (z_pc s i) =
      in_calls B s + log_sum answered s + (sending c + result_msg answered r)"
    by (metis (no_types, lifting) add.assoc add.commute)
  then show ?thesis unfolding bal by simp
qed

text \<open>A step of thread \<open>i\<close> that accounts for all messages.\<close>

definition accounted :: "'m zero \<Rightarrow> tid \<Rightarrow> 'm zero \<Rightarrow> bool" where
  "accounted s i s' \<longleftrightarrow> (\<exists>c k pk r. z_pc s' = (z_pc s)(i := c) \<and> z_packets s' = (z_packets s)(hook k := pk) \<and>
     z_log s' = z_log s @ (case r of None \<Rightarrow> [] | Some x \<Rightarrow> [(i, x)]) \<and> (k = i \<or> z_pc s k \<noteq> ZIdle) \<and>
     holds_msg c + packet_msg pk + result_msg given r = holds_msg (z_pc s i) + packet_msg (z_packets s (hook k)) \<and>
     sending c + result_msg answered r = sending (z_pc s i))"

lemma accountedI:
  assumes "z_pc s' = (z_pc s)(i := c)" "z_packets s' = (z_packets s)(hook k := pk)"
    "z_log s' = z_log s @ (case r of None \<Rightarrow> [] | Some x \<Rightarrow> [(i, x)])" "k = i \<or> z_pc s k \<noteq> ZIdle"
    "holds_msg c + packet_msg pk + result_msg given r = holds_msg (z_pc s i) + packet_msg (z_packets s (hook k))"
    "sending c + result_msg answered r = sending (z_pc s i)"
  shows "accounted s i s'"
  unfolding accounted_def using assms by blast

text \<open>No packet changes.\<close>

lemma accounted_goto:
  assumes "z_pc s' = (z_pc s)(i := c)" "z_packets s' = z_packets s" "z_log s' = z_log s"
    "holds_msg c = holds_msg (z_pc s i)" "sending c = sending (z_pc s i)"
  shows "accounted s i s'"
  by (rule accountedI [where c = c and k = i and pk = "z_packets s (hook i)" and r = None])
    (use assms in \<open>simp_all add: result_msg_def\<close>)

lemma accounted_return:
  assumes "z_pc s' = (z_pc s)(i := ZIdle)" "z_packets s' = z_packets s" "z_log s' = z_log s @ [(i, x)]"
    "given x = holds_msg (z_pc s i)" "answered x = sending (z_pc s i)"
  shows "accounted s i s'"
  by (rule accountedI [where c = ZIdle and k = i and pk = "z_packets s (hook i)" and r = "Some x"])
    (use assms in \<open>simp_all add: result_msg_def\<close>)

lemma accounted_same: "accounted s i s"
  by (rule accounted_goto [where c = "z_pc s i"]) simp_all

lemma packet_msg_simps [simp]:
  "packet_msg None = {#}" "packet_msg (Some (message_on_stack m)) = {#m#}" "packet_msg (Some empty_on_stack) = {#}"
  "packet_msg (Some (k\<lparr>ready := b\<rparr>)) = packet_msg (Some k)"
  by (simp_all add: packet_msg_def message_on_stack_def empty_on_stack_def)

lemma owner_not_idle: "z_inv s \<Longrightarrow> z_packets s (hook k) = Some pk \<Longrightarrow> z_pc s k \<noteq> ZIdle"
  using z_invD(3) [of s k] by (auto simp: thread_okz_def)

lemma accounted_touch:
  assumes inv: "z_inv s"
  shows "z_pc s i = ZWrite p m \<Longrightarrow> accounted s i (write_msg i p m s)"
    and "z_pc s i = ZWriteReady p m \<Longrightarrow> accounted s i (write_ready i p m s)"
    and "z_pc s i = ZRead t p \<Longrightarrow> accounted s i (read_msg i t p s)"
    and "z_pc s i = ZReadReady p m \<Longrightarrow> accounted s i (read_ready i p m s)"
proof -
  { assume pc: "z_pc s i = ZWrite p m"
    then have "touches (z_pc s i) = Some p" by simp
    with inv obtain k where k: "p = hook k" "owner_ok (hook k) (z_pc s k) (cx_select (z_cxs s k)) (z_packets s (hook k))
        (peers (z_pc s) (hook k)) (queued (z_senders s) k) (queued (z_receivers s) k)"
      "peers (z_pc s) (hook k) i = Some (z_pc s i)" by (rule z_touched)
    then have pk: "z_packets s (hook k) = Some empty_on_stack" using owner_touched(1) [OF k(2), of i m] pc by simp
    then have "write_msg i p m s = z_goto i (ZWriteReady p m) (z_packet p (Some (message_on_stack m)) s)"
      using k by (simp add: write_msg_def empty_on_stack_def message_on_stack_def)
    then show "accounted s i (write_msg i p m s)" using pc k(1) pk owner_not_idle [OF inv pk]
      by (intro accountedI [where c = "ZWriteReady p m" and k = k and pk = "Some (message_on_stack m)" and r = None]) (simp_all add: result_msg_def) }
  { assume pc: "z_pc s i = ZWriteReady p m"
    then have "touches (z_pc s i) = Some p" by simp
    with inv obtain k where k: "p = hook k" "owner_ok (hook k) (z_pc s k) (cx_select (z_cxs s k)) (z_packets s (hook k))
        (peers (z_pc s) (hook k)) (queued (z_senders s) k) (queued (z_receivers s) k)"
      "peers (z_pc s) (hook k) i = Some (z_pc s i)" by (rule z_touched)
    then have pk: "z_packets s (hook k) = Some (message_on_stack m)" using owner_touched(2) [OF k(2), of i m] pc by simp
    then have "write_ready i p m s = z_return i (Sent m) (z_packet p (Some (message_on_stack m\<lparr>ready := True\<rparr>)) s)"
      using k by (simp add: write_ready_def)
    then show "accounted s i (write_ready i p m s)" using pc k(1) pk owner_not_idle [OF inv pk]
      by (intro accountedI [where c = ZIdle and k = k and pk = "Some (message_on_stack m\<lparr>ready := True\<rparr>)" and r = "Some (Sent m)"]) (simp_all add: result_msg_def) }
  { assume pc: "z_pc s i = ZRead t p"
    then have "touches (z_pc s i) = Some p" by simp
    with inv obtain k where k: "p = hook k" "owner_ok (hook k) (z_pc s k) (cx_select (z_cxs s k)) (z_packets s (hook k))
        (peers (z_pc s) (hook k)) (queued (z_senders s) k) (queued (z_receivers s) k)"
      "peers (z_pc s) (hook k) i = Some (z_pc s i)" by (rule z_touched)
    then obtain m where pk: "z_packets s (hook k) = Some (message_on_stack m)"
      using owner_touched(3) [OF k(2), of i t] pc by auto
    then have "read_msg i t p s = z_goto i (ZReadReady p m) (z_packet p (Some empty_on_stack) s)"
      using k by (simp add: read_msg_def empty_on_stack_def message_on_stack_def)
    then show "accounted s i (read_msg i t p s)" using pc k(1) pk owner_not_idle [OF inv pk]
      by (intro accountedI [where c = "ZReadReady p m" and k = k and pk = "Some empty_on_stack" and r = None]) (simp_all add: result_msg_def) }
  { assume pc: "z_pc s i = ZReadReady p m"
    then have "touches (z_pc s i) = Some p" by simp
    with inv obtain k where k: "p = hook k" "owner_ok (hook k) (z_pc s k) (cx_select (z_cxs s k)) (z_packets s (hook k))
        (peers (z_pc s) (hook k)) (queued (z_senders s) k) (queued (z_receivers s) k)"
      "peers (z_pc s) (hook k) i = Some (z_pc s i)" by (rule z_touched)
    then have pk: "z_packets s (hook k) = Some empty_on_stack" using owner_touched(4) [OF k(2), of i m] pc by simp
    then have "read_ready i p m s = z_return i (Received m) (z_packet p (Some (empty_on_stack\<lparr>ready := True\<rparr>)) s)"
      using k by (simp add: read_ready_def)
    then show "accounted s i (read_ready i p m s)" using pc k(1) pk owner_not_idle [OF inv pk]
      by (intro accountedI [where c = ZIdle and k = k and pk = "Some (empty_on_stack\<lparr>ready := True\<rparr>)" and r = "Some (Received m)"]) (simp_all add: result_msg_def) }
qed

lemma accounted_own:
  assumes inv: "z_inv s"
  shows "z_pc s i = ZSendUnregister m sl \<Longrightarrow> accounted s i (send_unregister i sl s)"
    and "z_pc s i = ZSendReady m \<Longrightarrow> accounted s i (send_ready i m s)"
    and "z_pc s i = ZRecvUnregister sl \<Longrightarrow> accounted s i (recv_unregister i sl s)"
    and "z_pc s i = ZRecvReady \<Longrightarrow> accounted s i (recv_ready i s)"
proof -
  note ok = z_invD(3) [OF inv, of i]
  { assume pc: "z_pc s i = ZSendUnregister m sl"
    then have pk: "z_packets s (hook i) = Some (message_on_stack m)" "queued (z_senders s) i"
      using ok by (simp_all add: thread_okz_def)
    obtain e ss where u: "waker_unregister (hook i) (z_senders s) = (Some e, ss)"
      using unregister_queued [OF z_invD(1) [OF inv] pk(2)] by metis
    show "accounted s i (send_unregister i sl s)"
      by (rule accountedI [where k = i and c = ZIdle and pk = None and
            r = "Some (SendFailed (if sl = Aborted then STTimeout m else STDisconnected m))"])
        (simp_all add: send_unregister_def u pc pk(1) result_msg_def, simp_all add: message_on_stack_def) }
  { assume pc: "z_pc s i = ZSendReady m"
    then obtain k where k: "z_packets s (hook i) = Some k" "claimed_send (hook i) m k (peers (z_pc s) (hook i))"
      using ok by (auto simp: thread_okz_def)
    then have "p_msg k = None" if "ready k" using that by (auto simp: claimed_send_def message_on_stack_def empty_on_stack_def)
    then have "accounted s i (z_return i (Sent m) (z_packet (hook i) None s))" if "ready k"
      using that by (intro accountedI [where k = i and c = ZIdle and pk = None and r = "Some (Sent m)"])
        (simp_all add: pc k(1) result_msg_def packet_msg_def)
    then show "accounted s i (send_ready i m s)" using k(1) accounted_same [of s i]
      by (simp add: send_ready_def) }
  { assume pc: "z_pc s i = ZRecvUnregister sl"
    then have pk: "z_packets s (hook i) = Some empty_on_stack" "queued (z_receivers s) i"
      using ok by (simp_all add: thread_okz_def)
    obtain e rs where u: "waker_unregister (hook i) (z_receivers s) = (Some e, rs)"
      using unregister_queued [OF z_invD(2) [OF inv] pk(2)] by metis
    show "accounted s i (recv_unregister i sl s)"
      by (rule accountedI [where k = i and c = ZIdle and pk = None and
            r = "Some (RecvFailed (if sl = Aborted then RTTimeout else RTDisconnected))"])
        (simp_all add: recv_unregister_def u pc pk(1) result_msg_def) }
  { assume pc: "z_pc s i = ZRecvReady"
    then obtain k where k: "z_packets s (hook i) = Some k" "claimed_recv (hook i) k (peers (z_pc s) (hook i))"
      using ok by (auto simp: thread_okz_def)
    then have "\<exists>m. p_msg k = Some m" if "ready k"
      using that by (auto simp: claimed_recv_def message_on_stack_def empty_on_stack_def)
    moreover have "accounted s i (z_return i (Received m) (z_packet (hook i) None s))" if "p_msg k = Some m" for m
      using that by (intro accountedI [where k = i and c = ZIdle and pk = None and r = "Some (Received m)"])
        (simp_all add: pc k(1) result_msg_def packet_msg_def)
    ultimately show "accounted s i (recv_ready i s)" using k(1) accounted_same [of s i]
      by (auto simp: recv_ready_def) }
qed


lemma own_packet_plain: "z_inv s \<Longrightarrow> plain (z_pc s i) \<Longrightarrow> z_packets s (hook i) = None"
  using z_invD(3) [of s i] by (simp add: thread_okz_def owner_ok_plain)

lemma accounted_block:
  assumes inv: "z_inv s"
  shows "z_pc s i = ZSend m d \<Longrightarrow> accounted s i (block_sender i m d s)"
    and "z_pc s i = ZRecv d \<Longrightarrow> accounted s i (block_receiver i d s)"
proof -
  { assume pc: "z_pc s i = ZSend m d"
    then have "z_packets s (hook i) = None" by (intro own_packet_plain [OF inv]) simp
    with pc show "accounted s i (block_sender i m d s)"
      by (intro accountedI [where c = "ZSendWait m d" and k = i and pk = "Some (message_on_stack m)" and r = None])
        (simp_all add: block_sender_def notify_none [OF z_invD(2) [OF inv]] result_msg_def) }
  { assume pc: "z_pc s i = ZRecv d"
    then have "z_packets s (hook i) = None" by (intro own_packet_plain [OF inv]) simp
    with pc show "accounted s i (block_receiver i d s)"
      by (intro accountedI [where c = "ZRecvWait d" and k = i and pk = "Some empty_on_stack" and r = None])
        (simp_all add: block_receiver_def notify_none [OF z_invD(1) [OF inv]] result_msg_def) }
qed

lemma accounted_pair:
  assumes "accounted s i (f s)"
  shows "holds_msg (z_pc s i) = {#m#} \<Longrightarrow> sending (z_pc s i) = {#m#} \<Longrightarrow>
      accounted s i (pair_receiver i (\<lambda>p. ZWrite p m) f s)"
    and "holds_msg (z_pc s i) = {#} \<Longrightarrow> sending (z_pc s i) = {#} \<Longrightarrow> accounted s i (pair_sender i (ZRead t) f s)"
  using assms
  by (auto simp: pair_receiver_def pair_sender_def split: prod.split option.split intro: accounted_goto)

lemma accounted_wait:
  assumes inv: "z_inv s"
  shows "z_pc s i = ZSendWait m d \<Longrightarrow> accounted s i (send_wait i late m d s)"
    and "z_pc s i = ZRecvWait d \<Longrightarrow> accounted s i (recv_wait i late d s)"
proof -
  have w: "x \<noteq> Waiting" if "cx_wait_until d late c = (Some x, c')" for x c c'
    using that by (auto simp: cx_wait_until_def cx_try_select_def Let_def split: if_splits option.splits)
  { assume "z_pc s i = ZSendWait m d"
    then show "accounted s i (send_wait i late m d s)" using w [of "z_cxs s i"] accounted_same [of s i]
      by (auto simp: send_wait_def Let_def split: prod.split option.split selected.split intro!: accounted_goto) }
  { assume "z_pc s i = ZRecvWait d"
    then show "accounted s i (recv_wait i late d s)" using w [of "z_cxs s i"] accounted_same [of s i]
      by (auto simp: recv_wait_def Let_def split: prod.split option.split selected.split intro!: accounted_goto) }
qed

lemma accounted_disconnect:
  "z_pc s i = ZDisconnect \<Longrightarrow> accounted s i (zero_disconnect i s)"
  by (auto simp: zero_disconnect_def split: prod.split intro!: accounted_return)

lemma accounted_tick:
  assumes inv: "z_inv s"
  shows "accounted s i (z_tick i late (z_pc s i) s)"
proof -
  have ret: "accounted s i (z_return i x s)" if "given x = holds_msg (z_pc s i)" "answered x = sending (z_pc s i)" for x
    by (rule accounted_return) (use that in simp_all)
  show ?thesis
  proof (cases "z_pc s i")
    case (ZSend m d)
    then show ?thesis using ret accounted_block(1) [OF inv] by (auto simp: send_lock_def intro!: accounted_pair)
  next
    case (ZTrySend m)
    then show ?thesis using ret by (auto simp: try_send_lock_def intro!: accounted_pair)
  next
    case (ZRecv d)
    then show ?thesis using ret accounted_block(2) [OF inv] by (auto simp: recv_lock_def intro!: accounted_pair)
  next
    case ZTryRecv
    then show ?thesis using ret by (auto simp: try_recv_lock_def intro!: accounted_pair)
  qed (simp_all add: accounted_touch [OF inv] accounted_own [OF inv] accounted_wait [OF inv] accounted_disconnect
    accounted_same)
qed

section \<open>Conservation along runs\<close>

text \<open>The messages that the calls of a step bring into the channel.\<close>

fun op_msg :: "'m z_op \<Rightarrow> 'm multiset" where
  "op_msg (OpSend m d) = {#m#}" | "op_msg (OpTrySend m) = {#m#}" | "op_msg _ = {#}"

fun brought :: "'m z_event \<Rightarrow> 'm zero \<Rightarrow> 'm multiset" where
  "brought (ZCall i oper) s = (if z_pc s i = ZIdle then op_msg oper else {#})"
| "brought (ZTick i late) s = {#}"

fun z_thread :: "'m z_event \<Rightarrow> tid" where
  "z_thread (ZCall i oper) = i" | "z_thread (ZTick i late) = i"

lemma start_msg: "holds_msg (z_start oper) = op_msg oper" "sending (z_start oper) = op_msg oper"
  by (cases oper; simp)+

text \<open>Threads outside of \<open>B\<close> have done nothing.\<close>

definition outside_idle :: "tid set \<Rightarrow> 'm zero \<Rightarrow> bool" where
  "outside_idle B s \<longleftrightarrow> (\<forall>i. i \<notin> B \<longrightarrow> z_pc s i = ZIdle)"

definition conserved :: "tid set \<Rightarrow> 'm multiset \<Rightarrow> 'm zero \<Rightarrow> bool" where
  "conserved B M s \<longleftrightarrow> outside_idle B s \<and> in_flight B s + log_sum given s = M \<and>
     in_calls B s + log_sum answered s = M"

lemma conserved_call:
  assumes "finite B" "i \<in> B" "conserved B M s" "z_pc s i = ZIdle"
  shows "conserved B (M + op_msg oper) (z_goto i (z_start oper) s)"
  using sum_fun_upd [OF assms(1,2), of holds_msg "z_pc s" "z_start oper"]
    sum_fun_upd [OF assms(1,2), of sending "z_pc s" "z_start oper"] assms
  by (auto simp: conserved_def outside_idle_def in_flight_def in_calls_def log_sum_def start_msg ac_simps)

lemma conserved_accounted:
  assumes "finite B" "i \<in> B" "conserved B M s" "accounted s i s'"
  shows "conserved B M s'"
proof -
  from assms(4) obtain c k pk r where a: "z_pc s' = (z_pc s)(i := c)" "z_packets s' = (z_packets s)(hook k := pk)"
    "z_log s' = z_log s @ (case r of None \<Rightarrow> [] | Some x \<Rightarrow> [(i, x)])" "k = i \<or> z_pc s k \<noteq> ZIdle"
    "holds_msg c + packet_msg pk + result_msg given r = holds_msg (z_pc s i) + packet_msg (z_packets s (hook k))"
    "sending c + result_msg answered r = sending (z_pc s i)"
    unfolding accounted_def by blast
  have "k \<in> B" using a(4) assms(2,3) by (auto simp: conserved_def outside_idle_def)
  then show ?thesis
    using account_flight [OF assms(1,2) _ a(1,2,3,5)] account_calls [OF assms(1,2) a(1,3,6)] assms(2,3)
    by (auto simp: conserved_def outside_idle_def a(1))
qed

lemma conserved_step:
  assumes "z_inv s" "finite B" "z_thread e \<in> B" "conserved B M s"
  shows "conserved B (M + brought e s) (z_step e s)"
proof (cases e)
  case (ZCall i oper)
  with assms conserved_call [of B i M s oper] show ?thesis by auto
next
  case (ZTick i late)
  with assms conserved_accounted [of B i M s] accounted_tick [of s i late] show ?thesis by auto
qed

text \<open>All messages that the calls of a schedule bring.\<close>

fun brought_run :: "'m z_event list \<Rightarrow> 'm zero \<Rightarrow> 'm multiset" where
  "brought_run [] s = {#}"
| "brought_run (e # es) s = brought e s + brought_run es (z_step e s)"

lemma conserved_run:
  assumes "z_inv s" "finite B" "z_thread ` set es \<subseteq> B" "conserved B M s"
  shows "conserved B (M + brought_run es s) (impl_run z_step es s)"
  using assms
proof (induction es arbitrary: s M)
  case (Cons e es)
  then have "conserved B (M + brought e s) (z_step e s)" by (intro conserved_step) auto
  with Cons.IH [of "z_step e s" "M + brought e s"] Cons.prems z_inv_step [of s e] show ?case by (simp add: add.assoc)
qed simp

lemma conserved_new: "conserved B {#} zero_new"
  by (simp add: conserved_def outside_idle_def zero_new_def in_flight_def in_calls_def log_sum_def)

text \<open>The results by kind: messages that were sent, that were received, that were given back.\<close>

fun sent_msg :: "'m zret \<Rightarrow> 'm multiset" where
  "sent_msg (Sent m) = {#m#}" | "sent_msg _ = {#}"

fun received_msg :: "'m zret \<Rightarrow> 'm multiset" where
  "received_msg (Received m) = {#m#}" | "received_msg _ = {#}"

fun returned_msg :: "'m zret \<Rightarrow> 'm multiset" where
  "returned_msg (SendFailed e) = {#send_timeout_error_into_inner e#}"
| "returned_msg (TrySendFailed e) = {#try_send_error_into_inner e#}"
| "returned_msg _ = {#}"

lemma log_sum_add: "(\<And>r. f r = g r + h r) \<Longrightarrow> log_sum f s = log_sum g s + log_sum h s"
  unfolding log_sum_def by (induction "z_log s" rule: rev_induct) (simp_all add: sum_list_addf o_def)

lemma log_split:
  "log_sum given s = log_sum returned_msg s + log_sum received_msg s"
  "log_sum answered s = log_sum returned_msg s + log_sum sent_msg s"
proof -
  have "given r = returned_msg r + received_msg r" "answered r = returned_msg r + sent_msg r" for r :: "'a zret"
    by (cases r; simp)+
  then show "log_sum given s = log_sum returned_msg s + log_sum received_msg s"
    "log_sum answered s = log_sum returned_msg s + log_sum sent_msg s" by (simp_all add: log_sum_add)
qed

lemma no_panic: "z_inv s \<Longrightarrow> z_pc s i \<noteq> ZPanic"
  using z_invD(3) [of s i] by (auto simp: thread_okz_def)

lemma quiet_accounts:
  assumes "z_inv s" "\<forall>i. z_pc s i = ZIdle"
  shows "in_flight B s = {#}" "in_calls B s = {#}"
  using assms own_packet_plain [OF assms(1)] by (simp_all add: in_flight_def in_calls_def)

text \<open>
  C28: Rendezvous. Whatever the threads do with a zero-capacity channel, no \<^verbatim>\<open>unwrap\<close> fails, no
  dead packet is touched and the \<^verbatim>\<open>unreachable!\<close> branches are not reached; messages received
  or given back with an error were brought by calls, each at most once; and when no call is under way,
  exactly the messages that were sent have been received, and all others were given back.
\<close>

theorem zero_rendezvous:
  fixes es :: "'m z_event list"
  defines "s \<equiv> impl_run z_step es zero_new"
  shows "z_pc s i \<noteq> ZPanic \<and>
    log_sum returned_msg s + log_sum received_msg s \<subseteq># brought_run es zero_new \<and>
    ((\<forall>i. z_pc s i = ZIdle) \<longrightarrow> log_sum received_msg s = log_sum sent_msg s \<and>
       brought_run es zero_new = log_sum returned_msg s + log_sum sent_msg s)"
proof -
  have inv: "z_inv s" unfolding s_def by (rule zch.run_inv [OF z_inv_new])
  have "conserved (z_thread ` set es) (brought_run es zero_new) s"
    using conserved_run [OF z_inv_new _ _ conserved_new, of "z_thread ` set es" es] by (simp add: s_def)
  then have c: "in_flight (z_thread ` set es) s + log_sum given s = brought_run es zero_new"
    "in_calls (z_thread ` set es) s + log_sum answered s = brought_run es zero_new"
    by (simp_all add: conserved_def)
  from c(1) have "log_sum given s \<subseteq># brought_run es zero_new" by (metis mset_subset_eq_add_right)
  moreover have "log_sum received_msg s = log_sum sent_msg s \<and>
      brought_run es zero_new = log_sum returned_msg s + log_sum sent_msg s" if "\<forall>i. z_pc s i = ZIdle"
    using c quiet_accounts [OF inv that] by (simp add: log_split) (metis add_left_cancel)
  ultimately show ?thesis using no_panic [OF inv] by (simp add: log_split)
qed

definition rendezvous_demo :: "nat z_event list" where
  "rendezvous_demo = [ZCall 0 (OpRecv None), ZTick 0 False, ZCall 1 (OpSend 5 None), ZTick 1 False, ZTick 1 False,
     ZTick 1 False, ZTick 0 False, ZTick 0 False, ZCall 1 (OpTrySend 6), ZTick 1 False]"

lemma rendezvous_demo_log:
  "z_log (impl_run z_step rendezvous_demo zero_new) = [(1, Sent 5), (0, Received 5), (1, TrySendFailed (TSFull 6))]"
  by code_simp

lemma rendezvous_demo_idle: "z_pc (impl_run z_step rendezvous_demo zero_new) i = ZIdle"
proof -
  have "conserved {0, 1} (brought_run rendezvous_demo zero_new) (impl_run z_step rendezvous_demo zero_new)"
    using conserved_run [OF z_inv_new _ _ conserved_new, of "{0, 1}" rendezvous_demo] by (simp add: rendezvous_demo_def)
  moreover have "z_pc (impl_run z_step rendezvous_demo zero_new) 0 = ZIdle" by code_simp
  moreover have "z_pc (impl_run z_step rendezvous_demo zero_new) 1 = ZIdle" by code_simp
  ultimately show ?thesis by (cases "i \<in> {0, 1}") (auto simp: conserved_def outside_idle_def)
qed

theorem zero_rendezvous_witness:
  "log_sum received_msg (impl_run z_step rendezvous_demo zero_new) = {#5#} \<and>
   log_sum sent_msg (impl_run z_step rendezvous_demo zero_new) = {#5#} \<and>
   brought_run rendezvous_demo zero_new = {#5, 6#}"
  using zero_rendezvous [of rendezvous_demo 0] by (simp add: rendezvous_demo_log rendezvous_demo_idle log_sum_def)

section \<open>No missed meeting\<close>

definition waiting_sender :: "'m zero \<Rightarrow> tid \<Rightarrow> bool" where
  "waiting_sender s i \<longleftrightarrow> (\<exists>m d. z_pc s i = ZSendWait m d) \<and> cx_select (z_cxs s i) = Waiting"

definition waiting_receiver :: "'m zero \<Rightarrow> tid \<Rightarrow> bool" where
  "waiting_receiver s i \<longleftrightarrow> (\<exists>d. z_pc s i = ZRecvWait d) \<and> cx_select (z_cxs s i) = Waiting"

definition z_meet :: "'m zero \<Rightarrow> bool" where
  "z_meet s \<longleftrightarrow> \<not> (\<exists>i j. waiting_sender s i \<and> waiting_receiver s j) \<and>
     \<not> (z_disconnected s \<and> (\<exists>i. waiting_sender s i \<or> waiting_receiver s i))"

lemma waiting_queued:
  assumes "z_inv s"
  shows "waiting_sender s i \<Longrightarrow> queued (z_senders s) i" "waiting_receiver s i \<Longrightarrow> queued (z_receivers s) i"
  using z_invD(3) [OF assms, of i] by (auto simp: thread_okz_def waiting_sender_def waiting_receiver_def)

text \<open>Only blocking makes a thread wait.\<close>

definition no_new_wait :: "'m zero \<Rightarrow> 'm zero \<Rightarrow> bool" where
  "no_new_wait s s' \<longleftrightarrow> z_disconnected s' = z_disconnected s \<and>
     (\<forall>k. (waiting_sender s' k \<longrightarrow> waiting_sender s k) \<and> (waiting_receiver s' k \<longrightarrow> waiting_receiver s k))"

lemma z_meet_no_new: "z_meet s \<Longrightarrow> no_new_wait s s' \<Longrightarrow> z_meet s'"
  unfolding z_meet_def no_new_wait_def by blast

fun blocked :: "'m zpc \<Rightarrow> bool" where
  "blocked (ZSendWait m d) = True" | "blocked (ZRecvWait d) = True" | "blocked _ = False"

lemma no_new_waitI:
  assumes "z_pc s' = (z_pc s)(i := c)" "\<not> blocked c" "z_disconnected s' = z_disconnected s"
    "\<And>k. cx_select (z_cxs s' k) = Waiting \<Longrightarrow> k \<noteq> i \<Longrightarrow> cx_select (z_cxs s k) = Waiting"
  shows "no_new_wait s s'"
  using assms by (auto simp: no_new_wait_def waiting_sender_def waiting_receiver_def)

lemma no_new_same: "no_new_wait s s"
  by (simp add: no_new_wait_def)


lemma no_new_touch:
  "z_pc s i = ZWrite p m \<Longrightarrow> no_new_wait s (write_msg i p m s)"
  "z_pc s i = ZWriteReady p m \<Longrightarrow> no_new_wait s (write_ready i p m s)"
  "z_pc s i = ZRead t p \<Longrightarrow> no_new_wait s (read_msg i t p s)"
  "z_pc s i = ZReadReady p m \<Longrightarrow> no_new_wait s (read_ready i p m s)"
  by (auto simp: write_msg_def write_ready_def read_msg_def read_ready_def no_new_same split: option.split
    intro: no_new_waitI)

lemma no_new_own:
  "no_new_wait s (send_unregister i sl s)" "no_new_wait s (send_ready i m s)"
  "no_new_wait s (recv_unregister i sl s)" "no_new_wait s (recv_ready i s)"
  by (auto simp: send_unregister_def send_ready_def recv_unregister_def recv_ready_def no_new_same
    split: option.split prod.split intro: no_new_waitI)

lemma no_new_wait_until:
  "no_new_wait s (send_wait i late m d s)" "no_new_wait s (recv_wait i late d s)"
  by (auto simp: send_wait_def recv_wait_def Let_def no_new_same split: option.split prod.split selected.split
    intro: no_new_waitI)

lemma no_new_return: "no_new_wait s (z_return i x s)"
  by (rule no_new_waitI [of _ _ i ZIdle]) simp_all

lemma z_meet_disconnect:
  assumes inv: "z_inv s" and meet: "z_meet s" and pc: "z_pc s i = ZDisconnect"
  shows "z_meet (zero_disconnect i s)"
proof (cases "z_disconnected s")
  case True
  then show ?thesis using z_meet_no_new [OF meet no_new_return] by (simp add: zero_disconnect_def)
next
  case False
  note e = z_invD(1,2) [OF inv]
  define c where "c = fold (wake_entry (\<lambda>_. Disconnected)) (selectors (z_receivers s))
    (fold (wake_entry (\<lambda>_. Disconnected)) (selectors (z_senders s)) (z_cxs s))"
  have sel: "cx_select (c j) = Waiting \<longleftrightarrow> cx_select (z_cxs s j) = Waiting \<and>
      \<not> queued (z_senders s) j \<and> \<not> queued (z_receivers s) j" for j
    by (auto simp: c_def fold_wake queued_def)
  have s': "zero_disconnect i s = z_return i (DisconnectRet True)
      (s\<lparr>z_disconnected := True, z_senders := z_senders s, z_receivers := z_receivers s, z_cxs := c\<rparr>)"
    using False by (simp add: zero_disconnect_def disconnect_queued [OF e(1)] disconnect_queued [OF e(2)] c_def)
  have "\<not> waiting_sender (zero_disconnect i s) j" "\<not> waiting_receiver (zero_disconnect i s) j" for j
    using waiting_queued [OF inv, of j] unfolding s' waiting_sender_def waiting_receiver_def
    by (cases "j = i"; simp add: sel; blast)+
  then show ?thesis by (simp add: z_meet_def)
qed

text \<open>Under the mutex, a thread that finds nobody waiting may wait itself.\<close>

lemma z_meet_block:
  assumes inv: "z_inv s" and meet: "z_meet s" and conn: "\<not> z_disconnected s"
  shows "(\<And>j. \<not> waiting_receiver s j) \<Longrightarrow> z_meet (block_sender i m d s)"
    and "(\<And>j. \<not> waiting_sender s j) \<Longrightarrow> z_meet (block_receiver i d s)"
  using conn
  by (auto simp: z_meet_def block_sender_def block_receiver_def notify_none [OF z_invD(1) [OF inv]] notify_none [OF z_invD(2) [OF inv]] waiting_sender_def
    waiting_receiver_def split: if_splits)

lemma pair_receiver_cases:
  assumes inv: "z_inv s" and pc: "\<not> blocked (z_pc s i)"
  obtains "no_new_wait s (pair_receiver i (\<lambda>p. ZWrite p m) f s)"
  | "pair_receiver i (\<lambda>p. ZWrite p m) f s = f s" "\<And>j. \<not> waiting_receiver s j"
proof (cases "waker_try_select i (z_receivers s) (z_cxs s)")
  case (fields x rs cxs)
  show thesis
  proof (cases x)
    case None
    have "\<not> waiting_receiver s j" for j
      using pc waiting_queued(2) [OF inv, of j] try_select_None(3) [OF fields [unfolded None], of j]
      by (cases "j = i") (auto simp: waiting_receiver_def)
    with None fields that(2) show thesis by (simp add: pair_receiver_def)
  next
    case (Some e)
    note ts = try_select_Some [OF z_invD(2) [OF inv] fields [unfolded Some]]
    have "no_new_wait s (z_goto i (ZWrite (e_packet e) m) (s\<lparr>z_receivers := rs, z_cxs := cxs\<rparr>))"
      by (rule no_new_waitI [of _ _ i "ZWrite (e_packet e) m"]) (auto simp: ts(7) split: if_splits)
    with Some fields that(1) show thesis by (simp add: pair_receiver_def)
  qed
qed

lemma pair_sender_cases:
  assumes inv: "z_inv s" and pc: "\<not> blocked (z_pc s i)"
  obtains "no_new_wait s (pair_sender i (ZRead t) f s)"
  | "pair_sender i (ZRead t) f s = f s" "\<And>j. \<not> waiting_sender s j"
proof (cases "waker_try_select i (z_senders s) (z_cxs s)")
  case (fields x ss cxs)
  show thesis
  proof (cases x)
    case None
    have "\<not> waiting_sender s j" for j
      using pc waiting_queued(1) [OF inv, of j] try_select_None(3) [OF fields [unfolded None], of j]
      by (cases "j = i") (auto simp: waiting_sender_def)
    with None fields that(2) show thesis by (simp add: pair_sender_def)
  next
    case (Some e)
    note ts = try_select_Some [OF z_invD(1) [OF inv] fields [unfolded Some]]
    have "no_new_wait s (z_goto i (ZRead t (e_packet e)) (s\<lparr>z_senders := ss, z_cxs := cxs\<rparr>))"
      by (rule no_new_waitI [of _ _ i "ZRead t (e_packet e)"]) (auto simp: ts(7) split: if_splits)
    with Some fields that(1) show thesis by (simp add: pair_sender_def)
  qed
qed

lemma z_meet_lock:
  fixes s :: "'m zero"
  assumes inv: "z_inv s" and meet: "z_meet s" and pc: "\<not> blocked (z_pc s i)"
  shows "z_meet (send_lock i m d s)" "z_meet (try_send_lock i m s)" "z_meet (recv_lock i d s)" "z_meet (try_recv_lock i s)"
proof -
  note ret = z_meet_no_new [OF meet no_new_return]
  { fix f :: "'m zero \<Rightarrow> 'm zero" assume f: "(\<And>j. \<not> waiting_receiver s j) \<Longrightarrow> z_meet (f s)"
    have "z_meet (pair_receiver i (\<lambda>p. ZWrite p m) f s)"
      by (rule pair_receiver_cases [OF inv pc, of m f]) (simp_all add: z_meet_no_new [OF meet] f) }
  note rcv = this
  { fix f :: "'m zero \<Rightarrow> 'm zero" and t assume f: "(\<And>j. \<not> waiting_sender s j) \<Longrightarrow> z_meet (f s)"
    have "z_meet (pair_sender i (ZRead t) f s)"
      by (rule pair_sender_cases [OF inv pc, of t f]) (simp_all add: z_meet_no_new [OF meet] f) }
  note snd = this
  show "z_meet (send_lock i m d s)" "z_meet (try_send_lock i m s)" unfolding send_lock_def try_send_lock_def
    by (rule rcv; simp add: ret z_meet_block(1) [OF inv meet])+
  show "z_meet (recv_lock i d s)" "z_meet (try_recv_lock i s)" unfolding recv_lock_def try_recv_lock_def
    by (rule snd; simp add: ret z_meet_block(2) [OF inv meet])+
qed

lemma z_meet_step:
  assumes inv: "z_inv s" and meet: "z_meet s"
  shows "z_meet (z_step e s)"
proof (cases e)
  case (ZCall i oper)
  have "no_new_wait s (z_goto i (z_start oper) s)"
    by (rule no_new_waitI [of _ _ i "z_start oper"]; cases oper) simp_all
  then show ?thesis using z_meet_no_new [OF meet] meet ZCall by simp
next
  case (ZTick i late)
  note nn = z_meet_no_new [OF meet]
  show ?thesis
    by (cases "z_pc s i") (use ZTick meet in \<open>simp_all add: z_meet_lock [OF inv meet] z_meet_disconnect [OF inv meet]
      nn [OF no_new_touch(1)] nn [OF no_new_touch(2)] nn [OF no_new_touch(3)] nn [OF no_new_touch(4)]
      nn [OF no_new_own(1)] nn [OF no_new_own(2)] nn [OF no_new_own(3)] nn [OF no_new_own(4)]
      nn [OF no_new_wait_until(1)] nn [OF no_new_wait_until(2)]\<close>)
qed

interpretation zmeet: invariant_system z_step "\<lambda>s. z_inv s \<and> z_meet s"
  by unfold_locales (simp add: z_inv_step z_meet_step)

text \<open>
  C29: No missed meeting. A sender and a receiver never wait at the same time with neither of them
  selected, and nobody waits on a disconnected channel without having been told.
\<close>

theorem zero_no_missed_meeting:
  fixes es :: "'m z_event list"
  defines "s \<equiv> impl_run z_step es zero_new"
  shows "\<not> (\<exists>i j m d d'. z_pc s i = ZSendWait m d \<and> cx_select (z_cxs s i) = Waiting \<and>
      z_pc s j = ZRecvWait d' \<and> cx_select (z_cxs s j) = Waiting) \<and>
    \<not> (z_disconnected s \<and> (\<exists>i m d. (z_pc s i = ZSendWait m d \<or> z_pc s i = ZRecvWait d) \<and>
      cx_select (z_cxs s i) = Waiting))"
proof -
  have "z_inv (zero_new :: 'm zero) \<and> z_meet (zero_new :: 'm zero)" using z_inv_new
    by (simp add: z_meet_def zero_new_def waiting_sender_def waiting_receiver_def)
  then have "z_meet s" unfolding s_def by (rule zmeet.run_inv [THEN conjunct2])
  then show ?thesis unfolding z_meet_def waiting_sender_def waiting_receiver_def by blast
qed

end
