(* ===== verification/Deque.thy ===== *)
theory Deque
  imports Atomic_Object
begin

text \<open>
  \<^verbatim>\<open>crossbeam-deque/src/deque.rs\<close>: the work-stealing deque of one \<^verbatim>\<open>Worker\<close>
  and any number of \<^verbatim>\<open>Stealer\<close>s. The worker runs \<^verbatim>\<open>push\<close>, \<^verbatim>\<open>pop\<close>,
  \<^verbatim>\<open>is_empty\<close> and \<^verbatim>\<open>len\<close>; the stealers run \<^verbatim>\<open>steal\<close>,
  \<^verbatim>\<open>is_empty\<close> and \<^verbatim>\<open>len\<close>. A tick is one access to the indices, to the shared
  buffer pointer or to a slot; the copy loop of \<^verbatim>\<open>resize\<close> only touches memory that nobody
  else writes or can see and is one tick. Indices are 64-bit words that are compared as signed numbers, as
  the code does. Buffers are named by the order of their allocation: a stealer that works with a buffer is
  pinned, so the deferred deallocation has not happened (theory \<open>Epoch_Reclaim\<close>), and the model
  keeps retired buffers.
\<close>

type_synonym i64 = "64 word"

definition MIN_CAP :: usize where "MIN_CAP = 64"

section \<open>Buffers\<close>

text \<open>A slot that has never been written is \<open>None\<close>, an uninitialised \<^verbatim>\<open>MaybeUninit\<close>.\<close>

record 'a dq_buffer =
  buf_cap :: usize
  buf_slots :: "nat \<Rightarrow> 'a option"

definition buf_alloc :: "usize \<Rightarrow> 'a dq_buffer" where
  "buf_alloc cap = \<lparr>buf_cap = cap, buf_slots = (\<lambda>_. None)\<rparr>"

definition buf_at :: "'a dq_buffer \<Rightarrow> i64 \<Rightarrow> nat" where
  "buf_at buf index = unat (index AND (buf_cap buf - 1))"

definition buf_write :: "i64 \<Rightarrow> 'a option \<Rightarrow> 'a dq_buffer \<Rightarrow> 'a dq_buffer" where
  "buf_write index task buf = buf\<lparr>buf_slots := (buf_slots buf)(buf_at buf index := task)\<rparr>"

definition buf_read :: "'a dq_buffer \<Rightarrow> i64 \<Rightarrow> 'a option" where
  "buf_read buf index = buf_slots buf (buf_at buf index)"

section \<open>The deque\<close>

datatype flavor = Fifo | Lifo

record 'a deque =
  dq_front :: i64
  dq_back :: i64
  dq_buffer :: nat
  dq_cell :: nat
  dq_flavor :: flavor
  dq_bufs :: "nat \<Rightarrow> 'a dq_buffer"
  dq_allocated :: nat

definition dq_new :: "flavor \<Rightarrow> 'a deque" where
  "dq_new fl = \<lparr>dq_front = 0, dq_back = 0, dq_buffer = 0, dq_cell = 0, dq_flavor = fl,
     dq_bufs = (\<lambda>_. buf_alloc MIN_CAP), dq_allocated = 1\<rparr>"

abbreviation new_fifo :: "'a deque" where "new_fifo \<equiv> dq_new Fifo"
abbreviation new_lifo :: "'a deque" where "new_lifo \<equiv> dq_new Lifo"

text \<open>The worker's copy of the buffer.\<close>

definition dq_own :: "'a deque \<Rightarrow> 'a dq_buffer" where
  "dq_own q = dq_bufs q (dq_cell q)"

text \<open>The indices from \<open>f\<close> up to, and without, \<open>b\<close>, as \<^verbatim>\<open>while i != b\<close> visits them.\<close>

definition index_range :: "i64 \<Rightarrow> i64 \<Rightarrow> i64 list" where
  "index_range f b = map (\<lambda>j. f + word_of_nat j) [0..<unat (b - f)]"

definition copy_buffer :: "'a dq_buffer \<Rightarrow> usize \<Rightarrow> i64 \<Rightarrow> i64 \<Rightarrow> 'a dq_buffer" where
  "copy_buffer old new_cap f b = fold (\<lambda>i new. buf_write i (buf_read old i) new) (index_range f b) (buf_alloc new_cap)"

text \<open>\<^verbatim>\<open>Inner::drop\<close>: the tasks that are dropped with the deque.\<close>

definition dq_drop :: "'a deque \<Rightarrow> 'a option list" where
  "dq_drop q = map (buf_read (dq_bufs q (dq_buffer q))) (index_range (dq_front q) (dq_back q))"

section \<open>Results of stealing\<close>

datatype 'a steal = Empty | Success 'a | Retry

fun steal_is_empty :: "'a steal \<Rightarrow> bool" where
  "steal_is_empty Empty = True" | "steal_is_empty _ = False"

fun steal_is_success :: "'a steal \<Rightarrow> bool" where
  "steal_is_success (Success _) = True" | "steal_is_success _ = False"

fun steal_is_retry :: "'a steal \<Rightarrow> bool" where
  "steal_is_retry Retry = True" | "steal_is_retry _ = False"

fun steal_success :: "'a steal \<Rightarrow> 'a option" where
  "steal_success (Success res) = Some res" | "steal_success _ = None"

fun steal_or_else :: "'a steal \<Rightarrow> (unit \<Rightarrow> 'a steal) \<Rightarrow> 'a steal" where
  "steal_or_else Empty f = f ()"
| "steal_or_else (Success res) f = Success res"
| "steal_or_else Retry f = (case f () of Success res \<Rightarrow> Success res | _ \<Rightarrow> Retry)"

fun steal_collect :: "bool \<Rightarrow> 'a steal list \<Rightarrow> 'a steal" where
  "steal_collect retry [] = (if retry then Retry else Empty)"
| "steal_collect retry (Empty # ss) = steal_collect retry ss"
| "steal_collect retry (Success res # ss) = Success res"
| "steal_collect retry (Retry # ss) = steal_collect True ss"

definition steal_from_iter :: "'a steal list \<Rightarrow> 'a steal" where
  "steal_from_iter ss = steal_collect False ss"

section \<open>The machines\<close>

datatype 'a dq_op = DPush 'a | DPop | DLen | DIsEmpty | DSteal | DStealerLen | DStealerIsEmpty

datatype 'a dq_ret = DPushed | DPopped "'a option" | DLength nat | DEmptiness bool | DStolen "'a steal"

text \<open>What \<^verbatim>\<open>resize\<close> returns to: the write of \<^verbatim>\<open>push\<close>, or the end of \<^verbatim>\<open>pop\<close>.\<close>

datatype 'a dq_cont = AfterPush 'a i64 | AfterPop 'a

datatype 'a dq_pc =
    PushBack 'a
  | PushFront 'a i64
  | PushWrite 'a i64
  | PushStore i64
  | ResizeBack "'a dq_cont" usize
  | ResizeFront "'a dq_cont" usize i64
  | ResizeCopy "'a dq_cont" usize i64 i64
  | ResizeSwap "'a dq_cont" nat
  | PopBack
  | PopFront i64
  | FifoAdd i64 i64
  | FifoRestore i64
  | FifoRead i64 i64
  | LifoStore i64
  | LifoFront i64
  | LifoRead i64 i64
  | LifoCas i64 i64 "'a option"
  | LifoRestore i64 "'a option"
  | LenBack bool
  | LenFront bool i64
  | StealFront
  | StealBack i64
  | StealBuffer i64
  | StealRead i64 nat
  | StealCheck i64 nat "'a option"
  | StealCas i64 "'a option"
  | SLenFront bool
  | SLenBack bool i64
  | DUndefined

fun dq_start :: "'a dq_op \<Rightarrow> 'a dq_pc" where
  "dq_start (DPush task) = PushBack task"
| "dq_start DPop = PopBack"
| "dq_start DLen = LenBack False"
| "dq_start DIsEmpty = LenBack True"
| "dq_start DSteal = StealFront"
| "dq_start DStealerLen = SLenFront False"
| "dq_start DStealerIsEmpty = SLenFront True"

type_synonym 'a dq_thread = "('a dq_pc, 'a dq_ret) thread"

text \<open>The lengths that \<^verbatim>\<open>len\<close> and \<^verbatim>\<open>is_empty\<close> compute from the two indices.\<close>

definition dq_length :: "bool \<Rightarrow> i64 \<Rightarrow> i64 \<Rightarrow> 'a dq_ret" where
  "dq_length e b f = (if e then DEmptiness (sint (b - f) \<le> 0) else DLength (nat (max (sint (b - f)) 0)))"

fun push_tick :: "'a deque \<Rightarrow> 'a dq_pc \<Rightarrow> 'a deque \<times> 'a dq_thread" where
  "push_tick q (PushBack task) = (q, Running (PushFront task (dq_back q)))"
| "push_tick q (PushFront task b) =
     (let f = dq_front q; len = b - f in
      if sint len \<ge> sint (buf_cap (dq_own q)) then (q, Running (ResizeBack (AfterPush task b) (2 * buf_cap (dq_own q))))
      else (q, Running (PushWrite task b)))"
| "push_tick q (PushWrite task b) =
     (q\<lparr>dq_bufs := (dq_bufs q)(dq_cell q := buf_write b (Some task) (dq_own q))\<rparr>, Running (PushStore b))"
| "push_tick q (PushStore b) = (q\<lparr>dq_back := b + 1\<rparr>, Done DPushed)"
| "push_tick q pc = (q, Running pc)"

fun resize_done :: "'a dq_cont \<Rightarrow> 'a dq_thread" where
  "resize_done (AfterPush task b) = Running (PushWrite task b)"
| "resize_done (AfterPop task) = Done (DPopped (Some task))"

fun resize_tick :: "'a deque \<Rightarrow> 'a dq_pc \<Rightarrow> 'a deque \<times> 'a dq_thread" where
  "resize_tick q (ResizeBack k new_cap) = (q, Running (ResizeFront k new_cap (dq_back q)))"
| "resize_tick q (ResizeFront k new_cap b) = (q, Running (ResizeCopy k new_cap b (dq_front q)))"
| "resize_tick q (ResizeCopy k new_cap b f) =
     (let new = dq_allocated q in
      (q\<lparr>dq_bufs := (dq_bufs q)(new := copy_buffer (dq_own q) new_cap f b), dq_allocated := Suc new\<rparr>,
       Running (ResizeSwap k new)))"
| "resize_tick q (ResizeSwap k new) = (q\<lparr>dq_cell := new, dq_buffer := new\<rparr>, resize_done k)"
| "resize_tick q pc = (q, Running pc)"

text \<open>\<^verbatim>\<open>pop\<close>; a task is \<^verbatim>\<open>assume_init\<close>ed when it is known to be popped.\<close>

fun dq_pop_tick :: "'a deque \<Rightarrow> 'a dq_pc \<Rightarrow> 'a deque \<times> 'a dq_thread" where
  "dq_pop_tick q PopBack = (q, Running (PopFront (dq_back q)))"
| "dq_pop_tick q (PopFront b) =
     (let len = b - dq_front q in
      if sint len \<le> 0 then (q, Done (DPopped None))
      else case dq_flavor q of
        Fifo \<Rightarrow> (q, Running (FifoAdd b len))
      | Lifo \<Rightarrow> (q, Running (LifoStore (b - 1))))"
| "dq_pop_tick q (FifoAdd b len) =
     (let f = dq_front q; new_f = f + 1; q' = q\<lparr>dq_front := new_f\<rparr> in
      if sint (b - new_f) < 0 then (q', Running (FifoRestore f)) else (q', Running (FifoRead f len)))"
| "dq_pop_tick q (FifoRestore f) = (q\<lparr>dq_front := f\<rparr>, Done (DPopped None))"
| "dq_pop_tick q (FifoRead f len) =
     (let buf = dq_own q in
      case buf_read buf f of
        None \<Rightarrow> (q, Running DUndefined)
      | Some task \<Rightarrow>
          if buf_cap buf > MIN_CAP \<and> sint len \<le> sint (buf_cap buf) div 4
          then (q, Running (ResizeBack (AfterPop task) (buf_cap buf div 2)))
          else (q, Done (DPopped (Some task))))"
| "dq_pop_tick q (LifoStore b) = (q\<lparr>dq_back := b\<rparr>, Running (LifoFront b))"
| "dq_pop_tick q (LifoFront b) =
     (let f = dq_front q; len = b - f in
      if sint len < 0 then (q, Running (LifoRestore b None)) else (q, Running (LifoRead b f)))"
| "dq_pop_tick q (LifoRead b f) =
     (let buf = dq_own q; task = buf_read buf b; len = b - f in
      if len = 0 then (q, Running (LifoCas b f task))
      else case task of
        None \<Rightarrow> (q, Running DUndefined)
      | Some t \<Rightarrow>
          if buf_cap buf > MIN_CAP \<and> sint len < sint (buf_cap buf) div 4
          then (q, Running (ResizeBack (AfterPop t) (buf_cap buf div 2)))
          else (q, Done (DPopped (Some t))))"
| "dq_pop_tick q (LifoCas b f task) =
     (if dq_front q = f then
        (case task of
           None \<Rightarrow> (q, Running DUndefined)
         | Some t \<Rightarrow> (q\<lparr>dq_front := f + 1\<rparr>, Running (LifoRestore b (Some t))))
      else (q, Running (LifoRestore b None)))"
| "dq_pop_tick q (LifoRestore b task) = (q\<lparr>dq_back := b + 1\<rparr>, Done (DPopped task))"
| "dq_pop_tick q (LenBack e) = (q, Running (LenFront e (dq_back q)))"
| "dq_pop_tick q (LenFront e b) = (q, Done (dq_length e b (dq_front q)))"
| "dq_pop_tick q pc = (q, Running pc)"

fun steal_tick :: "'a deque \<Rightarrow> 'a dq_pc \<Rightarrow> 'a deque \<times> 'a dq_thread" where
  "steal_tick q StealFront = (q, Running (StealBack (dq_front q)))"
| "steal_tick q (StealBack f) =
     (if sint (dq_back q - f) \<le> 0 then (q, Done (DStolen Empty)) else (q, Running (StealBuffer f)))"
| "steal_tick q (StealBuffer f) = (q, Running (StealRead f (dq_buffer q)))"
| "steal_tick q (StealRead f buf) = (q, Running (StealCheck f buf (buf_read (dq_bufs q buf) f)))"
| "steal_tick q (StealCheck f buf task) =
     (if dq_buffer q \<noteq> buf then (q, Done (DStolen Retry)) else (q, Running (StealCas f task)))"
| "steal_tick q (StealCas f task) =
     (if dq_front q = f then
        (case task of
           None \<Rightarrow> (q, Running DUndefined)
         | Some t \<Rightarrow> (q\<lparr>dq_front := f + 1\<rparr>, Done (DStolen (Success t))))
      else (q, Done (DStolen Retry)))"
| "steal_tick q (SLenFront e) = (q, Running (SLenBack e (dq_front q)))"
| "steal_tick q (SLenBack e f) = (q, Done (dq_length e (dq_back q) f))"
| "steal_tick q pc = (q, Running pc)"

text \<open>One access of a thread, whichever operation it is in.\<close>

fun pc_push :: "'a dq_pc \<Rightarrow> bool" where
  "pc_push (PushBack _) = True" | "pc_push (PushFront _ _) = True" | "pc_push (PushWrite _ _) = True"
| "pc_push (PushStore _) = True" | "pc_push _ = False"

fun pc_resize :: "'a dq_pc \<Rightarrow> bool" where
  "pc_resize (ResizeBack _ _) = True" | "pc_resize (ResizeFront _ _ _) = True" | "pc_resize (ResizeCopy _ _ _ _) = True"
| "pc_resize (ResizeSwap _ _) = True" | "pc_resize _ = False"

fun pc_steal :: "'a dq_pc \<Rightarrow> bool" where
  "pc_steal StealFront = True" | "pc_steal (StealBack _) = True" | "pc_steal (StealBuffer _) = True"
| "pc_steal (StealRead _ _) = True" | "pc_steal (StealCheck _ _ _) = True" | "pc_steal (StealCas _ _) = True"
| "pc_steal (SLenFront _) = True" | "pc_steal (SLenBack _ _) = True" | "pc_steal _ = False"

definition dq_tick :: "unit \<Rightarrow> 'a deque \<Rightarrow> 'a dq_pc \<Rightarrow> 'a deque \<times> 'a dq_thread" where
  "dq_tick ch q pc =
     (if pc_push pc then push_tick q pc
      else if pc_resize pc then resize_tick q pc
      else if pc_steal pc then steal_tick q pc
      else dq_pop_tick q pc)"

text \<open>The worker's handle cannot be shared: thread 0 holds it.\<close>

fun dq_may :: "tid \<Rightarrow> 'a dq_op \<Rightarrow> bool" where
  "dq_may i (DPush _) = (i = 0)"
| "dq_may i DPop = (i = 0)"
| "dq_may i DLen = (i = 0)"
| "dq_may i DIsEmpty = (i = 0)"
| "dq_may i DSteal = True"
| "dq_may i DStealerLen = True"
| "dq_may i DStealerIsEmpty = True"

section \<open>Specification\<close>

text \<open>
  The worker's operations are those of a list, exactly; it pops the oldest task of a FIFO deque and the newest
  of a LIFO one. A successful steal takes the oldest task. A steal may ask to be retried at any time, and
  what a stealer is told about the length may be one short: the worker may be about to take the last task.
\<close>

fun dq_spec :: "flavor \<Rightarrow> 'a dq_op \<Rightarrow> 'a list \<Rightarrow> 'a dq_ret \<Rightarrow> 'a list \<Rightarrow> bool" where
  "dq_spec fl (DPush task) xs r ys \<longleftrightarrow> r = DPushed \<and> ys = xs @ [task]"
| "dq_spec fl DPop xs r ys \<longleftrightarrow>
     (if xs = [] then r = DPopped None \<and> ys = []
      else case fl of Fifo \<Rightarrow> r = DPopped (Some (hd xs)) \<and> ys = tl xs
                    | Lifo \<Rightarrow> r = DPopped (Some (last xs)) \<and> ys = butlast xs)"
| "dq_spec fl DLen xs r ys \<longleftrightarrow> r = DLength (length xs) \<and> ys = xs"
| "dq_spec fl DIsEmpty xs r ys \<longleftrightarrow> r = DEmptiness (xs = []) \<and> ys = xs"
| "dq_spec fl DSteal xs r ys \<longleftrightarrow>
     (\<exists>t. r = DStolen (Success t) \<and> xs = t # ys) \<or>
     r = DStolen Empty \<and> ys = xs \<and> length xs \<le> 1 \<or>
     r = DStolen Retry \<and> ys = xs"
| "dq_spec fl DStealerLen xs r ys \<longleftrightarrow> (\<exists>n. r = DLength n \<and> length xs \<le> n + 1) \<and> ys = xs"
| "dq_spec fl DStealerIsEmpty xs r ys \<longleftrightarrow> (\<exists>e. r = DEmptiness e \<and> (e \<longrightarrow> length xs \<le> 1)) \<and> ys = xs"

end
