(* ===== verification/Deque_Linear.thy ===== *)
theory Deque_Linear
  imports Deque
begin

text \<open>
  The work-stealing deque of theory \<open>Deque\<close> is linearizable. The proof follows two ghost indices:
  \<open>G\<close>, the front without the excess that a FIFO \<^verbatim>\<open>pop\<close> of an empty deque adds for a moment, and
  \<open>L\<close>, the back without what a LIFO \<^verbatim>\<open>pop\<close> has taken off before it owns the task. The
  deque holds the slots from \<open>G\<close> up to \<open>L\<close>.
\<close>

section \<open>Indices\<close>

lemma sint_diff:
  fixes x y :: i64
  assumes "unat x < 2 ^ 62" "unat y < 2 ^ 62"
  shows "sint (x - y) = int (unat x) - int (unat y)"
proof -
  let ?d = "int (unat x) - int (unat y)"
  have "x - y = word_of_int ?d" by simp
  then have "sint (x - y) = signed_take_bit 63 ?d" by (simp only: signed_of_int) simp
  also have "\<dots> = ?d"
  proof (rule signed_take_bit_int_eq_self)
    have "- (2 ^ 63) \<le> a - b \<and> a - b < 2 ^ 63" if "0 \<le> a" "a < 2 ^ 62" "0 \<le> b" "b < 2 ^ 62" for a b :: int
      using that by simp
    moreover have "int (unat x) < 2 ^ 62" "int (unat y) < 2 ^ 62"
      using assms by (simp_all only: of_nat_less_iff [symmetric, where 'a = int]) simp_all
    ultimately show "- (2 ^ 63) \<le> ?d" "?d < 2 ^ 63" using of_nat_0_le_iff by blast+
  qed
  finally show ?thesis .
qed

lemma sint_small: "unat (x :: i64) < 2 ^ 62 \<Longrightarrow> sint x = int (unat x)"
  using sint_diff [of x 0] by simp

lemma unat_plus_1: "unat (x :: i64) < 2 ^ 62 \<Longrightarrow> unat (x + 1) = unat x + 1"
  by (simp add: unat_word_ariths)

lemma unat_minus_1: "0 < unat (x :: i64) \<Longrightarrow> unat (x - 1) = unat x - 1"
  using unat_minus_one [of x] by (cases "x = 0") simp_all

declare of_nat_unat [simp del]

lemma word_of_unat [simp]: "word_of_nat (unat w) = (w :: 'b::len word)"
  by (simp add: of_nat_unat)

definition pow2 :: "usize \<Rightarrow> bool" where
  "pow2 c \<longleftrightarrow> (\<exists>k<62. 6 \<le> k \<and> c = 2 ^ k)"

lemma pow2_unat:
  assumes "pow2 c"
  shows "64 \<le> unat c" "unat c < 2 ^ 62"
proof -
  obtain k where k: "k < 62" "6 \<le> k" "c = 2 ^ k" using assms by (auto simp: pow2_def)
  then have "unat c = 2 ^ k" by (simp add: unat_exp)
  then show "64 \<le> unat c" "unat c < 2 ^ 62"
    using k power_increasing [of 6 k "2 :: nat"] power_strict_increasing [of k 62 "2 :: nat"] by simp_all
qed

lemma buf_at_mod:
  assumes "pow2 (buf_cap buf)"
  shows "buf_at buf i = unat i mod unat (buf_cap buf)"
proof -
  obtain k where k: "k < 62" "buf_cap buf = 2 ^ k" using assms by (auto simp: pow2_def)
  then have "buf_at buf i = unat (take_bit k i)" by (simp only: buf_at_def and_exp_minus_1)
  also have "\<dots> = take_bit k (unat i)" by (rule unsigned_take_bit_eq)
  also have "\<dots> = unat i mod 2 ^ k" by (rule take_bit_eq_mod)
  finally show ?thesis using k by (simp add: unat_exp)
qed

lemma pow2_double:
  assumes "pow2 c" "unat c < 2 ^ 60"
  shows "pow2 (2 * c)" "unat (2 * c) = 2 * unat c"
proof -
  obtain k where k: "k < 62" "6 \<le> k" "c = 2 ^ k" using assms by (auto simp: pow2_def)
  then have c: "unat c = 2 ^ k" by (simp add: unat_exp)
  with assms(2) have "k < 60" by (simp add: power_strict_increasing_iff [of 2 k 60, symmetric] del: power_strict_increasing_iff)
  moreover have "2 * c = 2 ^ Suc k" using k by simp
  ultimately have "unat (2 * c) = 2 ^ Suc k" "\<exists>j<62. 6 \<le> j \<and> 2 * c = 2 ^ j"
    using k(2) unat_exp [of "Suc k", where 'a = 64] by (simp_all only: ) (auto intro!: exI [of _ "Suc k"])
  then show "pow2 (2 * c)" "unat (2 * c) = 2 * unat c" using c by (simp_all add: pow2_def)
qed

lemma pow2_half:
  assumes "pow2 c" "MIN_CAP < c"
  shows "pow2 (c div 2)" "unat (c div 2) = unat c div 2"
proof -
  obtain k where k: "k < 62" "6 \<le> k" "c = 2 ^ k" using assms by (auto simp: pow2_def)
  have c: "unat c = 2 ^ k" using k by (simp add: unat_exp)
  have "unat MIN_CAP < unat c" using assms(2) by (simp add: word_less_nat_alt)
  then have "k \<noteq> 6" using c by (auto simp: MIN_CAP_def)
  then obtain j where j: "k = Suc j" "6 \<le> j" using k(2) by (cases k) auto
  show u: "unat (c div 2) = unat c div 2" by (simp add: unat_div)
  then have "unat (c div 2) = unat (2 ^ j :: usize)" using c j k by (simp add: unat_exp)
  then have "c div 2 = 2 ^ j" by (rule unsigned_word_eqI)
  then show "pow2 (c div 2)" using j k unfolding pow2_def by (intro exI [of _ j]) simp
qed

lemma buf_read_write:
  "buf_read (buf_write i x buf) j = (if buf_at buf j = buf_at buf i then x else buf_read buf j)"
  "buf_cap (buf_write i x buf) = buf_cap buf" "buf_at (buf_write i x buf) = buf_at buf"
  by (auto simp: buf_read_def buf_write_def buf_at_def)

lemma window_mod: "i \<noteq> j \<Longrightarrow> i < j + c \<Longrightarrow> j < i + c \<Longrightarrow> i mod c \<noteq> j mod (c :: nat)"
  by (metis add_less_cancel_left linorder_neqE_nat mod_eq_dvd_iff_nat nat_dvd_not_less less_imp_le
    zero_less_diff less_diff_conv2 add.commute)

text \<open>The copy of a buffer agrees with it on the range that was copied.\<close>

lemma index_range_unat:
  assumes "unat f \<le> unat b" "unat b < 2 ^ 62"
  shows "index_range f b = map word_of_nat [unat f..<unat b]"
proof -
  have "unat (b - f) = unat b - unat f" using assms by (intro unat_sub) (simp add: word_le_nat_alt)
  moreover have "map (\<lambda>j. unat f + j) [0..<unat b - unat f] = [unat f..<unat b]"
    using assms map_add_upt [of "unat f" "unat b - unat f"] by (simp add: add.commute)
  ultimately show ?thesis
    unfolding index_range_def by (metis (no_types, lifting) map_map comp_apply map_cong of_nat_add word_of_unat)
qed

lemma copy_cap: "buf_cap (fold (\<lambda>i new. buf_write i (buf_read old i) new) is new) = buf_cap new"
  by (induction "is" arbitrary: new) (simp_all add: buf_read_write)

lemma copy_fold:
  assumes "pow2 (buf_cap new)" "\<And>i. i \<in> set is \<Longrightarrow> i < 2 ^ 62" "distinct is" "j \<in> set is"
    "\<And>i j. i \<in> set is \<Longrightarrow> j \<in> set is \<Longrightarrow> i < j + unat (buf_cap new)"
  shows "buf_read (fold (\<lambda>i new. buf_write i (buf_read old i) new) (map word_of_nat is) new) (word_of_nat j) =
      buf_read old (word_of_nat j)"
  using assms
proof (induction "is" rule: rev_induct)
  case (snoc i "is")
  let ?m = "fold (\<lambda>i new. buf_write i (buf_read old i) new) (map word_of_nat is) new"
  show ?case
  proof (cases "j = i")
    case True
    then show ?thesis by (simp add: buf_read_write)
  next
    case False
    then have j: "j \<in> set is" using snoc.prems(4) by simp
    have u: "unat (word_of_nat k :: i64) = k" if "k \<in> set (is @ [i])" for k
      using snoc.prems(2) [OF that] by (simp add: unat_of_nat)
    have "j mod unat (buf_cap new) \<noteq> i mod unat (buf_cap new)"
      using False snoc.prems(5) [of j i] snoc.prems(5) [of i j] j by (intro window_mod) auto
    then have "buf_at ?m (word_of_nat j) \<noteq> buf_at ?m (word_of_nat i)"
      using u [of j] u [of i] j snoc.prems(1) by (simp add: buf_at_mod copy_cap)
    moreover have "buf_read ?m (word_of_nat j) = buf_read old (word_of_nat j)"
      using snoc.prems j by (intro snoc.IH) auto
    ultimately show ?thesis by (simp add: buf_read_write)
  qed
qed simp

lemma copy_buffer_read:
  assumes "pow2 c" "unat f \<le> unat b" "unat b < 2 ^ 62" "unat b - unat f \<le> unat c"
  shows "buf_cap (copy_buffer old c f b) = c"
    and "unat f \<le> i \<Longrightarrow> i < unat b \<Longrightarrow> buf_read (copy_buffer old c f b) (word_of_nat i) = buf_read old (word_of_nat i)"
proof -
  show "buf_cap (copy_buffer old c f b) = c" by (simp add: copy_buffer_def copy_cap buf_alloc_def)
  show "buf_read (copy_buffer old c f b) (word_of_nat i) = buf_read old (word_of_nat i)"
    if "unat f \<le> i" "i < unat b"
    unfolding copy_buffer_def index_range_unat [OF assms(2,3)]
    by (rule copy_fold) (use assms that in \<open>auto simp: buf_alloc_def\<close>)
qed

text \<open>The slot of an index in the current buffer.\<close>

definition rd :: "'a deque \<Rightarrow> nat \<Rightarrow> 'a option" where
  "rd q i = buf_read (dq_bufs q (dq_buffer q)) (word_of_nat i)"

lemma rd_unat: "rd q (unat f) = buf_read (dq_bufs q (dq_buffer q)) f"
  by (simp add: rd_def)

section \<open>The invariant\<close>

definition cap_ok :: "nat \<Rightarrow> usize \<Rightarrow> bool" where
  "cap_ok n c \<longleftrightarrow> pow2 c \<and> unat c \<le> 64 + 2 * n"

definition dq_base :: "nat \<Rightarrow> 'a deque \<Rightarrow> nat \<Rightarrow> nat \<Rightarrow> 'a list \<Rightarrow> bool" where
  "dq_base n q G L xs \<longleftrightarrow> G \<le> L \<and> L \<le> n \<and> L - G \<le> unat (buf_cap (dq_own q)) \<and> cap_ok n (buf_cap (dq_own q)) \<and>
     dq_cell q = dq_buffer q \<and> dq_buffer q < dq_allocated q \<and> map Some xs = map (rd q) [G..<L]"

text \<open>A front index that a stealer has loaded.\<close>

definition front_seen :: "'a deque \<Rightarrow> nat \<Rightarrow> i64 \<Rightarrow> bool" where
  "front_seen q G f \<longleftrightarrow> unat f \<le> G \<or> dq_flavor q = Fifo \<and> unat f = G + 1"

fun cont_ok :: "'a deque \<Rightarrow> nat \<Rightarrow> nat \<Rightarrow> nat \<Rightarrow> 'a dq_cont \<Rightarrow> ('a dq_op, 'a dq_ret) status \<Rightarrow> bool" where
  "cont_ok q G L c (AfterPush t b) st \<longleftrightarrow> b = dq_back q \<and> L - G < c \<and> st = Pending (DPush t)"
| "cont_ok q G L c (AfterPop t) st \<longleftrightarrow> L - G \<le> c \<and> st = Answered (DPopped (Some t))"

text \<open>The worker's operations; \<open>plain\<close> is where both indices are what they seem.\<close>

abbreviation plain :: "'a deque \<Rightarrow> nat \<Rightarrow> nat \<Rightarrow> bool" where
  "plain q G L \<equiv> unat (dq_front q) = G \<and> unat (dq_back q) = L"

fun worker_ok :: "nat \<Rightarrow> 'a deque \<Rightarrow> nat \<Rightarrow> nat \<Rightarrow> 'a dq_pc \<Rightarrow> ('a dq_op, 'a dq_ret) status \<Rightarrow> bool" where
  "worker_ok n q G L (PushBack t) st \<longleftrightarrow> plain q G L \<and> st = Pending (DPush t)"
| "worker_ok n q G L (PushFront t b) st \<longleftrightarrow> plain q G L \<and> b = dq_back q \<and> st = Pending (DPush t)"
| "worker_ok n q G L (PushWrite t b) st \<longleftrightarrow> plain q G L \<and> b = dq_back q \<and>
     L - G < unat (buf_cap (dq_own q)) \<and> st = Pending (DPush t)"
| "worker_ok n q G L (PushStore b) st \<longleftrightarrow> plain q G L \<and> b = dq_back q \<and>
     L - G < unat (buf_cap (dq_own q)) \<and> (\<exists>t. rd q L = Some t \<and> st = Pending (DPush t))"
| "worker_ok n q G L (ResizeBack k c) st \<longleftrightarrow> plain q G L \<and> cap_ok n c \<and> cont_ok q G L (unat c) k st"
| "worker_ok n q G L (ResizeFront k c b) st \<longleftrightarrow> plain q G L \<and> b = dq_back q \<and> cap_ok n c \<and>
     cont_ok q G L (unat c) k st"
| "worker_ok n q G L (ResizeCopy k c b f) st \<longleftrightarrow> plain q G L \<and> b = dq_back q \<and> cap_ok n c \<and>
     unat f \<le> G \<and> L - unat f \<le> unat c \<and> cont_ok q G L (unat c) k st"
| "worker_ok n q G L (ResizeSwap k new) st \<longleftrightarrow> plain q G L \<and> cap_ok n (buf_cap (dq_bufs q new)) \<and>
     new < dq_allocated q \<and> new \<noteq> dq_buffer q \<and> cont_ok q G L (unat (buf_cap (dq_bufs q new))) k st \<and>
     (\<forall>i. G \<le> i \<and> i < L \<longrightarrow> buf_read (dq_bufs q new) (word_of_nat i) = rd q i)"
| "worker_ok n q G L PopBack st \<longleftrightarrow> plain q G L \<and> st = Pending DPop"
| "worker_ok n q G L (PopFront b) st \<longleftrightarrow> plain q G L \<and> b = dq_back q \<and> st = Pending DPop"
| "worker_ok n q G L (FifoAdd b len) st \<longleftrightarrow> plain q G L \<and> b = dq_back q \<and> dq_flavor q = Fifo \<and>
     int (L - G) \<le> sint len \<and> st = Pending DPop"
| "worker_ok n q G L (FifoRestore f) st \<longleftrightarrow> unat (dq_front q) = G + 1 \<and> unat (dq_back q) = L \<and> unat f = G \<and> G = L \<and>
     dq_flavor q = Fifo \<and> st = Answered (DPopped None)"
| "worker_ok n q G L (FifoRead f len) st \<longleftrightarrow> plain q G L \<and> int (L - G) \<le> sint len \<and>
     (\<exists>t. rd q (unat f) = Some t \<and> st = Answered (DPopped (Some t)))"
| "worker_ok n q G L (LifoStore b) st \<longleftrightarrow> plain q G L \<and> unat b + 1 = L \<and> dq_flavor q = Lifo \<and> st = Pending DPop"
| "worker_ok n q G L (LifoFront b) st \<longleftrightarrow> unat (dq_front q) = G \<and> unat (dq_back q) + 1 = L \<and> b = dq_back q \<and>
     dq_flavor q = Lifo \<and> st = Pending DPop"
| "worker_ok n q G L (LifoRead b f) st \<longleftrightarrow> unat (dq_front q) = G \<and> b = dq_back q \<and> unat f \<le> G \<and>
     dq_flavor q = Lifo \<and>
     (if b = f then unat b + 1 = L \<and> st = Pending DPop
      else unat b = L \<and> (\<exists>t. rd q L = Some t \<and> st = Answered (DPopped (Some t))))"
| "worker_ok n q G L (LifoCas b f t) st \<longleftrightarrow> unat (dq_front q) = G \<and> unat (dq_back q) + 1 = L \<and> b = dq_back q \<and>
     f = b \<and> unat f \<le> G \<and> (G = unat f \<longrightarrow> t = rd q G) \<and> st = Pending DPop \<and> dq_flavor q = Lifo"
| "worker_ok n q G L (LifoRestore b t) st \<longleftrightarrow> unat (dq_front q) = G \<and> unat (dq_back q) + 1 = L \<and> b = dq_back q \<and>
     G = L \<and> st = Answered (DPopped t)"
| "worker_ok n q G L (LenBack e) st \<longleftrightarrow> plain q G L \<and> st = Pending (if e then DIsEmpty else DLen)"
| "worker_ok n q G L (LenFront e b) st \<longleftrightarrow> plain q G L \<and> b = dq_back q \<and> st = Pending (if e then DIsEmpty else DLen)"
| "worker_ok n q G L _ st \<longleftrightarrow> False"

fun stealer_ok :: "'a deque \<Rightarrow> nat \<Rightarrow> nat \<Rightarrow> 'a dq_pc \<Rightarrow> ('a dq_op, 'a dq_ret) status \<Rightarrow> bool" where
  "stealer_ok q G L StealFront st \<longleftrightarrow> st = Pending DSteal"
| "stealer_ok q G L (StealBack f) st \<longleftrightarrow> front_seen q G f \<and> st = Pending DSteal"
| "stealer_ok q G L (StealBuffer f) st \<longleftrightarrow> front_seen q G f \<and> (G \<le> unat f \<longrightarrow> unat f < L) \<and> st = Pending DSteal"
| "stealer_ok q G L (StealRead f buf) st \<longleftrightarrow> front_seen q G f \<and> buf < dq_allocated q \<and> st = Pending DSteal \<and>
     (G \<le> unat f \<longrightarrow> unat f < L \<and> buf_read (dq_bufs q buf) f = rd q (unat f))"
| "stealer_ok q G L (StealCheck f buf t) st \<longleftrightarrow> front_seen q G f \<and> st = Pending DSteal \<and>
     (G \<le> unat f \<longrightarrow> unat f < L \<and> t = rd q (unat f))"
| "stealer_ok q G L (StealCas f t) st \<longleftrightarrow> front_seen q G f \<and> st = Pending DSteal \<and>
     (G \<le> unat f \<longrightarrow> unat f < L \<and> t = rd q (unat f))"
| "stealer_ok q G L (SLenFront e) st \<longleftrightarrow> st = Pending (if e then DStealerIsEmpty else DStealerLen)"
| "stealer_ok q G L (SLenBack e f) st \<longleftrightarrow> front_seen q G f \<and> st = Pending (if e then DStealerIsEmpty else DStealerLen)"
| "stealer_ok q G L _ st \<longleftrightarrow> False"

fun dq_thread_ok :: "nat \<Rightarrow> 'a deque \<Rightarrow> nat \<Rightarrow> nat \<Rightarrow> tid \<Rightarrow> 'a dq_thread \<Rightarrow> ('a dq_op, 'a dq_ret) status \<Rightarrow> bool" where
  "dq_thread_ok n q G L i Resting st \<longleftrightarrow> st = Quiet \<and> (i = 0 \<longrightarrow> plain q G L)"
| "dq_thread_ok n q G L i (Done r) st \<longleftrightarrow> st = Answered r \<and> (i = 0 \<longrightarrow> plain q G L)"
| "dq_thread_ok n q G L i (Running pc) st \<longleftrightarrow>
     (if pc_steal pc then stealer_ok q G L pc st \<and> (i = 0 \<longrightarrow> plain q G L) else i = 0 \<and> worker_ok n q G L pc st)"

definition dq_good ::
  "nat \<Rightarrow> 'a deque \<Rightarrow> (tid \<Rightarrow> 'a dq_thread) \<Rightarrow> 'a list \<Rightarrow> (tid \<Rightarrow> ('a dq_op, 'a dq_ret) status) \<Rightarrow> bool" where
  "dq_good n q ts xs st \<longleftrightarrow> (\<exists>G L. dq_base n q G L xs \<and> (\<forall>i. dq_thread_ok n q G L i (ts i) (st i)))"

section \<open>What the parts of the invariant depend on\<close>

lemma dq_upd_simps [simp]:
  "rd (q\<lparr>dq_front := x\<rparr>) = rd q" "rd (q\<lparr>dq_back := x\<rparr>) = rd q"
  "dq_own (q\<lparr>dq_front := x\<rparr>) = dq_own q" "dq_own (q\<lparr>dq_back := x\<rparr>) = dq_own q"
  "front_seen (q\<lparr>dq_front := x\<rparr>) = front_seen q" "front_seen (q\<lparr>dq_back := x\<rparr>) = front_seen q"
  by (simp_all add: fun_eq_iff rd_def dq_own_def front_seen_def)

lemma dq_base_upd [simp]:
  "dq_base n (q\<lparr>dq_front := x\<rparr>) = dq_base n q" "dq_base n (q\<lparr>dq_back := x\<rparr>) = dq_base n q"
  by (simp_all add: fun_eq_iff dq_base_def)

lemma stealer_upd [simp]:
  "stealer_ok (q\<lparr>dq_front := x\<rparr>) G L pc st = stealer_ok q G L pc st"
  "stealer_ok (q\<lparr>dq_back := x\<rparr>) G L pc st = stealer_ok q G L pc st"
  by (cases pc; simp)+

lemma dq_baseD:
  assumes "dq_base n q G L xs"
  shows "G \<le> L" "L \<le> n" "L - G \<le> unat (buf_cap (dq_own q))" "pow2 (buf_cap (dq_own q))"
    "unat (buf_cap (dq_own q)) \<le> 64 + 2 * n" "dq_cell q = dq_buffer q" "dq_buffer q < dq_allocated q"
    "map Some xs = map (rd q) [G..<L]"
  using assms by (simp_all add: dq_base_def cap_ok_def)

lemma dq_base_length: "dq_base n q G L xs \<Longrightarrow> length xs = L - G"
  by (drule dq_baseD(8)) (metis length_map length_upt)

lemma cap_ok_mono: "cap_ok n c \<Longrightarrow> cap_ok (Suc n) c"
  by (simp add: cap_ok_def)

lemma dq_base_mono: "dq_base n q G L xs \<Longrightarrow> dq_base (Suc n) q G L xs"
  by (simp add: dq_base_def cap_ok_mono)

lemma worker_ok_mono: "worker_ok n q G L pc st \<Longrightarrow> worker_ok (Suc n) q G L pc st"
  by (cases pc) (auto simp: cap_ok_mono)

lemma dq_thread_mono: "dq_thread_ok n q G L i t st \<Longrightarrow> dq_thread_ok (Suc n) q G L i t st"
  by (cases t) (auto simp: worker_ok_mono split: if_splits)

text \<open>Both ends of the window.\<close>

lemma dq_base_pop_front:
  assumes "dq_base n q G L xs" "G < L"
  obtains t ys where "xs = t # ys" "rd q G = Some t" "dq_base n q (Suc G) L ys"
proof -
  from assms have m: "map Some xs = rd q G # map (rd q) [Suc G..<L]"
    by (simp add: dq_base_def map_upt_window_Cons)
  then obtain t ys where "xs = t # ys" by (cases xs) auto
  with m assms that show thesis by (auto simp: dq_base_def)
qed

lemma dq_base_pop_back:
  assumes "dq_base n q G (Suc B) xs" "G \<le> B"
  obtains t ys where "xs = ys @ [t]" "rd q B = Some t" "dq_base n q G B ys"
proof -
  from assms have m: "map Some xs = map (rd q) [G..<B] @ [rd q B]" by (simp add: dq_base_def)
  then obtain t ys where "xs = ys @ [t]" by (cases xs rule: rev_cases) auto
  with m assms that show thesis by (auto simp: dq_base_def)
qed

lemma dq_base_empty: "dq_base n q G L xs \<Longrightarrow> xs = [] \<longleftrightarrow> G = L"
  using dq_base_length [of n q G L xs] dq_baseD(1) [of n q G L xs] by (cases xs) auto

text \<open>Stealers do not mind when the window moves up, or when reads in it stay the same.\<close>

lemma stealer_mono:
  "stealer_ok q G L pc st \<Longrightarrow> G \<le> G' \<Longrightarrow> L \<le> L' \<Longrightarrow> stealer_ok q G' L' pc st"
  by (cases pc) (auto simp: front_seen_def)

lemma stealer_lifo:
  "stealer_ok q G (Suc B) pc st \<Longrightarrow> dq_flavor q = Lifo \<Longrightarrow> G < B \<Longrightarrow> stealer_ok q G B pc st"
  by (cases pc) (auto simp: front_seen_def)

lemma stealer_reads:
  assumes "stealer_ok q G L pc st" "dq_flavor q' = dq_flavor q" "dq_allocated q \<le> dq_allocated q'"
    and "\<And>i. G \<le> i \<Longrightarrow> i < L \<Longrightarrow> rd q' i = rd q i"
    and "\<And>buf f. buf < dq_allocated q \<Longrightarrow> G \<le> unat f \<Longrightarrow> unat f < L \<Longrightarrow>
      buf_read (dq_bufs q' buf) f = buf_read (dq_bufs q buf) f"
  shows "stealer_ok q' G L pc st"
  using assms by (cases pc) (auto simp: front_seen_def)

section \<open>Steps that change one thread only\<close>

lemma dq_goodI:
  assumes "dq_base n q G L xs" "\<And>j. j \<noteq> i \<Longrightarrow> dq_thread_ok n q G L j (ts j) (st j)" "dq_thread_ok n q G L i t s"
  shows "dq_good n q (ts(i := t)) xs (st(i := s))"
  unfolding dq_good_def using assms by (intro exI [of _ G] exI [of _ L]) auto

lemma dq_goodI_silent:
  assumes "dq_base n q G L xs" "\<And>j. j \<noteq> i \<Longrightarrow> dq_thread_ok n q G L j (ts j) (st j)" "dq_thread_ok n q G L i t (st i)"
  shows "dq_good n q (ts(i := t)) xs st"
  using dq_goodI [OF assms] by simp

text \<open>When the worker moves, the others are stealers.\<close>

lemma other_threads:
  assumes "dq_thread_ok n q G L j t s" "j \<noteq> 0"
    and "\<And>pc. stealer_ok q G L pc s \<Longrightarrow> stealer_ok q' G' L' pc s"
  shows "dq_thread_ok (Suc n) q' G' L' j t s"
  using assms by (cases t) (auto split: if_splits)

text \<open>When a stealer takes a task, the worker may be anywhere.\<close>

lemma cont_ok_stolen: "cont_ok q G L c k s \<Longrightarrow> G \<le> G' \<Longrightarrow> cont_ok (q\<lparr>dq_front := x\<rparr>) G' L c k s"
  by (cases k) auto

lemma worker_stolen:
  assumes "worker_ok n q G L pc s" "unat (dq_front q) = G" "G < L" "unat (dq_front q + 1) = Suc G"
  shows "worker_ok (Suc n) (q\<lparr>dq_front := dq_front q + 1\<rparr>) (Suc G) L pc s"
  using assms by (cases pc) (auto simp: cap_ok_mono intro: cont_ok_stolen split: if_splits)

lemma thread_stolen:
  assumes "dq_thread_ok n q G L j t s" "unat (dq_front q) = G" "G < L" "unat (dq_front q + 1) = Suc G"
  shows "dq_thread_ok (Suc n) (q\<lparr>dq_front := dq_front q + 1\<rparr>) (Suc G) L j t s"
proof (cases t)
  case (Running pc)
  then show ?thesis using assms worker_stolen [of n q G L pc s] stealer_mono [of q G L pc s "Suc G" L]
    by (auto split: if_splits)
qed (use assms in auto)

section \<open>Ticks of stealers\<close>

definition dq_outcome ::
  "nat \<Rightarrow> 'a deque \<Rightarrow> (tid \<Rightarrow> 'a dq_thread) \<Rightarrow> 'a list \<Rightarrow> (tid \<Rightarrow> ('a dq_op, 'a dq_ret) status) \<Rightarrow> tid \<Rightarrow>
     'a dq_thread \<Rightarrow> flavor \<Rightarrow> bool" where
  "dq_outcome n q' ts xs st i t fl \<longleftrightarrow> dq_good (Suc n) q' (ts(i := t)) xs st \<or>
     (\<exists>oper r ys. st i = Pending oper \<and> dq_spec fl oper xs r ys \<and> dq_good (Suc n) q' (ts(i := t)) ys (st(i := Answered r)))"

lemma outcome_silent: "dq_good (Suc n) q' (ts(i := t)) xs st \<Longrightarrow> dq_outcome n q' ts xs st i t fl"
  by (simp add: dq_outcome_def)

lemma outcome_effect:
  "st i = Pending oper \<Longrightarrow> dq_spec fl oper xs r ys \<Longrightarrow> dq_good (Suc n) q' (ts(i := t)) ys (st(i := Answered r)) \<Longrightarrow>
    dq_outcome n q' ts xs st i t fl"
  unfolding dq_outcome_def by blast

text \<open>The state in which a thread makes a tick.\<close>

locale dq_state =
  fixes n :: nat and q :: "'a deque" and ts :: "tid \<Rightarrow> 'a dq_thread" and xs :: "'a list"
    and st :: "tid \<Rightarrow> ('a dq_op, 'a dq_ret) status" and G L :: nat
  assumes base: "dq_base n q G L xs"
    and threads: "dq_thread_ok n q G L i (ts i) (st i)"
    and bound: "n < 2 ^ 60"
begin

lemma others: "dq_thread_ok (Suc n) q G L j (ts j) (st j)"
  by (rule dq_thread_mono [OF threads])

lemma local_silent:
  "dq_thread_ok (Suc n) q G L i t (st i) \<Longrightarrow> dq_outcome n q ts xs st i t fl"
  by (intro outcome_silent dq_goodI_silent [OF dq_base_mono [OF base]]) (rule others)

lemma local_effect:
  "st i = Pending oper \<Longrightarrow> dq_spec fl oper xs r xs \<Longrightarrow> dq_thread_ok (Suc n) q G L i t (Answered r) \<Longrightarrow>
    dq_outcome n q ts xs st i t fl"
  by (intro outcome_effect [where r = r and ys = xs] dq_goodI [OF dq_base_mono [OF base]]) (auto intro: others)

lemmas bs = dq_baseD [OF base]

lemma front_cases:
  "unat (dq_front q) = G \<or> unat (dq_front q) = Suc G \<and> G = L \<and> dq_flavor q = Fifo"
  using threads [of 0]
proof (cases "ts 0")
  case (Running pc)
  then show ?thesis using threads [of 0] by (cases pc) (auto split: if_splits)
qed (use threads [of 0] in auto)

lemma back_cases: "unat (dq_back q) = L \<or> Suc (unat (dq_back q)) = L \<and> (dq_flavor q = Lifo \<or> G = L)"
proof (cases "ts 0")
  case (Running pc)
  then show ?thesis using threads [of 0] by (cases pc) (auto split: if_splits)
qed (use threads [of 0] in auto)

lemma small: "unat (dq_front q) < 2 ^ 62" "unat (dq_back q) < 2 ^ 62" "unat (buf_cap (dq_own q)) < 2 ^ 62"
  "front_seen q G f \<Longrightarrow> unat f < 2 ^ 62"
  using front_cases back_cases bs bound pow2_unat [OF bs(4)] by (auto simp: front_seen_def)

lemma front_seen_now: "front_seen q G (dq_front q)"
  using front_cases by (auto simp: front_seen_def)

text \<open>What a stealer learns about the length.\<close>

lemma steal_len:
  assumes "front_seen q G f"
  shows "L - G \<le> nat (max (sint (dq_back q - f)) 0) + 1"
proof -
  have "sint (dq_back q - f) = int (unat (dq_back q)) - int (unat f)"
    by (rule sint_diff [OF small(2) small(4) [OF assms]])
  then show ?thesis using back_cases assms bs(1) by (auto simp: front_seen_def)
qed

lemma steal_some:
  assumes "front_seen q G f" "\<not> sint (dq_back q - f) \<le> 0"
  shows "unat f < L"
  using assms(2) back_cases sint_diff [OF small(2) small(4) [OF assms(1)]] by auto

lemma steal_tick_ok:
  assumes pc: "ts i = Running pc" "pc_steal pc"
  shows "case steal_tick q pc of (q', t) \<Rightarrow> dq_outcome n q' ts xs st i t (dq_flavor q)"
proof -
  have ok: "stealer_ok q G L pc (st i)" "i = 0 \<longrightarrow> plain q G L" using threads [of i] pc by simp_all
  show ?thesis
  proof (cases pc)
    case (StealBack f)
    show ?thesis
    proof (cases "sint (dq_back q - f) \<le> 0")
      case True
      then have "length xs \<le> 1" using steal_len [of f] ok StealBack dq_base_length [OF base] by simp
      then show ?thesis using True ok StealBack
        by (auto intro!: local_effect [where oper = DSteal and r = "DStolen Empty"])
    next
      case False
      then show ?thesis using ok StealBack steal_some [of f] by (auto intro!: local_silent)
    qed
  next
    case (StealCheck f buf task)
    show ?thesis
    proof (cases "dq_buffer q = buf")
      case False
      then show ?thesis using ok StealCheck
        by (auto intro!: local_effect [where oper = DSteal and r = "DStolen Retry"])
    qed (use ok StealCheck in \<open>auto intro!: local_silent\<close>)
  next
    case (StealCas f task)
    show ?thesis
    proof (cases "dq_front q = f")
      case True
      have G: "unat f = G" "G < L" "task = rd q G" using ok StealCas True front_cases by auto
      then obtain x ys where xs: "xs = x # ys" "rd q G = Some x" "dq_base n q (Suc G) L ys"
        using dq_base_pop_front [OF base] by metis
      have u: "unat (dq_front q + 1) = Suc G" using unat_plus_1 [OF small(1)] G True by simp
      have "dq_good (Suc n) (q\<lparr>dq_front := dq_front q + 1\<rparr>) (ts(i := Done (DStolen (Success x)))) ys
          (st(i := Answered (DStolen (Success x))))"
        by (rule dq_goodI [of _ _ "Suc G" L])
          (use xs(3) dq_base_mono thread_stolen [OF threads _ G(2) u] G(1) True ok u in auto)
      then have "dq_outcome n (q\<lparr>dq_front := dq_front q + 1\<rparr>) ts xs st i (Done (DStolen (Success x))) (dq_flavor q)"
        by (rule outcome_effect [of st i DSteal, rotated 2]) (use ok StealCas xs(1) in simp_all)
      then show ?thesis using StealCas xs(2) G(3) True by simp
    next
      case False
      then show ?thesis using ok StealCas
        by (auto intro!: local_effect [where oper = DSteal and r = "DStolen Retry"])
    qed
  next
    case (SLenBack e f)
    have len: "length xs \<le> nat (max (sint (dq_back q - f)) 0) + 1"
      using steal_len [of f] ok SLenBack dq_base_length [OF base] by simp
    then have "sint (dq_back q - f) \<le> 0 \<Longrightarrow> length xs \<le> 1" by simp
    with len ok SLenBack have "dq_outcome n q ts xs st i (Done (dq_length e (dq_back q) f)) (dq_flavor q)"
      by (cases e) (intro local_effect [where oper = "if e then DStealerIsEmpty else DStealerLen" and
        r = "dq_length e (dq_back q) f"], simp_all add: dq_length_def)+
    then show ?thesis using SLenBack by simp
  qed (use ok pc front_seen_now bs(7) in \<open>auto simp: rd_unat intro!: local_silent split: if_splits\<close>)
qed

text \<open>When the worker moves.\<close>

lemma worker_silent:
  assumes "dq_base (Suc n) q' G' L' xs" "\<And>pc s. stealer_ok q G L pc s \<Longrightarrow> stealer_ok q' G' L' pc s"
    "dq_thread_ok (Suc n) q' G' L' 0 t (st 0)"
  shows "dq_outcome n q' ts xs st 0 t fl"
  by (intro outcome_silent dq_goodI_silent [where i = 0 and ts = ts and st = st, OF assms(1) _ assms(3)] other_threads [OF threads]) (auto intro: assms(2))

lemma worker_effect:
  assumes "dq_base (Suc n) q' G' L' ys" "\<And>pc s. stealer_ok q G L pc s \<Longrightarrow> stealer_ok q' G' L' pc s"
    "dq_thread_ok (Suc n) q' G' L' 0 t (Answered r)" "st 0 = Pending oper" "dq_spec fl oper xs r ys"
  shows "dq_outcome n q' ts xs st 0 t fl"
  by (intro outcome_effect [where i = 0 and st = st and ts = ts, OF assms(4,5)] dq_goodI [where i = 0 and ts = ts and st = st, OF assms(1) _ assms(3)] other_threads [OF threads]) (auto intro: assms(2))

lemma own_buffer: "dq_own q = dq_bufs q (dq_buffer q)"
  by (simp add: dq_own_def bs(6))

lemma push_write:
  assumes pc: "ts 0 = Running (PushWrite task b)"
  shows "case push_tick q (PushWrite task b) of (q', t) \<Rightarrow> dq_outcome n q' ts xs st 0 t fl"
proof -
  let ?q = "q\<lparr>dq_bufs := (dq_bufs q)(dq_cell q := buf_write b (Some task) (dq_own q))\<rparr>"
  have w: "plain q G L" "b = dq_back q" "L - G < unat (buf_cap (dq_own q))" "st 0 = Pending (DPush task)"
    using threads [of 0] pc by simp_all
  have at: "buf_at (dq_own q) f \<noteq> buf_at (dq_own q) b" if "G \<le> unat f" "unat f < L" for f
    unfolding buf_at_mod [OF bs(4)] using that w by (intro window_mod) auto
  have reads: "buf_read (dq_bufs ?q buf) f = buf_read (dq_bufs q buf) f" if "G \<le> unat f" "unat f < L" for buf f
    using at [OF that] by (auto simp: buf_read_write dq_own_def)
  have u: "unat (word_of_nat i :: i64) = i" if "i < L" for i using that bs(2) bound by (simp add: unat_of_nat)
  have rds: "rd ?q i = rd q i" if "G \<le> i" "i < L" for i
    using reads [of "word_of_nat i" "dq_buffer q"] u [OF that(2)] that by (simp add: rd_def)
  have "dq_base (Suc n) ?q G L xs"
    using dq_base_mono [OF base] rds by (auto simp: dq_base_def dq_own_def buf_read_write)
  moreover have "rd ?q L = Some task" using w(1,2) rd_unat [of ?q b] by (simp add: bs(6) buf_read_write)
  moreover have "stealer_ok ?q G L pc s" if "stealer_ok q G L pc s" for pc s
    using that by (rule stealer_reads) (simp_all only: rds reads, simp_all)
  ultimately have "dq_outcome n ?q ts xs st 0 (Running (PushStore b)) fl"
    by (intro worker_silent) (use w in \<open>simp_all add: dq_own_def buf_read_write\<close>)
  then show ?thesis by simp
qed

lemma push_store:
  assumes pc: "ts 0 = Running (PushStore b)"
  shows "case push_tick q (PushStore b) of (q', t) \<Rightarrow> dq_outcome n q' ts xs st 0 t fl"
proof -
  obtain task where w: "plain q G L" "b = dq_back q" "L - G < unat (buf_cap (dq_own q))" "rd q L = Some task"
    "st 0 = Pending (DPush task)" using threads [of 0] pc by auto
  have "dq_base (Suc n) q G (Suc L) (xs @ [task])"
    using dq_base_mono [OF base] w(3,4) bs by (auto simp: dq_base_def)
  moreover have "unat (b + 1) = Suc L" using unat_plus_1 [OF small(2)] w by simp
  ultimately have "dq_outcome n (q\<lparr>dq_back := b + 1\<rparr>) ts xs st 0 (Done DPushed) fl"
    by (intro worker_effect [where oper = "DPush task" and r = DPushed and L' = "Suc L"])
      (use w in \<open>auto intro: stealer_mono\<close>)
  then show ?thesis by simp
qed

lemma push_tick_ok:
  assumes pc: "ts 0 = Running pc" "pc_push pc"
  shows "case push_tick q pc of (q', t) \<Rightarrow> dq_outcome n q' ts xs st 0 t fl"
proof (cases pc)
  case (PushFront task b)
  then have w: "plain q G L" "b = dq_back q" "st 0 = Pending (DPush task)" using threads [of 0] pc(1) by simp_all
  let ?c = "buf_cap (dq_own q)"
  have len: "sint (b - dq_front q) = int (L - G)" using sint_diff [OF small(2,1)] w bs(1) by simp
  have cap: "sint ?c = int (unat ?c)" by (rule sint_small [OF small(3)])
  show ?thesis
  proof (cases "unat ?c \<le> L - G")
    case True
    then have "unat ?c \<le> n" using bs(2) by simp
    then have "pow2 (2 * ?c)" "unat (2 * ?c) = 2 * unat ?c" "unat (2 * ?c) \<le> 64 + 2 * Suc n"
      using pow2_double [OF bs(4)] bound by simp_all
    moreover have "L - G < 2 * unat ?c" using bs(3) pow2_unat(1) [OF bs(4)] by simp
    ultimately have "dq_outcome n q ts xs st 0 (Running (ResizeBack (AfterPush task b) (2 * ?c))) fl"
      using w by (intro local_silent) (simp add: cap_ok_def)
    then show ?thesis using PushFront len cap True by (simp add: Let_def)
  next
    case False
    then have "dq_outcome n q ts xs st 0 (Running (PushWrite task b)) fl" using w by (intro local_silent) simp
    then show ?thesis using PushFront len cap False by (simp add: Let_def)
  qed
next
  case (PushBack task)
  then show ?thesis using threads [of 0] pc(1) by (auto intro!: local_silent)
next
  case (PushWrite task b)
  then show ?thesis using push_write pc(1) by simp
next
  case (PushStore b)
  then show ?thesis using push_store pc(1) by simp
qed (use pc(2) in simp_all)

lemma resize_copy:
  assumes pc: "ts 0 = Running (ResizeCopy k c b f)"
  shows "case resize_tick q (ResizeCopy k c b f) of (q', t) \<Rightarrow> dq_outcome n q' ts xs st 0 t fl"
proof -
  let ?new = "dq_allocated q" and ?buf = "copy_buffer (dq_own q) c f b"
  let ?q = "q\<lparr>dq_bufs := (dq_bufs q)(?new := ?buf), dq_allocated := Suc ?new\<rparr>"
  have w: "plain q G L" "b = dq_back q" "cap_ok n c" "unat f \<le> G" "L - unat f \<le> unat c" "cont_ok q G L (unat c) k (st 0)"
    using threads [of 0] pc by simp_all
  have u: "unat (word_of_nat i :: i64) = i" if "i < L" for i using that bs(2) bound by (simp add: unat_of_nat)
  have cb: "buf_cap ?buf = c" "G \<le> i \<Longrightarrow> i < L \<Longrightarrow> buf_read ?buf (word_of_nat i) = rd q i" for i
    using copy_buffer_read [of c f b, where old = "dq_own q"] w bs(1) small(2) by (auto simp: cap_ok_def rd_def own_buffer)
  have old: "dq_bufs ?q buf = dq_bufs q buf" if "buf < ?new" for buf using that by simp
  have rds: "rd ?q i = rd q i" for i using bs(7) by (simp add: rd_def)
  have own: "dq_own ?q = dq_own q" using bs(6,7) by (simp add: dq_own_def)
  have "dq_base (Suc n) ?q G L xs"
    using dq_base_mono [OF base] own rds by (auto simp: dq_base_def)
  moreover have "stealer_ok ?q G L pc s" if "stealer_ok q G L pc s" for pc s
    using that by (rule stealer_reads) (simp_all only: rds old, simp_all)
  moreover have "cont_ok ?q G L (unat c) k (st 0)" using w(6) by (cases k) simp_all
  ultimately have "dq_outcome n ?q ts xs st 0 (Running (ResizeSwap k ?new)) fl"
    by (intro worker_silent) (use w(1,3) bs(7) cb in \<open>auto simp: rds cap_ok_mono\<close>)
  then show ?thesis by (simp add: Let_def)
qed

lemma resize_swap:
  assumes pc: "ts 0 = Running (ResizeSwap k new)"
  shows "case resize_tick q (ResizeSwap k new) of (q', t) \<Rightarrow> dq_outcome n q' ts xs st 0 t fl"
proof -
  let ?q = "q\<lparr>dq_cell := new, dq_buffer := new\<rparr>"
  have w: "plain q G L" "cap_ok n (buf_cap (dq_bufs q new))" "new < dq_allocated q"
    "cont_ok q G L (unat (buf_cap (dq_bufs q new))) k (st 0)"
    "\<And>i. G \<le> i \<Longrightarrow> i < L \<Longrightarrow> buf_read (dq_bufs q new) (word_of_nat i) = rd q i"
    using threads [of 0] pc by simp_all
  have rds: "rd ?q i = rd q i" if "G \<le> i" "i < L" for i using w(5) [OF that] by (simp add: rd_def)
  have own: "dq_own ?q = dq_bufs q new" by (simp add: dq_own_def)
  have "L - G \<le> unat (buf_cap (dq_bufs q new))" using w(4) by (cases k) simp_all
  then have "dq_base (Suc n) ?q G L xs"
    using dq_base_mono [OF base] own rds w(2,3) by (auto simp: dq_base_def cap_ok_mono)
  moreover have "stealer_ok ?q G L pc s" if "stealer_ok q G L pc s" for pc s
    using that by (rule stealer_reads) (simp_all only: rds, simp_all)
  ultimately have "dq_outcome n ?q ts xs st 0 (resize_done k) fl"
    by (intro worker_silent) (use w in \<open>cases k; simp add: own\<close>)+
  then show ?thesis by simp
qed

lemma resize_tick_ok:
  assumes pc: "ts 0 = Running pc" "pc_resize pc"
  shows "case resize_tick q pc of (q', t) \<Rightarrow> dq_outcome n q' ts xs st 0 t fl"
proof (cases pc)
  case (ResizeBack k c)
  then show ?thesis using threads [of 0] pc(1) by (auto intro!: local_silent simp: cap_ok_mono)
next
  case (ResizeFront k c b)
  moreover have "L - G \<le> unat c" using ResizeFront threads [of 0] pc(1) by (cases k) auto
  ultimately show ?thesis using threads [of 0] pc(1) by (auto intro!: local_silent simp: cap_ok_mono)
next
  case (ResizeCopy k c b f)
  then show ?thesis using resize_copy pc(1) by simp
next
  case (ResizeSwap k new)
  then show ?thesis using resize_swap pc(1) by simp
qed (use pc(2) in simp_all)

text \<open>Shrinking after a pop.\<close>

lemma shrink_or_return:
  assumes w: "plain q G L" "st 0 = Answered (DPopped (Some task))" and len: "buf_cap (dq_own q) > MIN_CAP \<Longrightarrow> sh \<Longrightarrow>
    int (L - G) \<le> int (unat (buf_cap (dq_own q))) div 4"
  shows "dq_outcome n q ts xs st 0 (if buf_cap (dq_own q) > MIN_CAP \<and> sh
      then Running (ResizeBack (AfterPop task) (buf_cap (dq_own q) div 2)) else Done (DPopped (Some task))) fl"
proof (cases "buf_cap (dq_own q) > MIN_CAP \<and> sh")
  case True
  then have "pow2 (buf_cap (dq_own q) div 2)" "unat (buf_cap (dq_own q) div 2) = unat (buf_cap (dq_own q)) div 2"
    using pow2_half [OF bs(4)] by simp_all
  moreover have "L - G \<le> unat (buf_cap (dq_own q)) div 2" using len True by linarith
  ultimately show ?thesis using True w bs(5) by (intro local_silent) (simp add: cap_ok_def)
next
  case False
  then show ?thesis using w by (intro local_silent) auto
qed

lemma pop_front_ok:
  assumes pc: "ts 0 = Running (PopFront b)"
  shows "case dq_pop_tick q (PopFront b) of (q', t) \<Rightarrow> dq_outcome n q' ts xs st 0 t fl"
proof -
  have w: "plain q G L" "b = dq_back q" "st 0 = Pending DPop" using threads [of 0] pc by simp_all
  have len: "sint (b - dq_front q) = int (L - G)" using sint_diff [OF small(2,1)] w bs(1) by simp
  show ?thesis
  proof (cases "G = L")
    case True
    then have "xs = []" using dq_base_empty [OF base] by simp
    then have "dq_outcome n q ts xs st 0 (Done (DPopped None)) fl"
      using w by (intro local_effect [where oper = DPop and r = "DPopped None"]) simp_all
    then show ?thesis using len True by (simp add: Let_def)
  next
    case False
    then have "0 < L" "\<not> int (L - G) \<le> 0" using bs(1) by simp_all
    moreover have "unat (b - 1) + 1 = L" using w \<open>0 < L\<close> unat_minus_1 [of b] by simp
    ultimately show ?thesis using len w
      by (auto simp: Let_def intro!: local_silent split: flavor.split)
  qed
qed

lemma fifo_add_ok:
  assumes pc: "ts 0 = Running (FifoAdd b len)"
  shows "case dq_pop_tick q (FifoAdd b len) of (q', t) \<Rightarrow> dq_outcome n q' ts xs st 0 t (dq_flavor q)"
proof -
  have w: "plain q G L" "b = dq_back q" "dq_flavor q = Fifo" "int (L - G) \<le> sint len" "st 0 = Pending DPop"
    using threads [of 0] pc by simp_all
  let ?q = "q\<lparr>dq_front := dq_front q + 1\<rparr>"
  have u: "unat (dq_front q + 1) = Suc G" using unat_plus_1 [OF small(1)] w by simp
  have len: "sint (b - (dq_front q + 1)) = int L - int (Suc G)"
    using sint_diff [OF small(2), of "dq_front q + 1"] u w small(1) bs bound by simp
  show ?thesis
  proof (cases "G = L")
    case True
    then have "xs = []" using dq_base_empty [OF base] by simp
    then have "dq_outcome n ?q ts xs st 0 (Running (FifoRestore (dq_front q))) (dq_flavor q)"
      using w u True dq_base_mono [OF base]
      by (intro worker_effect [where oper = DPop and r = "DPopped None" and G' = G and L' = L and ys = xs]) simp_all
    then show ?thesis using len True by (simp add: Let_def)
  next
    case False
    then have "G < L" using bs(1) by simp
    then obtain x ys where xs: "xs = x # ys" "rd q G = Some x" "dq_base n q (Suc G) L ys"
      using dq_base_pop_front [OF base] by metis
    have "dq_outcome n ?q ts xs st 0 (Running (FifoRead (dq_front q) len)) (dq_flavor q)"
      using w u xs dq_base_mono [OF xs(3)]
      by (intro worker_effect [where oper = DPop and r = "DPopped (Some x)" and G' = "Suc G" and L' = L and ys = ys])
        (auto intro: stealer_mono)
    then show ?thesis using len \<open>G < L\<close> by (simp add: Let_def)
  qed
qed

lemma fifo_read_ok:
  assumes pc: "ts 0 = Running (FifoRead f len)"
  shows "case dq_pop_tick q (FifoRead f len) of (q', t) \<Rightarrow> dq_outcome n q' ts xs st 0 t fl"
proof -
  obtain task where w: "plain q G L" "int (L - G) \<le> sint len" "rd q (unat f) = Some task"
    "st 0 = Answered (DPopped (Some task))" using threads [of 0] pc by auto
  have "buf_read (dq_own q) f = Some task" using w(3) by (simp add: own_buffer rd_unat)
  moreover note shrink_or_return [OF w(1,4), of "sint len \<le> sint (buf_cap (dq_own q)) div 4" fl]
  ultimately show ?thesis using w(2) sint_small [OF small(3)]
    by (cases "MIN_CAP < buf_cap (dq_own q) \<and> sint len \<le> sint (buf_cap (dq_own q)) div 4") (auto simp: Let_def)
qed

lemma lifo_front_ok:
  assumes pc: "ts 0 = Running (LifoFront b)"
  shows "case dq_pop_tick q (LifoFront b) of (q', t) \<Rightarrow> dq_outcome n q' ts xs st 0 t (dq_flavor q)"
proof -
  have w: "unat (dq_front q) = G" "Suc (unat (dq_back q)) = L" "b = dq_back q" "dq_flavor q = Lifo" "st 0 = Pending DPop"
    using threads [of 0] pc by simp_all
  have len: "sint (b - dq_front q) = int (unat b) - int G" using sint_diff [OF small(2,1)] w by simp
  have "G = L \<or> G = unat b \<or> G < unat b" using bs(1) w by auto
  then consider "G = L" | "G = unat b" | "G < unat b" by blast
  then show ?thesis
  proof cases
    case 1
    then have "xs = []" using dq_base_empty [OF base] by simp
    then have "dq_outcome n q ts xs st 0 (Running (LifoRestore b None)) (dq_flavor q)"
      using w 1 by (intro local_effect [where oper = DPop and r = "DPopped None"]) simp_all
    then show ?thesis using len 1 w by (simp add: Let_def)
  next
    case 2
    then have "unat b = unat (dq_front q)" using w by simp
    then have "b = dq_front q" by (rule unsigned_word_eqI)
    then have "dq_outcome n q ts xs st 0 (Running (LifoRead b (dq_front q))) (dq_flavor q)"
      using w 2 by (intro local_silent) simp
    then show ?thesis using len 2 by (simp add: Let_def)
  next
    case 3
    then obtain x ys where xs: "xs = ys @ [x]" "rd q (unat b) = Some x" "dq_base n q G (unat b) ys"
      using dq_base_pop_back [of n q G "unat b" xs] base w(2,3) by (metis less_imp_le)
    have "b \<noteq> dq_front q" using 3 w by auto
    then have "dq_outcome n q ts xs st 0 (Running (LifoRead b (dq_front q))) (dq_flavor q)"
      using w xs 3 dq_base_mono [OF xs(3)] stealer_lifo [of q G "unat b"]
      by (intro worker_effect [where oper = DPop and r = "DPopped (Some x)" and G' = G and L' = "unat b" and ys = ys]) auto
    then show ?thesis using len 3 by (simp add: Let_def)
  qed
qed

lemma lifo_read_ok:
  assumes pc: "ts 0 = Running (LifoRead b f)"
  shows "case dq_pop_tick q (LifoRead b f) of (q', t) \<Rightarrow> dq_outcome n q' ts xs st 0 t fl"
proof -
  have w: "unat (dq_front q) = G" "b = dq_back q" "unat f \<le> G" "dq_flavor q = Lifo" using threads [of 0] pc by simp_all
  have own: "buf_read (dq_own q) b = rd q (unat b)" by (simp add: own_buffer rd_unat)
  show ?thesis
  proof (cases "b = f")
    case True
    then have "dq_outcome n q ts xs st 0 (Running (LifoCas b f (buf_read (dq_own q) b))) fl"
      using w own threads [of 0] pc by (intro local_silent) auto
    then show ?thesis using True by (simp add: Let_def)
  next
    case False
    then obtain task where r: "unat b = L" "rd q L = Some task" "st 0 = Answered (DPopped (Some task))"
      using threads [of 0] pc by auto
    have "sint (b - f) = int L - int (unat f)"
      using sint_diff [OF small(2), of f] w r bs bound by simp
    then have "int (L - G) \<le> sint (b - f)" using w(3) bs(1) by simp
    moreover note shrink_or_return [of task "sint (b - f) < sint (buf_cap (dq_own q)) div 4" fl]
    ultimately show ?thesis using w r own False sint_small [OF small(3)]
      by (cases "MIN_CAP < buf_cap (dq_own q) \<and> sint (b - f) < sint (buf_cap (dq_own q)) div 4") (auto simp: Let_def)
  qed
qed

lemma lifo_cas_ok:
  assumes pc: "ts 0 = Running (LifoCas b f task)"
  shows "case dq_pop_tick q (LifoCas b f task) of (q', t) \<Rightarrow> dq_outcome n q' ts xs st 0 t (dq_flavor q)"
proof -
  have w: "unat (dq_front q) = G" "Suc (unat (dq_back q)) = L" "b = dq_back q" "f = b" "unat f \<le> G"
    "G = unat f \<longrightarrow> task = rd q G" "st 0 = Pending DPop" "dq_flavor q = Lifo" using threads [of 0] pc by auto
  show ?thesis
  proof (cases "dq_front q = f")
    case True
    then have G: "G = unat b" "Suc G = L" using w by auto
    then obtain x ys where xs: "xs = x # ys" "rd q G = Some x" "dq_base n q L L ys"
      using dq_base_pop_front [OF base] by (metis lessI)
    then have "ys = []" using dq_base_empty by blast
    have u: "unat (f + 1) = L" using unat_plus_1 [OF small(1)] True G w by simp
    have "dq_outcome n (q\<lparr>dq_front := f + 1\<rparr>) ts xs st 0 (Running (LifoRestore b (Some x))) (dq_flavor q)"
      using w u xs dq_base_mono [OF xs(3)] G \<open>ys = []\<close>
      by (intro worker_effect [where oper = DPop and r = "DPopped (Some x)" and G' = L and L' = L and ys = ys])
        (auto intro: stealer_mono)
    moreover have "task = Some x" using w(4,6) G(1) xs(2) by simp
    ultimately show ?thesis using True by simp
  next
    case False
    then have "G \<noteq> unat f" using w unsigned_word_eqI [of "dq_front q" f] by auto
    then have "G = L" using w bs(1) by simp
    then have "dq_outcome n q ts xs st 0 (Running (LifoRestore b None)) (dq_flavor q)"
      using w dq_base_empty [OF base] by (intro local_effect [where oper = DPop and r = "DPopped None"]) simp_all
    then show ?thesis using False by simp
  qed
qed

lemma pop_restores_ok:
  "ts 0 = Running (FifoRestore f) \<Longrightarrow> case dq_pop_tick q (FifoRestore f) of (q', t) \<Rightarrow> dq_outcome n q' ts xs st 0 t fl"
  "ts 0 = Running (LifoStore b) \<Longrightarrow> case dq_pop_tick q (LifoStore b) of (q', t) \<Rightarrow> dq_outcome n q' ts xs st 0 t fl"
  "ts 0 = Running (LifoRestore b task) \<Longrightarrow> case dq_pop_tick q (LifoRestore b task) of (q', t) \<Rightarrow> dq_outcome n q' ts xs st 0 t fl"
  using threads [of 0] dq_base_mono [OF base] unat_plus_1 [OF small(2)]
  by (auto intro!: worker_silent [where G' = G and L' = L])

lemma len_front_ok:
  assumes pc: "ts 0 = Running (LenFront e b)"
  shows "case dq_pop_tick q (LenFront e b) of (q', t) \<Rightarrow> dq_outcome n q' ts xs st 0 t fl"
proof -
  have w: "plain q G L" "b = dq_back q" "st 0 = Pending (if e then DIsEmpty else DLen)" using threads [of 0] pc by simp_all
  have "sint (b - dq_front q) = int (length xs)"
    using sint_diff [OF small(2,1)] w bs(1) dq_base_length [OF base] by simp
  then have "dq_outcome n q ts xs st 0 (Done (dq_length e b (dq_front q))) fl" using w
    by (cases e) (intro local_effect [where oper = "if e then DIsEmpty else DLen" and
      r = "dq_length e b (dq_front q)"], simp_all add: dq_length_def)+
  then show ?thesis by simp
qed

lemma pop_tick_ok:
  assumes pc: "ts 0 = Running pc" "\<not> pc_push pc" "\<not> pc_resize pc" "\<not> pc_steal pc"
  shows "case dq_pop_tick q pc of (q', t) \<Rightarrow> dq_outcome n q' ts xs st 0 t (dq_flavor q)"
proof (cases pc)
  case PopBack
  then show ?thesis using threads [of 0] pc(1) by (auto intro!: local_silent)
next
  case (LenBack e)
  then show ?thesis using threads [of 0] pc(1) by (auto intro!: local_silent)
next
  case DUndefined
  then show ?thesis using threads [of 0] pc(1) by simp
qed (use pc pop_front_ok fifo_add_ok fifo_read_ok lifo_front_ok lifo_read_ok lifo_cas_ok pop_restores_ok len_front_ok in simp_all)

lemma tick_ok:
  assumes pc: "ts i = Running pc" and t: "dq_tick ch q pc = (q', t)"
  shows "dq_outcome n q' ts xs st i t (dq_flavor q)"
proof (cases "pc_steal pc")
  case True
  then have "dq_tick ch q pc = steal_tick q pc" by (cases pc) (simp_all add: dq_tick_def)
  then show ?thesis using steal_tick_ok [OF pc True] t by simp
next
  case False
  then have i: "i = 0" using threads [of i] pc by simp
  show ?thesis using t push_tick_ok [of pc] resize_tick_ok [of pc] pop_tick_ok [of pc] False pc
    by (auto simp: dq_tick_def i split: if_splits)
qed

end


section \<open>Linearizability\<close>

lemma dq_tick_flavor: "dq_tick ch q pc = (q', t) \<Longrightarrow> dq_flavor q' = dq_flavor q"
  by (cases pc) (auto simp: dq_tick_def Let_def split: if_splits option.splits flavor.splits)

definition dq_good_of ::
  "flavor \<Rightarrow> nat \<Rightarrow> 'a deque \<Rightarrow> (tid \<Rightarrow> 'a dq_thread) \<Rightarrow> 'a list \<Rightarrow> (tid \<Rightarrow> ('a dq_op, 'a dq_ret) status) \<Rightarrow> bool" where
  "dq_good_of fl n q ts xs st \<longleftrightarrow> dq_flavor q = fl \<and> dq_good n q ts xs st"

lemma deque_simulation:
  "role_simulation dq_may dq_start dq_tick (dq_spec fl) (dq_good_of fl) (2 ^ 60)"
proof
  fix n and q :: "'a deque" and ts xs st
  assume good: "dq_good_of fl n q ts xs st"
  then obtain G L where base: "dq_base n q G L xs" and thr: "\<And>i. dq_thread_ok n q G L i (ts i) (st i)" and fl: "dq_flavor q = fl"
    by (auto simp: dq_good_of_def dq_good_def)
  show "dq_good_of fl (Suc n) q ts xs st"
    using fl dq_base_mono [OF base] dq_thread_mono [OF thr] by (auto simp: dq_good_of_def dq_good_def)
  { fix i and oper :: "'a dq_op" assume "ts i = Resting" "dq_may i oper"
    then have "dq_thread_ok n q G L i (Running (dq_start oper)) (Pending oper)" "st i = Quiet"
      using thr [of i] by (cases oper; simp)+
    then show "st i = Quiet \<and> dq_good_of fl n q (ts(i := Running (dq_start oper))) xs (st(i := Pending oper))"
      using fl dq_goodI [OF base thr] by (auto simp: dq_good_of_def) }
  { fix i pc ch q' t assume "n < 2 ^ 60" "ts i = Running pc" "dq_tick ch q pc = (q', t)"
    then have "dq_outcome n q' ts xs st i t fl" "dq_flavor q' = fl"
      using dq_state.tick_ok [of n q ts xs st G L i pc ch q' t] base thr fl dq_tick_flavor
      by (auto simp: dq_state_def)
    then show "dq_good_of fl (Suc n) q' (ts(i := t)) xs st \<or> (\<exists>oper r x'. st i = Pending oper \<and> dq_spec fl oper xs r x' \<and>
        dq_good_of fl (Suc n) q' (ts(i := t)) x' (st(i := Answered r)))"
      unfolding dq_outcome_def dq_good_of_def by blast }
  { fix i r assume "ts i = Done r"
    then have "st i = Answered r" "dq_thread_ok n q G L i Resting Quiet" using thr [of i] by simp_all
    then show "st i = Answered r \<and> dq_good_of fl n q (ts(i := Resting)) xs (st(i := Quiet))"
      using fl dq_goodI [OF base thr] by (auto simp: dq_good_of_def) }
qed

interpretation dq_fifo: role_simulation dq_may dq_start dq_tick "dq_spec Fifo" "dq_good_of Fifo" "2 ^ 60"
  by (rule deque_simulation)

interpretation dq_lifo: role_simulation dq_may dq_start dq_tick "dq_spec Lifo" "dq_good_of Lifo" "2 ^ 60"
  by (rule deque_simulation)

lemma dq_new_base: "dq_base 0 (dq_new fl) 0 0 []"
proof -
  have "pow2 64" unfolding pow2_def by (rule exI [of _ 6]) simp
  then show ?thesis by (simp add: dq_base_def dq_new_def dq_own_def buf_alloc_def cap_ok_def MIN_CAP_def)
qed

lemma dq_new_good: "dq_good_of fl 0 (dq_new fl) (\<lambda>_. Resting) [] (\<lambda>_. Quiet)"
  unfolding dq_good_of_def dq_good_def using dq_new_base [of fl]
  by (intro conjI exI [of _ 0]) (auto simp: dq_new_def)

interpretation dq_initial: dq_state 0 "dq_new fl" "\<lambda>_. Resting" "[]" "\<lambda>_. Quiet" 0 0 for fl
  by unfold_locales (auto simp: dq_new_base, simp_all add: dq_new_def)

text \<open>At rest, the tasks that are dropped with the deque are those it holds.\<close>

lemma dq_drop_rest:
  assumes "dq_good n q ts xs st" "n \<le> 2 ^ 60" "ts 0 = Resting"
  shows "dq_drop q = map Some xs"
proof -
  obtain G L where base: "dq_base n q G L xs" and "dq_thread_ok n q G L 0 (ts 0) (st 0)"
    using assms(1) unfolding dq_good_def by blast
  then have p: "plain q G L" using assms(3) by simp
  then have "index_range (dq_front q) (dq_back q) = map word_of_nat [G..<L]"
    using index_range_unat [of "dq_front q" "dq_back q"] dq_baseD(1,2) [OF base] assms(2) by simp
  then show ?thesis using dq_baseD(8) [OF base] by (simp add: dq_drop_def rd_def)
qed

text \<open>
  C30: Linearizability of the work-stealing deque. With one worker and any number of stealers, every run shows
  the calls and results of a list on which the worker pushes and pops, from the front or the back by flavor, and
  from which successful steals take the oldest task: no task is lost, none is handed out twice, no uninitialised
  slot is returned. Only a stealer may be told that a deque with one task is empty, while the worker is taking
  it. When the worker is at rest, dropping the deque drops exactly the tasks of that list.
\<close>

theorem deque_linearizable:
  assumes "length es \<le> 2 ^ 60" "list_all (permitted dq_may) es"
  shows "\<exists>xs stat. ao_run (dq_spec fl) ([], \<lambda>_. Quiet)
      (impl_trace (threads_step dq_start dq_tick) threads_label es (dq_new fl, \<lambda>_. Resting)) (xs, stat) \<and>
    (case impl_run (threads_step dq_start dq_tick) es (dq_new fl, \<lambda>_. Resting) of (q, ts) \<Rightarrow>
       ts 0 = Resting \<longrightarrow> dq_drop q = map Some xs)"
proof -
  obtain q ts where r: "impl_run (threads_step dq_start dq_tick) es (dq_new fl, \<lambda>_. Resting) = (q, ts)" by fastforce
  obtain xs stat where "ao_run (dq_spec fl) ([], \<lambda>_. Quiet)
      (impl_trace (threads_step dq_start dq_tick) threads_label es (dq_new fl, \<lambda>_. Resting)) (xs, stat)"
    "dq_good_of fl (length es) q ts xs stat"
    using role_simulation.good_run [OF deque_simulation dq_new_good [of fl], of es] assms unfolding r by auto
  then show ?thesis using r dq_drop_rest [of "length es" q ts xs stat] assms(1)
    by (intro exI [of _ xs] exI [of _ stat]) (auto simp: dq_good_of_def)
qed

definition deque_demo :: "(nat dq_op, unit) thread_event list" where
  "deque_demo = [CallOp 0 (DPush 7), TickOp 0 (), TickOp 0 (), TickOp 0 (), TickOp 0 (), ReturnOp 0,
     CallOp 0 (DPush 8), TickOp 0 (), TickOp 0 (), TickOp 0 (), TickOp 0 (), ReturnOp 0,
     CallOp 1 DSteal, TickOp 1 (), CallOp 0 DPop, TickOp 0 (), TickOp 1 (), TickOp 0 (), TickOp 0 (), TickOp 1 (),
     TickOp 1 (), TickOp 0 (), TickOp 1 (), TickOp 0 (), TickOp 1 (), ReturnOp 0, ReturnOp 1]"

lemma deque_demo_trace:
  "impl_trace (threads_step dq_start dq_tick) threads_label deque_demo (dq_new Lifo, \<lambda>_. Resting) =
     [Invoke 0 (DPush 7), Return 0 DPushed, Invoke 0 (DPush 8), Return 0 DPushed, Invoke 1 DSteal, Invoke 0 DPop,
      Return 0 (DPopped (Some 8)), Return 1 (DStolen (Success 7))]"
  by code_simp

theorem deque_linearizable_witness:
  "\<exists>xs stat. ao_run (dq_spec Lifo) ([], \<lambda>_. Quiet)
     [Invoke 0 (DPush 7), Return 0 DPushed, Invoke 0 (DPush 8), Return 0 DPushed, Invoke 1 DSteal, Invoke 0 DPop,
      Return 0 (DPopped (Some (8 :: nat))), Return 1 (DStolen (Success 7))] (xs, stat)"
proof -
  have "length deque_demo \<le> 2 ^ 60" "list_all (permitted dq_may) deque_demo" by (simp_all add: deque_demo_def)
  from deque_linearizable [OF this, of Lifo] show ?thesis unfolding deque_demo_trace by blast
qed

text \<open>
  C31: Combining the results of several steals. The first success wins, whatever comes before; without one,
  the result asks for a retry if any of them did, and is empty if all were; folding with \<^verbatim>\<open>or_else\<close>
  gives the same as collecting.
\<close>

theorem steal_combination:
  "steal_from_iter ss =
     (case find steal_is_success ss of
        Some s \<Rightarrow> s
      | None \<Rightarrow> if list_ex steal_is_retry ss then Retry else Empty) \<and>
   steal_from_iter ss = foldr (\<lambda>s r. steal_or_else s (\<lambda>_. r)) ss Empty"
proof -
  have 1: "steal_collect retry ss =
     (case find steal_is_success ss of
        Some s \<Rightarrow> s
      | None \<Rightarrow> if retry \<or> list_ex steal_is_retry ss then Retry else Empty)" for retry
    by (induction retry ss rule: steal_collect.induct) (auto split: option.split)
  have 2: "foldr (\<lambda>s r. steal_or_else s (\<lambda>_. r)) ss Empty = steal_collect False ss"
    "steal_or_else Retry (\<lambda>_. steal_collect False ss) = steal_collect True ss"
  proof (induction ss)
    case (Cons s ss)
    { case 1 show ?case using Cons by (cases s) simp_all }
    { case 2 show ?case using Cons by (cases s) (auto split: steal.splits) }
  qed simp_all
  show ?thesis unfolding steal_from_iter_def 2(1) using 1 [of False] by simp
qed

end
