(* ===== verification/MS_Queue.thy ===== *)
theory MS_Queue
  imports Atomic_Object
begin

text \<open>
  \<^verbatim>\<open>crossbeam-epoch/src/sync/queue.rs\<close>: the Michael-Scott queue that holds the sealed bags of
  the collector, run by any number of threads. A tick is one access to \<^verbatim>\<open>head\<close>,
  \<^verbatim>\<open>tail\<close>, the \<^verbatim>\<open>next\<close> pointer or the data of a node. Nodes are named by the order of
  their allocation. A node that is retired with \<^verbatim>\<open>defer_destroy\<close> keeps its memory as long as a
  thread is pinned that may still know it (theory \<open>Epoch_Reclaim\<close>), so names are not reused here; that
  nothing in the queue refers to a retired node is proved below.
\<close>

section \<open>Nodes and the queue\<close>

record 'a msq_node =
  node_data :: "'a option"
  node_next :: "nat option"

record 'a msq =
  mq_head :: nat
  mq_tail :: nat
  mq_nodes :: "nat \<Rightarrow> 'a msq_node"
  mq_alloc :: nat
  mq_retired :: "nat list"

definition sentinel :: "'a msq_node" where
  "sentinel = \<lparr>node_data = None, node_next = None\<rparr>"

definition msq_new :: "'a msq" where
  "msq_new = \<lparr>mq_head = 0, mq_tail = 0, mq_nodes = (\<lambda>_. sentinel), mq_alloc = 1, mq_retired = []\<rparr>"

text \<open>\<^verbatim>\<open>compare_exchange\<close> on the tail, whose result the code ignores.\<close>

definition cas_tail :: "nat \<Rightarrow> nat \<Rightarrow> 'a msq \<Rightarrow> 'a msq" where
  "cas_tail old new q = (if mq_tail q = old then q\<lparr>mq_tail := new\<rparr> else q)"

definition msq_next :: "'a msq \<Rightarrow> nat \<Rightarrow> nat option" where
  "msq_next q x = node_next (mq_nodes q x)"

definition msq_data :: "'a msq \<Rightarrow> nat \<Rightarrow> 'a option" where
  "msq_data q x = node_data (mq_nodes q x)"

section \<open>The machines\<close>

text \<open>\<^verbatim>\<open>try_pop\<close> has no condition.\<close>

datatype 'a msq_op = MPush 'a | MTryPop "('a \<Rightarrow> bool) option"

datatype 'a msq_ret = MPushed | MPopped "'a option"

datatype 'a msq_pc =
    MAlloc 'a
  | MLoadTail nat
  | MLoadNext nat nat
  | MHelp nat nat nat
  | MLink nat nat
  | MSwing nat nat
  | MLoadHead "('a \<Rightarrow> bool) option"
  | MPopNext "('a \<Rightarrow> bool) option" nat
  | MCondition "('a \<Rightarrow> bool) option" nat nat
  | MCasHead "('a \<Rightarrow> bool) option" nat nat
  | MPopTail nat nat
  | MFixTail nat nat
  | MRetire nat nat
  | MUndefined

fun msq_start :: "'a msq_op \<Rightarrow> 'a msq_pc" where
  "msq_start (MPush t) = MAlloc t"
| "msq_start (MTryPop c) = MLoadHead c"

type_synonym 'a msq_thread = "('a msq_pc, 'a msq_ret) thread"

text \<open>\<^verbatim>\<open>push\<close> and \<^verbatim>\<open>push_internal\<close>.\<close>

fun msq_push_tick :: "'a msq \<Rightarrow> 'a msq_pc \<Rightarrow> 'a msq \<times> 'a msq_thread" where
  "msq_push_tick q (MAlloc t) =
     (let new = mq_alloc q in
      (q\<lparr>mq_nodes := (mq_nodes q)(new := \<lparr>node_data = Some t, node_next = None\<rparr>), mq_alloc := Suc new\<rparr>,
       Running (MLoadTail new)))"
| "msq_push_tick q (MLoadTail new) = (q, Running (MLoadNext new (mq_tail q)))"
| "msq_push_tick q (MLoadNext new onto) =
     (case msq_next q onto of
        Some nxt \<Rightarrow> (q, Running (MHelp new onto nxt))
      | None \<Rightarrow> (q, Running (MLink new onto)))"
| "msq_push_tick q (MHelp new onto nxt) = (cas_tail onto nxt q, Running (MLoadTail new))"
| "msq_push_tick q (MLink new onto) =
     (if msq_next q onto = None
      then (q\<lparr>mq_nodes := (mq_nodes q)(onto := (mq_nodes q onto)\<lparr>node_next := Some new\<rparr>)\<rparr>, Running (MSwing new onto))
      else (q, Running (MLoadTail new)))"
| "msq_push_tick q (MSwing new onto) = (cas_tail onto new q, Done MPushed)"
| "msq_push_tick q pc = (q, Running pc)"

text \<open>\<^verbatim>\<open>try_pop\<close>, \<^verbatim>\<open>try_pop_if\<close>, \<^verbatim>\<open>pop_internal\<close> and \<^verbatim>\<open>pop_if_internal\<close>.\<close>

fun msq_pop_tick :: "'a msq \<Rightarrow> 'a msq_pc \<Rightarrow> 'a msq \<times> 'a msq_thread" where
  "msq_pop_tick q (MLoadHead c) = (q, Running (MPopNext c (mq_head q)))"
| "msq_pop_tick q (MPopNext c h) =
     (case msq_next q h of
        None \<Rightarrow> (q, Done (MPopped None))
      | Some n \<Rightarrow> (q, Running (MCondition c h n)))"
| "msq_pop_tick q (MCondition c h n) =
     (case c of
        None \<Rightarrow> (q, Running (MCasHead c h n))
      | Some p \<Rightarrow>
          (case msq_data q n of
             None \<Rightarrow> (q, Running MUndefined)
           | Some v \<Rightarrow> if p v then (q, Running (MCasHead c h n)) else (q, Done (MPopped None))))"
| "msq_pop_tick q (MCasHead c h n) =
     (if mq_head q = h then (q\<lparr>mq_head := n\<rparr>, Running (MPopTail h n)) else (q, Running (MLoadHead c)))"
| "msq_pop_tick q (MPopTail h n) = (q, Running (if mq_tail q = h then MFixTail h n else MRetire h n))"
| "msq_pop_tick q (MFixTail h n) = (cas_tail h n q, Running (MRetire h n))"
| "msq_pop_tick q (MRetire h n) =
     (case msq_data q n of
        None \<Rightarrow> (q, Running MUndefined)
      | Some v \<Rightarrow> (q\<lparr>mq_retired := h # mq_retired q\<rparr>, Done (MPopped (Some v))))"
| "msq_pop_tick q pc = (q, Running pc)"

fun msq_pushing :: "'a msq_pc \<Rightarrow> bool" where
  "msq_pushing (MAlloc _) = True" | "msq_pushing (MLoadTail _) = True" | "msq_pushing (MLoadNext _ _) = True"
| "msq_pushing (MHelp _ _ _) = True" | "msq_pushing (MLink _ _) = True" | "msq_pushing (MSwing _ _) = True"
| "msq_pushing _ = False"

definition msq_tick :: "unit \<Rightarrow> 'a msq \<Rightarrow> 'a msq_pc \<Rightarrow> 'a msq \<times> 'a msq_thread" where
  "msq_tick ch q pc = (if msq_pushing pc then msq_push_tick q pc else msq_pop_tick q pc)"

text \<open>
  The specification keeps the values that have left the queue beside those in it. A pop without condition finds
  nothing only in an empty queue; a pop with a condition also when a value that is at the front, or has been
  there before, fails the condition.
\<close>

fun msq_spec :: "'a msq_op \<Rightarrow> 'a list \<times> 'a list \<Rightarrow> 'a msq_ret \<Rightarrow> 'a list \<times> 'a list \<Rightarrow> bool" where
  "msq_spec (MPush t) (old, xs) r x' \<longleftrightarrow> r = MPushed \<and> x' = (old, xs @ [t])"
| "msq_spec (MTryPop c) (old, xs) r x' \<longleftrightarrow>
     (\<exists>v ys. xs = v # ys \<and> (case c of None \<Rightarrow> True | Some p \<Rightarrow> p v) \<and> r = MPopped (Some v) \<and> x' = (old @ [v], ys)) \<or>
     r = MPopped None \<and> x' = (old, xs) \<and> (xs = [] \<or> (\<exists>p v. c = Some p \<and> v \<in> set (old @ take 1 xs) \<and> \<not> p v))"

section \<open>The chain of nodes\<close>

text \<open>All nodes that were ever linked, in order; the head and the tail are positions in the chain.\<close>

definition chain :: "'a msq \<Rightarrow> nat list \<Rightarrow> bool" where
  "chain q ns \<longleftrightarrow> ns \<noteq> [] \<and> distinct ns \<and> (\<forall>x\<in>set ns. x < mq_alloc q) \<and>
     (\<forall>p. Suc p < length ns \<longrightarrow> msq_next q (ns ! p) = Some (ns ! Suc p)) \<and> msq_next q (last ns) = None"

definition msq_base :: "'a msq \<Rightarrow> nat list \<Rightarrow> nat \<Rightarrow> nat \<Rightarrow> 'a list \<times> 'a list \<Rightarrow> bool" where
  "msq_base q ns hi ti x \<longleftrightarrow> chain q ns \<and> hi < length ns \<and> ti < length ns \<and> length ns \<le> ti + 2 \<and> mq_head q = ns ! hi \<and> mq_tail q = ns ! ti \<and>
     length (fst x) = hi \<and> map Some (fst x @ snd x) = map (msq_data q) (tl ns) \<and>
     (\<forall>y\<in>set (mq_retired q). \<exists>p. y = ns ! p \<and> p < hi \<and> p < ti)"

text \<open>A node that a thread has allocated and not linked yet.\<close>

fun unlinked :: "'a msq_thread \<Rightarrow> nat option" where
  "unlinked (Running (MLoadTail new)) = Some new"
| "unlinked (Running (MLoadNext new onto)) = Some new"
| "unlinked (Running (MHelp new onto nxt)) = Some new"
| "unlinked (Running (MLink new onto)) = Some new"
| "unlinked _ = None"

definition fresh :: "'a msq \<Rightarrow> nat list \<Rightarrow> nat \<Rightarrow> ('a msq_op, 'a msq_ret) status \<Rightarrow> bool" where
  "fresh q ns new st \<longleftrightarrow> new < mq_alloc q \<and> new \<notin> set ns \<and> msq_next q new = None \<and>
     (\<exists>t. msq_data q new = Some t \<and> st = Pending (MPush t))"

definition linked_pair :: "nat list \<Rightarrow> nat \<Rightarrow> nat \<Rightarrow> nat \<Rightarrow> bool" where
  "linked_pair ns p h n \<longleftrightarrow> Suc p < length ns \<and> h = ns ! p \<and> n = ns ! Suc p"

fun msq_pc_ok :: "'a msq \<Rightarrow> nat list \<Rightarrow> nat \<Rightarrow> nat \<Rightarrow> 'a msq_pc \<Rightarrow> ('a msq_op, 'a msq_ret) status \<Rightarrow> bool" where
  "msq_pc_ok q ns hi ti (MAlloc t) st \<longleftrightarrow> st = Pending (MPush t)"
| "msq_pc_ok q ns hi ti (MLoadTail new) st \<longleftrightarrow> fresh q ns new st"
| "msq_pc_ok q ns hi ti (MLoadNext new onto) st \<longleftrightarrow> fresh q ns new st \<and> (\<exists>p\<le>ti. onto = ns ! p)"
| "msq_pc_ok q ns hi ti (MHelp new onto nxt) st \<longleftrightarrow> fresh q ns new st \<and> (\<exists>p. linked_pair ns p onto nxt)"
| "msq_pc_ok q ns hi ti (MLink new onto) st \<longleftrightarrow> fresh q ns new st \<and> (\<exists>p\<le>ti. onto = ns ! p)"
| "msq_pc_ok q ns hi ti (MSwing new onto) st \<longleftrightarrow> (\<exists>p. linked_pair ns p onto new) \<and> st = Answered MPushed"
| "msq_pc_ok q ns hi ti (MLoadHead c) st \<longleftrightarrow> st = Pending (MTryPop c)"
| "msq_pc_ok q ns hi ti (MPopNext c h) st \<longleftrightarrow> (\<exists>p\<le>hi. h = ns ! p) \<and> st = Pending (MTryPop c)"
| "msq_pc_ok q ns hi ti (MCondition c h n) st \<longleftrightarrow> (\<exists>p\<le>hi. linked_pair ns p h n) \<and> st = Pending (MTryPop c)"
| "msq_pc_ok q ns hi ti (MCasHead c h n) st \<longleftrightarrow> (\<exists>p\<le>hi. linked_pair ns p h n) \<and> st = Pending (MTryPop c) \<and>
     (case c of None \<Rightarrow> True | Some p \<Rightarrow> \<exists>v. msq_data q n = Some v \<and> p v)"
| "msq_pc_ok q ns hi ti (MPopTail h n) st \<longleftrightarrow> (\<exists>p<hi. linked_pair ns p h n) \<and>
     (\<exists>v. msq_data q n = Some v \<and> st = Answered (MPopped (Some v)))"
| "msq_pc_ok q ns hi ti (MFixTail h n) st \<longleftrightarrow> (\<exists>p<hi. linked_pair ns p h n) \<and>
     (\<exists>v. msq_data q n = Some v \<and> st = Answered (MPopped (Some v)))"
| "msq_pc_ok q ns hi ti (MRetire h n) st \<longleftrightarrow> (\<exists>p<hi. p < ti \<and> linked_pair ns p h n) \<and>
     (\<exists>v. msq_data q n = Some v \<and> st = Answered (MPopped (Some v)))"
| "msq_pc_ok q ns hi ti MUndefined st \<longleftrightarrow> False"


fun msq_thread_ok :: "'a msq \<Rightarrow> nat list \<Rightarrow> nat \<Rightarrow> nat \<Rightarrow> 'a msq_thread \<Rightarrow> ('a msq_op, 'a msq_ret) status \<Rightarrow> bool" where
  "msq_thread_ok q ns hi ti Resting st \<longleftrightarrow> st = Quiet"
| "msq_thread_ok q ns hi ti (Done r) st \<longleftrightarrow> st = Answered r"
| "msq_thread_ok q ns hi ti (Running pc) st \<longleftrightarrow> msq_pc_ok q ns hi ti pc st"

definition msq_good ::
  "nat \<Rightarrow> 'a msq \<Rightarrow> (tid \<Rightarrow> 'a msq_thread) \<Rightarrow> 'a list \<times> 'a list \<Rightarrow> (tid \<Rightarrow> ('a msq_op, 'a msq_ret) status) \<Rightarrow> bool" where
  "msq_good n q ts x st \<longleftrightarrow> (\<exists>ns hi ti. msq_base q ns hi ti x \<and> (\<forall>i. msq_thread_ok q ns hi ti (ts i) (st i)) \<and>
     (\<forall>i j new. unlinked (ts i) = Some new \<and> unlinked (ts j) = Some new \<longrightarrow> i = j))"

lemma msq_goodI:
  assumes "msq_base q' ns hi ti x" "\<And>j. j \<noteq> i \<Longrightarrow> msq_thread_ok q' ns hi ti (ts j) (st j)" "msq_thread_ok q' ns hi ti t s"
    "\<And>i j new. unlinked (ts i) = Some new \<Longrightarrow> unlinked (ts j) = Some new \<Longrightarrow> i = j"
    "\<And>j new. unlinked t = Some new \<Longrightarrow> unlinked (ts j) = Some new \<Longrightarrow> i = j"
  shows "msq_good n q' (ts(i := t)) x (st(i := s))"
proof -
  have "msq_thread_ok q' ns hi ti ((ts(i := t)) j) ((st(i := s)) j)" for j using assms(2,3) by simp
  moreover have "a = b" if "unlinked ((ts(i := t)) a) = Some new" "unlinked ((ts(i := t)) b) = Some new" for a b new
    using that assms(4,5) by (cases "a = i"; cases "b = i") auto
  ultimately show ?thesis unfolding msq_good_def using assms(1) by blast
qed

lemma chain_inj: "chain q ns \<Longrightarrow> p < length ns \<Longrightarrow> r < length ns \<Longrightarrow> ns ! p = ns ! r \<longleftrightarrow> p = r"
  by (simp add: chain_def nth_eq_iff_index_eq)

lemma chain_next:
  assumes "chain q ns" "p < length ns"
  shows "msq_next q (ns ! p) = (if Suc p < length ns then Some (ns ! Suc p) else None)"
  using assms unfolding chain_def by (cases "Suc p < length ns") (auto simp: last_conv_nth le_Suc_eq not_less)

text \<open>The values of the chain.\<close>

lemma base_data:
  assumes "msq_base q ns hi ti x" "Suc p < length ns"
  shows "msq_data q (ns ! Suc p) = Some ((fst x @ snd x) ! p)"
proof -
  have "map Some (fst x @ snd x) ! p = map (msq_data q) (tl ns) ! p" using assms(1) by (simp only: msq_base_def)
  moreover have "length (fst x @ snd x) = length (tl ns)" using assms(1) by (metis length_map msq_base_def)
  ultimately show ?thesis using assms(2) by (simp add: nth_tl del: map_append)
qed

lemma base_lengths:
  assumes "msq_base q ns hi ti x"
  shows "length (snd x) = length ns - Suc hi"
proof -
  have "length (map Some (fst x @ snd x)) = length (map (msq_data q) (tl ns))" using assms by (simp only: msq_base_def)
  then show ?thesis using assms by (simp add: msq_base_def)
qed

text \<open>States that only differ in the tail, the head or the list of retired nodes.\<close>

lemma msq_upd_simps [simp]:
  "msq_next (q\<lparr>mq_head := h\<rparr>) = msq_next q" "msq_next (q\<lparr>mq_tail := t\<rparr>) = msq_next q"
  "msq_next (q\<lparr>mq_retired := r\<rparr>) = msq_next q" "msq_data (q\<lparr>mq_head := h\<rparr>) = msq_data q"
  "msq_data (q\<lparr>mq_tail := t\<rparr>) = msq_data q" "msq_data (q\<lparr>mq_retired := r\<rparr>) = msq_data q"
  by (simp_all add: fun_eq_iff msq_next_def msq_data_def)

lemma msq_thread_mono:
  assumes "msq_thread_ok q ns hi ti t s" "msq_next q' = msq_next q" "msq_data q' = msq_data q" "mq_alloc q' = mq_alloc q"
    "hi \<le> hi'" "ti \<le> ti'"
  shows "msq_thread_ok q' ns hi' ti' t s"
proof (cases t)
  case (Running pc)
  have f: "fresh q' ns new s = fresh q ns new s" for new using assms by (simp add: fresh_def)
  show ?thesis
    by (cases pc) (use assms Running f in \<open>auto intro: order_trans less_le_trans split: option.splits\<close>)
qed (use assms in auto)

lemma linked_pair_snoc: "linked_pair ns p h n \<Longrightarrow> linked_pair (ns @ [new]) p h n"
  by (simp add: linked_pair_def nth_append)

lemma chain_alloc: "chain q ns \<Longrightarrow> p < length ns \<Longrightarrow> ns ! p < mq_alloc q"
  by (simp add: chain_def)

text \<open>Allocating a node, and linking it at the end.\<close>

lemma msq_thread_alloc:
  assumes "chain q ns" "msq_thread_ok q ns hi ti t s" "mq_alloc q' = Suc (mq_alloc q)"
    "\<And>x. x < mq_alloc q \<Longrightarrow> mq_nodes q' x = mq_nodes q x"
  shows "msq_thread_ok q' ns hi ti t s"
proof (cases t)
  case (Running pc)
  have f: "fresh q ns new s \<Longrightarrow> fresh q' ns new s" for new
    using assms(3,4) by (auto simp: fresh_def msq_next_def msq_data_def)
  have d: "linked_pair ns p h n \<Longrightarrow> msq_data q' n = msq_data q n" for p h n
    using chain_alloc [OF assms(1)] assms(4) by (auto simp: linked_pair_def msq_data_def)
  show ?thesis
    by (cases pc) (use assms(2) Running f d in \<open>auto split: option.splits\<close>)
qed (use assms in auto)

lemma msq_thread_link:
  assumes "msq_thread_ok q ns hi ti t s" "mq_alloc q' = mq_alloc q" "hi < length ns" "ti < length ns"
    "\<And>x. msq_data q' x = msq_data q x" "\<And>x. x \<notin> set ns \<Longrightarrow> msq_next q' x = msq_next q x" "unlinked t \<noteq> Some new"
  shows "msq_thread_ok q' (ns @ [new]) hi ti t s"
proof (cases t)
  case (Running pc)
  have f: "fresh q ns x s \<Longrightarrow> x \<noteq> new \<Longrightarrow> fresh q' (ns @ [new]) x s" for x
    using assms(2,5,6) by (auto simp: fresh_def)
  have n: "p \<le> hi \<Longrightarrow> (ns @ [new]) ! p = ns ! p" "p \<le> ti \<Longrightarrow> (ns @ [new]) ! p = ns ! p" for p
    using assms(3,4) by (simp_all add: nth_append)
  show ?thesis
  proof (cases pc)
    case (MLoadNext x onto)
    then show ?thesis using assms(1,7) Running f n by (auto intro: exI [of _ "_ :: nat"])
  next
    case (MLink x onto)
    then show ?thesis using assms(1,7) Running f n by auto
  next
    case (MPopNext c h)
    then show ?thesis using assms(1) Running n by auto
  qed (use assms(1,5,7) Running f linked_pair_snoc [of ns _ _ _ new] in \<open>fastforce split: option.splits\<close>)+
qed (use assms in auto)

section \<open>Ticks\<close>

definition msq_outcome ::
  "'a msq \<Rightarrow> (tid \<Rightarrow> 'a msq_thread) \<Rightarrow> 'a list \<times> 'a list \<Rightarrow> (tid \<Rightarrow> ('a msq_op, 'a msq_ret) status) \<Rightarrow> tid \<Rightarrow>
     'a msq_thread \<Rightarrow> bool" where
  "msq_outcome q' ts x st i t \<longleftrightarrow> msq_good 0 q' (ts(i := t)) x st \<or>
     (\<exists>oper r x'. st i = Pending oper \<and> msq_spec oper x r x' \<and> msq_good 0 q' (ts(i := t)) x' (st(i := Answered r)))"

locale msq_state =
  fixes q :: "'a msq" and ts :: "tid \<Rightarrow> 'a msq_thread" and x :: "'a list \<times> 'a list"
    and st :: "tid \<Rightarrow> ('a msq_op, 'a msq_ret) status" and ns :: "nat list" and hi ti :: nat
  assumes base: "msq_base q ns hi ti x"
    and threads: "msq_thread_ok q ns hi ti (ts i) (st i)"
    and owners: "unlinked (ts i) = Some new \<Longrightarrow> unlinked (ts j) = Some new \<Longrightarrow> i = j"
begin

lemma bs: "chain q ns" "hi < length ns" "ti < length ns" "length ns \<le> ti + 2" "mq_head q = ns ! hi" "mq_tail q = ns ! ti"
  "length (fst x) = hi" "map Some (fst x @ snd x) = map (msq_data q) (tl ns)"
  "y \<in> set (mq_retired q) \<Longrightarrow> \<exists>p. y = ns ! p \<and> p < hi \<and> p < ti"
  using base by (simp_all only: msq_base_def)

lemma owner_keep:
  assumes "unlinked t = unlinked (ts i) \<or> unlinked t = None" "unlinked t = Some new" "unlinked (ts j) = Some new"
  shows "i = j"
proof -
  have "unlinked (ts i) = Some new" using assms(1,2) by (elim disjE) simp_all
  then show ?thesis using assms(3) by (rule owners)
qed

text \<open>Nothing but the thread's own point changes.\<close>

lemma silent:
  assumes "msq_thread_ok q ns hi ti t (st i)" "unlinked t = unlinked (ts i) \<or> unlinked t = None"
  shows "msq_outcome q ts x st i t"
proof -
  have "msq_good 0 q (ts(i := t)) x (st(i := st i))"
    by (rule msq_goodI [OF base threads assms(1) owners owner_keep [OF assms(2)]])
  then show ?thesis by (simp add: msq_outcome_def)
qed

lemma effect_none:
  assumes "st i = Pending (MTryPop c)" "snd x = [] \<or> (\<exists>p v. c = Some p \<and> v \<in> set (fst x @ take 1 (snd x)) \<and> \<not> p v)"
  shows "msq_outcome q ts x st i (Done (MPopped None))"
proof -
  have "msq_good 0 q (ts(i := Done (MPopped None))) x (st(i := Answered (MPopped None)))"
    by (rule msq_goodI [OF base]) (use threads owners in auto)
  moreover have "msq_spec (MTryPop c) x (MPopped None) x" using assms(2) by (cases x) simp
  ultimately show ?thesis using assms(1) unfolding msq_outcome_def by blast
qed

text \<open>Moving the tail to the next node, if it is still where it was seen.\<close>

lemma tail_moves:
  assumes "linked_pair ns p onto nxt"
  obtains ti' where "ti \<le> ti'" "p < ti' \<or> p > ti" "msq_base (cas_tail onto nxt q) ns hi ti' x"
    "\<And>t s. msq_thread_ok q ns hi ti t s \<Longrightarrow> msq_thread_ok (cas_tail onto nxt q) ns hi ti' t s"
proof (cases "mq_tail q = onto")
  case True
  then have p: "p = ti" using assms chain_inj [OF bs(1), of ti p] bs(3,6) by (simp add: linked_pair_def)
  have r: "\<exists>p. y = ns ! p \<and> p < hi \<and> p < Suc ti" if "y \<in> set (mq_retired q)" for y
    using bs(9) [OF that] less_SucI by blast
  have "msq_base (q\<lparr>mq_tail := nxt\<rparr>) ns hi (Suc ti) x"
    using base assms r p by (auto simp: msq_base_def linked_pair_def chain_def)
  moreover have "msq_thread_ok (q\<lparr>mq_tail := nxt\<rparr>) ns hi (Suc ti) t s" if "msq_thread_ok q ns hi ti t s" for t s
    by (rule msq_thread_mono [OF that]) simp_all
  ultimately show thesis using True p by (intro that [of "Suc ti"]) (simp_all add: cas_tail_def)
next
  case False
  then have "p \<noteq> ti" using assms bs(6) by (auto simp: linked_pair_def)
  then show thesis using False base by (intro that [of ti]) (auto simp: cas_tail_def)
qed

lemma tail_silent:
  assumes "linked_pair ns p onto nxt" "unlinked t = unlinked (ts i) \<or> unlinked t = None"
    "\<And>ti'. ti \<le> ti' \<Longrightarrow> p < ti' \<or> p > ti \<Longrightarrow> msq_thread_ok (cas_tail onto nxt q) ns hi ti' t (st i)"
  shows "msq_outcome (cas_tail onto nxt q) ts x st i t"
proof -
  obtain ti' where ti': "ti \<le> ti'" "p < ti' \<or> p > ti" "msq_base (cas_tail onto nxt q) ns hi ti' x"
    "\<And>t s. msq_thread_ok q ns hi ti t s \<Longrightarrow> msq_thread_ok (cas_tail onto nxt q) ns hi ti' t s"
    using tail_moves [OF assms(1)] by blast
  have "msq_good 0 (cas_tail onto nxt q) (ts(i := t)) x (st(i := st i))"
    by (rule msq_goodI [OF ti'(3) ti'(4) [OF threads] assms(3) [OF ti'(1,2)] owners owner_keep [OF assms(2)]])
  then show ?thesis by (simp add: msq_outcome_def)
qed

lemma cas_tail_simps: "msq_next (cas_tail a b q) = msq_next q" "msq_data (cas_tail a b q) = msq_data q"
  "mq_alloc (cas_tail a b q) = mq_alloc q"
  by (simp_all add: cas_tail_def)

lemma alloc_ok:
  assumes "ts i = Running (MAlloc t)"
  shows "case msq_push_tick q (MAlloc t) of (q', t') \<Rightarrow> msq_outcome q' ts x st i t'"
proof -
  let ?new = "mq_alloc q"
  let ?q = "q\<lparr>mq_nodes := (mq_nodes q)(?new := \<lparr>node_data = Some t, node_next = None\<rparr>), mq_alloc := Suc ?new\<rparr>"
  have old: "mq_nodes ?q y = mq_nodes q y" if "y < ?new" for y using that by simp
  have in_ns: "y < ?new" if "y \<in> set ns" for y using that bs(1) by (simp add: chain_def)
  have unl: "new < ?new" if "unlinked (ts j) = Some new" for j new
  proof (cases "ts j")
    case (Running pc)
    then show ?thesis using that threads [of j] by (cases pc) (auto simp: fresh_def)
  qed (use that in auto)
  have "map (msq_data ?q) (tl ns) = map (msq_data q) (tl ns)"
    using in_ns [of ?new] bs(1) list.set_sel(2) [of ns ?new] by (auto simp: msq_data_def chain_def)
  moreover have "msq_next ?q y = msq_next q y" if "y \<in> set ns" for y
    using in_ns [OF that] by (simp add: msq_next_def)
  then have "chain ?q ns" using bs(1) by (auto simp: chain_def less_SucI Suc_lessD)
  ultimately have "msq_base ?q ns hi ti x" using base by (simp add: msq_base_def)
  moreover have "fresh ?q ns ?new (st i)"
    using threads [of i] assms in_ns by (auto simp: fresh_def msq_next_def msq_data_def)
  moreover have "msq_thread_ok ?q ns hi ti (ts j) (st j)" for j by (rule msq_thread_alloc [OF bs(1) threads]) simp_all
  moreover have "unlinked (ts j) \<noteq> Some ?new" for j using unl by blast
  ultimately have "msq_good 0 ?q (ts(i := Running (MLoadTail ?new))) x (st(i := st i))"
    by (intro msq_goodI owners) simp_all
  then show ?thesis by (simp add: msq_outcome_def Let_def)
qed

lemma link_ok:
  assumes "ts i = Running (MLink new onto)"
  shows "case msq_push_tick q (MLink new onto) of (q', t') \<Rightarrow> msq_outcome q' ts x st i t'"
proof (cases "msq_next q onto = None")
  case True
  let ?q = "q\<lparr>mq_nodes := (mq_nodes q)(onto := (mq_nodes q onto)\<lparr>node_next := Some new\<rparr>)\<rparr>"
  obtain p t where p: "p \<le> ti" "onto = ns ! p" and f: "new < mq_alloc q" "new \<notin> set ns" "msq_next q new = None"
    "msq_data q new = Some t" "st i = Pending (MPush t)"
    using threads [of i] assms by (auto simp: fresh_def)
  have "Suc p = length ns" using True chain_next [OF bs(1), of p] p bs(3) by (simp split: if_splits)
  then have "p = ti" using p bs(3) by simp
  then have ti: "Suc ti = length ns" "onto = ns ! ti" using p \<open>Suc p = length ns\<close> by simp_all
  have d: "msq_data ?q y = msq_data q y" for y by (simp add: msq_data_def)
  have nx: "msq_next ?q y = (if y = onto then Some new else msq_next q y)" for y by (simp add: msq_next_def)
  have on: "onto \<in> set ns" using ti by simp
  have ch: "chain ?q (ns @ [new])"
    unfolding chain_def
  proof (intro conjI allI impI)
    show "distinct (ns @ [new])" "\<forall>x\<in>set (ns @ [new]). x < mq_alloc ?q" using bs(1) f by (auto simp: chain_def)
    show "msq_next ?q (last (ns @ [new])) = None" using f on by (auto simp: nx)
    fix r assume "Suc r < length (ns @ [new])"
    then have r: "r \<le> ti" using ti by simp
    show "msq_next ?q ((ns @ [new]) ! r) = Some ((ns @ [new]) ! Suc r)"
    proof (cases "r = ti")
      case False
      then have "ns ! r \<noteq> onto" "msq_next q (ns ! r) = Some (ns ! Suc r)" "Suc r < length ns"
        using r ti chain_inj [OF bs(1), of r ti] chain_next [OF bs(1), of r] by simp_all
      then show ?thesis by (simp add: nx nth_append)
    next
      case True
      then have "(ns @ [new]) ! r = onto" "(ns @ [new]) ! Suc r = new" using ti by (simp_all add: nth_append)
      then show ?thesis using nx [of onto] by (simp only:) simp
    qed
  qed simp
  have "msq_base ?q (ns @ [new]) hi ti (fst x, snd x @ [t])"
    unfolding msq_base_def
  proof (intro conjI)
    show "map Some (fst (fst x, snd x @ [t]) @ snd (fst x, snd x @ [t])) = map (msq_data ?q) (tl (ns @ [new]))"
      using bs(1,8) f(4) by (simp add: d chain_def)
    show "\<forall>y\<in>set (mq_retired ?q). \<exists>p. y = (ns @ [new]) ! p \<and> p < hi \<and> p < ti"
      using bs(2,9) by (fastforce simp: nth_append)
  qed (use ch bs ti in \<open>simp_all add: nth_append\<close>)
  moreover have "msq_thread_ok ?q (ns @ [new]) hi ti (ts j) (st j)" if "j \<noteq> i" for j
  proof (rule msq_thread_link [OF threads _ bs(2,3)])
    show "unlinked (ts j) \<noteq> Some new" using owners [of i new j] assms that by auto
  qed (use d nx on in auto)
  moreover have "linked_pair (ns @ [new]) ti onto new" using ti by (simp add: linked_pair_def nth_append)
  ultimately have "msq_good 0 ?q (ts(i := Running (MSwing new onto))) (fst x, snd x @ [t]) (st(i := Answered MPushed))"
    by (intro msq_goodI) (use owners in auto)
  moreover have "msq_spec (MPush t) x MPushed (fst x, snd x @ [t])" by (cases x) simp
  ultimately have "msq_outcome ?q ts x st i (Running (MSwing new onto))"
    using f(5) unfolding msq_outcome_def by blast
  then show ?thesis using True by simp
next
  case False
  then show ?thesis using assms threads [of i] by (auto intro!: silent)
qed

lemma push_tick_ok:
  assumes pc: "ts i = Running pc" "msq_pushing pc"
  shows "case msq_push_tick q pc of (q', t) \<Rightarrow> msq_outcome q' ts x st i t"
proof (cases pc)
  case (MHelp new onto nxt)
  then obtain p where "linked_pair ns p onto nxt" "fresh q ns new (st i)" using threads [of i] pc by auto
  then have "msq_outcome (cas_tail onto nxt q) ts x st i (Running (MLoadTail new))"
    using MHelp pc by (intro tail_silent) (auto simp: fresh_def cas_tail_simps)
  then show ?thesis using MHelp by simp
next
  case (MSwing new onto)
  then obtain p where "linked_pair ns p onto new" "st i = Answered MPushed" using threads [of i] pc by auto
  then have "msq_outcome (cas_tail onto new q) ts x st i (Done MPushed)" by (intro tail_silent) auto
  then show ?thesis using MSwing by simp
next
  case (MLoadNext new onto)
  then obtain p where p: "fresh q ns new (st i)" "p \<le> ti" "onto = ns ! p" using threads [of i] pc by auto
  then have "linked_pair ns p onto nxt" if "msq_next q onto = Some nxt" for nxt
    using that chain_next [OF bs(1), of p] bs(3) by (simp add: linked_pair_def split: if_splits)
  then show ?thesis using MLoadNext pc p by (auto intro!: silent split: option.split)
next
  case (MLoadTail new)
  then show ?thesis using threads [of i] pc bs(6) by (auto intro!: silent)
qed (use pc alloc_ok link_ok in auto)

lemma cas_head_ok:
  assumes "ts i = Running (MCasHead c h n)"
  shows "case msq_pop_tick q (MCasHead c h n) of (q', t') \<Rightarrow> msq_outcome q' ts x st i t'"
proof (cases "mq_head q = h")
  case True
  obtain p where p: "p \<le> hi" "linked_pair ns p h n" "st i = Pending (MTryPop c)"
    and c: "case c of None \<Rightarrow> True | Some p \<Rightarrow> \<exists>v. msq_data q n = Some v \<and> p v" using threads [of i] assms by auto
  have "p = hi" using True p chain_inj [OF bs(1), of hi p] bs(2,5) by (simp add: linked_pair_def)
  then have hi: "Suc hi < length ns" "n = ns ! Suc hi" "linked_pair ns hi h n" using p by (simp_all add: linked_pair_def)
  have "length (snd x) = length ns - Suc hi" by (rule base_lengths [OF base])
  then obtain v ys where v: "snd x = v # ys" using hi(1) by (cases "snd x") auto
  have data: "msq_data q n = Some v" using base_data [OF base hi(1)] bs(7) by (simp add: hi(2) v nth_append)
  let ?x = "(fst x @ [v], ys)"
  have "msq_base (q\<lparr>mq_head := n\<rparr>) ns (Suc hi) ti ?x"
    unfolding msq_base_def
  proof (intro conjI)
    show "map Some (fst ?x @ snd ?x) = map (msq_data (q\<lparr>mq_head := n\<rparr>)) (tl ns)" using bs(8) v by simp
    show "\<forall>y\<in>set (mq_retired (q\<lparr>mq_head := n\<rparr>)). \<exists>p. y = ns ! p \<and> p < Suc hi \<and> p < ti"
      using bs(9) by (fastforce intro: less_SucI)
  qed (use bs hi in \<open>simp_all add: chain_def\<close>)
  moreover have "msq_thread_ok (q\<lparr>mq_head := n\<rparr>) ns (Suc hi) ti (ts j) (st j)" for j
    by (rule msq_thread_mono [OF threads]) simp_all
  ultimately have "msq_good 0 (q\<lparr>mq_head := n\<rparr>) (ts(i := Running (MPopTail h n))) ?x (st(i := Answered (MPopped (Some v))))"
    by (intro msq_goodI) (use owners data hi(3) in auto)
  moreover have "msq_spec (MTryPop c) x (MPopped (Some v)) ?x" using c data v by (cases x) (auto split: option.splits)
  ultimately have "msq_outcome (q\<lparr>mq_head := n\<rparr>) ts x st i (Running (MPopTail h n))"
    using p(3) unfolding msq_outcome_def by blast
  then show ?thesis using True by simp
next
  case False
  then show ?thesis using assms threads [of i] by (auto intro!: silent)
qed

lemma condition_ok:
  assumes "ts i = Running (MCondition c h n)"
  shows "case msq_pop_tick q (MCondition c h n) of (q', t') \<Rightarrow> msq_outcome q' ts x st i t'"
proof -
  obtain p where p: "p \<le> hi" "linked_pair ns p h n" "st i = Pending (MTryPop c)" using threads [of i] assms by auto
  then have n: "Suc p < length ns" "n = ns ! Suc p" by (simp_all add: linked_pair_def)
  let ?v = "(fst x @ snd x) ! p"
  have data: "msq_data q n = Some ?v" using base_data [OF base n(1)] by (simp add: n(2))
  have "?v \<in> set (fst x @ take 1 (snd x))"
  proof (cases "p < hi")
    case True
    then show ?thesis using bs(7) by (simp add: nth_append)
  next
    case False
    then have "p = hi" "0 < length (snd x)" using p(1) n(1) base_lengths [OF base] by simp_all
    then show ?thesis using bs(7) by (cases "snd x") (simp_all add: nth_append)
  qed
  then have none: "msq_outcome q ts x st i (Done (MPopped None))" if "c = Some a" "\<not> a ?v" for a
    using that p(3) by (intro effect_none [of i c]) blast+
  have "msq_outcome q ts x st i (Running (MCasHead c h n))" if "case c of None \<Rightarrow> True | Some a \<Rightarrow> a ?v"
    using that p data by (intro silent) (auto split: option.splits)
  then show ?thesis using data none by (cases c) auto
qed

lemma pop_next_ok:
  assumes "ts i = Running (MPopNext c h)"
  shows "case msq_pop_tick q (MPopNext c h) of (q', t') \<Rightarrow> msq_outcome q' ts x st i t'"
proof -
  obtain p where p: "p \<le> hi" "h = ns ! p" "st i = Pending (MTryPop c)" using threads [of i] assms by auto
  have nx: "msq_next q h = (if Suc p < length ns then Some (ns ! Suc p) else None)"
    using chain_next [OF bs(1), of p] p bs(2) by simp
  show ?thesis
  proof (cases "Suc p < length ns")
    case True
    then have "linked_pair ns p h (ns ! Suc p)" using p by (simp add: linked_pair_def)
    then show ?thesis using True nx p by (auto intro!: silent)
  next
    case False
    then have "snd x = []" using base_lengths [OF base] p(1) by simp
    then show ?thesis using False nx p effect_none [of i c] by simp
  qed
qed

lemma retire_ok:
  assumes "ts i = Running (MRetire h n)"
  shows "case msq_pop_tick q (MRetire h n) of (q', t') \<Rightarrow> msq_outcome q' ts x st i t'"
proof -
  obtain p v where p: "p < hi" "p < ti" "linked_pair ns p h n" "msq_data q n = Some v"
    "st i = Answered (MPopped (Some v))" using threads [of i] assms by auto
  let ?q = "q\<lparr>mq_retired := h # mq_retired q\<rparr>"
  have "msq_base ?q ns hi ti x" using base p by (auto simp: msq_base_def chain_def linked_pair_def)
  moreover have "msq_thread_ok ?q ns hi ti (ts j) (st j)" for j by (rule msq_thread_mono [OF threads]) simp_all
  ultimately have "msq_good 0 ?q (ts(i := Done (MPopped (Some v)))) x (st(i := st i))"
    by (intro msq_goodI) (use owners p(5) in auto)
  then show ?thesis using p(4) by (simp add: msq_outcome_def)
qed

lemma pop_tail_ok:
  assumes "ts i = Running (MPopTail h n)"
  shows "case msq_pop_tick q (MPopTail h n) of (q', t') \<Rightarrow> msq_outcome q' ts x st i t'"
proof -
  obtain p v where p: "p < hi" "linked_pair ns p h n" "msq_data q n = Some v"
    "st i = Answered (MPopped (Some v))" using threads [of i] assms by auto
  have "p \<le> ti" using p(1) bs(2,4) by simp
  then have "p < ti" if "mq_tail q \<noteq> h" using that bs(6) p(2) by (auto simp: linked_pair_def le_less)
  then show ?thesis using p by (auto intro!: silent)
qed

lemma fix_tail_ok:
  assumes "ts i = Running (MFixTail h n)"
  shows "case msq_pop_tick q (MFixTail h n) of (q', t') \<Rightarrow> msq_outcome q' ts x st i t'"
proof -
  obtain p v where p: "p < hi" "linked_pair ns p h n" "msq_data q n = Some v"
    "st i = Answered (MPopped (Some v))" using threads [of i] assms by auto
  have "p \<le> ti" using p(1) bs(2,4) by simp
  then have "msq_outcome (cas_tail h n q) ts x st i (Running (MRetire h n))"
    by (intro tail_silent [OF p(2)]) (use p in \<open>auto simp: cas_tail_simps\<close>)
  then show ?thesis by simp
qed

lemma tick_ok:
  assumes pc: "ts i = Running pc" and t: "msq_tick ch q pc = (q', t)"
  shows "msq_outcome q' ts x st i t"
proof (cases "msq_pushing pc")
  case True
  then show ?thesis using push_tick_ok [OF pc True] t by (simp add: msq_tick_def)
next
  case False
  have "case msq_pop_tick q pc of (q', t) \<Rightarrow> msq_outcome q' ts x st i t"
  proof (cases pc)
    case (MLoadHead c)
    then show ?thesis using threads [of i] pc bs(5) by (auto intro!: silent)
  next
    case MUndefined
    then show ?thesis using threads [of i] pc by simp
  qed (use False pc cas_head_ok condition_ok pop_next_ok retire_ok pop_tail_ok fix_tail_ok in simp_all)
  then show ?thesis using t False by (simp add: msq_tick_def)
qed

end

section \<open>Linearizability and reclamation\<close>

lemma msq_simulation: "thread_simulation msq_start msq_tick msq_spec msq_good bound"
proof
  fix n and q :: "'a msq" and ts x st
  assume good: "msq_good n q ts x st"
  have any: "msq_good k = msq_good 0" for k :: nat by (simp add: msq_good_def fun_eq_iff)
  from good obtain ns hi ti where base: "msq_base q ns hi ti x" and thr: "\<And>i. msq_thread_ok q ns hi ti (ts i) (st i)"
    and own: "\<And>i j new. unlinked (ts i) = Some new \<Longrightarrow> unlinked (ts j) = Some new \<Longrightarrow> i = j"
    unfolding msq_good_def by blast
  show "msq_good (Suc n) q ts x st" using good unfolding any [of n] any [of "Suc n"] .
  { fix i and oper :: "'a msq_op" assume "ts i = Resting"
    moreover have "msq_thread_ok q ns hi ti (Running (msq_start oper)) (Pending oper)"
      "unlinked (Running (msq_start oper)) = None" by (cases oper; simp)+
    ultimately show "st i = Quiet \<and> msq_good n q (ts(i := Running (msq_start oper))) x (st(i := Pending oper))"
      using thr [of i] by (intro conjI msq_goodI [OF base thr _ own]) simp_all }
  { fix i pc ch q' t assume "ts i = Running pc" "msq_tick ch q pc = (q', t)"
    then have "msq_outcome q' ts x st i t"
      by (intro msq_state.tick_ok [of q ts x st ns hi ti i pc ch]) (unfold_locales, rule base, rule thr, rule own)
    then show "msq_good (Suc n) q' (ts(i := t)) x st \<or> (\<exists>oper r x'. st i = Pending oper \<and> msq_spec oper x r x' \<and>
        msq_good (Suc n) q' (ts(i := t)) x' (st(i := Answered r)))"
      unfolding msq_outcome_def any [of "Suc n"] . }
  { fix i r assume "ts i = Done r"
    then show "st i = Answered r \<and> msq_good n q (ts(i := Resting)) x (st(i := Quiet))"
      using thr [of i] by (intro conjI msq_goodI [OF base thr _ own]) simp_all }
qed

interpretation msq: thread_simulation msq_start msq_tick msq_spec msq_good bound for bound
  by (rule msq_simulation)

lemma msq_new_base: "msq_base msq_new [0] 0 0 ([], [])"
  by (simp add: msq_base_def chain_def msq_new_def msq_next_def sentinel_def)

lemma msq_new_good: "msq_good 0 msq_new (\<lambda>_. Resting) ([], []) (\<lambda>_. Quiet)"
  unfolding msq_good_def using msq_new_base by (intro exI [of _ "[0]"] exI [of _ 0]) auto

interpretation msq_initial: msq_state msq_new "\<lambda>_. Resting" "([], [])" "\<lambda>_. Quiet" "[0]" 0 0
  by unfold_locales (simp_all add: msq_new_base)

text \<open>The node that a thread is going to retire.\<close>

fun retiring :: "'a msq_thread \<Rightarrow> nat option" where
  "retiring (Running (MPopTail h n)) = Some h"
| "retiring (Running (MFixTail h n)) = Some h"
| "retiring (Running (MRetire h n)) = Some h"
| "retiring _ = None"

definition retired_once :: "'a msq \<Rightarrow> (tid \<Rightarrow> 'a msq_thread) \<Rightarrow> bool" where
  "retired_once q ts \<longleftrightarrow> distinct (mq_retired q) \<and> (\<forall>i h. retiring (ts i) = Some h \<longrightarrow> h \<notin> set (mq_retired q) \<and>
     (\<forall>j. retiring (ts j) = Some h \<longrightarrow> i = j))"

lemma retired_onceI:
  assumes "retired_once q ts" "mq_retired q' = mq_retired q" "retiring t = None \<or> retiring t = retiring (ts i)"
  shows "retired_once q' (ts(i := t))"
proof -
  have "retiring (ts j) = Some h" if "retiring ((ts(i := t)) j) = Some h" for j h
    using that assms(3) by (cases "j = i") simp_all
  then show ?thesis using assms(1,2) unfolding retired_once_def by metis
qed

context msq_state
begin

lemma retiring_before:
  assumes "retiring (ts j) = Some h"
  shows "\<exists>p<hi. h = ns ! p"
proof (cases "ts j")
  case (Running pc)
  then show ?thesis using threads [of j] assms by (cases pc) (auto simp: linked_pair_def)
qed (use assms in auto)

lemma head_not_retired: "mq_head q \<notin> set (mq_retired q)" "retiring (ts j) \<noteq> Some (mq_head q)"
  using bs(9) [of "mq_head q"] retiring_before [of j "mq_head q"] chain_inj [OF bs(1)] bs(2,5) by (auto dest: less_trans)

lemma once_tick:
  assumes once: "retired_once q ts" and pc: "ts i = Running pc" and t: "msq_tick ch q pc = (q', t)"
  shows "retired_once q' (ts(i := t))"
proof -
  have "pc \<noteq> MUndefined" using threads [of i] pc by auto
  then consider h n c where "pc = MCasHead c h n" "mq_head q = h" | h n where "pc = MRetire h n"
    | "mq_retired q' = mq_retired q" "retiring t = None \<or> retiring t = retiring (ts i)"
    using t pc by (cases pc) (auto simp: msq_tick_def cas_tail_def Let_def split: option.splits if_splits)
  then show ?thesis
  proof cases
    case 1
    then have "q' = q\<lparr>mq_head := n\<rparr>" "t = Running (MPopTail h n)" using t by (simp_all add: msq_tick_def)
    then show ?thesis using once 1 head_not_retired unfolding retired_once_def by auto
  next
    case 2
    then obtain v where "msq_data q n = Some v" using threads [of i] pc by auto
    then have "q' = q\<lparr>mq_retired := h # mq_retired q\<rparr>" "t = Done (MPopped (Some v))" using t 2 by (simp_all add: msq_tick_def)
    then show ?thesis using once 2 pc unfolding retired_once_def by (auto, metis retiring.simps(3))
  next
    case 3
    then show ?thesis using retired_onceI [OF once] by blast
  qed
qed

end

text \<open>What can be reached from a node.\<close>

definition reaches :: "'a msq \<Rightarrow> nat \<Rightarrow> nat \<Rightarrow> bool" where
  "reaches q a b \<longleftrightarrow> (\<exists>k. ((\<lambda>y. Option.bind y (msq_next q)) ^^ k) (Some a) = Some b)"

context msq_state
begin

lemma reach_up:
  assumes "p < length ns"
  shows "((\<lambda>y. Option.bind y (msq_next q)) ^^ k) (Some (ns ! p)) = (if p + k < length ns then Some (ns ! (p + k)) else None)"
proof (induction k)
  case (Suc k)
  then show ?case using chain_next [OF bs(1), of "p + k"] by auto
qed (use assms in simp)

lemma retired_unreachable:
  assumes "y \<in> set (mq_retired q)"
  shows "\<not> reaches q (mq_head q) y" "\<not> reaches q (mq_tail q) y"
proof -
  obtain p where p: "y = ns ! p" "p < hi" "p < ti" using bs(9) [OF assms] by blast
  then have "p < length ns" using bs(2) by simp
  then show "\<not> reaches q (mq_head q) y" "\<not> reaches q (mq_tail q) y"
    unfolding reaches_def bs(5,6) reach_up [OF bs(2)] reach_up [OF bs(3)]
    using p chain_inj [OF bs(1), of _ p] by auto
qed

end

definition msq_safe :: "'a msq \<times> (tid \<Rightarrow> 'a msq_thread) \<Rightarrow> bool" where
  "msq_safe = (\<lambda>(q, ts). (\<exists>x st. msq_good 0 q ts x st) \<and> retired_once q ts)"

lemma msq_goodE:
  assumes "msq_good n q ts x st"
  obtains ns hi ti where "msq_state q ts x st ns hi ti"
proof -
  obtain ns hi ti where b: "msq_base q ns hi ti x" and t: "\<And>i. msq_thread_ok q ns hi ti (ts i) (st i)"
    and o: "\<And>i j new. unlinked (ts i) = Some new \<Longrightarrow> unlinked (ts j) = Some new \<Longrightarrow> i = j"
    using assms unfolding msq_good_def by blast
  have "msq_state q ts x st ns hi ti" by unfold_locales (rule b, rule t, rule o)
  then show thesis by (rule that)
qed

lemma msq_safe_step:
  assumes "msq_safe s"
  shows "msq_safe (threads_step msq_start msq_tick e s)"
proof -
  obtain q ts where s: "s = (q, ts)" by (cases s)
  obtain x st where g: "msq_good 0 q ts x st" and o: "retired_once q ts" using assms by (auto simp: msq_safe_def s)
  obtain q' ts' where s': "threads_step msq_start msq_tick e (q, ts) = (q', ts')" by fastforce
  have "permitted (\<lambda>_ _. True) e" using all_permitted [of "[e]"] by simp
  from msq.roles.good_step [OF g _ this, of 1] obtain x' st' where "msq_good (Suc 0) q' ts' x' st'" by (auto simp: s')
  then have "msq_good 0 q' ts' x' st'" by (simp add: msq_good_def)
  moreover have "retired_once q' ts'"
  proof -
    consider i t where "q' = q" "ts' = ts(i := t)" "retiring t = None" | "q' = q" "ts' = ts"
      | i pc ch t where "ts i = Running pc" "msq_tick ch q pc = (q', t)" "ts' = ts(i := t)"
    proof (cases e)
      case (CallOp i oper)
      moreover have "retiring (Running (msq_start oper)) = None" by (cases oper) simp_all
      ultimately show thesis using s' that(1) [of i "Running (msq_start oper)"] that(2) by (cases "ts i") simp_all
    next
      case (TickOp i ch)
      show thesis
      proof (cases "ts i")
        case (Running pc)
        obtain q1 t where "msq_tick ch q pc = (q1, t)" by fastforce
        then show thesis using s' that(3) [of i pc ch t] TickOp Running by simp
      qed (use s' that(2) TickOp in simp_all)
    next
      case (ReturnOp i)
      then show thesis using s' that(1) [of i Resting] that(2) by (cases "ts i") simp_all
    qed
    then show ?thesis
    proof cases
      case 1
      then show ?thesis using retired_onceI [OF o, of q t i] by simp
    next
      case 3
      then show ?thesis using msq_goodE [OF g] msq_state.once_tick [OF _ o 3(1,2)] by metis
    qed (use o in simp)
  qed
  ultimately show ?thesis unfolding s s' msq_safe_def prod.case by blast
qed

interpretation msq_safety: invariant_system "threads_step msq_start msq_tick" msq_safe
  by unfold_locales (rule msq_safe_step)

text \<open>
  C32: Linearizability of the queue of the collector. Every run of any number of threads shows the calls and
  results of a first-in first-out queue: pushes and pops without a condition exactly; a pop with a condition takes the
  front value only if the condition holds of it, and gives up on an empty queue or on a value that fails the condition
  and is, or has been, at the front.
\<close>

theorem msq_linearizable:
  "\<exists>b. ao_run msq_spec (([], []), \<lambda>_. Quiet)
     (impl_trace (threads_step msq_start msq_tick) threads_label es (msq_new, \<lambda>_. Resting)) b"
  by (rule msq.free_linearizable [OF msq_new_good, of es "length es"]) simp

text \<open>
  C33: Reclamation in the queue of the collector. No node is retired twice, and a retired node can be reached
  neither from the head nor from the tail, so that a thread that pins itself later never gets to see it; no
  thread reads the data of a node without data.
\<close>

theorem msq_retires_safely:
  defines "run es \<equiv> impl_run (threads_step msq_start msq_tick) es (msq_new, \<lambda>_. Resting)"
  shows "distinct (mq_retired (fst (run es))) \<and>
    \<not> (\<exists>y. y \<in> set (mq_retired (fst (run es))) \<and>
        (reaches (fst (run es)) (mq_head (fst (run es))) y \<or> reaches (fst (run es)) (mq_tail (fst (run es))) y)) \<and>
    snd (run es) i \<noteq> Running MUndefined"
proof -
  have "msq_safe (msq_new, \<lambda>_. Resting)" unfolding msq_safe_def using msq_new_good
    by (auto simp: retired_once_def msq_new_def)
  then have "msq_safe (run es)" unfolding run_def by (rule msq_safety.run_inv)
  moreover obtain q ts where r: "run es = (q, ts)" by fastforce
  ultimately obtain x st where g: "msq_good 0 q ts x st" and o: "retired_once q ts" by (auto simp: msq_safe_def)
  obtain ns hi ti where m: "msq_state q ts x st ns hi ti" using msq_goodE [OF g] .
  show ?thesis using msq_state.retired_unreachable [OF m] msq_state.threads [OF m, of i] o
    by (auto simp: r retired_once_def)
qed

end
