(* ===== verification/Channel_Utils.thy ===== *)
theory Channel_Utils
  imports Prelude "HOL-Library.Multiset"
begin

text \<open>
  \<^verbatim>\<open>crossbeam-channel/src/utils.rs\<close>: the shuffle that decides the order in which a select tries
  its operations. The thread-local generator is an argument and a result. An index out of range in
  \<^verbatim>\<open>swap\<close> would panic, which is \<open>None\<close>.
\<close>

section \<open>The generator\<close>

definition RNG_SEED :: u32 where "RNG_SEED = 1406868647"

definition xorshift :: "u32 \<Rightarrow> u32" where
  "xorshift x0 =
     (let x1 = x0 XOR push_bit 13 x0;
          x2 = x1 XOR drop_bit 17 x1
      in x2 XOR push_bit 5 x2)"

text \<open>The fast alternative to a modulo: the high half of a 64-bit product, cut to 32 bits.\<close>

definition pick_index :: "u32 \<Rightarrow> u64 \<Rightarrow> nat" where
  "pick_index x n = unat (ucast (drop_bit 32 (ucast x * n)) :: u32)"

section \<open>The shuffle\<close>

definition swap_slice :: "nat \<Rightarrow> nat \<Rightarrow> 'a list \<Rightarrow> 'a list option" where
  "swap_slice i j v = (if i < length v \<and> j < length v then Some (v[i := v ! j, j := v ! i]) else None)"

fun shuffle_loop :: "nat list \<Rightarrow> u32 \<times> 'a list \<Rightarrow> (u32 \<times> 'a list) option" where
  "shuffle_loop [] (rng, v) = Some (rng, v)"
| "shuffle_loop (i # is) (rng, v) =
     (let x = xorshift rng; j = pick_index x (word_of_nat (i + 1)) in
      case swap_slice i j v of None \<Rightarrow> None | Some v' \<Rightarrow> shuffle_loop is (x, v'))"

text \<open>The thread-local generator is gone (\<open>None\<close>) while the thread is being torn down: \<^verbatim>\<open>try_with\<close> fails then, which
  the code ignores.\<close>

definition shuffle :: "u32 option \<Rightarrow> 'a list \<Rightarrow> (u32 option \<times> 'a list) option" where
  "shuffle rng v =
     (if length v \<le> 1 then Some (rng, v)
      else case rng of
        None \<Rightarrow> Some (None, v)
      | Some r \<Rightarrow> map_option (\<lambda>(r', v'). (Some r', v')) (shuffle_loop [1..<length v] (r, v)))"

section \<open>Facts\<close>

lemma xor_push_bit_0:
  fixes x :: "'a::len word"
  assumes "x XOR push_bit k x = 0" "0 < k"
  shows "x = 0"
proof (rule bit_eqI)
  fix n
  show "bit x n \<longleftrightarrow> bit 0 n"
  proof (induction n rule: less_induct)
    case (less n)
    have "bit (x XOR push_bit k x) n = bit (0 :: 'a word) n" using assms(1) by simp
    then show ?case using less [of "n - k"] assms(2) by (cases "k \<le> n") (auto simp: bit_simps)
  qed
qed

lemma xor_drop_bit_0:
  fixes x :: "'a::len word"
  assumes "x XOR drop_bit k x = 0" "0 < k"
  shows "x = 0"
proof -
  have "bit (x XOR drop_bit k x) n = bit (0 :: 'a word) n" for n by (simp only: assms(1))
  then have step: "bit x n \<longleftrightarrow> bit x (k + n)" for n by (simp add: bit_simps)
  have up: "bit x n \<longleftrightarrow> bit x (m * k + n)" for m n
  proof (induction m)
    case (Suc m)
    then show ?case using step [of "m * k + n"] by (simp add: ac_simps)
  qed simp
  have "\<not> bit x n" for n
  proof
    assume "bit x n"
    then have "LENGTH('a) * k + n < LENGTH('a)" using up [of n "LENGTH('a)"] bit_imp_le_length by blast
    moreover have "LENGTH('a) * 1 \<le> LENGTH('a) * k" using assms(2) by (intro mult_le_mono2) simp
    ultimately show False by simp
  qed
  then show ?thesis by (intro bit_eqI) simp
qed

lemma xorshift_nonzero:
  assumes "x \<noteq> 0"
  shows "xorshift x \<noteq> 0"
proof
  let ?x1 = "x XOR push_bit 13 x"
  let ?x2 = "?x1 XOR drop_bit 17 ?x1"
  assume "xorshift x = 0"
  then have "?x2 XOR push_bit 5 ?x2 = 0" by (simp only: xorshift_def Let_def)
  then have "?x2 = 0" by (rule xor_push_bit_0) simp
  then have "?x1 = 0" by (rule xor_drop_bit_0) simp
  then have "x = 0" by (rule xor_push_bit_0) simp
  with assms show False by contradiction
qed

lemma pick_index_bound:
  assumes "0 < n" "n < 2 ^ 64"
  shows "pick_index x (word_of_nat n) < n"
proof (cases "n \<le> 2 ^ 32")
  case True
  have x: "unat x < 2 ^ 32" using unsigned_less [of x] by simp
  then have m: "unat x * n < 2 ^ 32 * n" using assms(1) by simp
  also have "\<dots> \<le> 2 ^ 32 * 2 ^ 32" using True by (rule mult_le_mono2)
  finally have "unat x * n < 2 ^ LENGTH(64)" by simp
  moreover have "unat (ucast x :: u64) = unat x" "unat (word_of_nat n :: u64) = n"
    using x assms by (simp_all add: unsigned_ucast_eq unat_of_nat take_bit_nat_eq_self)
  ultimately have "unat (ucast x * word_of_nat n :: u64) = unat x * n"
    by (simp add: unat_mult_lem [THEN iffD1])
  then have d: "unat (drop_bit 32 (ucast x * word_of_nat n :: u64)) = unat x * n div 2 ^ 32"
    by (simp only: unat_drop_bit_eq drop_bit_eq_div [where 'a = nat])
  have "unat x * n div 2 ^ 32 < n" using m by (simp add: less_mult_imp_div_less mult.commute)
  then show ?thesis using d True
    by (simp add: pick_index_def unsigned_ucast_eq take_bit_nat_eq_self)
next
  case False
  have "pick_index x (word_of_nat n) < 2 ^ 32"
    using unsigned_less [of "ucast (drop_bit 32 (ucast x * word_of_nat n :: u64)) :: u32"] by (simp add: pick_index_def)
  with False show ?thesis by simp
qed

lemma swap_mset:
  assumes "i < length v" "j < length v"
  shows "mset (v[i := v ! j, j := v ! i]) = mset v"
  using mset_swap [OF assms(2,1)] by simp

lemma shuffle_loop_ok:
  assumes "\<forall>i\<in>set is. 0 < i \<and> i < length v" "length v < 2 ^ 64"
  shows "\<exists>rng' v'. shuffle_loop is (rng, v) = Some (rng', v') \<and> mset v' = mset v \<and> (rng \<noteq> 0 \<longrightarrow> rng' \<noteq> 0)"
  using assms
proof (induction "is" arbitrary: rng v)
  case (Cons i "is")
  let ?x = "xorshift rng"
  let ?j = "pick_index ?x (word_of_nat (i + 1))"
  have i: "i < length v" using Cons.prems(1) by simp
  then have "?j < i + 1" using Cons.prems(2) by (intro pick_index_bound) simp_all
  then have j: "?j < length v" using i by simp
  let ?v = "v[i := v ! ?j, ?j := v ! i]"
  obtain rng' v' where "shuffle_loop is (?x, ?v) = Some (rng', v')" "mset v' = mset ?v" "?x \<noteq> 0 \<longrightarrow> rng' \<noteq> 0"
    using Cons.IH [of ?v ?x] Cons.prems by auto
  then show ?case using i j swap_mset [OF i j] xorshift_nonzero [of rng]
    by (intro exI [of _ rng'] exI [of _ v']) (simp add: Let_def swap_slice_def)
qed simp

section \<open>The property\<close>

text \<open>
  C34: the shuffle returns for every slice, without an index out of range (the fast reduction stays below \<open>i + 1\<close>
  although it is cut to 32 bits), and only reorders its elements; the generator never gets stuck at zero.
\<close>

theorem shuffle_permutes:
  fixes v :: "'a list"
  assumes "length v < 2 ^ 64" "rng \<noteq> Some 0"
  shows "\<exists>rng' v'. shuffle rng v = Some (rng', v') \<and> mset v' = mset v \<and> rng' \<noteq> Some 0"
proof (cases rng)
  case (Some r)
  then show ?thesis using shuffle_loop_ok [of "[1..<length v]" v r] assms by (auto simp: shuffle_def)
qed (simp add: shuffle_def)

theorem shuffle_permutes_witness:
  "\<exists>rng' v'. shuffle (Some RNG_SEED) ''abc'' = Some (rng', v') \<and> mset v' = mset ''abc'' \<and> rng' \<noteq> Some 0"
  using shuffle_permutes [of "''abc''" "Some RNG_SEED"] by (simp add: RNG_SEED_def)

end
