(* ===== verification/Timer_Channels.thy ===== *)
theory Timer_Channels
  imports Atomic_Object
begin

text \<open>
  The channels that make their messages from the clock: \<^verbatim>\<open>crossbeam-channel/src/flavors/at.rs\<close>,
  \<^verbatim>\<open>tick.rs\<close> and \<^verbatim>\<open>never.rs\<close>, with \<^verbatim>\<open>sleep_until\<close> of \<^verbatim>\<open>utils.rs\<close>, for any number of
  threads. Instants and durations are numbers of nanoseconds. Each tick of a thread lets an arbitrary time pass
  before its access, so the clock never runs backwards; \<^verbatim>\<open>thread::sleep\<close> lasts at least as long as asked for.
\<close>

type_synonym instant = nat

section \<open>Sleeping until a deadline\<close>

datatype sleep_pc = SNow | SNap nat | SNapping instant

text \<open>One access of \<^verbatim>\<open>sleep_until\<close>; \<open>None\<close> once it has returned.\<close>

fun sleep_until :: "instant option \<Rightarrow> instant \<Rightarrow> sleep_pc \<Rightarrow> sleep_pc option" where
  "sleep_until None now SNow = Some (SNap (1000 * 1000000000))"
| "sleep_until (Some d) now SNow = (if d \<le> now then None else Some (SNap (d - now)))"
| "sleep_until d now (SNap dur) = Some (SNapping (now + dur))"
| "sleep_until d now (SNapping w) = Some (if w \<le> now then SNow else SNapping w)"

lemma sleep_until_returns: "sleep_until d now pc = None \<Longrightarrow> \<exists>e. d = Some e \<and> e \<le> now"
  by (cases "(d, now, pc)" rule: sleep_until.cases) (auto split: if_splits)

section \<open>The channel with one message\<close>

record at_channel =
  at_clock :: instant
  delivery_time :: instant
  received :: bool

definition at_new :: "instant \<Rightarrow> instant \<Rightarrow> at_channel" where
  "at_new now due = \<lparr>at_clock = now, delivery_time = due, received = False\<rparr>"

text \<open>\<^verbatim>\<open>try_select\<close> and \<^verbatim>\<open>accept\<close> are \<^verbatim>\<open>try_recv\<close> with the message left in the token; \<^verbatim>\<open>is_full\<close>,
  \<^verbatim>\<open>len\<close>, \<^verbatim>\<open>is_ready\<close>, \<^verbatim>\<open>register\<close> and \<^verbatim>\<open>watch\<close> are the answer of \<^verbatim>\<open>is_empty\<close> seen otherwise.\<close>

datatype recv_mode = Receive | Selecting
datatype query = IsEmpty | IsFull | QLen | IsReady

datatype timer_op = TTryRecv recv_mode | TRecv "instant option" | TQuery query | TDeadline

datatype timer_ret = TMsg instant | TEmpty | TTimeout | TToken bool "instant option" | TBool bool | TCount nat
  | TInstant "instant option" | TPanic

fun try_select :: "recv_mode \<Rightarrow> timer_ret \<Rightarrow> timer_ret" where
  "try_select Selecting (TMsg m) = TToken True (Some m)"
| "try_select Selecting TEmpty = TToken False None"
| "try_select _ r = r"

fun answer_query :: "query \<Rightarrow> bool \<Rightarrow> timer_ret" where
  "answer_query IsEmpty b = TBool b"
| "answer_query IsFull b = TBool (\<not> b)"
| "answer_query QLen b = TCount (of_bool (\<not> b))"
| "answer_query IsReady b = TBool (\<not> b)"

text \<open>\<^verbatim>\<open>read\<close> takes the message from the token.\<close>

definition timer_read :: "instant option \<Rightarrow> unit + instant" where
  "timer_read token = (case token of Some m \<Rightarrow> Inr m | None \<Rightarrow> Inl ())"

datatype at_pc =
    ATryLoad recv_mode | ATryNow recv_mode | ATrySwap recv_mode
  | ARecvLoad "instant option" | ARecvNow "instant option" | ANap "instant option" nat
  | ANapping "instant option" instant | ARecvSwap "instant option" | ASleep "instant option" sleep_pc
  | AQueryLoad query | AQueryNow query | AQueryLast query | ADeadline

fun at_start :: "timer_op \<Rightarrow> at_pc" where
  "at_start (TTryRecv k) = ATryLoad k"
| "at_start (TRecv d) = ARecvLoad d"
| "at_start (TQuery k) = AQueryLoad k"
| "at_start TDeadline = ADeadline"

text \<open>A finished operation carries the instant of its last access.\<close>

type_synonym 'pc timer_thread = "('pc, timer_ret \<times> instant) thread"

definition at_return :: "at_channel \<Rightarrow> timer_ret \<Rightarrow> at_channel \<times> at_pc timer_thread" where
  "at_return q r = (q, Done (r, at_clock q))"

text \<open>\<^verbatim>\<open>try_recv\<close> and \<^verbatim>\<open>try_select\<close>; \<^verbatim>\<open>recv\<close>; \<^verbatim>\<open>is_empty\<close> and \<^verbatim>\<open>deadline\<close>.\<close>

fun at_access :: "at_channel \<Rightarrow> at_pc \<Rightarrow> at_channel \<times> at_pc timer_thread" where
  "at_access q (ATryLoad k) =
     (if received q then at_return q (try_select k TEmpty) else (q, Running (ATryNow k)))"
| "at_access q (ATryNow k) =
     (if at_clock q < delivery_time q then at_return q (try_select k TEmpty) else (q, Running (ATrySwap k)))"
| "at_access q (ATrySwap k) =
     at_return (q\<lparr>received := True\<rparr>) (try_select k (if \<not> received q then TMsg (delivery_time q) else TEmpty))"
| "at_access q (ARecvLoad d) = (q, Running (if received q then ASleep d SNow else ARecvNow d))"
| "at_access q (ARecvNow d) =
     (let now = at_clock q in
      if delivery_time q \<le> now then (q, Running (ARecvSwap d))
      else case d of
        Some e \<Rightarrow>
          if e \<le> now then at_return q TTimeout
          else (q, Running (ANap d ((if e < delivery_time q then e else delivery_time q) - now)))
      | None \<Rightarrow> (q, Running (ANap d (delivery_time q - now))))"
| "at_access q (ANap d dur) = (q, Running (ANapping d (at_clock q + dur)))"
| "at_access q (ANapping d w) = (q, Running (if w \<le> at_clock q then ARecvNow d else ANapping d w))"
| "at_access q (ARecvSwap d) =
     (if \<not> received q then at_return (q\<lparr>received := True\<rparr>) (TMsg (delivery_time q))
      else (q\<lparr>received := True\<rparr>, Running (ASleep d SNow)))"
| "at_access q (ASleep d pc) =
     (case sleep_until d (at_clock q) pc of
        None \<Rightarrow> at_return q TTimeout
      | Some pc' \<Rightarrow> (q, Running (ASleep d pc')))"
| "at_access q (AQueryLoad k) =
     (if received q then at_return q (answer_query k True) else (q, Running (AQueryNow k)))"
| "at_access q (AQueryNow k) =
     (if at_clock q < delivery_time q then at_return q (answer_query k True) else (q, Running (AQueryLast k)))"
| "at_access q (AQueryLast k) = at_return q (answer_query k (received q))"
| "at_access q ADeadline = at_return q (TInstant (if received q then None else Some (delivery_time q)))"

definition at_tick :: "nat \<Rightarrow> at_channel \<Rightarrow> at_pc \<Rightarrow> at_channel \<times> at_pc timer_thread" where
  "at_tick elapsed q pc = at_access (q\<lparr>at_clock := at_clock q + elapsed\<rparr>) pc"

text \<open>
  The specification: a message that is there from its delivery time on until somebody takes it. The sequential
  state is the instant of the last operation and whether the message has been taken.
\<close>

definition at_spec :: "instant \<Rightarrow> timer_op \<Rightarrow> instant \<times> bool \<Rightarrow> timer_ret \<times> instant \<Rightarrow> instant \<times> bool \<Rightarrow> bool" where
  "at_spec due oper x ret x' \<longleftrightarrow>
     (case (x, ret, x') of ((c, taken), (r, now), (c', taken')) \<Rightarrow>
        c \<le> now \<and> c' = now \<and>
        (let there = (due \<le> now \<and> \<not> taken) in
         case oper of
           TTryRecv k \<Rightarrow> r = try_select k (if there then TMsg due else TEmpty) \<and> taken' = (taken \<or> there)
         | TRecv d \<Rightarrow>
             if there then r = TMsg due \<and> taken'
             else r = TTimeout \<and> taken' = taken \<and> (\<exists>e. d = Some e \<and> e \<le> now)
         | TQuery k \<Rightarrow> r = answer_query k (\<not> there) \<and> taken' = taken
         | TDeadline \<Rightarrow> r = TInstant (if taken then None else Some due) \<and> taken' = taken))"

section \<open>The channel with one message is linearizable\<close>

fun at_pc_ok :: "at_channel \<Rightarrow> at_pc \<Rightarrow> timer_op \<Rightarrow> bool" where
  "at_pc_ok q (ATryLoad k) oper \<longleftrightarrow> oper = TTryRecv k"
| "at_pc_ok q (ATryNow k) oper \<longleftrightarrow> oper = TTryRecv k"
| "at_pc_ok q (ATrySwap k) oper \<longleftrightarrow> oper = TTryRecv k \<and> delivery_time q \<le> at_clock q"
| "at_pc_ok q (ARecvLoad d) oper \<longleftrightarrow> oper = TRecv d"
| "at_pc_ok q (ARecvNow d) oper \<longleftrightarrow> oper = TRecv d"
| "at_pc_ok q (ANap d dur) oper \<longleftrightarrow> oper = TRecv d"
| "at_pc_ok q (ANapping d w) oper \<longleftrightarrow> oper = TRecv d"
| "at_pc_ok q (ARecvSwap d) oper \<longleftrightarrow> oper = TRecv d \<and> delivery_time q \<le> at_clock q"
| "at_pc_ok q (ASleep d pc) oper \<longleftrightarrow> oper = TRecv d \<and> received q"
| "at_pc_ok q (AQueryLoad k) oper \<longleftrightarrow> oper = TQuery k"
| "at_pc_ok q (AQueryNow k) oper \<longleftrightarrow> oper = TQuery k"
| "at_pc_ok q (AQueryLast k) oper \<longleftrightarrow> oper = TQuery k \<and> delivery_time q \<le> at_clock q"
| "at_pc_ok q ADeadline oper \<longleftrightarrow> oper = TDeadline"

text \<open>What a thread and its part of the specification have to do with each other, for a predicate of the points.\<close>

fun timer_thread_ok ::
  "('pc \<Rightarrow> timer_op \<Rightarrow> bool) \<Rightarrow> 'pc timer_thread \<Rightarrow> (timer_op, timer_ret \<times> instant) status \<Rightarrow> bool" where
  "timer_thread_ok ok Resting st \<longleftrightarrow> st = Quiet"
| "timer_thread_ok ok (Running pc) st \<longleftrightarrow> (\<exists>oper. st = Pending oper \<and> ok pc oper)"
| "timer_thread_ok ok (Done r) st \<longleftrightarrow> st = Answered r"

lemma timer_thread_mono:
  "timer_thread_ok ok t st \<Longrightarrow> (\<And>pc oper. ok pc oper \<Longrightarrow> ok' pc oper) \<Longrightarrow> timer_thread_ok ok' t st"
  by (cases t) auto

definition at_good ::
  "instant \<Rightarrow> nat \<Rightarrow> at_channel \<Rightarrow> (tid \<Rightarrow> at_pc timer_thread) \<Rightarrow> instant \<times> bool \<Rightarrow>
     (tid \<Rightarrow> (timer_op, timer_ret \<times> instant) status) \<Rightarrow> bool" where
  "at_good due n q ts x st \<longleftrightarrow> delivery_time q = due \<and> fst x \<le> at_clock q \<and> snd x = received q \<and>
     (\<forall>i. timer_thread_ok (at_pc_ok q) (ts i) (st i))"

text \<open>Time passes, and the message is taken.\<close>

lemma at_pc_stable:
  assumes "at_pc_ok q pc oper" "delivery_time q' = delivery_time q" "at_clock q \<le> at_clock q'" "received q \<Longrightarrow> received q'"
  shows "at_pc_ok q' pc oper"
  using assms by (cases pc) auto

lemma at_good_pass: "at_good due n q ts x st \<Longrightarrow> at_good due n (q\<lparr>at_clock := at_clock q + e\<rparr>) ts x st"
  unfolding at_good_def
  by (auto elim!: timer_thread_mono at_pc_stable allE)

lemma at_access_ok:
  assumes "at_pc_ok q pc oper" "delivery_time q = due" "c \<le> at_clock q" "at_access q pc = (q', t)"
  shows "delivery_time q' = due \<and> at_clock q' = at_clock q \<and> (received q \<longrightarrow> received q') \<and>
    ((\<exists>pc'. t = Running pc' \<and> received q' = received q \<and> at_pc_ok q' pc' oper) \<or>
     (\<exists>r. t = Done r \<and> at_spec due oper (c, received q) r (at_clock q', received q')))"
proof (cases pc)
  case (ASleep d s)
  show ?thesis
  proof (cases "sleep_until d (at_clock q) s")
    case None
    then show ?thesis using assms ASleep sleep_until_returns [OF None]
      by (auto simp: at_return_def at_spec_def Let_def)
  qed (use assms ASleep in auto)
qed (use assms in \<open>auto simp: at_return_def at_spec_def Let_def split: if_splits option.splits\<close>)

lemma at_good_tick:
  assumes good: "at_good due n q ts x st" and run: "ts i = Running pc" and tick: "at_tick ch q pc = (q', t)"
  shows "at_good due (Suc n) q' (ts(i := t)) x st \<or>
    (\<exists>oper r x'. st i = Pending oper \<and> at_spec due oper x r x' \<and> at_good due (Suc n) q' (ts(i := t)) x' (st(i := Answered r)))"
proof -
  let ?q = "q\<lparr>at_clock := at_clock q + ch\<rparr>"
  have g: "at_good due n ?q ts x st" by (rule at_good_pass [OF good])
  then have ts: "timer_thread_ok (at_pc_ok ?q) (ts j) (st j)" for j by (simp add: at_good_def)
  from ts [of i] run obtain oper where oper: "st i = Pending oper" "at_pc_ok ?q pc oper" by auto
  have x: "x = (fst x, received q)" using good by (cases x) (simp add: at_good_def)
  have x2: "snd x = received q" using good by (simp add: at_good_def)
  have c: "delivery_time ?q = due" "fst x \<le> at_clock ?q" using g by (simp_all add: at_good_def)
  note acc = at_access_ok [OF oper(2) c tick [unfolded at_tick_def]]
  have q': "delivery_time q' = delivery_time ?q" "at_clock q' = at_clock ?q" "received ?q \<Longrightarrow> received q'"
    using acc c by simp_all
  have stable: "timer_thread_ok (at_pc_ok q') (ts j) (st j)" for j
    by (rule timer_thread_mono [OF ts]) (erule at_pc_stable, use q' in simp_all)
  from acc consider
    pc' where "t = Running pc'" "received q' = received q" "at_pc_ok q' pc' oper"
  | r where "t = Done r" "at_spec due oper x r (at_clock q', received q')"
    using x by auto
  then show ?thesis
  proof cases
    case 1
    have "at_good due (Suc n) q' (ts(i := t)) x st"
      using 1 acc c x2 oper(1) stable by (auto simp: at_good_def)
    then show ?thesis by blast
  next
    case 2
    have "at_good due (Suc n) q' (ts(i := t)) (at_clock q', received q') (st(i := Answered r))"
      using 2 acc c stable by (auto simp: at_good_def)
    then show ?thesis using oper(1) 2(2) by blast
  qed
qed

interpretation at: thread_simulation at_start at_tick "at_spec due" "at_good due" bound for due bound
proof (unfold_locales, goal_cases)
  case (2 n q ts x st i oper)
  then show ?case by (cases oper) (auto simp: at_good_def dest: spec [of _ i])
next
  case 3
  then show ?case by (intro at_good_tick)
next
  case (4 n q ts x st i r)
  then show ?case by (auto simp: at_good_def dest: spec [of _ i])
qed (simp add: at_good_def)

lemma at_good_new: "at_good due n (at_new now due) (\<lambda>_. Resting) (now, False) (\<lambda>_. Quiet)"
  by (simp add: at_good_def at_new_def)

text \<open>
  C35: a channel of \<^verbatim>\<open>after\<close> or \<^verbatim>\<open>at\<close> is linearizable, with the instants at which calls end: at most one receive
  gets the message, never before its time; a receive that is due to find it does; a call gives up with
  \<^verbatim>\<open>Empty\<close> only while the message is not due or already taken, with \<^verbatim>\<open>Timeout\<close> only once its deadline has
  passed as well; \<^verbatim>\<open>is_empty\<close>, \<^verbatim>\<open>len\<close>, \<^verbatim>\<open>is_ready\<close> and \<^verbatim>\<open>deadline\<close> answer accordingly.
\<close>

theorem at_linearizable:
  "\<exists>b. ao_run (at_spec due) ((now, False), \<lambda>_. Quiet)
     (impl_trace (threads_step at_start at_tick) threads_label es (at_new now due, \<lambda>_. Resting)) b"
  by (rule at.free_linearizable [OF at_good_new order_refl])

section \<open>Receiving with a deadline ends\<close>

text \<open>The accesses of one thread, in the states that it meets: other threads may have changed the channel between them.\<close>

fun at_thread_run :: "at_channel list \<Rightarrow> at_pc \<Rightarrow> at_pc timer_thread" where
  "at_thread_run [] pc = Running pc"
| "at_thread_run (q # qs) pc = (case snd (at_access q pc) of Running pc' \<Rightarrow> at_thread_run qs pc' | t \<Rightarrow> t)"

definition finishes :: "(nat \<Rightarrow> at_channel) \<Rightarrow> nat \<Rightarrow> at_pc \<Rightarrow> bool" where
  "finishes f k pc \<longleftrightarrow> (\<exists>m r. at_thread_run (map f [k..<m]) pc = Done r)"

lemma finishes_now: "snd (at_access (f k) pc) = Done r \<Longrightarrow> finishes f k pc"
  unfolding finishes_def by (intro exI [of _ "Suc k"] exI [of _ r]) simp

lemma finishes_step:
  assumes "snd (at_access (f k) pc) = Running pc'" "finishes f (Suc k) pc'"
  shows "finishes f k pc"
proof -
  from assms(2) obtain m r where m: "at_thread_run (map f [Suc k..<m]) pc' = Done r" by (auto simp: finishes_def)
  then have "Suc k < m" by (cases "Suc k < m") simp_all
  then have "at_thread_run (map f [k..<m]) pc = Done r" using m assms(1) by (simp add: upt_conv_Cons)
  then show ?thesis unfolding finishes_def by blast
qed

text \<open>A thread that waits for the clock finishes if it does so from every later moment.\<close>

lemma finishes_wait:
  assumes clock: "\<And>t. \<exists>k. t \<le> at_clock (f k)" "mono (\<lambda>k. at_clock (f k))"
    and wait: "\<And>k. at_clock (f k) < w \<Longrightarrow> snd (at_access (f k) pc) = Running pc"
    and wake: "\<And>k. w \<le> at_clock (f k) \<Longrightarrow> finishes f k pc"
  shows "finishes f k pc"
proof -
  obtain m where m: "w \<le> at_clock (f m)" using clock(1) by blast
  show ?thesis
  proof (induction "m - k" arbitrary: k)
    case 0
    then have "at_clock (f m) \<le> at_clock (f k)" using clock(2) by (simp add: mono_def)
    then show ?case using m by (intro wake) simp
  next
    case (Suc d)
    then have "finishes f (Suc k) pc" by simp
    then show ?case using wait [of k] wake [of k] by (cases "at_clock (f k) < w") (auto intro: finishes_step)
  qed
qed

definition clock_runs :: "(nat \<Rightarrow> at_channel) \<Rightarrow> instant \<Rightarrow> bool" where
  "clock_runs f due \<longleftrightarrow> (\<forall>t. \<exists>k. t \<le> at_clock (f k)) \<and> mono (\<lambda>k. at_clock (f k)) \<and> (\<forall>k. delivery_time (f k) = due)"

lemma clock_runs_later: "clock_runs f due \<Longrightarrow> t \<le> at_clock (f k) \<Longrightarrow> t \<le> at_clock (f (Suc k))"
  using monoD [of "\<lambda>k. at_clock (f k)" k "Suc k"] by (simp add: clock_runs_def)

text \<open>A nap of the time left until \<open>e\<close> ends after \<open>e\<close>, also if the thread is delayed before it falls asleep.\<close>

lemma nap_finishes:
  assumes runs: "clock_runs f due"
    and nap: "snd (at_access (f k) pc) = Running (nap (e - at_clock (f k)))"
    and asleep: "\<And>j d. snd (at_access (f j) (nap d)) = Running (napping (at_clock (f j) + d))"
    and napping: "\<And>j w. snd (at_access (f j) (napping w)) = Running (if w \<le> at_clock (f j) then awake else napping w)"
    and awake: "\<And>j. e \<le> at_clock (f j) \<Longrightarrow> finishes f j awake"
  shows "finishes f k pc"
proof -
  let ?w = "at_clock (f (Suc k)) + (e - at_clock (f k))"
  have e: "e \<le> ?w" using clock_runs_later [OF runs, of "at_clock (f k)" k] by simp
  have "finishes f (Suc (Suc k)) (napping ?w)"
  proof (rule finishes_wait [where w = ?w])
    fix j assume w: "?w \<le> at_clock (f j)"
    with e have "e \<le> at_clock (f (Suc j))" by (intro clock_runs_later [OF runs]) simp
    then show "finishes f j (napping ?w)" using w by (intro finishes_step [OF _ awake]) (simp_all add: napping)
  qed (use runs in \<open>simp_all add: napping clock_runs_def\<close>)
  then have "finishes f (Suc k) (nap (e - at_clock (f k)))" by (rule finishes_step [where f = f and k = "Suc k", OF asleep])
  then show ?thesis by (rule finishes_step [where f = f and k = k, OF nap])
qed

lemma sleep_finishes:
  assumes "clock_runs f due"
  shows "finishes f k (ASleep (Some e) SNow)"
proof -
  have now: "finishes f j (ASleep (Some e) SNow)" if "e \<le> at_clock (f j)" for j
    using that by (intro finishes_now [where r = "(TTimeout, at_clock (f j))"]) (simp add: at_return_def)
  show ?thesis
  proof (cases "e \<le> at_clock (f k)")
    case False
    show ?thesis
      by (rule nap_finishes [OF assms, where e = e and nap = "\<lambda>d. ASleep (Some e) (SNap d)"
            and napping = "\<lambda>w. ASleep (Some e) (SNapping w)" and awake = "ASleep (Some e) SNow", OF _ _ _ now]) (use False in simp_all)
  qed (rule now)
qed

lemma swap_finishes:
  assumes "clock_runs f due"
  shows "finishes f k (ARecvSwap (Some e))"
proof (cases "received (f k)")
  case True
  then show ?thesis by (intro finishes_step [OF _ sleep_finishes [OF assms]]) simp
qed (auto intro!: finishes_now simp: at_return_def)

lemma now_finishes:
  assumes "clock_runs f due"
  shows "finishes f k (ARecvNow (Some e))"
proof -
  let ?m = "if e < due then e else due"
  have fixed: "delivery_time (f j) = due" for j using assms by (simp add: clock_runs_def)
  have ripe: "finishes f j (ARecvNow (Some e))" if "?m \<le> at_clock (f j)" for j
  proof (cases "due \<le> at_clock (f j)")
    case True
    then show ?thesis by (intro finishes_step [OF _ swap_finishes [OF assms]]) (simp add: fixed Let_def)
  next
    case False
    then show ?thesis using that
      by (intro finishes_now [where r = "(TTimeout, at_clock (f j))"]) (simp add: fixed Let_def at_return_def split: if_splits)
  qed
  show ?thesis
  proof (cases "?m \<le> at_clock (f k)")
    case False
    have early: "\<not> due \<le> at_clock (f k)" "\<not> e \<le> at_clock (f k)" using False by (simp_all split: if_splits)
    show ?thesis
      by (rule nap_finishes [OF assms, where e = ?m and nap = "ANap (Some e)" and napping = "ANapping (Some e)"
            and awake = "ARecvNow (Some e)", OF _ _ _ ripe]) (use early in \<open>simp_all add: fixed Let_def\<close>)
  qed (rule ripe)
qed

text \<open>
  C37: a receive with a deadline on a channel of \<^verbatim>\<open>after\<close> or \<^verbatim>\<open>at\<close> returns, whatever other threads do to the
  channel meanwhile, if the clock does not stop and the thread keeps being scheduled.
\<close>

theorem at_recv_terminates:
  assumes "clock_runs f due"
  shows "\<exists>m r. at_thread_run (map f [0..<m]) (at_start (TRecv (Some e))) = Done r"
proof -
  have "finishes f 0 (ARecvLoad (Some e))"
  proof (cases "received (f 0)")
    case True
    then show ?thesis by (intro finishes_step [OF _ sleep_finishes [OF assms]]) simp
  next
    case False
    then show ?thesis by (intro finishes_step [OF _ now_finishes [OF assms]]) simp
  qed
  then show ?thesis by (simp only: finishes_def at_start.simps)
qed

theorem at_recv_terminates_witness:
  "\<exists>m r. at_thread_run (map (\<lambda>k. at_new k 5) [0..<m]) (at_start (TRecv (Some 7))) = Done r"
  by (rule at_recv_terminates [where due = 5]) (auto simp: clock_runs_def at_new_def mono_def)

section \<open>The periodic channel\<close>

text \<open>
  \<^verbatim>\<open>Instant + Duration\<close> panics beyond the last instant that can be represented. The delivery time is an
  \<^verbatim>\<open>AtomicCell\<close>, whose operations are atomic (theory \<open>Atomic_Cell\<close>).
\<close>

record tick_channel =
  tk_clock :: instant
  tk_last :: instant
  tk_delivery :: instant
  tk_duration :: nat

definition tk_new :: "instant \<Rightarrow> instant \<Rightarrow> instant \<Rightarrow> nat \<Rightarrow> tick_channel" where
  "tk_new now lim due dur = \<lparr>tk_clock = now, tk_last = lim, tk_delivery = due, tk_duration = dur\<rparr>"

definition tk_add :: "tick_channel \<Rightarrow> instant \<Rightarrow> instant option" where
  "tk_add q t = (if t + tk_duration q \<le> tk_last q then Some (t + tk_duration q) else None)"

datatype tick_pc =
    KTryNow recv_mode | KTryLoad recv_mode instant | KTryCas recv_mode instant instant
  | KRecvLoad "instant option" | KRecvNow "instant option" instant | KRecvCas "instant option" instant instant
  | KTimeoutNap instant nat | KTimeoutNapping instant instant
  | KMsgNap instant instant nat | KMsgNapping instant instant instant
  | KQueryNow query | KQueryLoad query instant | KDeadline

fun tk_start :: "timer_op \<Rightarrow> tick_pc" where
  "tk_start (TTryRecv k) = KTryNow k"
| "tk_start (TRecv d) = KRecvLoad d"
| "tk_start (TQuery k) = KQueryNow k"
| "tk_start TDeadline = KDeadline"

text \<open>
  A finished operation carries the instant on which its answer is based: the reading of the clock, or for a
  timeout the instant of its return.
\<close>

fun tk_access :: "tick_channel \<Rightarrow> tick_pc \<Rightarrow> tick_channel \<times> tick_pc timer_thread" where
  "tk_access q (KTryNow k) = (q, Running (KTryLoad k (tk_clock q)))"
| "tk_access q (KTryLoad k now) =
     (q, if now < tk_delivery q then Done (try_select k TEmpty, now) else Running (KTryCas k now (tk_delivery q)))"
| "tk_access q (KTryCas k now dt) =
     (case tk_add q now of
        None \<Rightarrow> (q, Done (TPanic, now))
      | Some t \<Rightarrow>
          if tk_delivery q = dt then (q\<lparr>tk_delivery := t\<rparr>, Done (try_select k (TMsg dt), now))
          else (q, Running (KTryNow k)))"
| "tk_access q (KRecvLoad d) = (q, Running (KRecvNow d (tk_delivery q)))"
| "tk_access q (KRecvNow d dt) =
     (let now = tk_clock q in
      case d of
        Some e \<Rightarrow>
          if e < dt then (q, if now < e then Running (KTimeoutNap e (e - now)) else Done (TTimeout, now))
          else (q, Running (KRecvCas d dt now))
      | None \<Rightarrow> (q, Running (KRecvCas d dt now)))"
| "tk_access q (KRecvCas d dt now) =
     (case tk_add q (max dt now) of
        None \<Rightarrow> (q, Done (TPanic, now))
      | Some t \<Rightarrow>
          if tk_delivery q = dt
          then (q\<lparr>tk_delivery := t\<rparr>, if now < dt then Running (KMsgNap dt now (dt - now)) else Done (TMsg dt, now))
          else (q, Running (KRecvLoad d)))"
| "tk_access q (KTimeoutNap e dur) = (q, Running (KTimeoutNapping e (tk_clock q + dur)))"
| "tk_access q (KTimeoutNapping e w) =
     (q, if w \<le> tk_clock q then Done (TTimeout, tk_clock q) else Running (KTimeoutNapping e w))"
| "tk_access q (KMsgNap m now dur) = (q, Running (KMsgNapping m now (tk_clock q + dur)))"
| "tk_access q (KMsgNapping m now w) =
     (q, if w \<le> tk_clock q then Done (TMsg m, now) else Running (KMsgNapping m now w))"
| "tk_access q (KQueryNow k) = (q, Running (KQueryLoad k (tk_clock q)))"
| "tk_access q (KQueryLoad k now) = (q, Done (answer_query k (now < tk_delivery q), now))"
| "tk_access q KDeadline = (q, Done (TInstant (Some (tk_delivery q)), tk_clock q))"

definition tk_tick :: "nat \<Rightarrow> tick_channel \<Rightarrow> tick_pc \<Rightarrow> tick_channel \<times> tick_pc timer_thread" where
  "tk_tick elapsed q pc = tk_access (q\<lparr>tk_clock := tk_clock q + elapsed\<rparr>) pc"

text \<open>The specification: the state is the instant of the next message.\<close>

definition tk_spec :: "instant \<Rightarrow> nat \<Rightarrow> timer_op \<Rightarrow> instant \<Rightarrow> timer_ret \<times> instant \<Rightarrow> instant \<Rightarrow> bool" where
  "tk_spec lim dur oper x ret x' \<longleftrightarrow>
     (case ret of (r, now) \<Rightarrow>
        case oper of
          TTryRecv k \<Rightarrow>
            r = TPanic \<and> x' = x \<and> lim < now + dur \<or>
            (if now < x then r = try_select k TEmpty \<and> x' = x
             else r = try_select k (TMsg x) \<and> x' = now + dur \<and> now + dur \<le> lim)
        | TRecv d \<Rightarrow>
            r = TPanic \<and> x' = x \<and> lim < max x now + dur \<or>
            (if \<exists>e. d = Some e \<and> e < x then r = TTimeout \<and> x' = x \<and> the d \<le> now
             else r = TMsg x \<and> x' = max x now + dur \<and> max x now + dur \<le> lim)
        | TQuery k \<Rightarrow> r = answer_query k (now < x) \<and> x' = x
        | TDeadline \<Rightarrow> r = TInstant (Some x) \<and> x' = x)"

section \<open>The periodic channel is linearizable\<close>

text \<open>The message of an answer; a receive hands it over only when its time has come.\<close>

fun message_of :: "timer_ret \<Rightarrow> instant option" where
  "message_of (TMsg m) = Some m"
| "message_of (TToken b m) = m"
| "message_of _ = None"

fun tk_pc_ok :: "tick_channel \<Rightarrow> tick_pc \<Rightarrow> (timer_op, timer_ret \<times> instant) status \<Rightarrow> bool" where
  "tk_pc_ok q (KTryNow k) st \<longleftrightarrow> st = Pending (TTryRecv k)"
| "tk_pc_ok q (KTryLoad k now) st \<longleftrightarrow> st = Pending (TTryRecv k) \<and> now \<le> tk_clock q"
| "tk_pc_ok q (KTryCas k now dt) st \<longleftrightarrow> st = Pending (TTryRecv k) \<and> now \<le> tk_clock q \<and> dt \<le> now"
| "tk_pc_ok q (KRecvLoad d) st \<longleftrightarrow> st = Pending (TRecv d)"
| "tk_pc_ok q (KRecvNow d dt) st \<longleftrightarrow> st = Pending (TRecv d) \<and> dt \<le> tk_delivery q"
| "tk_pc_ok q (KRecvCas d dt now) st \<longleftrightarrow> st = Pending (TRecv d) \<and> now \<le> tk_clock q \<and> dt \<le> tk_delivery q \<and> (\<forall>e. d = Some e \<longrightarrow> dt \<le> e)"
| "tk_pc_ok q (KTimeoutNap e dur) st \<longleftrightarrow> st = Pending (TRecv (Some e)) \<and> e < tk_delivery q \<and> e \<le> tk_clock q + dur"
| "tk_pc_ok q (KTimeoutNapping e w) st \<longleftrightarrow> st = Pending (TRecv (Some e)) \<and> e < tk_delivery q \<and> e \<le> w"
| "tk_pc_ok q (KMsgNap m now dur) st \<longleftrightarrow> st = Answered (TMsg m, now) \<and> now \<le> tk_clock q \<and> m \<le> tk_clock q + dur"
| "tk_pc_ok q (KMsgNapping m now w) st \<longleftrightarrow> st = Answered (TMsg m, now) \<and> now \<le> tk_clock q \<and> m \<le> w"
| "tk_pc_ok q (KQueryNow k) st \<longleftrightarrow> st = Pending (TQuery k)"
| "tk_pc_ok q (KQueryLoad k now) st \<longleftrightarrow> st = Pending (TQuery k) \<and> now \<le> tk_clock q"
| "tk_pc_ok q KDeadline st \<longleftrightarrow> st = Pending TDeadline"

fun tk_thread_ok :: "tick_channel \<Rightarrow> tick_pc timer_thread \<Rightarrow> (timer_op, timer_ret \<times> instant) status \<Rightarrow> bool" where
  "tk_thread_ok q Resting st \<longleftrightarrow> st = Quiet"
| "tk_thread_ok q (Running pc) st \<longleftrightarrow> tk_pc_ok q pc st"
| "tk_thread_ok q (Done (r, now)) st \<longleftrightarrow> st = Answered (r, now) \<and> now \<le> tk_clock q \<and> (\<forall>m. message_of r = Some m \<longrightarrow> m \<le> tk_clock q)"

definition tk_good ::
  "instant \<Rightarrow> nat \<Rightarrow> nat \<Rightarrow> tick_channel \<Rightarrow> (tid \<Rightarrow> tick_pc timer_thread) \<Rightarrow> instant \<Rightarrow>
     (tid \<Rightarrow> (timer_op, timer_ret \<times> instant) status) \<Rightarrow> bool" where
  "tk_good lim dur n q ts x st \<longleftrightarrow> tk_delivery q = x \<and> tk_last q = lim \<and> tk_duration q = dur \<and>
     (\<forall>i. tk_thread_ok q (ts i) (st i))"

lemma tk_pc_stable:
  assumes "tk_pc_ok q pc st" "tk_delivery q \<le> tk_delivery q'" "tk_clock q \<le> tk_clock q'"
  shows "tk_pc_ok q' pc st"
  using assms by (cases pc) auto

lemma tk_thread_stable:
  assumes "tk_thread_ok q t st" "tk_delivery q \<le> tk_delivery q'" "tk_clock q \<le> tk_clock q'"
  shows "tk_thread_ok q' t st"
  using assms by (cases "(q, t, st)" rule: tk_thread_ok.cases) (auto intro: tk_pc_stable)

lemma message_of_select [simp]:
  "message_of (try_select k (TMsg m)) = Some m" "message_of (try_select k TEmpty) = None" "message_of (answer_query k' b) = None"
  by (cases k; simp)+ (cases k'; simp)

text \<open>One access either leaves the specification alone or is the effect of the call.\<close>

definition tk_outcome ::
  "tick_channel \<Rightarrow> tick_channel \<times> tick_pc timer_thread \<Rightarrow> (timer_op, timer_ret \<times> instant) status \<Rightarrow> bool" where
  "tk_outcome q res st \<longleftrightarrow> (case res of (q', t) \<Rightarrow>
     tk_clock q' = tk_clock q \<and> tk_last q' = tk_last q \<and> tk_duration q' = tk_duration q \<and> tk_delivery q \<le> tk_delivery q' \<and>
     (tk_thread_ok q' t st \<and> tk_delivery q' = tk_delivery q \<or>
      (\<exists>oper r. st = Pending oper \<and> tk_spec (tk_last q) (tk_duration q) oper (tk_delivery q) r (tk_delivery q') \<and>
         tk_thread_ok q' t (Answered r))))"

lemma tk_silent: "tk_thread_ok q t st \<Longrightarrow> tk_outcome q (q, t) st"
  by (simp add: tk_outcome_def)

lemma tk_answers:
  assumes "st = Pending oper" "tk_spec (tk_last q) (tk_duration q) oper (tk_delivery q) r (tk_delivery q)"
    "tk_thread_ok q t (Answered r)"
  shows "tk_outcome q (q, t) st"
  using assms unfolding tk_outcome_def by (cases r) auto

lemma tk_advances:
  assumes "st = Pending oper" "tk_spec (tk_last q) (tk_duration q) oper (tk_delivery q) r x" "tk_delivery q \<le> x"
    "tk_thread_ok (q\<lparr>tk_delivery := x\<rparr>) t (Answered r)"
  shows "tk_outcome q (q\<lparr>tk_delivery := x\<rparr>, t) st"
  using assms unfolding tk_outcome_def by (cases r) auto

lemma tk_try_cas_ok:
  assumes "tk_pc_ok q (KTryCas k now dt) st"
  shows "tk_outcome q (tk_access q (KTryCas k now dt)) st"
proof (cases "now + tk_duration q \<le> tk_last q")
  case True
  show ?thesis
  proof (cases "tk_delivery q = dt")
    case same: True
    have "tk_outcome q (q\<lparr>tk_delivery := now + tk_duration q\<rparr>, Done (try_select k (TMsg dt), now)) st"
      by (rule tk_advances [where r = "(try_select k (TMsg dt), now)"]) (use assms same True in \<open>auto simp: tk_spec_def\<close>)
    then show ?thesis using True same by (simp add: tk_add_def)
  next
    case False
    then show ?thesis using True assms by (simp add: tk_add_def tk_silent)
  qed
next
  case False
  have "tk_outcome q (q, Done (TPanic, now)) st"
    by (rule tk_answers [where r = "(TPanic, now)"]) (use assms False in \<open>auto simp: tk_spec_def\<close>)
  then show ?thesis using False by (simp add: tk_add_def)
qed

lemma tk_recv_cas_ok:
  assumes "tk_pc_ok q (KRecvCas d dt now) st"
  shows "tk_outcome q (tk_access q (KRecvCas d dt now)) st"
proof (cases "max dt now + tk_duration q \<le> tk_last q")
  case True
  show ?thesis
  proof (cases "tk_delivery q = dt")
    case same: True
    let ?x = "max dt now + tk_duration q"
    let ?t = "if now < dt then Running (KMsgNap dt now (dt - now)) else Done (TMsg dt, now)"
    have "tk_thread_ok (q\<lparr>tk_delivery := ?x\<rparr>) ?t (Answered (TMsg dt, now))" using assms by auto
    moreover have "tk_spec (tk_last q) (tk_duration q) (TRecv d) (tk_delivery q) (TMsg dt, now) ?x"
      using assms True same by (auto simp: tk_spec_def)
    ultimately have "tk_outcome q (q\<lparr>tk_delivery := ?x\<rparr>, ?t) st"
      using assms same by (intro tk_advances [where r = "(TMsg dt, now)"]) auto
    then show ?thesis using True same by (simp add: tk_add_def)
  next
    case False
    then show ?thesis using True assms by (simp add: tk_add_def tk_silent)
  qed
next
  case False
  then have "tk_last q < max (tk_delivery q) now + tk_duration q" using assms by (auto simp: max_def split: if_splits)
  then have "tk_outcome q (q, Done (TPanic, now)) st"
    by (intro tk_answers [where r = "(TPanic, now)"]) (use assms in \<open>auto simp: tk_spec_def\<close>)
  then show ?thesis using False by (simp add: tk_add_def)
qed

lemma tk_access_ok:
  assumes "tk_pc_ok q pc st"
  shows "tk_outcome q (tk_access q pc) st"
proof (cases pc)
  case (KTryLoad k now)
  show ?thesis
  proof (cases "now < tk_delivery q")
    case True
    then have "tk_outcome q (q, Done (try_select k TEmpty, now)) st"
      by (intro tk_answers [where r = "(try_select k TEmpty, now)"]) (use assms KTryLoad in \<open>auto simp: tk_spec_def\<close>)
    then show ?thesis using True KTryLoad by simp
  qed (use assms KTryLoad in \<open>simp add: tk_silent\<close>)
next
  case (KTryCas k now dt)
  then show ?thesis using assms tk_try_cas_ok by simp
next
  case (KRecvCas d dt now)
  then show ?thesis using assms tk_recv_cas_ok by simp
next
  case (KRecvNow d dt)
  show ?thesis
  proof (cases "\<exists>e. d = Some e \<and> e < dt")
    case True
    then obtain e where e: "d = Some e" "e < dt" by blast
    show ?thesis
    proof (cases "tk_clock q < e")
      case False
      then have "tk_outcome q (q, Done (TTimeout, tk_clock q)) st"
        by (intro tk_answers [where r = "(TTimeout, tk_clock q)"]) (use assms KRecvNow e in \<open>auto simp: tk_spec_def\<close>)
      then show ?thesis using False KRecvNow e by simp
    qed (use assms KRecvNow e in \<open>auto simp: Let_def intro!: tk_silent\<close>)
  qed (use assms KRecvNow in \<open>auto simp: Let_def intro!: tk_silent split: option.splits\<close>)
next
  case (KTimeoutNapping e w)
  show ?thesis
  proof (cases "w \<le> tk_clock q")
    case True
    then have "tk_outcome q (q, Done (TTimeout, tk_clock q)) st"
      by (intro tk_answers [where r = "(TTimeout, tk_clock q)"]) (use assms KTimeoutNapping in \<open>auto simp: tk_spec_def\<close>)
    then show ?thesis using True KTimeoutNapping by simp
  qed (use assms KTimeoutNapping in \<open>auto intro!: tk_silent\<close>)
next
  case (KQueryLoad k now)
  then have "tk_outcome q (q, Done (answer_query k (now < tk_delivery q), now)) st"
    by (intro tk_answers [where r = "(answer_query k (now < tk_delivery q), now)"]) (use assms in \<open>auto simp: tk_spec_def\<close>)
  then show ?thesis using KQueryLoad by simp
next
  case KDeadline
  then have "tk_outcome q (q, Done (TInstant (Some (tk_delivery q)), tk_clock q)) st"
    by (intro tk_answers [where r = "(TInstant (Some (tk_delivery q)), tk_clock q)"]) (use assms in \<open>auto simp: tk_spec_def\<close>)
  then show ?thesis using KDeadline by simp
qed (use assms in \<open>auto intro!: tk_silent\<close>)

lemma tk_good_tick:
  assumes good: "tk_good lim dur n q ts x st" and run: "ts i = Running pc" and tick: "tk_tick ch q pc = (q', t)"
  shows "tk_good lim dur (Suc n) q' (ts(i := t)) x st \<or>
    (\<exists>oper r x'. st i = Pending oper \<and> tk_spec lim dur oper x r x' \<and> tk_good lim dur (Suc n) q' (ts(i := t)) x' (st(i := Answered r)))"
proof -
  let ?q = "q\<lparr>tk_clock := tk_clock q + ch\<rparr>"
  have q: "tk_delivery q = x" "tk_last q = lim" "tk_duration q = dur" "tk_thread_ok q (ts j) (st j)" for j
    using good by (simp_all add: tk_good_def)
  have "tk_pc_ok q pc (st i)" using q(4) [of i] run by simp
  then have "tk_pc_ok ?q pc (st i)" by (rule tk_pc_stable) simp_all
  from tk_access_ok [OF this] tick have out: "tk_outcome ?q (q', t) (st i)" by (simp add: tk_tick_def)
  then have q': "tk_clock q' = tk_clock q + ch" "tk_last q' = lim" "tk_duration q' = dur" "tk_delivery q \<le> tk_delivery q'"
    using q by (simp_all add: tk_outcome_def)
  have stable: "tk_thread_ok q' (ts j) (st j)" for j
    by (rule tk_thread_stable [OF q(4)]) (use q' in simp_all)
  from out consider "tk_thread_ok q' t (st i)" "tk_delivery q' = x"
    | oper r where "st i = Pending oper" "tk_spec lim dur oper x r (tk_delivery q')" "tk_thread_ok q' t (Answered r)"
    using q by (auto simp: tk_outcome_def)
  then show ?thesis
  proof cases
    case 1
    then have "tk_good lim dur (Suc n) q' (ts(i := t)) x st" using q' stable by (auto simp: tk_good_def)
    then show ?thesis by blast
  next
    case 2
    have "tk_good lim dur (Suc n) q' (ts(i := t)) (tk_delivery q') (st(i := Answered r))"
      using 2(3) q' stable by (auto simp: tk_good_def)
    then show ?thesis using 2(1,2) by blast
  qed
qed

interpretation tk: thread_simulation tk_start tk_tick "tk_spec lim dur" "tk_good lim dur" bound for lim dur bound
proof (unfold_locales, goal_cases)
  case (2 n q ts x st i oper)
  then show ?case by (cases oper) (auto simp: tk_good_def dest: spec [of _ i])
next
  case 3
  then show ?case by (intro tk_good_tick)
next
  case (4 n q ts x st i r)
  then show ?case by (cases r) (auto simp: tk_good_def dest: spec [of _ i])
qed (simp add: tk_good_def)

lemma tk_good_new: "tk_good lim dur n (tk_new now lim due dur) (\<lambda>_. Resting) due (\<lambda>_. Quiet)"
  by (simp add: tk_good_def tk_new_def)

text \<open>
  C36: a channel of \<^verbatim>\<open>tick\<close> is linearizable: each message is received once, and the message after one that was taken
  at a reading \<open>now\<close> of the clock is due a period after \<open>now\<close> or after the message itself, whichever is later; a
  receive times out only if the next message is due after its deadline and the deadline has passed; a panic means that
  the next instant cannot be represented. No call returns with a message before the time of that message.
\<close>

theorem tick_linearizable:
  "(\<exists>b. ao_run (tk_spec lim dur) (due, \<lambda>_. Quiet)
      (impl_trace (threads_step tk_start tk_tick) threads_label es (tk_new now lim due dur, \<lambda>_. Resting)) b) \<and>
   (case impl_run (threads_step tk_start tk_tick) es (tk_new now lim due dur, \<lambda>_. Resting) of (q, ts) \<Rightarrow>
      \<forall>i r t m. ts i = Done (r, t) \<and> message_of r = Some m \<longrightarrow> m \<le> tk_clock q)"
proof -
  obtain q ts where run: "impl_run (threads_step tk_start tk_tick) es (tk_new now lim due dur, \<lambda>_. Resting) = (q, ts)"
    by fastforce
  from tk.roles.good_run [OF tk_good_new [of lim dur 0 now due], of es "length es"] run all_permitted [of es]
  obtain x st where "tk_good lim dur (length es) q ts x st" by auto
  then have "m \<le> tk_clock q" if "ts i = Done (r, t)" "message_of r = Some m" for i r t m
    using that by (auto simp: tk_good_def dest: spec [of _ i])
  then show ?thesis using tk.free_linearizable [OF tk_good_new order_refl] run by auto
qed

theorem tick_linearizable_witness:
  "\<exists>b. ao_run (tk_spec 100 10) (5, \<lambda>_. Quiet)
      (impl_trace (threads_step tk_start tk_tick) threads_label
        [CallOp 0 (TRecv None), TickOp 0 1, TickOp 0 1, TickOp 0 0, TickOp 0 1, TickOp 0 2, TickOp 0 9, ReturnOp 0]
        (tk_new 0 100 5 10, \<lambda>_. Resting)) b"
  using tick_linearizable by blast

section \<open>The channel without messages\<close>

definition never_try_recv :: timer_ret where "never_try_recv = TEmpty"

definition never_recv :: "instant option \<Rightarrow> instant \<Rightarrow> sleep_pc \<Rightarrow> sleep_pc + timer_ret" where
  "never_recv d now pc = (case sleep_until d now pc of Some pc' \<Rightarrow> Inl pc' | None \<Rightarrow> Inr TTimeout)"

fun never_query :: "query \<Rightarrow> timer_ret" where
  "never_query IsEmpty = TBool True"
| "never_query IsFull = TBool True"
| "never_query QLen = TCount 0"
| "never_query IsReady = TBool False"

lemma never_recv_times_out: "never_recv d now pc = Inr r \<Longrightarrow> r = TTimeout \<and> (\<exists>e. d = Some e \<and> e \<le> now)"
  using sleep_until_returns [of d now pc] by (auto simp: never_recv_def split: option.splits)

end
