(* ===== verification/Array_Channel.thy ===== *)
theory Array_Channel
  imports Ring_Stamp Atomic_Object Channel_Err
begin

text \<open>
  \<^verbatim>\<open>crossbeam-channel/src/flavors/array.rs\<close>: the lock-free part of the bounded channel, run by any
  number of threads, one access to the shared memory at a time. The tail carries a mark bit that says that
  the channel is disconnected. The field \<open>receivers_gone\<close> is not part of the code: it records that the last
  receiver has been dropped, which is when \<^verbatim>\<open>disconnect_receivers\<close> is called and after which nobody can
  receive. An unchecked access out of range or a read of an uninitialised message is the point
  \<open>CUndefined\<close>. Waking blocked threads is the business of theory \<open>Array_Channel_Block\<close>.
\<close>

section \<open>The channel\<close>

record 'a ac_slot =
  ac_stamp :: u64
  ac_msg :: "'a option"

record 'a array_channel =
  ac_head :: u64
  ac_tail :: u64
  ac_buffer :: "'a ac_slot list"
  ac_one_lap :: u64
  ac_mark_bit :: u64
  receivers_gone :: bool

datatype ac_panic = Capacity_must_be_positive | Bounded_capacity_too_large | Bounded_capacity_overflow

text \<open>\<open>slot_size\<close> is the size of a \<^verbatim>\<open>Slot<T>\<close> in bytes; the buffer is collected last.\<close>

definition ac_with_capacity :: "usize \<Rightarrow> usize \<Rightarrow> ('a array_channel, ac_panic) result" where
  "ac_with_capacity slot_size cap =
     (if cap = 0 then Err Capacity_must_be_positive
      else case Option.bind (checked_add cap 1) checked_next_power_of_two of
        None \<Rightarrow> Err Bounded_capacity_too_large
      | Some mark_bit \<Rightarrow>
          (case checked_mul mark_bit 2 of
             None \<Rightarrow> Err Bounded_capacity_too_large
           | Some one_lap \<Rightarrow>
               if capacity_overflow slot_size cap then Err Bounded_capacity_overflow
               else Ok \<lparr>ac_head = 0, ac_tail = 0,
                   ac_buffer = map (\<lambda>i. \<lparr>ac_stamp = word_of_nat i, ac_msg = None\<rparr>) [0..<unat cap],
                   ac_one_lap = one_lap, ac_mark_bit = mark_bit, receivers_gone = False\<rparr>))"

definition ac_cap :: "'a array_channel \<Rightarrow> nat" where
  "ac_cap q = length (ac_buffer q)"

definition ac_marked :: "'a array_channel \<Rightarrow> u64 \<Rightarrow> bool" where
  "ac_marked q t \<longleftrightarrow> t AND ac_mark_bit q \<noteq> 0"

definition ac_unmarked :: "'a array_channel \<Rightarrow> u64 \<Rightarrow> u64" where
  "ac_unmarked q t = t AND NOT (ac_mark_bit q)"

definition ac_index :: "'a array_channel \<Rightarrow> u64 \<Rightarrow> nat" where
  "ac_index q t = stamp_index (ac_mark_bit q) t"

definition ac_next :: "'a array_channel \<Rightarrow> u64 \<Rightarrow> u64" where
  "ac_next q t = stamp_next (ac_cap q) (ac_mark_bit q) (ac_one_lap q) t"

definition ac_put :: "nat \<Rightarrow> ('a ac_slot \<Rightarrow> 'a ac_slot) \<Rightarrow> 'a array_channel \<Rightarrow> 'a array_channel" where
  "ac_put index f q = q\<lparr>ac_buffer := (ac_buffer q)[index := f (ac_buffer q ! index)]\<rparr>"

section \<open>The machines\<close>

datatype 'a ac_op = TrySend 'a | TryRecv | DisconnectSenders | DisconnectReceivers
  | IsDisconnected | IsEmptyChannel | IsFullChannel

datatype 'a ac_ret = SendRet "(unit, 'a try_send_error) result" | RecvRet "('a, try_recv_error) result"
  | DisconnectRet bool | DropRet bool "'a list" | BoolRet bool

text \<open>
  Program points. Those after a reserved slot hold the token: the slot and the stamp to store. The points of
  \<^verbatim>\<open>discard_all_messages\<close> hold whether this call disconnected the channel, the last tail, the head, and the
  messages that have been dropped.
\<close>

datatype 'a ac_pc =
    SLoadTail 'a | SLoadStamp 'a u64 | SCasTail 'a u64 | SLoadHead 'a u64 | SWrite 'a nat u64 | SStore nat u64
  | RLoadHead | RLoadStamp u64 | RCasHead u64 | RLoadTail u64 | RRead nat u64 | RStore 'a nat u64
  | DSenders | DReceivers | DLoadHead bool u64 | DLoadStamp bool u64 u64 "'a list" | DDrop bool u64 u64 "'a list"
  | QDisconnected | QEmptyHead | QEmptyTail u64 | QFullTail | QFullHead u64
  | CUndefined

fun ac_start :: "'a ac_op \<Rightarrow> 'a ac_pc" where
  "ac_start (TrySend v) = SLoadTail v"
| "ac_start TryRecv = RLoadHead"
| "ac_start DisconnectSenders = DSenders"
| "ac_start DisconnectReceivers = DReceivers"
| "ac_start IsDisconnected = QDisconnected"
| "ac_start IsEmptyChannel = QEmptyHead"
| "ac_start IsFullChannel = QFullTail"

type_synonym 'a ac_thread = "('a ac_pc, 'a ac_ret) thread"

text \<open>
  \<^verbatim>\<open>try_send\<close> with \<^verbatim>\<open>start_send\<close>: the head of the loop, with the tail just loaded; a null token makes
  \<^verbatim>\<open>write\<close> give the message back.
\<close>

definition ac_send_loop :: "'a array_channel \<Rightarrow> 'a \<Rightarrow> u64 \<Rightarrow> 'a ac_thread" where
  "ac_send_loop q v tail =
     (if ac_marked q tail then Done (SendRet (Err (TSDisconnected v))) else Running (SLoadStamp v tail))"

fun start_send_tick :: "bool \<Rightarrow> 'a array_channel \<Rightarrow> 'a ac_pc \<Rightarrow> 'a array_channel \<times> 'a ac_thread" where
  "start_send_tick spurious q (SLoadTail v) = (q, ac_send_loop q v (ac_tail q))"
| "start_send_tick spurious q (SLoadStamp v tail) =
     (if ac_index q tail < length (ac_buffer q) then
        let st = ac_stamp (ac_buffer q ! ac_index q tail) in
        if tail = st then (q, Running (SCasTail v tail))
        else if st + ac_one_lap q = tail + 1 then (q, Running (SLoadHead v tail))
        else (q, Running (SLoadTail v))
      else (q, Running CUndefined))"
| "start_send_tick spurious q (SCasTail v tail) =
     (if \<not> spurious \<and> ac_tail q = tail
      then (q\<lparr>ac_tail := ac_next q tail\<rparr>, Running (SWrite v (ac_index q tail) (tail + 1)))
      else (q, ac_send_loop q v (ac_tail q)))"
| "start_send_tick spurious q (SLoadHead v tail) =
     (if ac_head q + ac_one_lap q = tail then (q, Done (SendRet (Err (TSFull v)))) else (q, Running (SLoadTail v)))"
| "start_send_tick spurious q pc = (q, Running pc)"

fun ac_write_tick :: "'a array_channel \<Rightarrow> 'a ac_pc \<Rightarrow> 'a array_channel \<times> 'a ac_thread" where
  "ac_write_tick q (SWrite v slot st) = (ac_put slot (\<lambda>s. s\<lparr>ac_msg := Some v\<rparr>) q, Running (SStore slot st))"
| "ac_write_tick q (SStore slot st) = (ac_put slot (\<lambda>s. s\<lparr>ac_stamp := st\<rparr>) q, Done (SendRet (Ok ())))"
| "ac_write_tick q pc = (q, Running pc)"

text \<open>\<^verbatim>\<open>try_recv\<close> with \<^verbatim>\<open>start_recv\<close>, and \<^verbatim>\<open>read\<close>.\<close>

fun start_recv_tick :: "bool \<Rightarrow> 'a array_channel \<Rightarrow> 'a ac_pc \<Rightarrow> 'a array_channel \<times> 'a ac_thread" where
  "start_recv_tick spurious q RLoadHead = (q, Running (RLoadStamp (ac_head q)))"
| "start_recv_tick spurious q (RLoadStamp head) =
     (if ac_index q head < length (ac_buffer q) then
        let st = ac_stamp (ac_buffer q ! ac_index q head) in
        if head + 1 = st then (q, Running (RCasHead head))
        else if st = head then (q, Running (RLoadTail head))
        else (q, Running RLoadHead)
      else (q, Running CUndefined))"
| "start_recv_tick spurious q (RCasHead head) =
     (if \<not> spurious \<and> ac_head q = head
      then (q\<lparr>ac_head := ac_next q head\<rparr>, Running (RRead (ac_index q head) (head + ac_one_lap q)))
      else (q, Running (RLoadStamp (ac_head q))))"
| "start_recv_tick spurious q (RLoadTail head) =
     (let tail = ac_tail q in
      if ac_unmarked q tail = head
      then (q, Done (RecvRet (Err (if ac_marked q tail then TRDisconnected else TREmpty))))
      else (q, Running RLoadHead))"
| "start_recv_tick spurious q pc = (q, Running pc)"

fun ac_read_tick :: "'a array_channel \<Rightarrow> 'a ac_pc \<Rightarrow> 'a array_channel \<times> 'a ac_thread" where
  "ac_read_tick q (RRead slot st) =
     (case ac_msg (ac_buffer q ! slot) of
        None \<Rightarrow> (q, Running CUndefined)
      | Some msg \<Rightarrow> (ac_put slot (\<lambda>s. s\<lparr>ac_msg := None\<rparr>) q, Running (RStore msg slot st)))"
| "ac_read_tick q (RStore msg slot st) = (ac_put slot (\<lambda>s. s\<lparr>ac_stamp := st\<rparr>) q, Done (RecvRet (Ok msg)))"
| "ac_read_tick q pc = (q, Running pc)"

text \<open>\<^verbatim>\<open>disconnect_senders\<close>, and \<^verbatim>\<open>disconnect_receivers\<close> with \<^verbatim>\<open>discard_all_messages\<close>.\<close>

fun disconnect_tick :: "'a array_channel \<Rightarrow> 'a ac_pc \<Rightarrow> 'a array_channel \<times> 'a ac_thread" where
  "disconnect_tick q DSenders =
     (q\<lparr>ac_tail := ac_tail q OR ac_mark_bit q\<rparr>, Done (DisconnectRet (\<not> ac_marked q (ac_tail q))))"
| "disconnect_tick q DReceivers =
     (let tail = ac_tail q in
      (q\<lparr>ac_tail := tail OR ac_mark_bit q, receivers_gone := True\<rparr>, Running (DLoadHead (\<not> ac_marked q tail) tail)))"
| "disconnect_tick q (DLoadHead b tail) = (q, Running (DLoadStamp b (ac_unmarked q tail) (ac_head q) []))"
| "disconnect_tick q (DLoadStamp b tail head dropped) =
     (if ac_index q head < length (ac_buffer q) then
        if head + 1 = ac_stamp (ac_buffer q ! ac_index q head) then (q, Running (DDrop b tail head dropped))
        else if tail = head then (q, Done (DropRet b dropped))
        else (q, Running (DLoadStamp b tail head dropped))
      else (q, Running CUndefined))"
| "disconnect_tick q (DDrop b tail head dropped) =
     (case ac_msg (ac_buffer q ! ac_index q head) of
        None \<Rightarrow> (q, Running CUndefined)
      | Some msg \<Rightarrow>
          (ac_put (ac_index q head) (\<lambda>s. s\<lparr>ac_msg := None\<rparr>) q,
           Running (DLoadStamp b tail (ac_next q head) (dropped @ [msg]))))"
| "disconnect_tick q pc = (q, Running pc)"

text \<open>\<^verbatim>\<open>is_disconnected\<close>, \<^verbatim>\<open>is_empty\<close> and \<^verbatim>\<open>is_full\<close>.\<close>

fun ac_query_tick :: "'a array_channel \<Rightarrow> 'a ac_pc \<Rightarrow> 'a array_channel \<times> 'a ac_thread" where
  "ac_query_tick q QDisconnected = (q, Done (BoolRet (ac_marked q (ac_tail q))))"
| "ac_query_tick q QEmptyHead = (q, Running (QEmptyTail (ac_head q)))"
| "ac_query_tick q (QEmptyTail head) = (q, Done (BoolRet (ac_unmarked q (ac_tail q) = head)))"
| "ac_query_tick q QFullTail = (q, Running (QFullHead (ac_tail q)))"
| "ac_query_tick q (QFullHead tail) = (q, Done (BoolRet (ac_head q + ac_one_lap q = ac_unmarked q tail)))"
| "ac_query_tick q pc = (q, Running pc)"

definition ac_tick :: "bool \<Rightarrow> 'a array_channel \<Rightarrow> 'a ac_pc \<Rightarrow> 'a array_channel \<times> 'a ac_thread" where
  "ac_tick sp q pc =
     (case pc of
        SLoadTail v \<Rightarrow> start_send_tick sp q pc
      | SLoadStamp v t \<Rightarrow> start_send_tick sp q pc
      | SCasTail v t \<Rightarrow> start_send_tick sp q pc
      | SLoadHead v t \<Rightarrow> start_send_tick sp q pc
      | SWrite v i t \<Rightarrow> ac_write_tick q pc
      | SStore i t \<Rightarrow> ac_write_tick q pc
      | RLoadHead \<Rightarrow> start_recv_tick sp q pc
      | RLoadStamp h \<Rightarrow> start_recv_tick sp q pc
      | RCasHead h \<Rightarrow> start_recv_tick sp q pc
      | RLoadTail h \<Rightarrow> start_recv_tick sp q pc
      | RRead i h \<Rightarrow> ac_read_tick q pc
      | RStore m i h \<Rightarrow> ac_read_tick q pc
      | DSenders \<Rightarrow> disconnect_tick q pc
      | DReceivers \<Rightarrow> disconnect_tick q pc
      | DLoadHead b t \<Rightarrow> disconnect_tick q pc
      | DLoadStamp b t h d \<Rightarrow> disconnect_tick q pc
      | DDrop b t h d \<Rightarrow> disconnect_tick q pc
      | _ \<Rightarrow> ac_query_tick q pc)"

section \<open>Who may call what\<close>

text \<open>
  A receive needs a receiver, and \<^verbatim>\<open>disconnect_receivers\<close> is called when the last one is dropped: no thread is
  receiving then, and none will.
\<close>

fun receiving :: "'a ac_thread \<Rightarrow> bool" where
  "receiving (Running RLoadHead) = True"
| "receiving (Running (RLoadStamp _)) = True"
| "receiving (Running (RCasHead _)) = True"
| "receiving (Running (RLoadTail _)) = True"
| "receiving (Running (RRead _ _)) = True"
| "receiving (Running (RStore _ _ _)) = True"
| "receiving _ = False"

fun discarding :: "'a ac_thread \<Rightarrow> bool" where
  "discarding (Running DReceivers) = True"
| "discarding (Running (DLoadHead _ _)) = True"
| "discarding (Running (DLoadStamp _ _ _ _)) = True"
| "discarding (Running (DDrop _ _ _ _)) = True"
| "discarding _ = False"

definition ac_may :: "'a array_channel \<Rightarrow> (tid \<Rightarrow> 'a ac_thread) \<Rightarrow> tid \<Rightarrow> 'a ac_op \<Rightarrow> bool" where
  "ac_may q ts i oper \<longleftrightarrow>
     (case oper of
        TryRecv \<Rightarrow> \<not> receivers_gone q \<and> (\<forall>j. \<not> discarding (ts j))
      | DisconnectReceivers \<Rightarrow> \<not> receivers_gone q \<and> (\<forall>j. \<not> discarding (ts j) \<and> \<not> receiving (ts j))
      | _ \<Rightarrow> True)"

section \<open>What the channel promises\<close>

text \<open>
  The state is the messages in the channel and whether it is disconnected. A send into a full channel that is
  disconnected may report either. \<^verbatim>\<open>is_empty\<close> and \<^verbatim>\<open>is_full\<close> may miss the state they ask for when it
  changes under them, but do not report it wrongly. Disconnecting the receivers drops the messages that are left.
\<close>

fun ac_spec :: "nat \<Rightarrow> 'a ac_op \<Rightarrow> 'a list \<times> bool \<Rightarrow> 'a ac_ret \<Rightarrow> 'a list \<times> bool \<Rightarrow> bool" where
  "ac_spec c (TrySend v) (xs, d) r x' \<longleftrightarrow>
     (\<not> d \<and> length xs < c \<and> r = SendRet (Ok ()) \<and> x' = (xs @ [v], d)) \<or>
     (length xs = c \<and> r = SendRet (Err (TSFull v)) \<and> x' = (xs, d)) \<or>
     (d \<and> r = SendRet (Err (TSDisconnected v)) \<and> x' = (xs, d))"
| "ac_spec c TryRecv (xs, d) r x' \<longleftrightarrow>
     (case xs of
        [] \<Rightarrow> r = RecvRet (Err (if d then TRDisconnected else TREmpty)) \<and> x' = (xs, d)
      | y # ys \<Rightarrow> r = RecvRet (Ok y) \<and> x' = (ys, d))"
| "ac_spec c DisconnectSenders (xs, d) r x' \<longleftrightarrow> r = DisconnectRet (\<not> d) \<and> x' = (xs, True)"
| "ac_spec c DisconnectReceivers (xs, d) r x' \<longleftrightarrow> r = DropRet (\<not> d) xs \<and> x' = (xs, True)"
| "ac_spec c IsDisconnected (xs, d) r x' \<longleftrightarrow> r = BoolRet d \<and> x' = (xs, d)"
| "ac_spec c IsEmptyChannel (xs, d) r x' \<longleftrightarrow> (\<exists>b. r = BoolRet b \<and> (b \<longrightarrow> xs = [])) \<and> x' = (xs, d)"
| "ac_spec c IsFullChannel (xs, d) r x' \<longleftrightarrow> (\<exists>b. r = BoolRet b \<and> (b \<longrightarrow> length xs = c)) \<and> x' = (xs, d)"

end
