(* ===== verification/Array_Channel_Linear.thy ===== *)
theory Array_Channel_Linear
  imports Array_Channel Array_Queue_Linear
begin

text \<open>
  The bounded channel is linearizable. Its sends and receives are those of the ticket machine of
  theory \<open>Array_Queue_Tickets\<close>, seen through stamps with a mark bit between the index and the lap, except that
  a send leaves as soon as it finds the mark. The invariant of the ticket machine carries over; what is added is
  the mark, the queries, and the last receiver that drops the messages left in the channel.
\<close>

section \<open>Stamps with a mark bit\<close>

definition marked_ring :: "nat \<Rightarrow> nat \<Rightarrow> bool" where
  "marked_ring c m \<longleftrightarrow> ring c (Suc m) \<and> c < 2 ^ m"

lemma marked_ringD:
  assumes "marked_ring c m"
  shows "ring c (Suc m)" "c \<le> 2 ^ m" "0 < c" "m < 63"
  using assms by (simp_all add: marked_ring_def ring_def)

lemma enc_unmarked_bit:
  assumes "marked_ring c m"
  shows "\<not> bit (enc c (Suc m) p) m"
proof -
  note r = marked_ringD [OF assms]
  have "bit (enc c (Suc m) p) m = bit (take_bit (Suc m) (enc c (Suc m) p)) m" by (simp add: bit_take_bit_iff)
  also have "take_bit (Suc m) (enc c (Suc m) p) = take_bit m (enc c (Suc m) p)"
    using r take_bit_enc [OF r(1), of m p] take_bit_enc [OF r(1), of "Suc m" p] by (simp add: ring_def)
  finally show ?thesis by (simp add: bit_take_bit_iff)
qed

definition mark :: "nat \<Rightarrow> bool \<Rightarrow> u64" where
  "mark m d = (if d then 2 ^ m else 0)"

lemma enc_or_mark:
  assumes "marked_ring c m"
  shows "((enc c (Suc m) p OR mark m d) AND 2 ^ m \<noteq> 0) = d"
    "(enc c (Suc m) p OR mark m d) AND NOT (2 ^ m) = enc c (Suc m) p"
    "(enc c (Suc m) p OR mark m d) OR 2 ^ m = enc c (Suc m) p OR mark m True"
    "(enc c (Suc m) p OR mark m d = enc c (Suc m) t) = (\<not> d \<and> enc c (Suc m) p = enc c (Suc m) t)"
    "enc c (Suc m) p AND NOT (2 ^ m) = enc c (Suc m) p"
    "enc c (Suc m) p AND 2 ^ m = 0"
proof -
  note b = enc_unmarked_bit [OF assms] and m = marked_ringD(4) [OF assms]
  have e: "bit (2 ^ m :: u64) n = (n = m)" for n using m by (auto simp: bit_exp_iff)
  have u: "(enc c (Suc m) p' OR mark m d') AND NOT (2 ^ m) = enc c (Suc m) p'" for p' d'
    using b [of p'] m by (intro bit_eqI) (auto simp: bit_simps mark_def)
  show "((enc c (Suc m) p OR mark m d) AND 2 ^ m \<noteq> 0) = d"
    using b [of p] m by (auto simp: and_exp_eq_0_iff_not_bit bit_or_iff mark_def e)
  show "(enc c (Suc m) p OR mark m d) AND NOT (2 ^ m) = enc c (Suc m) p" by (rule u)
  show "(enc c (Suc m) p OR mark m d) OR 2 ^ m = enc c (Suc m) p OR mark m True"
    by (simp add: mark_def or.assoc)
  show "(enc c (Suc m) p OR mark m d = enc c (Suc m) t) = (\<not> d \<and> enc c (Suc m) p = enc c (Suc m) t)"
  proof (cases d)
    case True
    have "bit (enc c (Suc m) p OR mark m d) m" using m True by (simp add: bit_or_iff mark_def e)
    with b [of t] True show ?thesis by metis
  qed (simp add: mark_def)
  show "enc c (Suc m) p AND NOT (2 ^ m) = enc c (Suc m) p" using u [of p False] by (simp add: mark_def)
  show "enc c (Suc m) p AND 2 ^ m = 0" using b [of p] by (simp add: and_exp_eq_0_iff_not_bit)
qed

section \<open>The code's channel as an encoding of tickets\<close>

text \<open>The messages from the head up to position \<open>d\<close> have been dropped by the last receiver.\<close>

definition dropped_slot :: "nat \<Rightarrow> 'a tq \<Rightarrow> nat \<Rightarrow> nat \<Rightarrow> bool" where
  "dropped_slot c q d i \<longleftrightarrow> (\<exists>p. t_head q \<le> p \<and> p < d \<and> p mod c = i)"

definition ac_of :: "nat \<Rightarrow> nat \<Rightarrow> bool \<Rightarrow> bool \<Rightarrow> nat \<Rightarrow> 'a tq \<Rightarrow> 'a array_channel" where
  "ac_of c m disc gone d q = \<lparr>ac_head = enc c (Suc m) (t_head q), ac_tail = enc c (Suc m) (t_tail q) OR mark m disc,
     ac_buffer = map (\<lambda>i. \<lparr>ac_stamp = enc_turn c (Suc m) (t_turn q i),
       ac_msg = (if dropped_slot c q d i then None else t_val q i)\<rparr>) [0..<c],
     ac_one_lap = 2 ^ Suc m, ac_mark_bit = 2 ^ m, receivers_gone = gone\<rparr>"

lemma ac_of_simps [simp]:
  "ac_head (ac_of c m disc gone d q) = enc c (Suc m) (t_head q)"
  "ac_tail (ac_of c m disc gone d q) = enc c (Suc m) (t_tail q) OR mark m disc"
  "length (ac_buffer (ac_of c m disc gone d q)) = c"
  "ac_one_lap (ac_of c m disc gone d q) = 2 ^ Suc m" "ac_mark_bit (ac_of c m disc gone d q) = 2 ^ m"
  "receivers_gone (ac_of c m disc gone d q) = gone" "ac_cap (ac_of c m disc gone d q) = c"
  "i < c \<Longrightarrow> ac_stamp (ac_buffer (ac_of c m disc gone d q) ! i) = enc_turn c (Suc m) (t_turn q i)"
  "i < c \<Longrightarrow> ac_msg (ac_buffer (ac_of c m disc gone d q) ! i) = (if dropped_slot c q d i then None else t_val q i)"
  by (simp_all add: ac_of_def ac_cap_def)

lemma no_dropped_slot: "\<not> dropped_slot c q (t_head q) i"
  by (simp add: dropped_slot_def)

lemma ac_of_index: "marked_ring c m \<Longrightarrow> ac_index (ac_of c m disc gone d q) (enc c (Suc m) t) = t mod c"
  and ac_of_next: "marked_ring c m \<Longrightarrow> ac_next (ac_of c m disc gone d q) (enc c (Suc m) t) = enc c (Suc m) (Suc t)"
  by (simp_all add: ac_index_def ac_next_def stamp_index_enc stamp_next_enc marked_ringD del: power_Suc)

lemma ac_of_marks:
  assumes "marked_ring c m"
  shows "ac_marked (ac_of c m disc gone d q) (enc c (Suc m) p OR mark m b) = b"
    "ac_unmarked (ac_of c m disc gone d q) (enc c (Suc m) p OR mark m b) = enc c (Suc m) p"
    "\<not> ac_marked (ac_of c m disc gone d q) (enc c (Suc m) p)"
    "ac_unmarked (ac_of c m disc gone d q) (enc c (Suc m) p) = enc c (Suc m) p"
  using enc_or_mark [OF assms] by (simp_all add: ac_marked_def ac_unmarked_def)

lemma ac_of_tail:
  "(ac_of c m False gone d q)\<lparr>ac_tail := enc c (Suc m) t\<rparr> = ac_of c m False gone d (q\<lparr>t_tail := t\<rparr>)"
  by (auto simp: ac_of_def mark_def dropped_slot_def)

lemma ac_of_head:
  "(ac_of c m disc gone (t_head q) q)\<lparr>ac_head := enc c (Suc m) h\<rparr> = ac_of c m disc gone h (q\<lparr>t_head := h\<rparr>)"
  by (auto simp: ac_of_def dropped_slot_def)

lemma ac_of_val:
  "i < c \<Longrightarrow> \<not> dropped_slot c q d i \<Longrightarrow>
     ac_put i (\<lambda>s. s\<lparr>ac_msg := y\<rparr>) (ac_of c m disc gone d q) = ac_of c m disc gone d (q\<lparr>t_val := (t_val q)(i := y)\<rparr>)"
  by (auto simp: ac_put_def ac_of_def dropped_slot_def nth_list_update intro!: nth_equalityI)

lemma ac_of_turn:
  "i < c \<Longrightarrow> ac_put i (\<lambda>s. s\<lparr>ac_stamp := enc_turn c (Suc m) u\<rparr>) (ac_of c m disc gone d q) =
     ac_of c m disc gone d (q\<lparr>t_turn := (t_turn q)(i := u)\<rparr>)"
  by (auto simp: ac_put_def ac_of_def dropped_slot_def nth_list_update intro!: nth_equalityI)

lemmas ac_of_stamp = ac_of_turn [where u = "Ready p" for p, unfolded enc_turn.simps]
  ac_of_turn [where u = "Filled p" for p, unfolded enc_turn.simps]

text \<open>The points of the ticket machine as points of the code.\<close>

fun ac_thread_of :: "nat \<Rightarrow> nat \<Rightarrow> bool \<Rightarrow> (nat, 'a) aq_pc \<Rightarrow> 'a ac_thread" where
  "ac_thread_of c m disc (LoadTail f v) = Running (SLoadTail v)"
| "ac_thread_of c m disc (LoadStamp f v t) = Running (SLoadStamp v (enc c (Suc m) t))"
| "ac_thread_of c m disc (CasTail f v t) = Running (SCasTail v (enc c (Suc m) t))"
| "ac_thread_of c m disc (LoadHead v t) = Running (SLoadHead v (enc c (Suc m) t))"
| "ac_thread_of c m disc (WriteVal f v t) = Running (SWrite v (t mod c) (enc c (Suc m) t + 1))"
| "ac_thread_of c m disc (StoreStamp f t) = Running (SStore (t mod c) (enc c (Suc m) t + 1))"
| "ac_thread_of c m disc PopLoadHead = Running RLoadHead"
| "ac_thread_of c m disc (PopLoadStamp h) = Running (RLoadStamp (enc c (Suc m) h))"
| "ac_thread_of c m disc (PopCas h) = Running (RCasHead (enc c (Suc m) h))"
| "ac_thread_of c m disc (PopLoadTail h) = Running (RLoadTail (enc c (Suc m) h))"
| "ac_thread_of c m disc (PopRead h) = Running (RRead (h mod c) (enc c (Suc m) (h + c)))"
| "ac_thread_of c m disc (PopStore x h) = Running (RStore x (h mod c) (enc c (Suc m) (h + c)))"
| "ac_thread_of c m disc (Finished (PushRet (Ok _))) = Done (SendRet (Ok ()))"
| "ac_thread_of c m disc (Finished (PushRet (Err v))) = Done (SendRet (Err (TSFull v)))"
| "ac_thread_of c m disc (Finished (PopRet (Some v))) = Done (RecvRet (Ok v))"
| "ac_thread_of c m disc (Finished (PopRet None)) = Done (RecvRet (Err (if disc then TRDisconnected else TREmpty)))"
| "ac_thread_of c m disc pc = Running CUndefined"

text \<open>The points of plain pushes and of pops.\<close>

fun sends :: "(nat, 'a) aq_pc \<Rightarrow> bool" where
  "sends (LoadTail f v) = (\<not> f)" | "sends (LoadStamp f v t) = (\<not> f)" | "sends (CasTail f v t) = (\<not> f)"
| "sends (LoadHead v t) = True" | "sends (WriteVal f v t) = (\<not> f)" | "sends (StoreStamp f t) = (\<not> f)" | "sends _ = False"

fun receives :: "(nat, 'a) aq_pc \<Rightarrow> bool" where
  "receives PopLoadHead = True" | "receives (PopLoadStamp h) = True" | "receives (PopCas h) = True"
| "receives (PopLoadTail h) = True" | "receives (PopRead h) = True" | "receives (PopStore x h) = True"
| "receives _ = False"

text \<open>Where a send meets the mark.\<close>

fun leaves :: "bool \<Rightarrow> (nat, 'a) aq_pc \<Rightarrow> 'a option" where
  "leaves True (LoadTail f v) = Some v"
| "leaves True (CasTail f v t) = Some v"
| "leaves _ _ = None"

lemma ac_tick_of:
  assumes r: "marked_ring c m" and inv: "tq_inv c (q, pcs) cont L stat" and near: "t_tail q + c < period c (Suc m)"
    and pc: "sends (pcs i) \<or> receives (pcs i) \<and> \<not> gone" "leaves disc (pcs i) = None" "ac_thread_of c m disc (pcs i) = Running apc"
    and d: "\<not> gone \<Longrightarrow> d = t_head q" "\<And>p. t_head q \<le> p \<Longrightarrow> p < d \<Longrightarrow> t_turn q (p mod c) = Filled p"
  shows "ac_tick sp (ac_of c m disc gone d q) apc =
    (case tq_tick c sp q (pcs i) of (q', pc') \<Rightarrow>
       (ac_of c m disc gone (if gone then d else t_head q') q', ac_thread_of c m disc pc'))"
proof -
  note iv = tq_invD [OF inv] and ok = tq_invD(7) [OF inv, of i] and rr = marked_ringD [OF r]
  let ?k = "Suc m"
  have i: "t mod c < c" for t using iv(1) by simp
  have eq: "enc c ?k p = enc c ?k p' \<longleftrightarrow> p = p'" if "p \<le> t_tail q + c" "p' \<le> t_tail q + c" for p p'
    using that near by (intro enc_eq_iff [OF rr(1)]) auto
  have d': "(if gone then d else t_head q) = d" using d(1) by simp
  have safe: "\<not> dropped_slot c q d (t mod c)" if "t_turn q (t mod c) = Ready t" for t
    using that d(2) by (metis dropped_slot_def turn.distinct(1))
  note ofs = ac_of_index [OF r] ac_of_next [OF r] ac_of_marks [OF r] ac_of_val ac_of_stamp
  note tk = ac_tick_def ac_send_loop_def Let_def
  note cmp = stamp_tests [OF rr(1) inv near]
  have lap: "enc c ?k h + 2 ^ ?k = enc c ?k (h + c)" for h by (simp only: enc_add_lap [OF rr(1)])
  show ?thesis
  proof (cases "pcs i")
    case (LoadTail f v)
    then show ?thesis using pc d' by (auto simp: tk ofs mark_def)
  next
    case (LoadStamp f v t)
    with ok have t: "t \<le> t_tail q" by simp
    show ?thesis using LoadStamp i cmp [OF t] pc d'
      by (cases "t_turn q (t mod c)") (auto simp: tk ofs simp del: power_Suc)
  next
    case (CasTail f v t)
    then have "\<not> disc" using pc by (cases disc) auto
    then show ?thesis using CasTail pc d' ok eq [of "t_tail q" t] by (auto simp: tk ofs mark_def ac_of_tail)
  next
    case (LoadHead v t)
    with ok iv(2) have t: "t \<le> t_tail q" "t_head q + c \<le> t_tail q + c" by simp_all
    then show ?thesis using LoadHead pc d' eq [of "t_head q + c" t] by (auto simp: tk ofs lap simp del: power_Suc)
  next
    case (WriteVal f v t)
    then show ?thesis using pc d' ok i safe [of t] by (auto simp: tk ofs)
  next
    case (StoreStamp f t)
    then show ?thesis using pc d' ok i by (auto simp: tk ofs)
  next
    case PopLoadHead
    then show ?thesis using pc d' by (auto simp: tk)
  next
    case (PopLoadStamp h)
    with ok iv(2) have h: "h \<le> t_tail q" by simp
    show ?thesis using PopLoadStamp i cmp [OF h] pc d'
      by (cases "t_turn q (h mod c)") (auto simp: tk ofs simp del: power_Suc)
  next
    case (PopCas h)
    then have "\<not> gone" using pc by simp
    then show ?thesis using PopCas pc d ok iv(2) eq [of "t_head q" h] by (auto simp: tk ofs lap ac_of_head simp del: power_Suc)
  next
    case (PopLoadTail h)
    then show ?thesis using pc d' ok iv(2) eq [of "t_tail q" h] by (auto simp: tk ofs)
  next
    case (PopRead h)
    then have "\<not> gone" using pc by simp
    then show ?thesis using PopRead pc d ok i no_dropped_slot [of c q]
      by (auto simp: tk ofs split: option.splits)
  next
    case (PopStore x h)
    then show ?thesis using pc d' ok i by (auto simp: tk ofs)
  qed (use pc in auto)
qed

section \<open>The invariant\<close>

fun ac_conv :: "('a ac_op, 'a ac_ret) status \<Rightarrow> ('a aq_op, 'a aq_ret) status" where
  "ac_conv (Pending (TrySend v)) = Pending (OpPush v)"
| "ac_conv (Pending TryRecv) = Pending OpPop"
| "ac_conv (Answered (SendRet (Ok _))) = Answered (PushRet (Ok ()))"
| "ac_conv (Answered (RecvRet (Ok x))) = Answered (PopRet (Some x))"
| "ac_conv _ = Quiet"

text \<open>What holds of the threads that are not inside a send or a receive; \<open>xs\<close> are the messages in the channel.\<close>

fun ac_own :: "nat \<Rightarrow> nat \<Rightarrow> 'a tq \<Rightarrow> 'a list \<Rightarrow> nat \<Rightarrow> bool \<Rightarrow> 'a ac_thread \<Rightarrow> ('a ac_op, 'a ac_ret) status \<Rightarrow> bool" where
  "ac_own c m q xs d gone Resting s \<longleftrightarrow> s = Quiet"
| "ac_own c m q xs d gone (Done r) s \<longleftrightarrow> s = Answered r"
| "ac_own c m q xs d gone (Running DSenders) s \<longleftrightarrow> s = Pending DisconnectSenders"
| "ac_own c m q xs d gone (Running DReceivers) s \<longleftrightarrow> s = Pending DisconnectReceivers \<and> \<not> gone"
| "ac_own c m q xs d gone (Running (DLoadHead b tail)) s \<longleftrightarrow> s = Answered (DropRet b xs) \<and> gone \<and> d = t_head q \<and>
     (\<exists>b'. tail = enc c (Suc m) (t_tail q) OR mark m b')"
| "ac_own c m q xs d gone (Running (DLoadStamp b tail head dropped)) s \<longleftrightarrow> s = Answered (DropRet b xs) \<and> gone \<and>
     tail = enc c (Suc m) (t_tail q) \<and> head = enc c (Suc m) d \<and> dropped = take (d - t_head q) xs"
| "ac_own c m q xs d gone (Running (DDrop b tail head dropped)) s \<longleftrightarrow> s = Answered (DropRet b xs) \<and> gone \<and>
     tail = enc c (Suc m) (t_tail q) \<and> head = enc c (Suc m) d \<and> dropped = take (d - t_head q) xs \<and>
     t_turn q (d mod c) = Filled d"
| "ac_own c m q xs d gone (Running QDisconnected) s \<longleftrightarrow> s = Pending IsDisconnected"
| "ac_own c m q xs d gone (Running QEmptyHead) s \<longleftrightarrow> s = Pending IsEmptyChannel"
| "ac_own c m q xs d gone (Running (QEmptyTail w)) s \<longleftrightarrow> s = Pending IsEmptyChannel \<and> (\<exists>h\<le>t_head q. w = enc c (Suc m) h)"
| "ac_own c m q xs d gone (Running QFullTail) s \<longleftrightarrow> s = Pending IsFullChannel"
| "ac_own c m q xs d gone (Running (QFullHead w)) s \<longleftrightarrow> s = Pending IsFullChannel \<and>
     (\<exists>t\<le>t_tail q. \<exists>b. w = enc c (Suc m) t OR mark m b)"
| "ac_own c m q xs d gone (Running _) s \<longleftrightarrow> False"

definition ac_link ::
  "nat \<Rightarrow> nat \<Rightarrow> 'a tq \<Rightarrow> 'a list \<Rightarrow> nat \<Rightarrow> bool \<Rightarrow> 'a ac_thread \<Rightarrow> ('a ac_op, 'a ac_ret) status \<Rightarrow> (nat, 'a) aq_pc \<Rightarrow>
     ('a aq_op, 'a aq_ret) status \<Rightarrow> bool" where
  "ac_link c m q xs d gone t s pc s' \<longleftrightarrow>
     (sends pc \<or> receives pc) \<and> t = ac_thread_of c m False pc \<and> s' = ac_conv s \<or>
     pc = Idle \<and> s' = Quiet \<and> ac_own c m q xs d gone t s"

definition ac_inv ::
  "nat \<Rightarrow> nat \<Rightarrow> 'a tq \<Rightarrow> (tid \<Rightarrow> (nat, 'a) aq_pc) \<Rightarrow> (nat \<Rightarrow> 'a) \<Rightarrow> (tid \<Rightarrow> ('a aq_op, 'a aq_ret) status) \<Rightarrow> nat \<Rightarrow> bool \<Rightarrow>
     (tid \<Rightarrow> 'a ac_thread) \<Rightarrow> 'a list \<times> bool \<Rightarrow> (tid \<Rightarrow> ('a ac_op, 'a ac_ret) status) \<Rightarrow> bool" where
  "ac_inv c m q pcs cont stat d gone ts x st \<longleftrightarrow>
     tq_inv c (q, pcs) cont (t_tail q) stat \<and> fst x = map cont [t_head q..<t_tail q] \<and>
     t_head q \<le> d \<and> d \<le> t_tail q \<and> (\<not> gone \<longrightarrow> d = t_head q) \<and> (gone \<longrightarrow> snd x) \<and>
     (\<forall>p. t_head q \<le> p \<and> p < d \<longrightarrow> t_turn q (p mod c) = Filled p) \<and>
     (\<forall>i. ac_link c m q (fst x) d gone (ts i) (st i) (pcs i) (stat i)) \<and>
     (\<forall>i. receiving (ts i) \<longrightarrow> \<not> gone \<and> (\<forall>j. \<not> discarding (ts j))) \<and>
     (\<forall>i j. discarding (ts i) \<longrightarrow> discarding (ts j) \<longrightarrow> i = j)"

definition ac_good ::
  "nat \<Rightarrow> nat \<Rightarrow> nat \<Rightarrow> 'a array_channel \<Rightarrow> (tid \<Rightarrow> 'a ac_thread) \<Rightarrow> 'a list \<times> bool \<Rightarrow>
     (tid \<Rightarrow> ('a ac_op, 'a ac_ret) status) \<Rightarrow> bool" where
  "ac_good c m n q ts x st \<longleftrightarrow> (\<exists>tq pcs cont stat d gone. q = ac_of c m (snd x) gone d tq \<and>
     ac_inv c m tq pcs cont stat d gone ts x st \<and> t_tail tq \<le> n)"

lemma ac_invD:
  assumes "ac_inv c m q pcs cont stat d gone ts x st"
  shows "tq_inv c (q, pcs) cont (t_tail q) stat" "fst x = map cont [t_head q..<t_tail q]"
    "t_head q \<le> d" "d \<le> t_tail q" "\<not> gone \<Longrightarrow> d = t_head q" "gone \<Longrightarrow> snd x"
    "\<And>p. t_head q \<le> p \<Longrightarrow> p < d \<Longrightarrow> t_turn q (p mod c) = Filled p"
    "\<And>i. ac_link c m q (fst x) d gone (ts i) (st i) (pcs i) (stat i)"
    "\<And>i j. receiving (ts i) \<Longrightarrow> \<not> gone \<and> \<not> discarding (ts j)"
    "\<And>i j. discarding (ts i) \<Longrightarrow> discarding (ts j) \<Longrightarrow> i = j"
  using assms unfolding ac_inv_def by blast+

lemma ac_goodI:
  "ac_inv c m tq pcs cont stat d gone ts x st \<Longrightarrow> t_tail tq \<le> n \<Longrightarrow> ac_good c m n (ac_of c m (snd x) gone d tq) ts x st"
  unfolding ac_good_def by blast

lemma ac_good_mono: "ac_good c m n q ts x st \<Longrightarrow> n \<le> n' \<Longrightarrow> ac_good c m n' q ts x st"
  unfolding ac_good_def by (elim exE conjE) (blast intro: order_trans)

lemma ac_thread_of_disc: "sends pc \<or> receives pc \<Longrightarrow> ac_thread_of c m disc pc = ac_thread_of c m False pc"
  by (cases pc) auto

lemma receiving_of: "receiving (ac_thread_of c m disc pc) = receives pc" if "sends pc \<or> receives pc"
  using that by (cases pc) auto

lemma discarding_of: "\<not> discarding (ac_thread_of c m disc pc)"
  by (cases "(c, m, disc, pc)" rule: ac_thread_of.cases) auto

lemma ac_own_idle: "ac_own c m q xs d gone t s \<Longrightarrow> \<not> receiving t"
  by (cases "(c, m, q, xs, d, gone, t, s)" rule: ac_own.cases) auto

text \<open>What a thread knows survives what the others do.\<close>

lemma ac_own_stable:
  assumes "ac_own c m q xs d gone t s" "t_head q \<le> t_head q'" "t_tail q \<le> t_tail q'"
    and "discarding t \<Longrightarrow> gone' = gone"
    and "discarding t \<Longrightarrow> gone \<Longrightarrow> t_head q' = t_head q \<and> t_tail q' = t_tail q \<and> xs' = xs \<and> d' = d"
    and "discarding t \<Longrightarrow> gone \<Longrightarrow> t_turn q (d mod c) = Filled d \<Longrightarrow> t_turn q' (d mod c) = Filled d"
  shows "ac_own c m q' xs' d' gone' t s"
  using assms by (cases "(c, m, q, xs, d, gone, t, s)" rule: ac_own.cases) (auto intro: order_trans)

text \<open>The invariant after a tick of thread \<open>i\<close>.\<close>

lemma ac_inv_move:
  assumes inv: "ac_inv c m q pcs cont stat d gone ts x st"
    and new: "tq_inv c (q', pcs(i := pc')) cont' (t_tail q') (stat(i := s'))" "fst x' = map cont' [t_head q'..<t_tail q']"
      "t_head q' \<le> d'" "d' \<le> t_tail q'" "\<not> gone' \<Longrightarrow> d' = t_head q'" "gone' \<Longrightarrow> snd x'"
      "\<And>p. t_head q' \<le> p \<Longrightarrow> p < d' \<Longrightarrow> t_turn q' (p mod c) = Filled p"
    and own: "ac_link c m q' (fst x') d' gone' t a pc' s'"
    and mono: "t_head q \<le> t_head q'" "t_tail q \<le> t_tail q'"
    and others: "\<And>j. j \<noteq> i \<Longrightarrow> discarding (ts j) \<Longrightarrow> gone' = gone \<and> (gone \<longrightarrow> t_head q' = t_head q \<and> t_tail q' = t_tail q \<and>
      fst x' = fst x \<and> d' = d \<and> (t_turn q (d mod c) = Filled d \<longrightarrow> t_turn q' (d mod c) = Filled d))"
    and roles: "\<And>j. receiving t \<Longrightarrow> j \<noteq> i \<Longrightarrow> \<not> gone' \<and> \<not> discarding (ts j)" "receiving t \<Longrightarrow> \<not> gone'"
      "\<And>j. discarding t \<Longrightarrow> j \<noteq> i \<Longrightarrow> \<not> discarding (ts j) \<and> \<not> receiving (ts j)"
      "\<And>j. gone' \<Longrightarrow> j \<noteq> i \<Longrightarrow> \<not> receiving (ts j)"
  shows "ac_inv c m q' (pcs(i := pc')) cont' (stat(i := s')) d' gone' (ts(i := t)) x' (st(i := a))"
proof -
  note o = ac_invD [OF inv]
  have link: "ac_link c m q' (fst x') d' gone' ((ts(i := t)) j) ((st(i := a)) j) ((pcs(i := pc')) j) ((stat(i := s')) j)" for j
  proof (cases "j = i")
    case False
    have "ac_own c m q' (fst x') d' gone' (ts j) (st j)" if "ac_own c m q (fst x) d gone (ts j) (st j)"
      by (rule ac_own_stable [OF that mono]) (use others [OF False] in blast)+
    then show ?thesis using o(8) [of j] False by (auto simp: ac_link_def)
  qed (use own in simp)
  have excl: "\<not> discarding t" if "receiving t" using that by (cases t rule: receiving.cases) auto
  have rec: "\<not> gone' \<and> \<not> discarding ((ts(i := t)) k)" if "receiving ((ts(i := t)) j)" for j k
    using that roles o(9) [of j k] excl by (cases "j = i"; cases "k = i") auto
  have dis: "j = k" if "discarding ((ts(i := t)) j)" "discarding ((ts(i := t)) k)" for j k
    using that o(10) [of j k] roles(3) by (cases "j = i"; cases "k = i") auto
  show ?thesis unfolding ac_inv_def using new link rec dis by blast
qed

lemma ac_inv_step:
  assumes inv: "ac_inv c m q pcs cont stat d gone ts x st"
    and new: "tq_inv c (q', pcs(i := pc')) cont' (t_tail q') (stat(i := s'))" "fst x' = map cont' [t_head q'..<t_tail q']"
      "t_head q' \<le> d'" "d' \<le> t_tail q'" "\<not> gone' \<Longrightarrow> d' = t_head q'" "gone' \<Longrightarrow> snd x'"
      "\<And>p. t_head q' \<le> p \<Longrightarrow> p < d' \<Longrightarrow> t_turn q' (p mod c) = Filled p"
    and own: "ac_link c m q' (fst x') d' gone' t a pc' s'"
    and mono: "t_head q \<le> t_head q'" "t_tail q \<le> t_tail q'"
    and others: "\<And>j. j \<noteq> i \<Longrightarrow> discarding (ts j) \<Longrightarrow> gone' = gone \<and> (gone \<longrightarrow> t_head q' = t_head q \<and> t_tail q' = t_tail q \<and>
      fst x' = fst x \<and> d' = d \<and> (t_turn q (d mod c) = Filled d \<longrightarrow> t_turn q' (d mod c) = Filled d))"
    and roles: "receiving t \<Longrightarrow> receiving (ts i)" "discarding t \<Longrightarrow> discarding (ts i)" "gone' \<Longrightarrow> gone \<or> discarding (ts i)"
  shows "ac_inv c m q' (pcs(i := pc')) cont' (stat(i := s')) d' gone' (ts(i := t)) x' (st(i := a))"
proof (rule ac_inv_move [OF inv new own mono others])
  note o = ac_invD [OF inv]
  show "receiving t \<Longrightarrow> j \<noteq> i \<Longrightarrow> \<not> gone' \<and> \<not> discarding (ts j)" for j using roles o(9) [of i] by blast
  show "receiving t \<Longrightarrow> \<not> gone'" using roles o(9) [of i] by blast
  show "discarding t \<Longrightarrow> j \<noteq> i \<Longrightarrow> \<not> discarding (ts j) \<and> \<not> receiving (ts j)" for j
    using roles(2) o(9) [of j i] o(10) [of i j] by blast
  show "gone' \<Longrightarrow> j \<noteq> i \<Longrightarrow> \<not> receiving (ts j)" for j using roles(3) o(9) [of j i] by blast
qed

section \<open>Sends and receives\<close>

lemma tq_settled:
  assumes "tq_inv c (q, pcs) cont L stat" "\<And>i v t. pcs i \<noteq> StoreTail v t"
  shows "L = t_tail q"
  using tq_invD(3,5,6) [OF assms(1)] assms(2) by (metis le_Suc_eq le_antisym)

lemma tq_tick_step:
  assumes inv: "tq_inv c (q, pcs) cont L stat" and xs: "xs = map cont [t_head q..<L]"
    and tick: "tq_tick c sp q (pcs i) = (q', pc')"
  obtains (silent) cont' L' where "tq_inv c (q', pcs(i := pc')) cont' L' stat" "xs = map cont' [t_head q'..<L']"
  | (effect) oper r ys cont' L' where "stat i = Pending oper" "aq_spec c oper xs = (r, ys)"
      "tq_inv c (q', pcs(i := pc')) cont' L' (stat(i := Answered r))" "ys = map cont' [t_head q'..<L']"
  using sim_tick [OF inv xs, of i sp] tick by (auto simp: matched_def tq_rel_def)

text \<open>What a tick of a plain push or a pop can do.\<close>

lemma tq_tick_plain:
  assumes "sends pc \<or> receives pc" "pc_ok c q cont L pc s" "tq_tick c sp q pc = (q', pc')"
  shows "t_head q \<le> t_head q'" "t_tail q \<le> t_tail q'" "t_tail q' \<le> Suc (t_tail q)"
    "sends pc' \<or> receives pc' \<or> (\<exists>r. pc' = Finished r) \<or> pc' = Undefined"
    "sends pc \<Longrightarrow> t_head q' = t_head q" "receives pc' \<Longrightarrow> receives pc"
    "sends pc \<Longrightarrow> leaves True pc = None \<Longrightarrow> t_tail q' = t_tail q"
    "sends pc \<Longrightarrow> t_turn q (p mod c) = Filled p \<Longrightarrow> t_turn q' (p mod c) = Filled p"
  using assms by (cases pc; auto split: turn.splits option.splits if_splits)+

lemma push_by_cas:
  assumes "sends pc" "pc_ok c q cont L pc (Pending oper)" "tq_tick c sp q pc = (q', pc')"
    "pc_ok c q' cont' L' pc' (Answered (PushRet (Ok ())))"
  shows "\<exists>f v t. pc = CasTail f v t"
  using assms by (cases pc) (auto split: turn.splits if_splits)

lemma conv_answered:
  "ac_conv s = Answered r \<Longrightarrow> \<exists>a. s = Answered a \<and> ac_thread_of c m disc (Finished r) = Done a"
  by (cases s rule: ac_conv.cases) auto

lemma conv_pending: "ac_conv s = Pending oper \<Longrightarrow> \<exists>a. s = Pending a \<and> ac_conv (Pending a) = Pending oper"
  by (cases s rule: ac_conv.cases) auto

lemma conv_spec:
  assumes "ac_conv (Pending a) = Pending oper" "aq_spec c oper xs = (r, ys)" "length xs \<le> c"
    "r = PushRet (Ok ()) \<Longrightarrow> \<not> disc"
  shows "\<exists>b. ac_spec c a (xs, disc) b (ys, disc) \<and> ac_thread_of c m disc (Finished r) = Done b \<and>
    (r = PushRet (Ok ()) \<or> (\<exists>x. r = PopRet (Some x)) \<longrightarrow> ac_conv (Answered b) = Answered r)"
  using assms by (cases a) (auto split: if_splits list.splits)

definition ac_outcome ::
  "nat \<Rightarrow> nat \<Rightarrow> nat \<Rightarrow> 'a array_channel \<times> 'a ac_thread \<Rightarrow> (tid \<Rightarrow> 'a ac_thread) \<Rightarrow> 'a list \<times> bool \<Rightarrow>
     (tid \<Rightarrow> ('a ac_op, 'a ac_ret) status) \<Rightarrow> tid \<Rightarrow> bool" where
  "ac_outcome c m n res ts x st i \<longleftrightarrow> (case res of (q', t) \<Rightarrow>
     ac_good c m n q' (ts(i := t)) x st \<or>
     (\<exists>oper r x'. st i = Pending oper \<and> ac_spec c oper x r x' \<and> ac_good c m n q' (ts(i := t)) x' (st(i := Answered r))))"

lemma ac_outcome_effect:
  "st i = Pending oper \<Longrightarrow> ac_spec c oper x r x' \<Longrightarrow> ac_good c m n q' (ts(i := t)) x' (st(i := Answered r)) \<Longrightarrow>
    ac_outcome c m n (q', t) ts x st i"
  unfolding ac_outcome_def by blast

lemma ac_outcome_silent:
  "ac_good c m n q' (ts(i := t)) x (st(i := st i)) \<Longrightarrow> ac_outcome c m n (q', t) ts x st i"
  by (simp add: ac_outcome_def)

lemma ac_outcome_mono: "ac_outcome c m n res ts x st i \<Longrightarrow> n \<le> n' \<Longrightarrow> ac_outcome c m n' res ts x st i"
  by (cases res) (simp add: ac_outcome_def, blast intro: ac_good_mono)

text \<open>A thread of the ticket machine that has finished rests.\<close>

lemma tq_inv_rest:
  assumes "tq_inv c (q, pcs(i := Finished r)) cont L stat"
  shows "tq_inv c (q, pcs(i := Idle)) cont L (stat(i := Quiet))"
proof -
  have "tq_inv c (q, (pcs(i := Finished r))(i := Idle)) cont L (stat(i := Quiet))"
    by (rule tq_inv_local [OF assms]) simp_all
  then show ?thesis by simp
qed

text \<open>The channel after a tick that is one of the ticket machine.\<close>

lemma ac_inv_plain:
  assumes inv: "ac_inv c m q pcs cont stat d gone ts x st"
    and pc: "sends (pcs i) \<or> receives (pcs i)" "leaves (snd x) (pcs i) = None" and ts: "ts i = ac_thread_of c m False (pcs i)"
    and tick: "tq_tick c sp q (pcs i) = (q', pc')"
    and new: "tq_inv c (q', pcs(i := pc')) cont' L' (stat(i := s'))" "fst x' = map cont' [t_head q'..<L']" "snd x' = snd x"
    and same: "gone \<Longrightarrow> fst x' = fst x"
    and own: "(\<exists>r. pc' = Finished r) \<and> ac_thread_of c m (snd x) pc' = Done b \<and> a = Answered b \<or>
      (sends pc' \<or> receives pc') \<and> s' = ac_conv a"
  shows "ac_good c m (Suc (t_tail q)) (ac_of c m (snd x) gone (if gone then d else t_head q') q')
    (ts(i := ac_thread_of c m (snd x) pc')) x' (st(i := a))"
proof -
  note o = ac_invD [OF inv] and pl = tq_tick_plain [OF pc(1) tq_invD(7) [OF o(1)] tick]
  let ?d = "if gone then d else t_head q'" and ?t = "ac_thread_of c m (snd x) pc'"
  have "(pcs(i := pc')) j \<noteq> StoreTail v t" for j v t
  proof (cases "j = i")
    case True
    then show ?thesis using own by auto
  next
    case False
    then show ?thesis using o(8) [of j] by (auto simp: ac_link_def)
  qed
  then have L: "L' = t_tail q'" using tq_settled [OF new(1)] by blast
  have frozen: "t_head q' = t_head q" "t_tail q' = t_tail q" "sends (pcs i)" if gone
  proof -
    show s: "sends (pcs i)" using pc(1) o(9) [of i] receiving_of [OF pc(1)] ts that by metis
    have "leaves True (pcs i) = None" using o(6) [OF that] pc(2) by simp
    then show "t_head q' = t_head q" "t_tail q' = t_tail q" using pl(5,7) s by simp_all
  qed
  have turns: "t_turn q' (p mod c) = Filled p" if "gone" "t_turn q (p mod c) = Filled p" for p
    using pl(8) that frozen by blast
  have rcv: "receiving ?t \<Longrightarrow> receiving (ts i)"
    using own pl(6) receiving_of [OF pc(1)] receiving_of [of pc' c m "snd x"] ts by auto
  have hd': "t_head q' \<le> t_tail q'" using tq_invD(2) [OF new(1)] .
  obtain pc2 s2 where fin: "tq_inv c (q', pcs(i := pc2)) cont' (t_tail q') (stat(i := s2))"
    "ac_link c m q' (fst x') ?d gone ?t a pc2 s2"
  proof (cases "\<exists>r. pc' = Finished r")
    case True
    then obtain r where r: "pc' = Finished r" by blast
    have "tq_inv c (q', pcs(i := Idle)) cont' (t_tail q') (stat(i := Quiet))"
      using tq_inv_rest [of c q' pcs i r cont' L' "stat(i := s')"] new(1) L r by simp
    then show thesis using own r by (intro that [of Idle Quiet]) (auto simp: ac_link_def)
  next
    case False
    then show thesis using own new(1) L ac_thread_of_disc [of pc' c m "snd x"]
      by (intro that [of pc' s']) (auto simp: ac_link_def)
  qed
  have "ac_inv c m q' (pcs(i := pc2)) cont' (stat(i := s2)) ?d gone (ts(i := ?t)) x' (st(i := a))"
  proof (rule ac_inv_step [OF inv fin(1) _ _ _ _ _ _ fin(2)])
    show "fst x' = map cont' [t_head q'..<t_tail q']" using new(2) L by simp
    show "t_head q' \<le> ?d" "?d \<le> t_tail q'" using o(3,4) frozen hd' by auto
    show "gone \<Longrightarrow> snd x'" using o(6) new(3) by simp
    show "t_turn q' (p mod c) = Filled p" if "t_head q' \<le> p" "p < ?d" for p
      using that o(7) [of p] turns frozen by (cases gone) auto
    show "gone = gone \<and> (gone \<longrightarrow> t_head q' = t_head q \<and> t_tail q' = t_tail q \<and> fst x' = fst x \<and> ?d = d \<and>
        (t_turn q (d mod c) = Filled d \<longrightarrow> t_turn q' (d mod c) = Filled d))"
      if "j \<noteq> i" "discarding (ts j)" for j
      using frozen turns same by auto
    show "discarding ?t \<Longrightarrow> discarding (ts i)" using discarding_of by blast
    show "receiving ?t \<Longrightarrow> receiving (ts i)" by (rule rcv)
  qed (use pl(1,2) in simp_all)
  from ac_goodI [OF this pl(3)] show ?thesis using new(3) by simp
qed

text \<open>Every tick of a send or receive that does not meet the mark is matched.\<close>

lemma ac_plain_tick:
  assumes r: "marked_ring c m" and near: "t_tail q + c < period c (Suc m)"
    and inv: "ac_inv c m q pcs cont stat d gone ts x st"
    and pc: "sends (pcs i) \<or> receives (pcs i)" "leaves (snd x) (pcs i) = None" "stat i = ac_conv (st i)"
    and ts: "ts i = ac_thread_of c m False (pcs i)" "ts i = Running apc"
  shows "ac_outcome c m (Suc (t_tail q)) (ac_tick sp (ac_of c m (snd x) gone d q) apc) ts x st i"
proof -
  note o = ac_invD [OF inv]
  obtain q' pc' where tick: "tq_tick c sp q (pcs i) = (q', pc')" by fastforce
  have nogone: "sends (pcs i) \<or> receives (pcs i) \<and> \<not> gone"
    using pc(1) o(9) [of i] receiving_of [OF pc(1)] ts(1) by metis
  have apc: "ac_thread_of c m (snd x) (pcs i) = Running apc" using ac_thread_of_disc [OF pc(1)] ts by metis
  note eq = ac_tick_of [OF r o(1) near nogone pc(2) apc o(5,7), of sp, unfolded tick prod.case]
  note ok = tq_invD(7) [OF o(1), of i] and pl = tq_tick_plain [OF pc(1) tq_invD(7) [OF o(1)] tick]
  let ?q = "ac_of c m (snd x) gone (if gone then d else t_head q') q'" and ?t = "ac_thread_of c m (snd x) pc'"
  have len: "length (fst x) \<le> c" using o(2) tq_invD(2,4) [OF o(1)] by simp
  show ?thesis
  proof (cases rule: tq_tick_step [OF o(1,2) tick, case_names silent effect])
    case (silent cont' L')
    have ok': "pc_ok c q' cont' L' pc' (stat i)" using tq_invD(7) [OF silent(1), of i] by simp
    have fin: "(\<exists>r. pc' = Finished r) \<and> ?t = Done b \<and> st i = Answered b \<or> (sends pc' \<or> receives pc') \<and> stat i = ac_conv (st i)"
      if "\<And>r. pc' = Finished r \<Longrightarrow> st i = Answered b \<and> ?t = Done b" for b
      using pl(4) ok' that pc(3) by auto
    obtain b where "\<And>r. pc' = Finished r \<Longrightarrow> st i = Answered b \<and> ?t = Done b"
    proof (cases "\<exists>r. pc' = Finished r")
      case True
      then obtain r where "pc' = Finished r" by blast
      then show thesis using that conv_answered [of "st i" r c m "snd x"] ok' pc(3) by auto
    qed (use that in blast)
    from ac_inv_plain [OF inv pc(1,2) ts(1) tick _ _ _ _ fin [OF this], where cont' = cont' and L' = L' and x' = x]
    have "ac_good c m (Suc (t_tail q)) ?q (ts(i := ?t)) x (st(i := st i))" using silent by simp
    then show ?thesis by (simp add: ac_outcome_def eq)
  next
    case (effect oper r ys cont' L')
    from conv_pending [of "st i" oper] effect(1) pc(3) obtain a where
      a: "st i = Pending a" "ac_conv (Pending a) = Pending oper" by auto
    have ok': "pc_ok c q' cont' L' pc' (Answered r)" using tq_invD(7) [OF effect(3), of i] by simp
    have pend: "pc_ok c q cont (t_tail q) (pcs i) (Pending oper)" using ok effect(1) by simp
    have disc: "\<not> snd x" if "r = PushRet (Ok ())"
    proof -
      have "sends (pcs i)" using that effect(1,2) pend nogone by (cases "pcs i") (auto split: list.splits)
      moreover have "pc_ok c q' cont' L' pc' (Answered (PushRet (Ok ())))" using ok' that by simp
      ultimately obtain f v t where "pcs i = CasTail f v t" using push_by_cas [OF _ pend tick] by blast
      then show ?thesis using pc(2) by (cases "snd x") auto
    qed
    from conv_spec [OF a(2) effect(2) len disc] obtain b where
      b: "ac_spec c a (fst x, snd x) b (ys, snd x)" "ac_thread_of c m (snd x) (Finished r) = Done b"
        "r = PushRet (Ok ()) \<or> (\<exists>y. r = PopRet (Some y)) \<longrightarrow> ac_conv (Answered b) = Answered r" by blast
    have fin: "(\<exists>r. pc' = Finished r) \<and> ?t = Done b \<and> Answered b = Answered b \<or>
      (sends pc' \<or> receives pc') \<and> Answered r = ac_conv (Answered b)"
    proof (cases "\<exists>r. pc' = Finished r")
      case True
      then show ?thesis using ok' b(2) by auto
    next
      case False
      then have sr: "sends pc' \<or> receives pc'" using pl(4) ok' by auto
      then have "r = PushRet (Ok ()) \<or> (\<exists>y. r = PopRet (Some y))" using ok' by (cases pc') auto
      then show ?thesis using sr b(3) by simp
    qed
    have gone: "ys = fst x" if gone
    proof -
      have "sends (pcs i)" using nogone that by blast
      then have "oper = (case pcs i of LoadHead v t \<Rightarrow> OpPush v | _ \<Rightarrow> oper)" by (cases "pcs i") (use pend in auto)
      moreover have "r \<noteq> PushRet (Ok ())" using disc o(6) that by blast
      ultimately show ?thesis using effect(2) pend \<open>sends (pcs i)\<close> by (cases "pcs i") (auto split: if_splits)
    qed
    from ac_inv_plain [OF inv pc(1,2) ts(1) tick effect(3), where x' = "(ys, snd x)" and a = "Answered b" and b = b]
    have "ac_good c m (Suc (t_tail q)) ?q (ts(i := ?t)) (ys, snd x) (st(i := Answered b))" using effect(4) gone fin by simp
    from ac_outcome_effect [OF a(1) _ this] b(1) show ?thesis by (simp add: eq)
  qed
qed

section \<open>Leaving, disconnecting and asking\<close>

text \<open>A tick that leaves the tickets alone, after which the thread is not inside a send or receive.\<close>

lemma ac_inv_own:
  assumes inv: "ac_inv c m q pcs cont stat d gone ts x st"
    and free: "claim c (pcs i) = None"
    and new: "fst x' = fst x" "snd x \<Longrightarrow> snd x'" "d \<le> d'" "d' \<le> t_tail q" "\<not> gone' \<Longrightarrow> d' = t_head q" "gone' \<Longrightarrow> snd x'"
      "\<And>p. d \<le> p \<Longrightarrow> p < d' \<Longrightarrow> t_turn q (p mod c) = Filled p"
    and own: "ac_own c m q (fst x) d' gone' t a"
    and quiet: "\<not> discarding (ts i) \<Longrightarrow> gone' = gone \<and> d' = d"
    and roles: "discarding t \<Longrightarrow> discarding (ts i)" "gone' \<Longrightarrow> gone \<or> discarding (ts i)"
  shows "ac_inv c m q (pcs(i := Idle)) cont (stat(i := Quiet)) d' gone' (ts(i := t)) x' (st(i := a))"
proof (rule ac_inv_step [OF inv])
  note o = ac_invD [OF inv]
  show "tq_inv c (q, pcs(i := Idle)) cont (t_tail q) (stat(i := Quiet))"
    by (rule tq_inv_local [OF o(1) free]) simp_all
  show "ac_link c m q (fst x') d' gone' t a Idle Quiet" using own new(1) by (simp add: ac_link_def)
  show "fst x' = map cont [t_head q..<t_tail q]" using new(1) o(2) by simp
  show "t_head q \<le> d'" "d' \<le> t_tail q" using o(3) new(3,4) by simp_all
  show "t_turn q (p mod c) = Filled p" if "t_head q \<le> p" "p < d'" for p
    using that o(7) [of p] new(7) [of p] by (cases "p < d") auto
  show "gone' = gone \<and> (gone \<longrightarrow> t_head q = t_head q \<and> t_tail q = t_tail q \<and> fst x' = fst x \<and> d' = d \<and>
      (t_turn q (d mod c) = Filled d \<longrightarrow> t_turn q (d mod c) = Filled d))"
    if "j \<noteq> i" "discarding (ts j)" for j
  proof -
    have "\<not> discarding (ts i)" using o(10) [of i j] that by blast
    then show ?thesis using quiet new(1) by blast
  qed
  show "receiving t \<Longrightarrow> receiving (ts i)" using ac_own_idle [OF own] by blast
qed (use new roles in simp_all)

lemma leavesD:
  assumes "leaves disc pc = Some v" "sends pc" "pc_ok c q cont L pc s"
  shows "disc \<and> s = Pending (OpPush v) \<and> (pc = LoadTail False v \<or> (\<exists>t. pc = CasTail False v t))" "claim c pc = None"
  using assms by (cases "(disc, pc)" rule: leaves.cases; simp)+

lemma ac_leave_tick:
  assumes r: "marked_ring c m"
    and inv: "ac_inv c m q pcs cont stat d gone ts x st"
    and pc: "sends (pcs i)" "leaves (snd x) (pcs i) = Some v" "stat i = ac_conv (st i)"
    and ts: "ts i = ac_thread_of c m False (pcs i)" "ts i = Running apc"
  shows "ac_outcome c m (Suc (t_tail q)) (ac_tick sp (ac_of c m (snd x) gone d q) apc) ts x st i"
proof -
  note o = ac_invD [OF inv]
  note lv = leavesD [OF pc(2,1) tq_invD(7) [OF o(1)]]
  then have x: "snd x" and "stat i = Pending (OpPush v)" by simp_all
  then have st: "st i = Pending (TrySend v)" using pc(3) by (cases "st i" rule: ac_conv.cases) auto
  have tick: "ac_tick sp (ac_of c m (snd x) gone d q) apc = (ac_of c m (snd x) gone d q, Done (SendRet (Err (TSDisconnected v))))"
    using lv x ts by (auto simp: ac_tick_def ac_send_loop_def ac_of_marks [OF r] enc_or_mark(4) [OF r])
  have "claim c (pcs i) = None" "\<not> discarding (ts i)" using lv discarding_of [of c m False "pcs i"] ts(1) by auto
  then have "ac_inv c m q (pcs(i := Idle)) cont (stat(i := Quiet)) d gone (ts(i := Done (SendRet (Err (TSDisconnected v))))) x
      (st(i := Answered (SendRet (Err (TSDisconnected v)))))"
    by (intro ac_inv_own [OF inv]) (use o(4-6) x in simp_all)
  from ac_goodI [OF this, of "Suc (t_tail q)"]
  have "ac_good c m (Suc (t_tail q)) (ac_of c m (snd x) gone d q) (ts(i := Done (SendRet (Err (TSDisconnected v))))) x
      (st(i := Answered (SendRet (Err (TSDisconnected v)))))" by simp
  moreover have "ac_spec c (TrySend v) x (SendRet (Err (TSDisconnected v))) x" using x by (cases x) simp
  ultimately have "ac_outcome c m (Suc (t_tail q)) (ac_of c m (snd x) gone d q, Done (SendRet (Err (TSDisconnected v)))) ts x st i"
    by (rule ac_outcome_effect [where st = st and i = i, OF st, rotated])
  then show ?thesis by (simp add: tick)
qed

lemma ac_of_disconnect:
  assumes "marked_ring c m"
  shows "(ac_of c m disc gone d q)\<lparr>ac_tail := (enc c (Suc m) (t_tail q) OR mark m disc) OR 2 ^ m\<rparr> = ac_of c m True gone d q"
    "(ac_of c m disc gone d q)\<lparr>receivers_gone := g\<rparr> = ac_of c m disc g d q"
  using enc_or_mark(3) [OF assms] by (simp_all add: ac_of_def)

lemma ac_of_drop:
  assumes "t_head q \<le> d" "0 < c"
  shows "ac_put (d mod c) (\<lambda>s. s\<lparr>ac_msg := None\<rparr>) (ac_of c m disc gone d q) = ac_of c m disc gone (Suc d) q"
proof -
  have "dropped_slot c q (Suc d) i \<longleftrightarrow> dropped_slot c q d i \<or> i = d mod c" for i
    using assms(1) by (auto simp: dropped_slot_def less_Suc_eq)
  then show ?thesis using assms(2)
    by (auto simp: ac_put_def ac_of_def nth_list_update intro!: nth_equalityI)
qed

text \<open>A filled slot of the window holds its message.\<close>

lemma filled_value:
  assumes inv: "tq_inv c (q, pcs) cont L stat" and p: "t_head q \<le> p" "p < L" "t_turn q (p mod c) = Filled p"
  shows "t_val q (p mod c) = Some (cont p)"
proof -
  note d = tq_invD [OF inv]
  have "claim c (pcs j) \<noteq> Some p" for j
  proof
    assume "claim c (pcs j) = Some p"
    from claim_turn [OF d(7) this] p(3) d(1) show False by auto
  qed
  then have "slot_ok c q cont L p" using p d(4) by (intro d(9)) auto
  then show ?thesis using p(2) by (simp add: slot_ok_def)
qed

text \<open>The ticks of a thread that is not inside a send or receive.\<close>

lemma ac_good_own:
  assumes inv: "ac_inv c m q pcs cont stat d gone ts x st" and idle: "pcs i = Idle"
    and new: "fst x' = fst x" "snd x \<Longrightarrow> snd x'" "d \<le> d'" "d' \<le> t_tail q" "\<not> gone' \<Longrightarrow> d' = t_head q" "gone' \<Longrightarrow> snd x'"
      "\<And>p. d \<le> p \<Longrightarrow> p < d' \<Longrightarrow> t_turn q (p mod c) = Filled p"
    and own: "ac_own c m q (fst x) d' gone' t a"
    and quiet: "\<not> discarding (ts i) \<Longrightarrow> gone' = gone \<and> d' = d"
    and roles: "discarding t \<Longrightarrow> discarding (ts i)" "gone' \<Longrightarrow> gone \<or> discarding (ts i)"
  shows "ac_good c m (Suc (t_tail q)) (ac_of c m (snd x') gone' d' q) (ts(i := t)) x' (st(i := a))"
  by (rule ac_goodI [OF ac_inv_own [OF inv _ new own quiet roles]]) (use idle in simp_all)

lemma ac_query_tick_ok:
  assumes r: "marked_ring c m" and near: "t_tail q + c < period c (Suc m)"
    and inv: "ac_inv c m q pcs cont stat d gone ts x st" and idle: "pcs i = Idle" and ts: "ts i = Running apc"
    and apc: "apc \<in> {QDisconnected, QEmptyHead, QFullTail} \<or> (\<exists>w. apc = QEmptyTail w \<or> apc = QFullHead w)"
  shows "ac_outcome c m (Suc (t_tail q)) (ac_tick sp (ac_of c m (snd x) gone d q) apc) ts x st i"
proof -
  note o = ac_invD [OF inv] and iv = tq_invD [OF ac_invD(1) [OF inv]]
  let ?q = "ac_of c m (snd x) gone d q" and ?k = "Suc m"
  have own: "ac_own c m q (fst x) d gone (Running apc) (st i)" using o(8) [of i] idle ts by (simp add: ac_link_def)
  have nd: "\<not> discarding (ts i)" using apc ts by auto
  have good: "ac_good c m (Suc (t_tail q)) ?q (ts(i := t)) x (st(i := a))"
    if "ac_own c m q (fst x) d gone t a" "\<not> discarding t" for t a
    by (rule ac_good_own [OF inv idle _ _ _ _ _ _ _ that(1)]) (use o(4-6) nd that in simp_all)
  have eq: "enc c ?k p = enc c ?k p' \<longleftrightarrow> p = p'" if "p \<le> t_tail q + c" "p' \<le> t_tail q + c" for p p'
    using that near by (intro enc_eq_iff [OF marked_ringD(1) [OF r]]) auto
  have lap: "enc c ?k h + 2 ^ ?k = enc c ?k (h + c)" for h by (simp only: enc_add_lap [OF marked_ringD(1) [OF r]])
  have answer: "ac_outcome c m (Suc (t_tail q)) (?q, Done (BoolRet b)) ts x st i"
    if "st i = Pending oper" "ac_spec c oper x (BoolRet b) x" for oper b
    by (rule ac_outcome_effect [where st = st and i = i, OF that]) (rule good, simp_all)
  from apc consider "apc = QDisconnected" | "apc = QEmptyHead" | "apc = QFullTail" | w where "apc = QEmptyTail w" | w where "apc = QFullHead w"
    by auto
  then show ?thesis
  proof cases
    case 1
    have "ac_spec c IsDisconnected x (BoolRet (snd x)) x" by (cases x) auto
    from answer [OF _ this] own 1 show ?thesis by (simp add: ac_tick_def ac_of_marks [OF r])
  next
    case 2
    have "ac_outcome c m (Suc (t_tail q)) (?q, Running (QEmptyTail (enc c ?k (t_head q)))) ts x st i"
      by (rule ac_outcome_silent, rule good) (use own 2 in auto)
    then show ?thesis using 2 by (simp add: ac_tick_def)
  next
    case 3
    have "ac_outcome c m (Suc (t_tail q)) (?q, Running (QFullHead (ac_tail ?q))) ts x st i"
      by (rule ac_outcome_silent, rule good) (use own 3 in auto)
    then show ?thesis using 3 by (simp add: ac_tick_def)
  next
    case (4 w)
    then obtain h where h: "h \<le> t_head q" "w = enc c ?k h" and st: "st i = Pending IsEmptyChannel" using own by auto
    let ?b = "enc c ?k (t_tail q) = w"
    have "fst x = []" if ?b using that eq [of "t_tail q" h] h iv(2) o(2) by simp
    then have "ac_spec c IsEmptyChannel x (BoolRet ?b) x" by (cases x) auto
    from answer [OF st this] 4 show ?thesis by (simp add: ac_tick_def ac_of_marks [OF r])
  next
    case (5 w)
    then obtain t b where t: "t \<le> t_tail q" "w = enc c ?k t OR mark m b" and st: "st i = Pending IsFullChannel" using own by auto
    let ?b = "enc c ?k (t_head q + c) = enc c ?k t"
    have "length (fst x) = c" if ?b using that eq [of "t_head q + c" t] t iv(2,4) o(2) by simp
    then have "ac_spec c IsFullChannel x (BoolRet ?b) x" by (cases x) auto
    from answer [OF st this] 5 t(2) show ?thesis by (simp add: ac_tick_def ac_of_marks [OF r] lap del: power_Suc)
  qed
qed

lemma ac_disconnect_tick_ok:
  assumes r: "marked_ring c m"
    and inv: "ac_inv c m q pcs cont stat d gone ts x st" and idle: "pcs i = Idle" and ts: "ts i = Running apc"
    and apc: "apc \<in> {DSenders, DReceivers}"
  shows "ac_outcome c m (Suc (t_tail q)) (ac_tick sp (ac_of c m (snd x) gone d q) apc) ts x st i"
proof -
  note o = ac_invD [OF inv]
  let ?q = "ac_of c m (snd x) gone d q" and ?x = "(fst x, True)"
  have own: "ac_own c m q (fst x) d gone (Running apc) (st i)" using o(8) [of i] idle ts by (simp add: ac_link_def)
  from apc consider "apc = DSenders" | "apc = DReceivers" by auto
  then show ?thesis
  proof cases
    case 1
    let ?r = "DisconnectRet (\<not> snd x)"
    have "ac_good c m (Suc (t_tail q)) (ac_of c m (snd ?x) gone d q) (ts(i := Done ?r)) ?x (st(i := Answered ?r))"
      by (rule ac_good_own [OF inv idle]) (use o(4-5) 1 ts in simp_all)
    moreover have "ac_spec c DisconnectSenders x ?r ?x" by (cases x) simp
    ultimately have "ac_outcome c m (Suc (t_tail q)) (ac_of c m (snd ?x) gone d q, Done ?r) ts x st i"
      using own 1 by (intro ac_outcome_effect [where st = st and i = i and oper = DisconnectSenders and x' = ?x and r = ?r]) simp_all
    then show ?thesis using 1 by (simp add: ac_tick_def ac_of_marks [OF r] ac_of_disconnect [OF r])
  next
    case 2
    let ?r = "DropRet (\<not> snd x) (fst x)" and ?t = "Running (DLoadHead (\<not> snd x) (ac_tail ?q))"
    have st: "st i = Pending DisconnectReceivers" "\<not> gone" using own 2 by simp_all
    have "ac_good c m (Suc (t_tail q)) (ac_of c m (snd ?x) True d q) (ts(i := ?t)) ?x (st(i := Answered ?r))"
      by (rule ac_good_own [OF inv idle]) (use o(4-5) st 2 ts in auto)
    moreover have "ac_spec c DisconnectReceivers x ?r ?x" by (cases x) simp
    ultimately have "ac_outcome c m (Suc (t_tail q)) (ac_of c m (snd ?x) True d q, ?t) ts x st i"
      using st by (intro ac_outcome_effect [where st = st and i = i and oper = DisconnectReceivers and x' = ?x and r = ?r]) simp_all
    then show ?thesis using 2 by (simp add: ac_tick_def ac_of_marks [OF r] ac_of_disconnect [OF r] Let_def)
  qed
qed

text \<open>Dropping the messages that are left.\<close>

lemma ac_discard_tick_ok:
  assumes r: "marked_ring c m" and near: "t_tail q + c < period c (Suc m)"
    and inv: "ac_inv c m q pcs cont stat d gone ts x st" and idle: "pcs i = Idle" and ts: "ts i = Running apc"
    and apc: "(\<exists>b t. apc = DLoadHead b t) \<or> (\<exists>b t h xs. apc = DLoadStamp b t h xs \<or> apc = DDrop b t h xs)"
  shows "ac_outcome c m (Suc (t_tail q)) (ac_tick sp (ac_of c m (snd x) gone d q) apc) ts x st i"
proof -
  note o = ac_invD [OF inv] and iv = tq_invD [OF ac_invD(1) [OF inv]]
  let ?q = "ac_of c m (snd x) gone d q" and ?k = "Suc m"
  have own: "ac_own c m q (fst x) d gone (Running apc) (st i)" using o(8) [of i] idle ts by (simp add: ac_link_def)
  have dis: "discarding (ts i)" using apc ts by auto
  have gone: gone using own apc by auto
  have d: "d mod c < c" using iv(1) by simp
  have step: "ac_outcome c m (Suc (t_tail q)) (ac_of c m (snd x) gone d' q, t) ts x st i"
    if "ac_own c m q (fst x) d' gone t (st i)" "d \<le> d'" "d' \<le> t_tail q"
      "\<And>p. d \<le> p \<Longrightarrow> p < d' \<Longrightarrow> t_turn q (p mod c) = Filled p" for t d'
    by (rule ac_outcome_silent, rule ac_good_own [OF inv idle _ _ _ _ _ _ _ that(1)]) (use o(6) dis gone that in simp_all)
  note same = step [where d' = d, OF _ order_refl o(4)]
  from apc consider b t where "apc = DLoadHead b t" | b t h ys where "apc = DLoadStamp b t h ys" | b t h ys where "apc = DDrop b t h ys"
    by auto
  then show ?thesis
  proof cases
    case (1 b t)
    have "ac_outcome c m (Suc (t_tail q)) (?q, Running (DLoadStamp b (enc c ?k (t_tail q)) (enc c ?k (t_head q)) [])) ts x st i"
      by (rule same) (use own 1 in auto)
    moreover have "ac_unmarked ?q t = enc c ?k (t_tail q)" using own 1 by (auto simp: ac_of_marks [OF r])
    ultimately show ?thesis using 1 by (simp add: ac_tick_def)
  next
    case (2 b t h ys)
    then have e: "t = enc c ?k (t_tail q)" "h = enc c ?k d" "ys = take (d - t_head q) (fst x)" "st i = Answered (DropRet b (fst x))"
      using own by simp_all
    note tst = stamp_tests(4) [OF marked_ringD(1) [OF r] o(1) near o(4)]
    have eq: "t = h \<longleftrightarrow> t_tail q = d"
      unfolding e using o(4) near by (intro enc_eq_iff [OF marked_ringD(1) [OF r]]) auto
    let ?t = "if t_turn q (d mod c) = Filled d then Running (DDrop b t h ys)
      else if t_tail q = d then Done (DropRet b ys) else Running (DLoadStamp b t h ys)"
    have all: "take (d - t_head q) (fst x) = fst x" if "t_tail q = d" using that o(2) by simp
    have "ac_outcome c m (Suc (t_tail q)) (?q, ?t) ts x st i"
      by (rule same) (use own 2 e all in auto)
    then show ?thesis using 2 d e eq tst
      by (cases "t_turn q (d mod c) = Filled d"; cases "t_tail q = d") (simp_all add: ac_tick_def ac_of_index [OF r])
  next
    case (3 b t h ys)
    then have e: "h = enc c ?k d" "ys = take (d - t_head q) (fst x)" "st i = Answered (DropRet b (fst x))"
      "t_turn q (d mod c) = Filled d" "t = enc c ?k (t_tail q)" using own by simp_all
    have lt: "d < t_tail q"
    proof (rule ccontr)
      assume "\<not> d < t_tail q"
      then have "d = t_tail q" using o(4) by simp
      with slot_turn(2) [OF o(1) e(4)] show False by simp
    qed
    have val: "t_val q (d mod c) = Some (cont d)" by (rule filled_value [OF o(1,3) lt e(4)])
    have "p mod c \<noteq> d mod c" if "t_head q \<le> p" "p < d" for p
      using that lt iv(4) by (intro window_slot_neq) simp_all
    then have free: "\<not> dropped_slot c q d (d mod c)" by (auto simp: dropped_slot_def)
    have "fst x ! (d - t_head q) = cont d" using o(2,3) lt by simp
    moreover have "d - t_head q < length (fst x)" using o(2,3) lt by simp
    ultimately have "ys @ [cont d] = take (Suc d - t_head q) (fst x)"
      using e(2) o(3) by (simp add: take_Suc_conv_app_nth Suc_diff_le)
    then have "ac_outcome c m (Suc (t_tail q))
        (ac_of c m (snd x) gone (Suc d) q, Running (DLoadStamp b t (enc c ?k (Suc d)) (ys @ [cont d]))) ts x st i"
      by (intro step) (use e lt gone in \<open>auto simp: less_Suc_eq\<close>)
    then show ?thesis using 3 d e val free ac_of_drop [OF o(3) iv(1)]
      by (simp add: ac_tick_def ac_of_index [OF r] ac_of_next [OF r])
  qed
qed

section \<open>Linearizability\<close>

lemma ac_good_tick:
  assumes r: "marked_ring c m" and near: "n + c < period c (Suc m)"
    and good: "ac_good c m n q ts x st" and run: "ts i = Running apc"
  shows "ac_outcome c m (Suc n) (ac_tick sp q apc) ts x st i"
proof -
  from good obtain tq pcs cont stat d gone where q: "q = ac_of c m (snd x) gone d tq"
    and inv: "ac_inv c m tq pcs cont stat d gone ts x st" and n: "t_tail tq \<le> n"
    by (auto simp: ac_good_def)
  have nr: "t_tail tq + c < period c (Suc m)" using n near by simp
  note link = ac_invD(8) [OF inv, of i]
  have "ac_outcome c m (Suc (t_tail tq)) (ac_tick sp (ac_of c m (snd x) gone d tq) apc) ts x st i"
  proof (cases "pcs i = Idle")
    case True
    then have "ac_own c m tq (fst x) d gone (Running apc) (st i)" using link run by (simp add: ac_link_def)
    then show ?thesis
      by (cases apc) (use ac_query_tick_ok [OF r nr inv True run, of sp] ac_disconnect_tick_ok [OF r inv True run, of sp]
          ac_discard_tick_ok [OF r nr inv True run, of sp] in auto)
  next
    case False
    then have sr: "sends (pcs i) \<or> receives (pcs i)" and ts: "ts i = ac_thread_of c m False (pcs i)"
      and st: "stat i = ac_conv (st i)" using link by (auto simp: ac_link_def)
    show ?thesis
    proof (cases "leaves (snd x) (pcs i)")
      case None
      from ac_plain_tick [OF r nr inv sr None st ts run] show ?thesis .
    next
      case (Some v)
      then have "sends (pcs i)" using sr by (cases "(snd x, pcs i)" rule: leaves.cases) auto
      from ac_leave_tick [OF r inv this Some st ts run] show ?thesis .
    qed
  qed
  then show ?thesis unfolding q by (rule ac_outcome_mono) (use n in simp)
qed

text \<open>The simulation, for rings that do not wrap around within the bound.\<close>

definition ac_rel ::
  "nat \<Rightarrow> nat \<Rightarrow> nat \<Rightarrow> 'a array_channel \<Rightarrow> (tid \<Rightarrow> 'a ac_thread) \<Rightarrow> 'a list \<times> bool \<Rightarrow>
     (tid \<Rightarrow> ('a ac_op, 'a ac_ret) status) \<Rightarrow> bool" where
  "ac_rel c m n q ts x st \<longleftrightarrow> marked_ring c m \<and> 2 ^ 61 + c \<le> period c (Suc m) \<and> ac_good c m n q ts x st"

lemma ac_call_link:
  assumes "ac_may q ts i oper"
  obtains pc s where "ac_link c m tq xs d (receivers_gone q) (Running (ac_start oper)) (Pending oper) pc s" "claim c pc = None"
    "\<And>q cont L. pc_ok c q cont L pc s"
proof (cases "\<exists>v. oper = TrySend v \<or> oper = TryRecv")
  case True
  then show thesis
    using that [of "case oper of TrySend v \<Rightarrow> LoadTail False v | _ \<Rightarrow> PopLoadHead" "ac_conv (Pending oper)"]
    by (auto simp: ac_link_def)
next
  case False
  then show thesis using assms by (intro that [of Idle Quiet]) (cases oper; auto simp: ac_link_def ac_may_def)+
qed

lemma ac_good_call:
  assumes "ac_good c m n q ts x st" "ts i = Resting" "ac_may q ts i oper"
  shows "st i = Quiet \<and> ac_good c m n q (ts(i := Running (ac_start oper))) x (st(i := Pending oper))"
proof -
  from assms(1) obtain tq pcs cont stat d gone where q: "q = ac_of c m (snd x) gone d tq"
    and inv: "ac_inv c m tq pcs cont stat d gone ts x st" and n: "t_tail tq \<le> n"
    by (auto simp: ac_good_def)
  note o = ac_invD [OF inv]
  have "ac_thread_of c m False (pcs i) \<noteq> Resting" by (cases "(c, m, False, pcs i)" rule: ac_thread_of.cases) auto
  then have idle: "pcs i = Idle" "st i = Quiet" using o(8) [of i] assms(2) by (auto simp: ac_link_def)
  obtain pc s where pc: "ac_link c m tq (fst x) d gone (Running (ac_start oper)) (Pending oper) pc s" "claim c pc = None"
    "\<And>q cont L. pc_ok c q cont L pc s"
    using ac_call_link [OF assms(3), of c m tq "fst x" d] q by auto
  have "tq_inv c (tq, pcs(i := pc)) cont (t_tail tq) (stat(i := s))"
    by (rule tq_inv_local [OF o(1)]) (use idle pc in simp_all)
  then have "ac_inv c m tq (pcs(i := pc)) cont (stat(i := s)) d gone (ts(i := Running (ac_start oper))) x (st(i := Pending oper))"
  proof (rule ac_inv_move [OF inv _ o(2-7) pc(1)])
    have m: "ac_may (ac_of c m (snd x) gone d tq) ts i oper" using assms(3) q by simp
    show "receiving (Running (ac_start oper)) \<Longrightarrow> j \<noteq> i \<Longrightarrow> \<not> gone \<and> \<not> discarding (ts j)" for j
      using m by (cases oper) (auto simp: ac_may_def)
    show "receiving (Running (ac_start oper)) \<Longrightarrow> \<not> gone" using m by (cases oper) (auto simp: ac_may_def)
    show "discarding (Running (ac_start oper)) \<Longrightarrow> j \<noteq> i \<Longrightarrow> \<not> discarding (ts j) \<and> \<not> receiving (ts j)" for j
      using m by (cases oper) (auto simp: ac_may_def)
    show "gone \<Longrightarrow> j \<noteq> i \<Longrightarrow> \<not> receiving (ts j)" for j using o(9) [of j i] by blast
  qed simp_all
  from ac_goodI [OF this n] q idle(2) show ?thesis by simp
qed

lemma ac_good_return:
  assumes "ac_good c m n q ts x st" "ts i = Done r"
  shows "st i = Answered r \<and> ac_good c m n q (ts(i := Resting)) x (st(i := Quiet))"
proof -
  from assms(1) obtain tq pcs cont stat d gone where q: "q = ac_of c m (snd x) gone d tq"
    and inv: "ac_inv c m tq pcs cont stat d gone ts x st" and n: "t_tail tq \<le> n"
    by (auto simp: ac_good_def)
  note o = ac_invD [OF inv]
  have "ac_thread_of c m False (pcs i) \<noteq> Done r" if "sends (pcs i) \<or> receives (pcs i)"
    using that by (cases "pcs i") auto
  then have idle: "pcs i = Idle" "st i = Answered r" using o(8) [of i] assms(2) by (auto simp: ac_link_def)
  have "ac_inv c m tq (pcs(i := Idle)) cont (stat(i := Quiet)) d gone (ts(i := Resting)) x (st(i := Quiet))"
    by (rule ac_inv_own [OF inv]) (use idle o(4-6) in simp_all)
  from ac_goodI [OF this n] q idle(2) show ?thesis by simp
qed

interpretation ac: guarded_simulation ac_may ac_start ac_tick "ac_spec c" "ac_rel c m" "2 ^ 61" for c m
proof (unfold_locales, goal_cases)
  case (1 n q ts x st)
  then show ?case by (auto simp: ac_rel_def intro: ac_good_mono)
next
  case (2 n q ts x st i oper)
  then show ?case by (auto simp: ac_rel_def dest: ac_good_call)
next
  case (3 n q ts x st i pc ch q' t)
  then have "ac_outcome c m (Suc n) (ac_tick ch q pc) ts x st i"
    by (intro ac_good_tick) (auto simp: ac_rel_def)
  with 3 show ?case unfolding ac_outcome_def ac_rel_def by auto
next
  case (4 n q ts x st i r)
  then show ?case by (auto simp: ac_rel_def dest: ac_good_return)
qed

section \<open>A new channel\<close>

lemma period_marked:
  assumes "marked_ring c m" "2 ^ m \<le> 2 * c"
  shows "2 ^ 61 + c \<le> period c (Suc m)"
proof -
  have "2 ^ 64 = (2 :: nat) ^ (64 - Suc m) * (2 * 2 ^ m)"
    using two_pow_split [of "Suc m"] marked_ringD(4) [OF assms(1)] by simp
  also have "\<dots> \<le> 2 ^ (64 - Suc m) * (4 * c)" using assms(2) by (intro mult_le_mono2) simp
  finally have "2 ^ 62 \<le> period c (Suc m)" by (simp add: period_def mult.commute)
  moreover have "2 * c \<le> period c (Suc m)" by (rule period_gt_cap [OF marked_ringD(1) [OF assms(1)]])
  ultimately show ?thesis by simp
qed

lemma ac_new_rel:
  fixes q :: "'a array_channel"
  assumes "ac_with_capacity slot_size cap = Ok q"
  obtains m where "ac_rel (unat cap) m 0 q (\<lambda>_. Resting) ([], False) (\<lambda>_. Quiet)"
proof -
  from assms obtain p lap where cap: "cap \<noteq> 0"
    and pow: "Option.bind (checked_add cap 1) checked_next_power_of_two = Some p" and lap: "checked_mul p 2 = Some lap"
    and q: "q = \<lparr>ac_head = 0, ac_tail = 0, ac_buffer = map (\<lambda>i. \<lparr>ac_stamp = word_of_nat i, ac_msg = None\<rparr>) [0..<unat cap],
      ac_one_lap = lap, ac_mark_bit = p, receivers_gone = False\<rparr>"
    by (auto simp: ac_with_capacity_def split: if_splits option.splits)
  let ?c = "unat cap"
  from capacity_power [OF cap pow] obtain m where m: "m < 64" "p = 2 ^ m" "0 < ?c" "?c < 2 ^ m" "2 ^ m \<le> 2 * ?c" .
  have "unat p * 2 < 2 ^ 64" "lap = p * 2" using lap by (auto simp: checked_mul_def split: if_splits)
  moreover have "unat p = 2 ^ m" using m(1) by (simp add: m(2) unat_exp)
  ultimately have "(2 :: nat) ^ Suc m < 2 ^ 64" by (simp only: power_Suc mult.commute)
  then have s: "Suc m < 64" by (rule power_less_imp_less_exp [rotated]) simp
  have r: "marked_ring ?c m" using m s by (simp add: marked_ring_def ring_def)
  have qq: "q = ac_of ?c m False False 0 tq_init"
    using m(2) \<open>lap = p * 2\<close> by (simp add: q ac_of_def tq_init_def enc_def mark_def dropped_slot_def)
  have "tq_inv ?c (tq_init, \<lambda>_. Idle) (\<lambda>_. undefined :: 'a) 0 (\<lambda>_. Quiet)"
    using m(3) by (simp add: tq_inv_def tq_init_def slot_ok_def Let_def)
  then have "ac_inv ?c m tq_init (\<lambda>_. Idle) (\<lambda>_. undefined :: 'a) (\<lambda>_. Quiet) 0 False (\<lambda>_. Resting) ([], False) (\<lambda>_. Quiet)"
    by (simp add: ac_inv_def ac_link_def tq_init_def)
  from ac_goodI [OF this, of 0] have "ac_good ?c m 0 q (\<lambda>_. Resting) ([], False) (\<lambda>_. Quiet)"
    by (simp add: qq tq_init_def)
  then show thesis using r period_marked [OF r m(5)] by (intro that [of m]) (simp add: ac_rel_def)
qed

lemma ac_good_defined:
  assumes "ac_good c m n q ts x st"
  shows "ts i \<noteq> Running CUndefined"
proof -
  from assms obtain tq pcs cont stat d gone where inv: "ac_inv c m tq pcs cont stat d gone ts x st"
    by (auto simp: ac_good_def)
  show ?thesis using ac_invD(8) [OF inv, of i] by (cases "pcs i") (auto simp: ac_link_def)
qed

text \<open>
  C38: a bounded channel is linearizable. Whatever sends, receives, disconnections and queries any number of threads
  make, their results are those of a bounded first-in first-out queue with a flag: no message is lost, duplicated or
  reordered; a send fails only on a full or disconnected channel; a receive reports disconnection only when no message
  is left; the last receiver drops exactly the messages that are left, each once. No access is out of range or to an
  uninitialised slot. The calls obey the ownership of receivers, and the bound keeps the stamps from wrapping around.
\<close>

theorem array_channel_linearizable:
  fixes q :: "'a array_channel"
  assumes "ac_with_capacity slot_size cap = Ok q" "length es \<le> 2 ^ 61" "lawful ac_may ac_start ac_tick es (q, \<lambda>_. Resting)"
  shows "(\<exists>b. ao_run (ac_spec (unat cap)) (([], False), \<lambda>_. Quiet)
      (impl_trace (threads_step ac_start ac_tick) threads_label es (q, \<lambda>_. Resting)) b) \<and>
    (\<forall>i. snd (impl_run (threads_step ac_start ac_tick) es (q, \<lambda>_. Resting)) i \<noteq> Running CUndefined)"
proof -
  from ac_new_rel [OF assms(1)] obtain m where "ac_rel (unat cap) m 0 q (\<lambda>_. Resting) ([], False) (\<lambda>_. Quiet)" .
  note rel = this
  obtain q' ts' where run: "impl_run (threads_step ac_start ac_tick) es (q, \<lambda>_. Resting) = (q', ts')" by fastforce
  from ac.guarded_run [OF rel _ assms(3)] assms(2) obtain x' st' where
    b: "ao_run (ac_spec (unat cap)) (([], False), \<lambda>_. Quiet)
      (impl_trace (threads_step ac_start ac_tick) threads_label es (q, \<lambda>_. Resting)) (x', st')"
    and "ac_rel (unat cap) m (length es) q' ts' x' st'" by (auto simp: run)
  then have "ac_good (unat cap) m (length es) q' ts' x' st'" by (simp add: ac_rel_def)
  then have "ts' i \<noteq> Running CUndefined" for i by (rule ac_good_defined)
  then have "\<forall>i. snd (q', ts') i \<noteq> Running CUndefined" by simp
  with b show ?thesis unfolding run by blast
qed

text \<open>Two messages are sent into a channel of two slots, one is received, and the last receiver drops the other.\<close>

definition two_slot_schedule :: "(nat ac_op, bool) thread_event list" where
  "two_slot_schedule = [CallOp 0 (TrySend 7), TickOp 0 False, TickOp 0 False, TickOp 0 False, TickOp 0 False, TickOp 0 False, ReturnOp 0,
     CallOp 0 (TrySend 8), TickOp 0 False, TickOp 0 False, TickOp 0 False, TickOp 0 False, TickOp 0 False, ReturnOp 0,
     CallOp 1 TryRecv, TickOp 1 False, TickOp 1 False, TickOp 1 False, TickOp 1 False, TickOp 1 False, ReturnOp 1,
     CallOp 1 DisconnectReceivers, TickOp 1 False, TickOp 1 False, TickOp 1 False, TickOp 1 False, TickOp 1 False, ReturnOp 1]"

definition two_slot_channel :: "nat array_channel" where
  "two_slot_channel = \<lparr>ac_head = 0, ac_tail = 0, ac_buffer = [\<lparr>ac_stamp = 0, ac_msg = None\<rparr>, \<lparr>ac_stamp = 1, ac_msg = None\<rparr>],
     ac_one_lap = 8, ac_mark_bit = 4, receivers_gone = False\<rparr>"

lemma ac_new_two: "ac_with_capacity 16 2 = Ok two_slot_channel"
proof -
  have "[0..<64] = 0 # 1 # 2 # [3..<(64::nat)]" by (simp add: upt_conv_Cons)
  then have "checked_next_power_of_two (3 :: u64) = Some 4"
    by (simp add: checked_next_power_of_two_def)
  moreover have "checked_add (2 :: u64) 1 = Some 3" "checked_mul (4 :: u64) 2 = Some 8"
    by (simp_all add: checked_add_def checked_mul_def)
  moreover have "[0..<2] = [0, 1::nat]" by (simp add: upt_conv_Cons)
  ultimately show ?thesis by (simp add: ac_with_capacity_def two_slot_channel_def capacity_overflow_def)
qed

lemma two_slot_lawful: "lawful ac_may ac_start ac_tick two_slot_schedule (two_slot_channel, \<lambda>_. Resting)"
  by (simp add: two_slot_schedule_def two_slot_channel_def ac_may_def ac_tick_def ac_send_loop_def ac_marked_def ac_unmarked_def
      ac_index_def ac_next_def ac_cap_def ac_put_def stamp_index_def stamp_next_def stamp_lap_def)

lemma two_slot_trace:
  "impl_trace (threads_step ac_start ac_tick) threads_label two_slot_schedule (two_slot_channel, \<lambda>_. Resting) =
     [Invoke 0 (TrySend 7), Return 0 (SendRet (Ok ())), Invoke 0 (TrySend 8), Return 0 (SendRet (Ok ())),
      Invoke 1 TryRecv, Return 1 (RecvRet (Ok 7)), Invoke 1 DisconnectReceivers, Return 1 (DropRet True [8])]"
  by code_simp

theorem array_channel_linearizable_witness:
  "\<exists>b. ao_run (ac_spec 2) (([], False), \<lambda>_. Quiet)
     [Invoke 0 (TrySend 7), Return 0 (SendRet (Ok ())), Invoke 0 (TrySend 8), Return 0 (SendRet (Ok ())),
      Invoke 1 TryRecv, Return 1 (RecvRet (Ok 7)), Invoke 1 DisconnectReceivers, Return 1 (DropRet True [8 :: nat])] b"
proof -
  have "length two_slot_schedule \<le> 2 ^ 61" by (simp add: two_slot_schedule_def)
  from array_channel_linearizable [OF ac_new_two this two_slot_lawful] show ?thesis
    unfolding two_slot_trace by simp
qed

end
