(* ===== verification/Array_Channel_Block.thy ===== *)
theory Array_Channel_Block
  imports Waker Array_Channel
begin

text \<open>
  The blocking loops \<^verbatim>\<open>send\<close> and \<^verbatim>\<open>recv\<close> of the bounded channel
  (\<^verbatim>\<open>crossbeam-channel/src/flavors/array.rs\<close>) with the wakers of theory \<open>Waker\<close>, for any number of threads.
  The lock-free part takes one step here, with the results that theory \<open>Array_Channel_Linear\<close> proves of it; waking
  the other side after a message has been written or read, registering, looking again, parking and unregistering are
  steps of their own. A call of \<^verbatim>\<open>unwrap\<close> on nothing is the point \<open>BPanic\<close>. The fields \<open>gone\<close> are not part of
  the code: they record that the last sender or receiver has been dropped.
\<close>

section \<open>State\<close>

datatype side = Sending | Receiving

fun opposite :: "side \<Rightarrow> side" where
  "opposite Sending = Receiving" | "opposite Receiving = Sending"

record 'a blocking =
  bl_msgs :: "'a list"
  bl_cap :: nat
  bl_disc :: bool
  bl_wakers :: "side \<Rightarrow> sync_waker"
  bl_cxs :: contexts
  bl_gone :: "side \<Rightarrow> bool"

definition bl_new :: "nat \<Rightarrow> 'a blocking" where
  "bl_new cap = \<lparr>bl_msgs = [], bl_cap = cap, bl_disc = False, bl_wakers = (\<lambda>_. sync_waker_new),
     bl_cxs = (\<lambda>_. cx_new), bl_gone = (\<lambda>_. False)\<rparr>"

text \<open>A call: what is sent, if anything, and whether there is a deadline.\<close>

datatype 'a request = Send_Request 'a bool | Recv_Request bool

fun side_of :: "'a request \<Rightarrow> side" where
  "side_of (Send_Request v d) = Sending" | "side_of (Recv_Request d) = Receiving"

fun deadline_of :: "'a request \<Rightarrow> nat option" where
  "deadline_of (Send_Request v d) = (if d then Some 0 else None)" | "deadline_of (Recv_Request d) = (if d then Some 0 else None)"

datatype 'a bl_op = BRequest "'a request" | BDisconnect side

datatype 'a bl_ret = BSent "(unit, 'a send_timeout_error) result" | BReceived "('a, recv_timeout_error) result" | BDisconnected bool

datatype 'a bl_pc =
    BTry "'a request"
  | BFlag side "'a bl_ret" | BNotify side "'a bl_ret"
  | BDeadline "'a request" | BRegister "'a request" | BLook "'a request" | BLookDisc "'a request" | BAbort "'a request"
  | BWait "'a request" | BUnregister "'a request"
  | BMark side | BWakeAll side
  | BPanic

fun bl_start :: "'a bl_op \<Rightarrow> 'a bl_pc" where
  "bl_start (BRequest r) = BTry r"
| "bl_start (BDisconnect s) = BMark s"

type_synonym 'a bl_thread = "('a bl_pc, 'a bl_ret) thread"

section \<open>The machines\<close>

text \<open>
  One attempt: \<^verbatim>\<open>start_send\<close> and the write, or \<^verbatim>\<open>start_recv\<close> and the read. The answer is \<open>None\<close> if the
  operation is not ready; a successful one has to wake the other side.
\<close>

definition bl_timeout :: "'a request \<Rightarrow> 'a bl_ret" where
  "bl_timeout r = (case r of Send_Request v _ \<Rightarrow> BSent (Err (STTimeout v)) | Recv_Request _ \<Rightarrow> BReceived (Err RTTimeout))"

definition bl_attempt :: "'a request \<Rightarrow> 'a blocking \<Rightarrow> ('a bl_ret \<times> bool) option \<times> 'a blocking" where
  "bl_attempt r q =
     (case r of
        Send_Request v _ \<Rightarrow>
          if bl_disc q then (Some (BSent (Err (STDisconnected v)), False), q)
          else if length (bl_msgs q) < bl_cap q then (Some (BSent (Ok ()), True), q\<lparr>bl_msgs := bl_msgs q @ [v]\<rparr>)
          else (None, q)
      | Recv_Request _ \<Rightarrow>
          (case bl_msgs q of
             [] \<Rightarrow> if bl_disc q then (Some (BReceived (Err RTDisconnected), False), q) else (None, q)
           | x # xs \<Rightarrow> (Some (BReceived (Ok x), True), q\<lparr>bl_msgs := xs\<rparr>)))"

text \<open>Whether there is something to do for a side: room for a sender, a message for a receiver.\<close>

definition bl_supply :: "side \<Rightarrow> 'a blocking \<Rightarrow> nat" where
  "bl_supply s q = (case s of Sending \<Rightarrow> bl_cap q - length (bl_msgs q) | Receiving \<Rightarrow> length (bl_msgs q))"

text \<open>What happens to the waker of one side and to the contexts.\<close>

definition bl_at_waker :: "side \<Rightarrow> (sync_waker \<Rightarrow> contexts \<Rightarrow> sync_waker \<times> contexts) \<Rightarrow> 'a blocking \<Rightarrow> 'a blocking" where
  "bl_at_waker s f q =
     (case f (bl_wakers q s) (bl_cxs q) of (w, cxs) \<Rightarrow> q\<lparr>bl_wakers := (bl_wakers q)(s := w), bl_cxs := cxs\<rparr>)"

text \<open>
  One step of thread \<open>i\<close>. The environment decides with \<open>ch\<close>: whether another attempt is made, whether a
  query misses that the operation is not ready, whether the deadline has passed.
\<close>

fun bl_tick :: "tid \<Rightarrow> bool \<Rightarrow> 'a blocking \<Rightarrow> 'a bl_pc \<Rightarrow> 'a blocking \<times> 'a bl_thread" where
  "bl_tick i ch q (BTry r) =
     (case bl_attempt r q of
        (Some (ret, wake), q') \<Rightarrow> (q', if wake then Running (BFlag (opposite (side_of r)) ret) else Done ret)
      | (None, q') \<Rightarrow> (q', Running (if ch then BTry r else BDeadline r)))"
| "bl_tick i ch q (BFlag s ret) = (q, if sw_is_empty (bl_wakers q s) then Done ret else Running (BNotify s ret))"
| "bl_tick i ch q (BNotify s ret) = (bl_at_waker s (sw_notify i) q, Done ret)"
| "bl_tick i ch q (BDeadline r) =
     (q, if deadline_of r \<noteq> None \<and> ch then Done (bl_timeout r) else Running (BRegister r))"
| "bl_tick i ch q (BRegister r) =
     (bl_at_waker (side_of r) (\<lambda>w cxs. (sw_register (hook i) i w, cxs(i := cx_reset (cxs i)))) q, Running (BLook r))"
| "bl_tick i ch q (BLook r) =
     (q, Running (if bl_supply (side_of r) q = 0 \<and> ch then BLookDisc r else BAbort r))"
| "bl_tick i ch q (BLookDisc r) = (q, Running (if bl_disc q then BAbort r else BWait r))"
| "bl_tick i ch q (BAbort r) =
     (q\<lparr>bl_cxs := (bl_cxs q)(i := snd (cx_try_select Aborted (bl_cxs q i)))\<rparr>, Running (BWait r))"
| "bl_tick i ch q (BWait r) =
     (case cx_wait_until (deadline_of r) ch (bl_cxs q i) of
        (None, cx) \<Rightarrow> (q\<lparr>bl_cxs := (bl_cxs q)(i := cx)\<rparr>, Running (BWait r))
      | (Some sel, cx) \<Rightarrow>
          (q\<lparr>bl_cxs := (bl_cxs q)(i := cx)\<rparr>,
           Running (case sel of Waiting \<Rightarrow> BPanic | Operation _ \<Rightarrow> BTry r | _ \<Rightarrow> BUnregister r)))"
| "bl_tick i ch q (BUnregister r) =
     (bl_at_waker (side_of r) (\<lambda>w cxs. (snd (sw_unregister (hook i) w), cxs)) q,
      Running (if fst (sw_unregister (hook i) (bl_wakers q (side_of r))) = None then BPanic else BTry r))"
| "bl_tick i ch q (BMark s) =
     (q\<lparr>bl_disc := True, bl_gone := (bl_gone q)(s := True)\<rparr>,
      if bl_disc q then Done (BDisconnected False) else Running (BWakeAll (opposite s)))"
| "bl_tick i ch q (BWakeAll s) = (bl_at_waker s sw_disconnect q, Done (BDisconnected True))"
| "bl_tick i ch q BPanic = (q, Running BPanic)"

text \<open>
  Calls need a handle: none begins on a side whose last handle is dropped, and the last one is dropped when no call
  of its side is under way.
\<close>

fun bl_side :: "'a bl_thread \<Rightarrow> side option" where
  "bl_side (Running (BTry r)) = Some (side_of r)"
| "bl_side (Running (BFlag s ret)) = Some (opposite s)"
| "bl_side (Running (BNotify s ret)) = Some (opposite s)"
| "bl_side (Running (BDeadline r)) = Some (side_of r)"
| "bl_side (Running (BRegister r)) = Some (side_of r)"
| "bl_side (Running (BLook r)) = Some (side_of r)"
| "bl_side (Running (BLookDisc r)) = Some (side_of r)"
| "bl_side (Running (BAbort r)) = Some (side_of r)"
| "bl_side (Running (BWait r)) = Some (side_of r)"
| "bl_side (Running (BUnregister r)) = Some (side_of r)"
| "bl_side (Running (BMark s)) = Some s"
| "bl_side _ = None"

definition bl_may :: "'a blocking \<Rightarrow> (tid \<Rightarrow> 'a bl_thread) \<Rightarrow> 'a bl_op \<Rightarrow> bool" where
  "bl_may q ts oper \<longleftrightarrow>
     (case oper of
        BRequest r \<Rightarrow> \<not> bl_gone q (side_of r) \<and> (\<forall>j. ts j \<noteq> Running (BMark (side_of r)))
      | BDisconnect s \<Rightarrow> \<not> bl_gone q s \<and> (\<forall>j. bl_side (ts j) \<noteq> Some s))"

type_synonym 'a bl_sys = "'a blocking \<times> (tid \<Rightarrow> 'a bl_thread)"

inductive bl_step :: "'a bl_sys \<Rightarrow> 'a bl_sys \<Rightarrow> bool" where
  bl_call: "ts i = Resting \<Longrightarrow> bl_may q ts oper \<Longrightarrow> bl_step (q, ts) (q, ts(i := Running (bl_start oper)))"
| bl_move: "ts i = Running pc \<Longrightarrow> bl_tick i ch q pc = (q', t) \<Longrightarrow> bl_step (q, ts) (q', ts(i := t))"
| bl_return: "ts i = Done ret \<Longrightarrow> bl_step (q, ts) (q, ts(i := Resting))"

inductive bl_reach :: "nat \<Rightarrow> 'a bl_sys \<Rightarrow> bool" for cap where
  bl_init: "bl_reach cap (bl_new cap, \<lambda>_. Resting)"
| bl_more: "bl_reach cap s \<Longrightarrow> bl_step s s' \<Longrightarrow> bl_reach cap s'"

text \<open>The attempts are those of the lock-free channel.\<close>

lemma bl_attempt_sound:
  assumes "bl_attempt r q = (ans, q')" "length (bl_msgs q) \<le> bl_cap q"
  shows "ac_spec (bl_cap q) (case r of Send_Request v _ \<Rightarrow> TrySend v | Recv_Request _ \<Rightarrow> TryRecv) (bl_msgs q, bl_disc q)
    (case (r, ans) of
       (Send_Request v _, None) \<Rightarrow> SendRet (Err (TSFull v))
     | (Send_Request v _, Some (BSent (Ok _), _)) \<Rightarrow> SendRet (Ok ())
     | (Send_Request v _, Some _) \<Rightarrow> SendRet (Err (TSDisconnected v))
     | (Recv_Request _, None) \<Rightarrow> RecvRet (Err TREmpty)
     | (Recv_Request _, Some (BReceived (Ok x), _)) \<Rightarrow> RecvRet (Ok x)
     | (Recv_Request _, Some _) \<Rightarrow> RecvRet (Err TRDisconnected))
    (bl_msgs q', bl_disc q')"
  using assms by (cases r) (auto simp: bl_attempt_def split: if_splits list.splits)

section \<open>The invariant\<close>

text \<open>What is seen of a thread: where it is, and what its context says.\<close>

type_synonym 'a view = "'a bl_thread \<times> selected"

definition bl_view :: "'a bl_sys \<Rightarrow> tid \<Rightarrow> 'a view" where
  "bl_view s i = (snd s i, cx_select (bl_cxs (fst s) i))"

text \<open>A thread between registering and unregistering.\<close>

fun registered :: "side \<Rightarrow> 'a bl_thread \<Rightarrow> bool" where
  "registered s (Running (BLook r)) = (side_of r = s)"
| "registered s (Running (BLookDisc r)) = (side_of r = s)"
| "registered s (Running (BAbort r)) = (side_of r = s)"
| "registered s (Running (BWait r)) = (side_of r = s)"
| "registered s (Running (BUnregister r)) = (side_of r = s)"
| "registered s _ = False"

fun is_operation :: "selected \<Rightarrow> bool" where
  "is_operation (Operation _) = True" | "is_operation _ = False"

text \<open>
  A thread is enlisted while its entry is in the waker. It is parked for good, unless somebody selects it, once it has
  seen that its operation is not ready. A thread helps a side if it is going to notify it, or if it is one of the side
  itself and going to make another attempt.
\<close>

definition enlisted :: "side \<Rightarrow> 'a view \<Rightarrow> bool" where
  "enlisted s v \<longleftrightarrow> registered s (fst v) \<and> \<not> is_operation (snd v)"

fun looked :: "side \<Rightarrow> 'a bl_thread \<Rightarrow> bool" where
  "looked s (Running (BLookDisc r)) = (side_of r = s)"
| "looked s (Running (BWait r)) = (side_of r = s)"
| "looked s _ = False"

fun waits :: "side \<Rightarrow> 'a bl_thread \<Rightarrow> bool" where
  "waits s (Running (BWait r)) = (side_of r = s)"
| "waits s _ = False"

fun active :: "side \<Rightarrow> 'a bl_thread \<Rightarrow> bool" where
  "active s (Running (BTry r)) = (side_of r = s)"
| "active s (Running (BFlag s' ret)) = (s' = s)"
| "active s (Running (BNotify s' ret)) = (s' = s)"
| "active s _ = False"

definition helps :: "side \<Rightarrow> 'a view \<Rightarrow> bool" where
  "helps s v \<longleftrightarrow> active s (fst v) \<or> registered s (fst v) \<and> is_operation (snd v)"

definition parked :: "side \<Rightarrow> 'a view \<Rightarrow> bool" where
  "parked s v \<longleftrightarrow> looked s (fst v) \<and> snd v = Waiting"

fun unregisters :: "'a bl_thread \<Rightarrow> bool" where
  "unregisters (Running (BUnregister r)) = True" | "unregisters _ = False"

definition view_ok :: "'a view \<Rightarrow> bool" where
  "view_ok v \<longleftrightarrow> fst v \<noteq> Running BPanic \<and> (unregisters (fst v) \<longrightarrow> snd v = Aborted \<or> snd v = Disconnected)"

definition waker_view :: "side \<Rightarrow> 'a bl_sys \<Rightarrow> bool" where
  "waker_view s x \<longleftrightarrow> sw_ok (bl_wakers (fst x) s) \<and> entries_ok (\<lambda>_. 0) (sw_inner (bl_wakers (fst x) s)) \<and>
     (\<forall>i. queued (sw_inner (bl_wakers (fst x) s)) i \<longleftrightarrow> enlisted s (bl_view x i))"

definition covered :: "side \<Rightarrow> 'a bl_sys \<Rightarrow> bool" where
  "covered s x \<longleftrightarrow> (\<not> bl_disc (fst x) \<and> (\<exists>i. parked s (bl_view x i)) \<longrightarrow>
     bl_supply s (fst x) \<le> card {i. helps s (bl_view x i)})"

definition awaited :: "side \<Rightarrow> 'a bl_sys \<Rightarrow> bool" where
  "awaited s x \<longleftrightarrow> (bl_disc (fst x) \<and> (\<exists>i. waits s (snd x i) \<and> snd (bl_view x i) = Waiting) \<longrightarrow>
     (\<exists>j. snd x j = Running (BWakeAll s)))"

definition handles_ok :: "'a bl_sys \<Rightarrow> bool" where
  "handles_ok x \<longleftrightarrow> (\<forall>s j. bl_gone (fst x) s \<longrightarrow> bl_side (snd x j) \<noteq> Some s) \<and>
     (\<forall>s j k. snd x j = Running (BMark s) \<longrightarrow> bl_side (snd x k) = Some s \<longrightarrow> k = j)"

definition bl_inv :: "'a bl_sys \<Rightarrow> bool" where
  "bl_inv x \<longleftrightarrow> length (bl_msgs (fst x)) \<le> bl_cap (fst x) \<and> finite {i. snd x i \<noteq> Resting} \<and> handles_ok x \<and>
     (\<forall>i. view_ok (bl_view x i)) \<and> (\<forall>s. waker_view s x \<and> covered s x \<and> awaited s x)"

lemma bl_invD:
  assumes "bl_inv x"
  shows "length (bl_msgs (fst x)) \<le> bl_cap (fst x)" "finite {i. snd x i \<noteq> Resting}" "handles_ok x" "view_ok (bl_view x i)"
    "waker_view s x" "covered s x" "awaited s x"
  using assms by (simp_all add: bl_inv_def)

lemma helpers_finite:
  assumes "finite {i. snd x i \<noteq> Resting}"
  shows "finite {i. helps s (bl_view x i)}"
  by (rule finite_subset [OF _ assms]) (auto simp: helps_def bl_view_def)

lemma parked_queued: "waker_view s x \<Longrightarrow> parked s (bl_view x i) \<Longrightarrow> queued (sw_inner (bl_wakers (fst x) s)) i"
  by (cases "(s, snd x i)" rule: looked.cases) (auto simp: waker_view_def parked_def enlisted_def bl_view_def)

text \<open>How many threads help after thread \<open>i\<close> has moved.\<close>

lemma card_upd:
  assumes "finite {j. P (f j)}" "\<And>j. j \<noteq> i \<Longrightarrow> g j = f j"
  shows "card {j. P (g j)} + of_bool (P (f i)) = card {j. P (f j)} + of_bool (P (g i))"
proof -
  let ?R = "{j. j \<noteq> i \<and> P (f j)}"
  have fin: "finite ?R" by (rule finite_subset [OF _ assms(1)]) blast
  have "{j. P (g j)} = (if P (g i) then insert i ?R else ?R)"
  proof (rule set_eqI)
    fix j show "j \<in> {j. P (g j)} \<longleftrightarrow> j \<in> (if P (g i) then insert i ?R else ?R)"
      using assms(2) [of j] by (cases "j = i") auto
  qed
  moreover have "{j. P (f j)} = (if P (f i) then insert i ?R else ?R)" by auto
  ultimately show ?thesis using fin by simp
qed

lemma covered_upd:
  assumes inv: "bl_inv x" and others: "\<And>j. j \<noteq> i \<Longrightarrow> bl_view y j = bl_view x j" and disc: "bl_disc (fst y) = bl_disc (fst x)"
    and i: "bl_supply s (fst y) + of_bool (helps s (bl_view x i)) \<le> bl_supply s (fst x) + of_bool (helps s (bl_view y i)) \<or>
      bl_supply s (fst y) = 0"
      "parked s (bl_view y i) \<Longrightarrow> parked s (bl_view x i) \<or> bl_supply s (fst y) = 0"
  shows "covered s y"
proof (cases "bl_supply s (fst y) = 0")
  case False
  have "bl_supply s (fst y) \<le> card {j. helps s (bl_view y j)}" if nd: "\<not> bl_disc (fst y)" and p: "parked s (bl_view y j)" for j
  proof -
    have "\<exists>j. parked s (bl_view x j)" using p others [of j] i(2) False by (cases "j = i") auto
    then have "bl_supply s (fst x) \<le> card {j. helps s (bl_view x j)}" using bl_invD(6) [OF inv, of s] nd disc by (auto simp: covered_def)
    moreover have "card {j. helps s (bl_view y j)} + of_bool (helps s (bl_view x i)) =
        card {j. helps s (bl_view x j)} + of_bool (helps s (bl_view y i))"
      by (rule card_upd [OF helpers_finite [OF bl_invD(2) [OF inv]] others])
    ultimately show ?thesis using i(1) False by linarith
  qed
  then show ?thesis by (auto simp: covered_def)
qed (simp add: covered_def)

text \<open>The invariant after a step of thread \<open>i\<close> that changes nothing of the other threads.\<close>

lemma waker_view_same:
  assumes "waker_view s x" "bl_wakers (fst y) s = bl_wakers (fst x) s" "\<And>j. j \<noteq> i \<Longrightarrow> bl_view y j = bl_view x j"
    "enlisted s (bl_view y i) = enlisted s (bl_view x i)"
  shows "waker_view s y"
proof -
  have "enlisted s (bl_view y j) = enlisted s (bl_view x j)" for j using assms(3,4) by (cases "j = i") auto
  then show ?thesis using assms(1,2) by (simp add: waker_view_def)
qed

lemma handles_upd:
  assumes "handles_ok x" "snd y = (snd x)(i := t)" "bl_gone (fst y) = bl_gone (fst x)"
    "bl_side t = bl_side (snd x i) \<or> bl_side t = None" "\<And>s. t \<noteq> Running (BMark s)"
  shows "handles_ok y"
proof -
  have side: "bl_side (snd y j) = Some s \<Longrightarrow> bl_side (snd x j) = Some s" for j s
    using assms(2,4) by (cases "j = i") auto
  have mark: "snd y j = Running (BMark s) \<Longrightarrow> snd x j = Running (BMark s)" for j s
    using assms(2,5) by (cases "j = i") auto
  show ?thesis using assms(1,3) side mark unfolding handles_ok_def by metis
qed

lemma awaited_upd:
  assumes "awaited s x" "snd y = (snd x)(i := t)" "bl_disc (fst y) = bl_disc (fst x)"
    and others: "\<And>j. j \<noteq> i \<Longrightarrow> cx_select (bl_cxs (fst y) j) = cx_select (bl_cxs (fst x) j) \<or> cx_select (bl_cxs (fst x) j) = Waiting"
    and i: "bl_disc (fst x) \<Longrightarrow> waits s t \<Longrightarrow> snd (bl_view y i) = Waiting \<Longrightarrow> waits s (snd x i) \<and> snd (bl_view x i) = Waiting"
    and stays: "snd x i \<noteq> Running (BWakeAll s)"
  shows "awaited s y"
  unfolding awaited_def
proof (intro impI, elim conjE exE)
  fix j assume a: "bl_disc (fst y)" "waits s (snd y j)" "snd (bl_view y j) = Waiting"
  have "waits s (snd x j) \<and> snd (bl_view x j) = Waiting"
    using a assms(2,3) i others [of j] by (cases "j = i") (auto simp: bl_view_def)
  then obtain k where "snd x k = Running (BWakeAll s)" using assms(1,3) a(1) by (auto simp: awaited_def)
  then show "\<exists>k. snd y k = Running (BWakeAll s)" using assms(2) stays by (intro exI [of _ k]) auto
qed

lemma bl_inv_intro:
  assumes inv: "bl_inv x" and y: "snd y = (snd x)(i := t)" "length (bl_msgs (fst y)) \<le> bl_cap (fst y)"
    and others: "\<And>j. j \<noteq> i \<Longrightarrow> cx_select (bl_cxs (fst y) j) = cx_select (bl_cxs (fst x) j) \<or> cx_select (bl_cxs (fst x) j) = Waiting"
    and parts: "view_ok (bl_view y i)" "handles_ok y" "\<And>s. waker_view s y" "\<And>s. covered s y" "\<And>s. awaited s y"
  shows "bl_inv y"
proof -
  note d = bl_invD [OF inv]
  have "finite {j. snd y j \<noteq> Resting}"
    by (rule finite_subset [of _ "insert i {j. snd x j \<noteq> Resting}"]) (use d(2) y(1) in auto)
  moreover have "view_ok (bl_view y j)" for j
    using parts(1) d(4) [of j] others [of j] y(1) by (cases "j = i") (auto simp: view_ok_def bl_view_def)
  ultimately show ?thesis using y(2) parts by (simp add: bl_inv_def)
qed

lemma bl_inv_upd:
  assumes inv: "bl_inv x" and y: "snd y = (snd x)(i := t)" "bl_disc (fst y) = bl_disc (fst x)" "bl_gone (fst y) = bl_gone (fst x)"
      "length (bl_msgs (fst y)) \<le> bl_cap (fst y)"
    and others: "\<And>j. j \<noteq> i \<Longrightarrow> cx_select (bl_cxs (fst y) j) = cx_select (bl_cxs (fst x) j)"
    and wakers: "\<And>s. waker_view s y"
    and own: "view_ok (bl_view y i)" "bl_side t = bl_side (snd x i) \<or> bl_side t = None" "\<And>s. t \<noteq> Running (BMark s)"
      "\<And>s. snd x i \<noteq> Running (BWakeAll s)"
    and cover: "\<And>s. bl_supply s (fst y) + of_bool (helps s (bl_view x i)) \<le> bl_supply s (fst x) + of_bool (helps s (bl_view y i)) \<or>
      bl_supply s (fst y) = 0 \<or> bl_disc (fst x) \<or> (\<forall>j. \<not> parked s (bl_view y j))"
      "\<And>s. parked s (bl_view y i) \<Longrightarrow> parked s (bl_view x i) \<or> bl_supply s (fst y) = 0"
    and await: "\<And>s. bl_disc (fst x) \<Longrightarrow> waits s t \<Longrightarrow> snd (bl_view y i) = Waiting \<Longrightarrow> waits s (snd x i) \<and> snd (bl_view x i) = Waiting"
  shows "bl_inv y"
proof (rule bl_inv_intro [OF inv y(1) y(4)])
  note d = bl_invD [OF inv]
  show "handles_ok y" by (rule handles_upd [OF d(3) y(1,3) own(2,3)])
  show "awaited s y" for s by (rule awaited_upd [OF d(7) y(1,2)]) (use others await own(4) in blast)+
  have view: "bl_view y j = bl_view x j" if "j \<noteq> i" for j using that y(1) others by (simp add: bl_view_def)
  show "covered s y" for s
  proof (cases "bl_disc (fst x) \<or> (\<forall>j. \<not> parked s (bl_view y j))")
    case True
    then show ?thesis using y(2) by (auto simp: covered_def)
  next
    case False
    then have "bl_supply s (fst y) + of_bool (helps s (bl_view x i)) \<le> bl_supply s (fst x) + of_bool (helps s (bl_view y i)) \<or>
      bl_supply s (fst y) = 0" using cover(1) [of s] by argo
    then show ?thesis using cover(2) [of s] y(2) view by (intro covered_upd [OF inv, of i y]) simp_all
  qed
qed (use others wakers own(1) in blast)+

text \<open>A step that also leaves the wakers alone.\<close>

lemma bl_inv_local:
  assumes inv: "bl_inv x" and y: "y = (q', (snd x)(i := t))" "bl_disc q' = bl_disc (fst x)" "bl_gone q' = bl_gone (fst x)"
      "bl_wakers q' = bl_wakers (fst x)" "length (bl_msgs q') \<le> bl_cap q'"
    and others: "\<And>j. j \<noteq> i \<Longrightarrow> cx_select (bl_cxs q' j) = cx_select (bl_cxs (fst x) j)"
    and own: "view_ok (bl_view y i)" "bl_side t = bl_side (snd x i) \<or> bl_side t = None" "\<And>s. t \<noteq> Running (BMark s)"
      "\<And>s. snd x i \<noteq> Running (BWakeAll s)" "\<And>s. enlisted s (bl_view y i) = enlisted s (bl_view x i)"
    and cover: "\<And>s. bl_supply s q' + of_bool (helps s (bl_view x i)) \<le> bl_supply s (fst x) + of_bool (helps s (bl_view y i)) \<or>
      bl_supply s q' = 0 \<or> bl_disc (fst x) \<or> (\<forall>j. \<not> parked s (bl_view y j))"
      "\<And>s. parked s (bl_view y i) \<Longrightarrow> parked s (bl_view x i) \<or> bl_supply s q' = 0"
    and await: "\<And>s. bl_disc (fst x) \<Longrightarrow> waits s t \<Longrightarrow> snd (bl_view y i) = Waiting \<Longrightarrow> waits s (snd x i) \<and> snd (bl_view x i) = Waiting"
  shows "bl_inv y"
proof (rule bl_inv_upd [OF inv, of y i t])
  show "waker_view s y" for s
    by (rule waker_view_same [OF bl_invD(5) [OF inv], of _ _ i]) (use y others own(5) in \<open>simp_all add: bl_view_def\<close>)
qed (use assms in auto)

lemma bl_view_simps [simp]: "bl_view (q, ts) j = (ts j, cx_select (bl_cxs q j))"
  by (simp add: bl_view_def)

lemmas bl_view_defs = view_ok_def enlisted_def helps_def parked_def

text \<open>An attempt, by its outcome.\<close>

lemma attempt_cases:
  assumes "bl_attempt r q = (ans, q')" "length (bl_msgs q) \<le> bl_cap q"
  obtains (closed) ret where "ans = Some (ret, False)" "q' = q" "bl_disc q"
  | (moved) ret where "ans = Some (ret, True)" "bl_wakers q' = bl_wakers q" "bl_cxs q' = bl_cxs q" "bl_disc q' = bl_disc q" "bl_gone q' = bl_gone q"
      "length (bl_msgs q') \<le> bl_cap q'" "bl_supply (side_of r) q = Suc (bl_supply (side_of r) q')"
      "bl_supply (opposite (side_of r)) q' = Suc (bl_supply (opposite (side_of r)) q)"
  | (unready) "ans = None" "q' = q" "bl_supply (side_of r) q = 0"
proof (cases r)
  case (Send_Request v b)
  consider "bl_disc q" | "\<not> bl_disc q" "length (bl_msgs q) < bl_cap q" | "\<not> bl_disc q" "length (bl_msgs q) = bl_cap q"
    using assms(2) by linarith
  then show thesis
  proof cases
    case 1
    then show thesis using assms(1) Send_Request by (intro that(1)) (auto simp: bl_attempt_def)
  next
    case 2
    then show thesis using assms(1) Send_Request by (intro that(2)) (auto simp: bl_attempt_def bl_supply_def Suc_diff_Suc)
  next
    case 3
    then show thesis using assms(1) Send_Request by (intro that(3)) (auto simp: bl_attempt_def bl_supply_def)
  qed
next
  case (Recv_Request b)
  show thesis
  proof (cases "bl_msgs q")
    case Nil
    show thesis
    proof (cases "bl_disc q")
      case True
      then show thesis using Nil assms(1) Recv_Request by (intro that(1)) (auto simp: bl_attempt_def)
    next
      case False
      then show thesis using Nil assms(1) Recv_Request by (intro that(3)) (auto simp: bl_attempt_def bl_supply_def)
    qed
  next
    case (Cons m ms)
    then show thesis using assms Recv_Request by (intro that(2)) (auto simp: bl_attempt_def bl_supply_def Suc_diff_Suc)
  qed
qed

lemma side_cases: "s = s' \<or> s = opposite s'"
  by (cases s; cases s') simp_all

lemma opposite_neq [simp]: "opposite s \<noteq> s" "s \<noteq> opposite s"
  by (cases s; simp)+

lemma try_ok:
  assumes inv: "bl_inv (q, ts)" and pc: "ts i = Running (BTry r)" and tick: "bl_tick i ch q (BTry r) = (q', t)"
  shows "bl_inv (q', ts(i := t))"
proof -
  note d = bl_invD [OF inv, simplified]
  obtain ans q1 where att: "bl_attempt r q = (ans, q1)" by fastforce
  show ?thesis
  proof (cases rule: attempt_cases [OF att d(1), case_names closed moved unready])
    case (closed ret)
    have t: "q' = q" "t = Done ret" using closed tick att by simp_all
    show ?thesis unfolding t
      by (rule bl_inv_local [OF inv, where t = "Done ret" and i = i and q' = q]) (use pc d(1) closed in \<open>simp_all add: bl_view_defs\<close>)
  next
    case (moved ret)
    let ?t = "Running (BFlag (opposite (side_of r)) ret)"
    have t: "q' = q1" "t = ?t" using tick att moved by simp_all
    have sup: "bl_supply s q1 + of_bool (side_of r = s) \<le> bl_supply s q + of_bool (opposite (side_of r) = s)" for s
      using moved(7,8) side_cases [of s "side_of r"] by auto
    show ?thesis unfolding t
      by (rule bl_inv_local [OF inv, where t = ?t and i = i and q' = q1])
        (use pc moved sup in \<open>simp_all add: bl_view_defs, (cases "side_of r"; simp)?\<close>)
  next
    case unready
    then have t: "q' = q" "t = Running (if ch then BTry r else BDeadline r)" using tick att by simp_all
    show ?thesis
    proof (cases ch)
      case True
      then have "ts(i := t) = ts" using t pc by (simp add: fun_upd_idem)
      then show ?thesis using inv t(1) by simp
    next
      case False
      then have t: "q' = q" "t = Running (BDeadline r)" using t by simp_all
      show ?thesis unfolding t
        by (rule bl_inv_local [OF inv, where t = "Running (BDeadline r)" and i = i and q' = q])
          (use pc d(1) unready in \<open>auto simp: bl_view_defs\<close>)
    qed
  qed
qed

text \<open>An empty waker has nobody parked.\<close>

lemma empty_no_parked:
  assumes inv: "bl_inv (q, ts)" and e: "sw_is_empty (bl_wakers q s)"
  shows "\<not> parked s (ts j, cx_select (bl_cxs q j))"
  using parked_queued [OF bl_invD(5) [OF inv], of s j] bl_invD(5) [OF inv, of s] e
  by (auto simp: waker_view_def sw_ok_def waker_is_empty_def queued_def)

lemma supply_cxs [simp]: "bl_supply s (q\<lparr>bl_cxs := c\<rparr>) = bl_supply s q"
  by (simp add: bl_supply_def split: side.split)

lemma flag_ok:
  assumes inv: "bl_inv (q, ts)" and pc: "ts i = Running (BFlag s ret)" and tick: "bl_tick i ch q (BFlag s ret) = (q', t)"
  shows "bl_inv (q', ts(i := t))"
proof -
  note d = bl_invD [OF inv, simplified]
  have t: "q' = q" "t = (if sw_is_empty (bl_wakers q s) then Done ret else Running (BNotify s ret))" using tick by auto
  have none: "\<not> parked s (if j = i then t else ts j, cx_select (bl_cxs q j))" if "sw_is_empty (bl_wakers q s)" for j
    using that t empty_no_parked [OF inv that, of j] by (auto simp: parked_def)
  show ?thesis unfolding t(1)
    by (rule bl_inv_local [OF inv, where t = t and i = i and q' = q])
      (use pc d(1) none in \<open>auto simp: bl_view_defs t(2) split: if_splits\<close>)
qed

lemma deadline_ok:
  assumes inv: "bl_inv (q, ts)" and pc: "ts i = Running (BDeadline r)" and tick: "bl_tick i ch q (BDeadline r) = (q', t)"
  shows "bl_inv (q', ts(i := t))"
proof -
  note d = bl_invD [OF inv, simplified]
  have t: "q' = q" "t = (if deadline_of r \<noteq> None \<and> ch then Done (bl_timeout r) else Running (BRegister r))"
    using tick by auto
  show ?thesis unfolding t(1)
    by (rule bl_inv_local [OF inv, where t = t and i = i and q' = q]) (use pc d(1) in \<open>auto simp: bl_view_defs t(2) split: if_splits\<close>)
qed

lemma look_ok:
  assumes inv: "bl_inv (q, ts)" and pc: "ts i = Running (BLook r)" and tick: "bl_tick i ch q (BLook r) = (q', t)"
  shows "bl_inv (q', ts(i := t))"
proof -
  note d = bl_invD [OF inv, simplified]
  have t: "q' = q" "t = Running (if bl_supply (side_of r) q = 0 \<and> ch then BLookDisc r else BAbort r)"
    using tick by auto
  show ?thesis unfolding t(1)
    by (rule bl_inv_local [OF inv, where t = t and i = i and q' = q]) (use pc d(1) in \<open>auto simp: bl_view_defs t(2) split: if_splits\<close>)
qed

lemma look_disc_ok:
  assumes inv: "bl_inv (q, ts)" and pc: "ts i = Running (BLookDisc r)" and tick: "bl_tick i ch q (BLookDisc r) = (q', t)"
  shows "bl_inv (q', ts(i := t))"
proof -
  note d = bl_invD [OF inv, simplified]
  have t: "q' = q" "t = Running (if bl_disc q then BAbort r else BWait r)" using tick by auto
  show ?thesis unfolding t(1)
    by (rule bl_inv_local [OF inv, where t = t and i = i and q' = q]) (use pc d(1) in \<open>auto simp: bl_view_defs t(2) split: if_splits\<close>)
qed

lemma abort_ok:
  assumes inv: "bl_inv (q, ts)" and pc: "ts i = Running (BAbort r)" and tick: "bl_tick i ch q (BAbort r) = (q', t)"
  shows "bl_inv (q', ts(i := t))"
proof -
  note d = bl_invD [OF inv, simplified]
  have t: "q' = q\<lparr>bl_cxs := (bl_cxs q)(i := snd (cx_try_select Aborted (bl_cxs q i)))\<rparr>" "t = Running (BWait r)"
    using tick by auto
  show ?thesis unfolding t(1)
    by (rule bl_inv_local [OF inv, where t = t and i = i and q' = q'])
      (use pc d(1) in \<open>auto simp: bl_view_defs t cx_try_select_def split: if_splits\<close>)
qed

lemma wait_ok:
  assumes inv: "bl_inv (q, ts)" and pc: "ts i = Running (BWait r)" and tick: "bl_tick i ch q (BWait r) = (q', t)"
  shows "bl_inv (q', ts(i := t))"
proof -
  note d = bl_invD [OF inv, simplified]
  show ?thesis
  proof (cases "cx_select (bl_cxs q i)")
    case Waiting
    show ?thesis
    proof (cases "deadline_of r \<noteq> None \<and> ch")
      case True
      then have t: "q' = q\<lparr>bl_cxs := (bl_cxs q)(i := (bl_cxs q i)\<lparr>cx_select := Aborted\<rparr>)\<rparr>" "t = Running (BUnregister r)"
        using tick Waiting by (auto simp: cx_wait_until_def cx_try_select_def)
      show ?thesis unfolding t(1)
        by (rule bl_inv_local [OF inv, where t = t and i = i and q' = q'])
          (use pc d(1) Waiting in \<open>auto simp: bl_view_defs t\<close>)
    next
      case False
      then have "q' = q" "t = ts i" using tick Waiting pc by (auto simp: cx_wait_until_def fun_upd_idem)
      then show ?thesis using inv by simp
    qed
  next
    case (Operation p)
    then have t: "q' = q" "t = Running (BTry r)" using tick by (auto simp: cx_wait_until_def fun_upd_idem)
    show ?thesis unfolding t(1)
      by (rule bl_inv_local [OF inv, where t = t and i = i and q' = q]) (use pc d(1) Operation in \<open>auto simp: bl_view_defs t\<close>)
  next
    case Aborted
    then have t: "q' = q" "t = Running (BUnregister r)" using tick by (auto simp: cx_wait_until_def fun_upd_idem)
    show ?thesis unfolding t(1)
      by (rule bl_inv_local [OF inv, where t = t and i = i and q' = q]) (use pc d(1) Aborted in \<open>auto simp: bl_view_defs t\<close>)
  next
    case Disconnected
    then have t: "q' = q" "t = Running (BUnregister r)" using tick by (auto simp: cx_wait_until_def fun_upd_idem)
    show ?thesis unfolding t(1)
      by (rule bl_inv_local [OF inv, where t = t and i = i and q' = q]) (use pc d(1) Disconnected in \<open>auto simp: bl_view_defs t\<close>)
  qed
qed

text \<open>The two steps of a thread on the waker of its own side.\<close>

lemma bl_at_waker_simps [simp]:
  "bl_msgs (bl_at_waker s f q) = bl_msgs q" "bl_cap (bl_at_waker s f q) = bl_cap q" "bl_disc (bl_at_waker s f q) = bl_disc q"
  "bl_gone (bl_at_waker s f q) = bl_gone q" "bl_supply s' (bl_at_waker s f q) = bl_supply s' q"
  "bl_cxs (bl_at_waker s f q) = snd (f (bl_wakers q s) (bl_cxs q))"
  "bl_wakers (bl_at_waker s f q) = (bl_wakers q)(s := fst (f (bl_wakers q s) (bl_cxs q)))"
  by (auto simp: bl_at_waker_def bl_supply_def split: prod.split side.split)

lemma register_ok:
  assumes inv: "bl_inv (q, ts)" and pc: "ts i = Running (BRegister r)" and tick: "bl_tick i ch q (BRegister r) = (q', t)"
  shows "bl_inv (q', ts(i := t))"
proof -
  note d = bl_invD [OF inv, simplified]
  let ?s = "side_of r"
  have t: "q' = bl_at_waker ?s (\<lambda>w cxs. (sw_register (hook i) i w, cxs(i := cx_reset (cxs i)))) q" "t = Running (BLook r)"
    using tick by simp_all
  have out: "\<not> queued (sw_inner (bl_wakers q s)) i" for s using d(5) [of s] pc by (simp add: waker_view_def enlisted_def)
  have wv: "waker_view s (q', ts(i := t))" for s
  proof (cases "s = ?s")
    case True
    have inner: "sw_inner (bl_wakers q' s) = register_with_packet (hook i) 0 i (sw_inner (bl_wakers q s))"
      by (simp add: t True sw_register_def sw_store_def waker_register_def)
    have "queued (sw_inner (bl_wakers q' s)) j \<longleftrightarrow> enlisted s (bl_view (q', ts(i := t)) j)" for j
      unfolding inner using d(5) [of s] True by (simp add: register_queued waker_view_def enlisted_def t cx_reset_def)
    moreover have "entries_ok (\<lambda>_. 0) (sw_inner (bl_wakers q' s))"
      unfolding inner using d(5) [of s] out [of s] by (intro register_queued(2)) (simp_all add: waker_view_def)
    moreover have "sw_ok (bl_wakers q' s)" using True by (simp add: t sw_ok_operations)
    ultimately show ?thesis by (simp add: waker_view_def)
  next
    case False
    then show ?thesis using pc
      by (intro waker_view_same [OF d(5), where i = i]) (auto simp: t enlisted_def)
  qed
  show ?thesis
    by (rule bl_inv_upd [OF inv, where t = t and i = i]) (use pc d(1) wv in \<open>auto simp: bl_view_defs t cx_reset_def\<close>)
qed

lemma unregister_ok:
  assumes inv: "bl_inv (q, ts)" and pc: "ts i = Running (BUnregister r)" and tick: "bl_tick i ch q (BUnregister r) = (q', t)"
  shows "bl_inv (q', ts(i := t))"
proof -
  note d = bl_invD [OF inv, simplified]
  let ?s = "side_of r" and ?w = "sw_inner (bl_wakers q (side_of r))"
  have ok: "entries_ok (\<lambda>_. 0) ?w" using d(5) [of ?s] by (simp add: waker_view_def)
  have sel: "\<not> is_operation (cx_select (bl_cxs q i))" "cx_select (bl_cxs q i) \<noteq> Waiting"
    using d(4) [of i] pc by (auto simp: view_ok_def)
  then have "queued ?w i" using d(5) [of ?s] pc by (simp add: waker_view_def enlisted_def)
  then obtain e w' where un: "waker_unregister (hook i) ?w = (Some e, w')" "entries_ok (\<lambda>_. 0) w'"
    "\<And>j. queued w' j \<longleftrightarrow> queued ?w j \<and> j \<noteq> i" by (rule unregister_queued [OF ok]) blast
  have t: "q' = bl_at_waker ?s (\<lambda>w cxs. (snd (sw_unregister (hook i) w), cxs)) q" "t = Running (BTry r)"
    using tick un(1) by (simp_all add: sw_unregister_def)
  have wv: "waker_view s (q', ts(i := t))" for s
  proof (cases "s = ?s")
    case True
    then have inner: "sw_inner (bl_wakers q' s) = w'" by (simp add: t sw_unregister_def un(1) sw_store_def)
    have "sw_ok (bl_wakers q' s)" using True by (simp add: t sw_ok_operations)
    then show ?thesis unfolding waker_view_def fst_conv inner using un(2,3) d(5) [of s] True
      by (simp add: waker_view_def enlisted_def t)
  next
    case False
    then show ?thesis using pc by (intro waker_view_same [OF d(5), where i = i]) (auto simp: t enlisted_def)
  qed
  show ?thesis
    by (rule bl_inv_upd [OF inv, where t = t and i = i]) (use pc d(1) wv sel in \<open>auto simp: bl_view_defs t\<close>)
qed

text \<open>
  Notifying: the helper that leaves is replaced by the thread it selects, and when it can select no thread, none is
  parked.
\<close>

lemma registered_one: "registered s t \<Longrightarrow> registered s' t \<longleftrightarrow> s' = s" "registered s t \<Longrightarrow> \<not> active s' t"
  by (cases "(s, t)" rule: registered.cases; auto)+

lemma looked_registered: "looked s t \<Longrightarrow> registered s t"
  by (cases "(s, t)" rule: looked.cases) auto

lemma waits_looked: "waits s t \<Longrightarrow> looked s t"
  by (cases "(s, t)" rule: waits.cases) auto

lemma sw_store_same: "sw_ok w \<Longrightarrow> sw_store (sw_inner w) w = w"
  by (cases w) (simp add: sw_store_def sw_ok_def)

lemma card_swap: "finite A \<Longrightarrow> i \<in> A \<Longrightarrow> k \<notin> A \<Longrightarrow> card (insert k (A - {i})) = card A"
  using card_Suc_Diff1 [of A i] by simp

lemma leave_ok:
  assumes inv: "bl_inv (q, ts)" and pc: "ts i = Running (BNotify s ret)"
    and none: "\<And>j. \<not> parked s (ts j, cx_select (bl_cxs q j))"
  shows "bl_inv (q, ts(i := Done ret))"
proof -
  have "\<not> parked s (if j = i then Done ret else ts j, cx_select (bl_cxs q j))" for j
    using none [of j] by (auto simp: parked_def)
  then show ?thesis
    by (intro bl_inv_local [OF inv, where t = "Done ret" and i = i and q' = q])
      (use pc bl_invD(1) [OF inv] in \<open>auto simp: bl_view_defs\<close>)
qed

lemma notify_selected_ok:
  assumes inv: "bl_inv (q, ts)" and pc: "ts i = Running (BNotify s ret)"
    and sel: "waker_try_select i (sw_inner (bl_wakers q s)) (bl_cxs q) = (Some e, w', cxs')"
    and q': "bl_wakers q' = (bl_wakers q)(s := sw_store w' (bl_wakers q s))" "bl_cxs q' = cxs'" "bl_disc q' = bl_disc q"
      "bl_gone q' = bl_gone q" "bl_msgs q' = bl_msgs q" "bl_cap q' = bl_cap q"
  shows "bl_inv (q', ts(i := Done ret))"
proof -
  note d = bl_invD [OF inv, simplified]
  let ?w = "sw_inner (bl_wakers q s)" and ?k = "e_cx e" and ?y = "(q', ts(i := Done ret))"
  have wv: "entries_ok (\<lambda>_. 0) ?w" "\<And>j. queued ?w j \<longleftrightarrow> enlisted s (ts j, cx_select (bl_cxs q j))"
    using d(5) [of s] by (simp_all add: waker_view_def)
  note e = try_select_Some [OF wv(1) sel]
  have k: "registered s (ts ?k)" "?k \<noteq> i" using e(1,3) wv(2) by (auto simp: enlisted_def)
  note one = registered_one [OF k(1)]
  have view: "bl_view ?y j = (if j = i then (Done ret, cx_select (bl_cxs q i)) else if j = ?k then (ts ?k, Operation (e_oper e))
      else (ts j, cx_select (bl_cxs q j)))" for j
    using e(7) [of j] k(2) by (auto simp: q')
  have sup: "bl_supply s' q' = bl_supply s' q" for s' using q' by (simp add: bl_supply_def split: side.split)
  have parked: "parked s' (bl_view ?y j) \<Longrightarrow> parked s' (bl_view (q, ts) j)" for s' j
    unfolding view by (auto simp: parked_def split: if_splits)
  have card: "card {j. helps s' (bl_view ?y j)} = card {j. helps s' (bl_view (q, ts) j)}" for s'
  proof (cases "s' = s")
    case True
    have "{j. helps s' (bl_view ?y j)} = insert ?k ({j. helps s' (bl_view (q, ts) j)} - {i})"
      unfolding view using k True by (auto simp: helps_def split: if_splits)
    moreover have "?k \<notin> {j. helps s' (bl_view (q, ts) j)}" using k e(2) True by (simp add: helps_def one)
    moreover have "i \<in> {j. helps s' (bl_view (q, ts) j)}" using pc True by (simp add: helps_def)
    ultimately show ?thesis using card_swap [OF helpers_finite [OF bl_invD(2) [OF inv]]] by simp
  next
    case False
    have "helps s' (bl_view ?y j) \<longleftrightarrow> helps s' (bl_view (q, ts) j)" for j
      unfolding view using False k pc by (auto simp: helps_def one)
    then show ?thesis by simp
  qed
  show ?thesis
  proof (rule bl_inv_intro [OF inv, where i = i and t = "Done ret"])
    show "handles_ok ?y" by (rule handles_upd [OF d(3), where i = i and t = "Done ret"]) (use q' in simp_all)
    show "awaited s' ?y" for s'
      by (rule awaited_upd [OF d(7), where i = i and t = "Done ret"]) (use q' pc e(2,7) in auto)
    show "covered s' ?y" for s' using d(6) [of s'] parked [of s'] q'(3) card [of s'] sup by (auto simp: covered_def simp del: bl_view_simps)
    show "waker_view s' ?y" for s'
    proof (cases "s' = s")
      case True
      have "enlisted s (bl_view ?y j) \<longleftrightarrow> queued ?w j \<and> j \<noteq> ?k" for j
        unfolding view wv(2) using pc by (auto simp: enlisted_def)
      then show ?thesis using True e(5,6) by (simp add: waker_view_def q' sw_ok_def sw_store_def del: bl_view_simps)
    next
      case False
      have "enlisted s' (bl_view ?y j) \<longleftrightarrow> enlisted s' (bl_view (q, ts) j)" for j
        unfolding view using False k pc by (auto simp: enlisted_def one)
      then show ?thesis using False d(5) [of s'] by (simp add: waker_view_def q' del: bl_view_simps)
    qed
  qed (use d(1) q' e(2,7) in \<open>auto simp: view_ok_def\<close>)
qed

lemma notify_ok:
  assumes inv: "bl_inv (q, ts)" and pc: "ts i = Running (BNotify s ret)" and tick: "bl_tick i ch q (BNotify s ret) = (q', t)"
  shows "bl_inv (q', ts(i := t))"
proof -
  note d = bl_invD [OF inv, simplified]
  let ?w = "sw_inner (bl_wakers q s)"
  have wv: "entries_ok (\<lambda>_. 0) ?w" "sw_ok (bl_wakers q s)" using d(5) [of s] by (simp_all add: waker_view_def)
  have t: "q' = bl_at_waker s (sw_notify i) q" "t = Done ret" using tick by auto
  show ?thesis
  proof (cases "sw_is_empty (bl_wakers q s)")
    case True
    then have "q' = q" by (simp add: t bl_at_waker_def sw_notify_def)
    then show ?thesis using leave_ok [OF inv pc empty_no_parked [OF inv True]] t by simp
  next
    case False
    obtain me w' cxs' where sel: "waker_try_select i ?w (bl_cxs q) = (me, w', cxs')" by (cases "waker_try_select i ?w (bl_cxs q)")
    show ?thesis
    proof (cases me)
      case None
      note n = try_select_None [OF sel [unfolded None]]
      have "q' = q" using False n(1,2) sel notify_none [OF wv(1)]
        by (simp add: t bl_at_waker_def sw_notify_def sw_store_same [OF wv(2)])
      moreover have "\<not> parked s (ts j, cx_select (bl_cxs q j))" for j
        using parked_queued [OF d(5), of s j] n(3) [of j] pc by (cases "j = i") (auto simp: parked_def)
      ultimately show ?thesis using leave_ok [OF inv pc] t by simp
    next
      case (Some e)
      note n = try_select_Some [OF wv(1) sel [unfolded Some]]
      show ?thesis unfolding t(2)
        by (rule notify_selected_ok [OF inv pc sel [unfolded Some]])
          (use False sel notify_none [OF n(5)] in \<open>simp_all add: t sw_notify_def\<close>)
    qed
  qed
qed

text \<open>The last handle of a side goes, and the threads of the other side are woken.\<close>

lemma mark_ok:
  assumes inv: "bl_inv (q, ts)" and pc: "ts i = Running (BMark s)" and tick: "bl_tick i ch q (BMark s) = (q', t)"
  shows "bl_inv (q', ts(i := t))"
proof -
  note d = bl_invD [OF inv, simplified]
  let ?y = "(q', ts(i := t))"
  have t: "q' = q\<lparr>bl_disc := True, bl_gone := (bl_gone q)(s := True)\<rparr>"
    "t = (if bl_disc q then Done (BDisconnected False) else Running (BWakeAll (opposite s)))" using tick by auto
  have alone: "bl_side (ts j) \<noteq> Some s" if "j \<noteq> i" for j using d(3) pc that by (auto simp: handles_ok_def)
  have side: "bl_side t = None" by (simp add: t)
  show ?thesis
  proof (rule bl_inv_intro [OF inv, where i = i and t = t])
    show "handles_ok ?y" using d(3) alone side by (auto simp: handles_ok_def t(1))
    show "awaited s' ?y" for s'
    proof (cases "bl_disc q")
      case True
      have "q' = q\<lparr>bl_gone := (bl_gone q)(s := True)\<rparr>" using True by (simp add: t(1))
      then show ?thesis
        by (intro awaited_upd [OF d(7), where i = i and t = t]) (use pc True in \<open>auto simp: t(2)\<close>)
    next
      case False
      have "\<not> waits s (ts j)" for j
        using alone [of j] pc by (cases "j = i"; cases "(s, ts j)" rule: waits.cases) auto
      then show ?thesis using side_cases [of s' s] False by (auto simp: awaited_def t split: if_splits)
    qed
    show "waker_view s' ?y" for s'
      by (rule waker_view_same [OF d(5), where i = i]) (use pc in \<open>auto simp: t enlisted_def\<close>)
  qed (use d(1) in \<open>auto simp: t view_ok_def covered_def\<close>)
qed

lemma wake_all_ok:
  assumes inv: "bl_inv (q, ts)" and pc: "ts i = Running (BWakeAll s)" and tick: "bl_tick i ch q (BWakeAll s) = (q', t)"
  shows "bl_inv (q', ts(i := t))"
proof -
  note d = bl_invD [OF inv, simplified]
  let ?y = "(q', ts(i := t))" and ?w = "sw_inner (bl_wakers q s)"
  have wv: "entries_ok (\<lambda>_. 0) ?w" "sw_ok (bl_wakers q s)" "\<And>j. queued ?w j \<longleftrightarrow> enlisted s (ts j, cx_select (bl_cxs q j))"
    using d(5) [of s] by (simp_all add: waker_view_def)
  have t: "q' = bl_at_waker s sw_disconnect q" "t = Done (BDisconnected True)" using tick by auto
  have wakers: "bl_wakers q' = bl_wakers q"
    by (simp add: t sw_disconnect_def disconnect_queued [OF wv(1)] sw_store_same [OF wv(2)])
  have cx: "cx_select (bl_cxs q' j) =
      (if queued ?w j \<and> cx_select (bl_cxs q j) = Waiting then Disconnected else cx_select (bl_cxs q j))" for j
    by (simp add: t sw_disconnect_def disconnect_queued [OF wv(1)] fold_wake queued_def)
  have op: "is_operation (cx_select (bl_cxs q' j)) \<longleftrightarrow> is_operation (cx_select (bl_cxs q j))" for j by (simp add: cx)
  have enlist: "enlisted s' (bl_view ?y j) \<longleftrightarrow> enlisted s' (bl_view (q, ts) j)" for s' j
    using pc by (simp add: enlisted_def op t(2))
  have helps: "helps s' (bl_view ?y j) \<longleftrightarrow> helps s' (bl_view (q, ts) j)" for s' j
    using pc by (simp add: helps_def op t(2))
  have parked: "parked s' (bl_view ?y j) \<Longrightarrow> parked s' (bl_view (q, ts) j)" for s' j
    by (auto simp: parked_def cx t(2) split: if_splits)
  show ?thesis
  proof (rule bl_inv_intro [OF inv, where i = i and t = t])
    show "handles_ok ?y" by (rule handles_upd [OF d(3), where i = i and t = t]) (simp_all add: t)
    show "waker_view s' ?y" for s' using d(5) [of s'] enlist by (simp add: waker_view_def wakers del: bl_view_simps)
    show "covered s' ?y" for s'
      using d(6) [of s'] parked [of s'] helps by (auto simp: covered_def t(1) simp del: bl_view_simps)
    show "awaited s' ?y" for s'
    proof (cases "s' = s")
      case True
      have "\<not> (waits s (ts j) \<and> cx_select (bl_cxs q' j) = Waiting)" for j
        using wv(3) [of j] looked_registered [OF waits_looked, of s "ts j"] by (auto simp: cx enlisted_def)
      then show ?thesis using True by (auto simp: awaited_def t(2))
    next
      case False
      then show ?thesis
        by (intro awaited_upd [OF d(7), where i = i and t = t]) (use pc cx t in \<open>auto split: if_splits\<close>)
    qed
  qed (use d(1) cx t in \<open>auto simp: view_ok_def split: if_splits\<close>)
qed

section \<open>Every reachable state\<close>

lemma bl_init_inv: "bl_inv (bl_new cap, \<lambda>_. Resting)"
  by (simp add: bl_inv_def bl_new_def handles_ok_def view_ok_def waker_view_def covered_def awaited_def parked_def enlisted_def
      sw_ok_operations sync_waker_new_def waker_new_def sw_ok_def waker_is_empty_def entries_ok_def queued_def)

lemma call_ok:
  assumes inv: "bl_inv (q, ts)" and pc: "ts i = Resting" and may: "bl_may q ts oper"
  shows "bl_inv (q, ts(i := Running (bl_start oper)))"
proof -
  note d = bl_invD [OF inv, simplified]
  let ?t = "Running (bl_start oper)" let ?y = "(q, ts(i := ?t))"
  have new: "\<not> registered s ?t" "\<not> looked s ?t" "\<not> waits s ?t" for s by (cases oper; simp)+
  show ?thesis
  proof (rule bl_inv_intro [OF inv, where i = i and t = ?t])
    have "ts j \<noteq> Running (BMark s)" if "oper = BDisconnect s" for s j
    proof
      assume "ts j = Running (BMark s)"
      then have "bl_side (ts j) = Some s" by simp
      then show False using may that by (auto simp: bl_may_def)
    qed
    then show "handles_ok ?y" using d(3) pc may by (cases oper) (auto simp: handles_ok_def bl_may_def)
    show "awaited s ?y" for s by (rule awaited_upd [OF d(7), where i = i and t = ?t]) (use pc new in auto)
    show "waker_view s ?y" for s
      by (rule waker_view_same [OF d(5), where i = i]) (use pc new in \<open>auto simp: enlisted_def\<close>)
    show "covered s ?y" for s
      by (rule covered_upd [OF inv, where i = i]) (use pc new in \<open>auto simp: helps_def parked_def\<close>)
  qed (use d(1) in \<open>cases oper; auto simp: view_ok_def\<close>)+
qed

lemma return_ok:
  assumes inv: "bl_inv (q, ts)" and pc: "ts i = Done ret"
  shows "bl_inv (q, ts(i := Resting))"
  by (rule bl_inv_local [OF inv, where t = Resting and i = i and q' = q])
    (use pc bl_invD(1) [OF inv] in \<open>auto simp: bl_view_defs\<close>)

lemma bl_step_inv: "bl_step x y \<Longrightarrow> bl_inv x \<Longrightarrow> bl_inv y"
proof (induction rule: bl_step.induct)
  case (bl_move ts i pc ch q q' t)
  then show ?case
    by (cases pc) (metis try_ok flag_ok notify_ok deadline_ok register_ok look_ok look_disc_ok abort_ok wait_ok
        unregister_ok mark_ok wake_all_ok bl_tick.simps(13) prod.inject fun_upd_triv)+
qed (simp_all add: call_ok return_ok)

lemma bl_reach_inv: "bl_reach cap x \<Longrightarrow> bl_inv x"
  by (induction rule: bl_reach.induct) (auto intro: bl_init_inv bl_step_inv)

text \<open>Steps of given threads, one after the other.\<close>

fun bl_run :: "(tid \<times> bool) list \<Rightarrow> 'a bl_sys \<Rightarrow> 'a bl_sys" where
  "bl_run [] x = x"
| "bl_run ((i, ch) # es) (q, ts) =
     (case ts i of
        Running pc \<Rightarrow> (case bl_tick i ch q pc of (q', t) \<Rightarrow> bl_run es (q', ts(i := t)))
      | _ \<Rightarrow> bl_run es (q, ts))"

lemma bl_run_reach: "bl_reach cap x \<Longrightarrow> bl_reach cap (bl_run es x)"
proof (induction es arbitrary: x)
  case (Cons e es)
  obtain i ch q ts where e: "e = (i, ch)" "x = (q, ts)" by (cases e, cases x)
  show ?case
  proof (cases "ts i")
    case (Running pc)
    obtain q' t where t: "bl_tick i ch q pc = (q', t)" by fastforce
    have "bl_reach cap (q', ts(i := t))" using Cons.prems bl_more bl_move [of ts i, OF Running t] e by blast
    from Cons.IH [OF this] show ?thesis using Running t e by simp
  qed (use Cons e in simp_all)
qed simp

section \<open>Properties\<close>

text \<open>
  C39: no wake-up of the bounded channel is lost, for any number of senders and receivers, with and without
  deadlines, any interleaving of their blocking calls and of the disconnection, and spurious wake-ups. In every reachable
  state no thread has panicked on a missing entry or an impossible result. If a thread is waiting and
  nobody has selected it yet, then there are at least as many threads that are about to notify its side or to make
  another attempt on it as there are operations of that side ready to be done: messages for a receiver, free slots for
  a sender. So nobody sleeps while its operation is ready and nobody is going to act. If the channel is
  disconnected, a thread is about to wake everybody on that side.
\<close>

theorem blocking_no_lost_wakeup:
  assumes "bl_reach cap (q, ts)"
  shows "ts i \<noteq> Running BPanic \<and>
    (ts i = Running (BWait r) \<and> cx_select (bl_cxs q i) = Waiting \<longrightarrow>
       (if bl_disc q then \<exists>j. ts j = Running (BWakeAll (side_of r))
        else bl_supply (side_of r) q \<le> card {j. helps (side_of r) (ts j, cx_select (bl_cxs q j))}))"
proof -
  note d = bl_invD [OF bl_reach_inv [OF assms], simplified]
  have "if bl_disc q then \<exists>j. ts j = Running (BWakeAll (side_of r))
      else bl_supply (side_of r) q \<le> card {j. helps (side_of r) (ts j, cx_select (bl_cxs q j))}"
    if w: "ts i = Running (BWait r)" "cx_select (bl_cxs q i) = Waiting"
  proof -
    have "\<exists>i. parked (side_of r) (ts i, cx_select (bl_cxs q i))" "\<exists>i. waits (side_of r) (ts i) \<and> cx_select (bl_cxs q i) = Waiting"
      using w by (auto simp: parked_def intro!: exI [of _ i])
    then show ?thesis using d(6,7) [of "side_of r"] by (simp add: covered_def awaited_def)
  qed
  then show ?thesis using d(4) [of i] by (simp add: view_ok_def)
qed

text \<open>
  Thread 0 receives from an empty channel of capacity 1 and goes to sleep; thread 1 has then sent a message and is
  about to look at the waker.
\<close>

theorem blocking_no_lost_wakeup_witness:
  "\<exists>(q :: nat blocking) ts. bl_reach 1 (q, ts) \<and> ts 0 = Running (BWait (Recv_Request False)) \<and>
     cx_select (bl_cxs q 0) = Waiting \<and> \<not> bl_disc q \<and> bl_supply Receiving q = 1 \<and>
     1 \<le> card {j. helps Receiving (ts j, cx_select (bl_cxs q j))}"
proof -
  let ?ts = "(\<lambda>_. Resting)(0 := Running (BTry (Recv_Request False)), 1 := Running (BTry (Send_Request (7 :: nat) False)))"
  let ?es = "[(0, False), (0, False), (0, False), (0, True), (0, False), (1, False)]"
  define x where "x = bl_run ?es (bl_new 1, ?ts)"
  have "bl_step (bl_new 1, \<lambda>_. Resting) (bl_new 1, (\<lambda>_. Resting)(0 := Running (bl_start (BRequest (Recv_Request False) :: nat bl_op))))"
    by (rule bl_call) (simp_all add: bl_may_def bl_new_def)
  moreover have "bl_step (bl_new 1, (\<lambda>_. Resting)(0 := Running (BTry (Recv_Request False))))
      (bl_new 1, (\<lambda>_. Resting)(0 := Running (BTry (Recv_Request False)), 1 := Running (bl_start (BRequest (Send_Request (7 :: nat) False)))))"
    by (rule bl_call) (simp_all add: bl_may_def bl_new_def)
  ultimately have "bl_reach 1 (bl_new 1, ?ts)" using bl_more [OF bl_more [OF bl_init]] by simp
  then have reach: "bl_reach 1 (fst x, snd x)" using bl_run_reach [of 1 _ ?es] by (simp add: x_def del: bl_run.simps)
  have x: "snd x 0 = Running (BWait (Recv_Request False))" "cx_select (bl_cxs (fst x) 0) = Waiting" "\<not> bl_disc (fst x)"
    "bl_supply Receiving (fst x) = 1"
    by (simp_all add: x_def bl_new_def bl_attempt_def bl_supply_def bl_at_waker_def cx_reset_def sw_register_def sw_store_def)
  show ?thesis using blocking_no_lost_wakeup [OF reach, of 0 "Recv_Request False"] x reach
    by (intro exI [of _ "fst x"] exI [of _ "snd x"]) simp
qed

end
