(* ===== verification/Channel_Counter.thy ===== *)
theory Channel_Counter
  imports Atomic_Object
begin

text \<open>
  \<^verbatim>\<open>crossbeam-channel/src/counter.rs\<close>: the reference counter that the handles of a
  channel share. \<open>counter\<close> is the allocation; the handles and the calls in progress are
  kept beside it. A thread that clones a handle adds to the count of its side and then compares the
  previous count with \<^verbatim>\<open>isize::MAX\<close>; a thread that drops one subtracts, and the one that
  saw \<open>1\<close> disconnects the channel, swaps \<^verbatim>\<open>destroy\<close> and frees the allocation when the
  other side had swapped it before. Each of these is a step of its own.

  \<open>ctr_frees\<close>, \<open>ctr_disconnects\<close> and \<open>ctr_swaps\<close> count what has happened, and
  \<open>ctr_invalid\<close> records that the allocation has been touched after it was freed. The channel and
  what \<^verbatim>\<open>disconnect\<close> does to it are parameters of the model. A handle may also be
  forgotten by \<^verbatim>\<open>mem::forget\<close>.
\<close>

datatype side = SenderSide | ReceiverSide

record 'c counter =
  senders :: usize
  receivers :: usize
  destroy :: bool
  chan :: 'c

datatype handle = NoHandle | Reserved side | Owned side | Forgotten side | Released

datatype ctr_call =
    Idle
  | Checking side usize nat
  | Disconnecting side
  | Swapping side
  | Freeing

record 'c channel_refs =
  ctr_mem :: "'c counter"
  ctr_handle :: "nat \<Rightarrow> handle"
  ctr_call :: "tid \<Rightarrow> ctr_call"
  ctr_aborted :: bool
  ctr_invalid :: bool
  ctr_disconnects :: "side \<Rightarrow> nat"
  ctr_swaps :: "side \<Rightarrow> nat"
  ctr_frees :: nat

fun ctr_count :: "side \<Rightarrow> 'c counter \<Rightarrow> usize" where
  "ctr_count SenderSide m = senders m"
| "ctr_count ReceiverSide m = receivers m"

fun ctr_set_count :: "side \<Rightarrow> usize \<Rightarrow> 'c counter \<Rightarrow> 'c counter" where
  "ctr_set_count SenderSide w m = m\<lparr>senders := w\<rparr>"
| "ctr_set_count ReceiverSide w m = m\<lparr>receivers := w\<rparr>"

text \<open>\<^verbatim>\<open>new\<close> returns one sender, handle \<open>0\<close>, and one receiver, handle \<open>1\<close>.\<close>

definition ctr_new :: "'c \<Rightarrow> 'c channel_refs" where
  "ctr_new c = \<lparr>ctr_mem = \<lparr>senders = 1, receivers = 1, destroy = False, chan = c\<rparr>,
     ctr_handle = (\<lambda>_. NoHandle)(0 := Owned SenderSide, 1 := Owned ReceiverSide),
     ctr_call = (\<lambda>_. Idle), ctr_aborted = False, ctr_invalid = False,
     ctr_disconnects = (\<lambda>_. 0), ctr_swaps = (\<lambda>_. 0), ctr_frees = 0\<rparr>"

text \<open>An access to the allocation that a handle or a releasing call points to.\<close>

definition ctr_access :: "('c counter \<Rightarrow> 'c counter) \<Rightarrow> 'c channel_refs \<Rightarrow> 'c channel_refs" where
  "ctr_access f s = s\<lparr>ctr_mem := f (ctr_mem s), ctr_invalid := ctr_invalid s \<or> ctr_frees s > 0\<rparr>"

definition ctr_goto :: "tid \<Rightarrow> ctr_call \<Rightarrow> 'c channel_refs \<Rightarrow> 'c channel_refs" where
  "ctr_goto t c s = s\<lparr>ctr_call := (ctr_call s)(t := c)\<rparr>"

definition ctr_hold :: "nat \<Rightarrow> handle \<Rightarrow> 'c channel_refs \<Rightarrow> 'c channel_refs" where
  "ctr_hold h x s = s\<lparr>ctr_handle := (ctr_handle s)(h := x)\<rparr>"

text \<open>\<^verbatim>\<open>acquire\<close> up to its \<^verbatim>\<open>fetch_add\<close>, called on handle \<open>h\<close> for the new handle \<open>h'\<close>.\<close>

definition ctr_acquire :: "tid \<Rightarrow> nat \<Rightarrow> side \<Rightarrow> nat \<Rightarrow> 'c channel_refs \<Rightarrow> 'c channel_refs" where
  "ctr_acquire t h sd h' s =
     (if ctr_handle s h = Owned sd \<and> ctr_handle s h' = NoHandle then
        let count = ctr_count sd (ctr_mem s) in
        ctr_goto t (Checking sd count h') (ctr_hold h' (Reserved sd)
          (ctr_access (ctr_set_count sd (count + 1)) s))
      else s)"

text \<open>\<^verbatim>\<open>release\<close> up to its \<^verbatim>\<open>fetch_sub\<close>.\<close>

definition ctr_release :: "tid \<Rightarrow> nat \<Rightarrow> side \<Rightarrow> 'c channel_refs \<Rightarrow> 'c channel_refs" where
  "ctr_release t h sd s =
     (if ctr_handle s h = Owned sd then
        let count = ctr_count sd (ctr_mem s);
            s1 = ctr_hold h Released (ctr_access (ctr_set_count sd (count - 1)) s) in
        if count = 1 then ctr_goto t (Disconnecting sd) s1 else s1
      else s)"

text \<open>\<^verbatim>\<open>deref\<close>: the channel is used through a handle.\<close>

definition ctr_deref :: "nat \<Rightarrow> side \<Rightarrow> ('c \<Rightarrow> 'c) \<Rightarrow> 'c channel_refs \<Rightarrow> 'c channel_refs" where
  "ctr_deref h sd f s =
     (if ctr_handle s h = Owned sd then ctr_access (\<lambda>m. m\<lparr>chan := f (chan m)\<rparr>) s else s)"

definition ctr_forget :: "nat \<Rightarrow> side \<Rightarrow> 'c channel_refs \<Rightarrow> 'c channel_refs" where
  "ctr_forget h sd s = (if ctr_handle s h = Owned sd then ctr_hold h (Forgotten sd) s else s)"

text \<open>The next step of a call in progress; \<open>disconnect\<close> is what the flavor passes to \<^verbatim>\<open>release\<close>.\<close>

fun ctr_tick :: "(side \<Rightarrow> 'c \<Rightarrow> 'c) \<Rightarrow> tid \<Rightarrow> ctr_call \<Rightarrow> 'c channel_refs \<Rightarrow> 'c channel_refs" where
  "ctr_tick disconnect t Idle s = s"
| "ctr_tick disconnect t (Checking sd count h') s =
     (if count > 2 ^ 63 - 1 then s\<lparr>ctr_aborted := True\<rparr>
      else ctr_goto t Idle (ctr_hold h' (Owned sd) s))"
| "ctr_tick disconnect t (Disconnecting sd) s =
     ctr_goto t (Swapping sd) ((ctr_access (\<lambda>m. m\<lparr>chan := disconnect sd (chan m)\<rparr>) s)
       \<lparr>ctr_disconnects := (ctr_disconnects s)(sd := ctr_disconnects s sd + 1)\<rparr>)"
| "ctr_tick disconnect t (Swapping sd) s =
     ctr_goto t (if destroy (ctr_mem s) then Freeing else Idle)
       ((ctr_access (\<lambda>m. m\<lparr>destroy := True\<rparr>) s)
         \<lparr>ctr_swaps := (ctr_swaps s)(sd := ctr_swaps s sd + 1)\<rparr>)"
| "ctr_tick disconnect t Freeing s =
     ctr_goto t Idle ((ctr_access (\<lambda>m. m) s)\<lparr>ctr_frees := ctr_frees s + 1\<rparr>)"

datatype 'c ctr_event =
    CtrAcquire tid nat side nat
  | CtrRelease tid nat side
  | CtrDeref nat side "'c \<Rightarrow> 'c"
  | CtrForget nat side
  | CtrTick tid

text \<open>Threads below \<open>n\<close> run; a thread starts a call only when it is not in one.\<close>

definition ctr_free_thread :: "nat \<Rightarrow> tid \<Rightarrow> 'c channel_refs \<Rightarrow> bool" where
  "ctr_free_thread n t s \<longleftrightarrow> t < n \<and> ctr_call s t = Idle"

fun ctr_apply :: "nat \<Rightarrow> (side \<Rightarrow> 'c \<Rightarrow> 'c) \<Rightarrow> 'c ctr_event \<Rightarrow> 'c channel_refs \<Rightarrow> 'c channel_refs" where
  "ctr_apply n disconnect (CtrAcquire t h sd h') s =
     (if ctr_free_thread n t s then ctr_acquire t h sd h' s else s)"
| "ctr_apply n disconnect (CtrRelease t h sd) s =
     (if ctr_free_thread n t s then ctr_release t h sd s else s)"
| "ctr_apply n disconnect (CtrDeref h sd f) s = ctr_deref h sd f s"
| "ctr_apply n disconnect (CtrForget h sd) s = ctr_forget h sd s"
| "ctr_apply n disconnect (CtrTick t) s = ctr_tick disconnect t (ctr_call s t) s"

definition ctr_step :: "nat \<Rightarrow> (side \<Rightarrow> 'c \<Rightarrow> 'c) \<Rightarrow> 'c ctr_event \<Rightarrow> 'c channel_refs \<Rightarrow> 'c channel_refs" where
  "ctr_step n disconnect e s = (if ctr_aborted s then s else ctr_apply n disconnect e s)"

section \<open>References\<close>

text \<open>The references of a side that its count stands for.\<close>

fun refers :: "side \<Rightarrow> handle \<Rightarrow> bool" where
  "refers sd (Reserved d) \<longleftrightarrow> d = sd"
| "refers sd (Owned d) \<longleftrightarrow> d = sd"
| "refers sd (Forgotten d) \<longleftrightarrow> d = sd"
| "refers sd _ \<longleftrightarrow> False"

definition refs :: "'c channel_refs \<Rightarrow> side \<Rightarrow> nat set" where
  "refs s sd = {h. refers sd (ctr_handle s h)}"

text \<open>The threads at a point of a call, and those whose \<^verbatim>\<open>acquire\<close> is about to abort.\<close>

definition threads_at :: "'c channel_refs \<Rightarrow> ctr_call \<Rightarrow> nat" where
  "threads_at s c = card {t. ctr_call s t = c}"

fun too_many :: "side \<Rightarrow> ctr_call \<Rightarrow> bool" where
  "too_many sd (Checking d count h) \<longleftrightarrow> d = sd \<and> count > 2 ^ 63 - 1"
| "too_many sd _ \<longleftrightarrow> False"

definition aborting :: "'c channel_refs \<Rightarrow> side \<Rightarrow> nat" where
  "aborting s sd = card {t. too_many sd (ctr_call s t)}"

definition ctr_counts :: "'c channel_refs \<Rightarrow> side \<Rightarrow> bool" where
  "ctr_counts s sd \<longleftrightarrow> finite (refs s sd) \<and> unat (ctr_count sd (ctr_mem s)) = card (refs s sd) \<and>
     card (refs s sd) \<le> 2 ^ 63 + aborting s sd"

text \<open>
  A side is in one of four phases: it has references, its last releaser is to disconnect the
  channel, is to swap the flag, or has swapped it.
\<close>

definition ctr_phase :: "'c channel_refs \<Rightarrow> side \<Rightarrow> bool" where
  "ctr_phase s sd \<longleftrightarrow>
     threads_at s (Disconnecting sd) + threads_at s (Swapping sd) + ctr_swaps s sd = (if refs s sd = {} then 1 else 0) \<and>
     ctr_disconnects s sd = threads_at s (Swapping sd) + ctr_swaps s sd"

definition ctr_last :: "'c channel_refs \<Rightarrow> bool" where
  "ctr_last s \<longleftrightarrow> (destroy (ctr_mem s) \<longleftrightarrow> (\<exists>sd. ctr_swaps s sd = 1)) \<and>
     threads_at s Freeing + ctr_frees s = (if \<forall>sd. ctr_swaps s sd = 1 then 1 else 0)"

definition ctr_threads :: "nat \<Rightarrow> 'c channel_refs \<Rightarrow> bool" where
  "ctr_threads n s \<longleftrightarrow> (\<forall>t. ctr_call s t \<noteq> Idle \<longrightarrow> t < n) \<and>
     (\<forall>t sd count h. ctr_call s t = Checking sd count h \<longrightarrow> ctr_handle s h = Reserved sd \<and>
       (\<forall>u d k. ctr_call s u = Checking d k h \<longrightarrow> u = t))"

definition ctr_inv :: "nat \<Rightarrow> 'c channel_refs \<Rightarrow> bool" where
  "ctr_inv n s \<longleftrightarrow> (\<forall>sd. ctr_counts s sd \<and> ctr_phase s sd) \<and> ctr_last s \<and> ctr_threads n s \<and> \<not> ctr_invalid s"


section \<open>How the counts change\<close>

lemma card_fun_upd:
  assumes "finite {u. P (f u)}"
  shows "finite {u. P ((f(t := c)) u)}"
    "card {u. P ((f(t := c)) u)} + of_bool (P (f t)) = card {u. P (f u)} + of_bool (P c)"
proof -
  have eq: "{u. P ((f(t := c)) u)} = (if P c then insert t {u. P (f u)} else {u. P (f u)} - {t})"
    by auto
  show "finite {u. P ((f(t := c)) u)}" unfolding eq using assms by simp
  have "P (f t) \<Longrightarrow> card {u. P (f u)} > 0" using assms by (auto simp: card_gt_0_iff)
  then show "card {u. P ((f(t := c)) u)} + of_bool (P (f t)) = card {u. P (f u)} + of_bool (P c)"
    unfolding eq using assms by (auto simp: card_insert_if card_Diff_singleton_if)
qed

lemma ctr_frames [simp]:
  "ctr_mem (ctr_access f s) = f (ctr_mem s)" "ctr_handle (ctr_access f s) = ctr_handle s"
  "ctr_call (ctr_access f s) = ctr_call s" "ctr_frees (ctr_access f s) = ctr_frees s"
  "ctr_swaps (ctr_access f s) = ctr_swaps s" "ctr_disconnects (ctr_access f s) = ctr_disconnects s"
  "ctr_invalid (ctr_access f s) \<longleftrightarrow> ctr_invalid s \<or> ctr_frees s > 0"
  "ctr_mem (ctr_goto t c s) = ctr_mem s" "ctr_handle (ctr_goto t c s) = ctr_handle s"
  "ctr_call (ctr_goto t c s) = (ctr_call s)(t := c)" "ctr_frees (ctr_goto t c s) = ctr_frees s"
  "ctr_swaps (ctr_goto t c s) = ctr_swaps s" "ctr_disconnects (ctr_goto t c s) = ctr_disconnects s"
  "ctr_invalid (ctr_goto t c s) = ctr_invalid s"
  "ctr_mem (ctr_hold h x s) = ctr_mem s" "ctr_handle (ctr_hold h x s) = (ctr_handle s)(h := x)"
  "ctr_call (ctr_hold h x s) = ctr_call s" "ctr_frees (ctr_hold h x s) = ctr_frees s"
  "ctr_swaps (ctr_hold h x s) = ctr_swaps s" "ctr_disconnects (ctr_hold h x s) = ctr_disconnects s"
  "ctr_invalid (ctr_hold h x s) = ctr_invalid s"
  by (simp_all add: ctr_access_def ctr_goto_def ctr_hold_def)

lemma ctr_count_set [simp]:
  "ctr_count sd (ctr_set_count d w m) = (if sd = d then w else ctr_count sd m)"
  "destroy (ctr_set_count d w m) = destroy m"
  by (cases sd; cases d; simp)+

lemma ctr_count_frame [simp]:
  "ctr_count sd (m\<lparr>chan := c\<rparr>) = ctr_count sd m" "ctr_count sd (m\<lparr>destroy := b\<rparr>) = ctr_count sd m"
  by (cases sd; simp)+

text \<open>What the invariant reads of a state: references, threads and accesses.\<close>

lemma refs_cong: "ctr_handle s' = ctr_handle s \<Longrightarrow> refs s' sd = refs s sd"
  by (simp add: refs_def)

lemma threads_cong: "ctr_call s' = ctr_call s \<Longrightarrow> threads_at s' c = threads_at s c"
  "ctr_call s' = ctr_call s \<Longrightarrow> aborting s' sd = aborting s sd"
  by (simp_all add: threads_at_def aborting_def)

lemma busy_finite:
  assumes "ctr_threads n s" "\<not> P Idle"
  shows "finite {t. P (ctr_call s t)}"
proof (rule finite_subset)
  show "{t. P (ctr_call s t)} \<subseteq> {..<n}" using assms by (auto simp: ctr_threads_def) metis
qed simp

lemma threads_at_upd:
  assumes "ctr_threads n s" "c \<noteq> Idle" "ctr_call s' = (ctr_call s)(t := d)"
  shows "threads_at s' c + of_bool (ctr_call s t = c) = threads_at s c + of_bool (d = c)"
  using card_fun_upd(2) [where P = "\<lambda>x. x = c" and f = "ctr_call s" and t = t and c = d]
    busy_finite [OF assms(1), of "\<lambda>x. x = c"] assms(2)
  by (simp add: threads_at_def assms(3))

lemma aborting_upd:
  assumes "ctr_threads n s" "ctr_call s' = (ctr_call s)(t := d)"
  shows "aborting s' sd + of_bool (too_many sd (ctr_call s t)) = aborting s sd + of_bool (too_many sd d)"
  using card_fun_upd(2) [where P = "too_many sd" and f = "ctr_call s" and t = t and c = d]
    busy_finite [OF assms(1), of "too_many sd"]
  by (simp add: aborting_def assms(2))

lemma aborting_bound: "ctr_threads n s \<Longrightarrow> aborting s sd \<le> n"
proof -
  assume h: "ctr_threads n s"
  have "{t. too_many sd (ctr_call s t)} \<subseteq> {..<n}"
    using h by (auto simp: ctr_threads_def) (metis too_many.simps(2))
  then have "card {t. too_many sd (ctr_call s t)} \<le> card {..<n}" by (intro card_mono) auto
  then show ?thesis by (simp add: aborting_def)
qed

lemma refs_upd:
  assumes "finite (refs s sd)" "ctr_handle s' = (ctr_handle s)(h := x)"
  shows "finite (refs s' sd)"
    "card (refs s' sd) + of_bool (refers sd (ctr_handle s h)) = card (refs s sd) + of_bool (refers sd x)"
  using card_fun_upd [of "refers sd" "ctr_handle s" h x] assms by (simp_all add: refs_def)


section \<open>The invariant\<close>

lemma all_side: "(\<forall>sd. P sd) \<longleftrightarrow> P SenderSide \<and> P ReceiverSide"
  by (metis side.exhaust)

lemma ex_side: "(\<exists>sd. P sd) \<longleftrightarrow> P SenderSide \<or> P ReceiverSide"
  by (metis side.exhaust)

lemma ctr_invD:
  assumes "ctr_inv n s"
  shows "ctr_counts s sd" "ctr_phase s sd" "ctr_last s" "ctr_threads n s" "\<not> ctr_invalid s"
  using assms by (simp_all add: ctr_inv_def)

lemma owned_refs: "ctr_handle s h = Owned sd \<Longrightarrow> h \<in> refs s sd"
  by (simp add: refs_def)

text \<open>While a side has not swapped the flag, nothing is freed or about to be.\<close>

lemma not_swapped:
  assumes "ctr_inv n s" "ctr_swaps s sd = 0"
  shows "ctr_frees s = 0" "threads_at s Freeing = 0"
proof -
  have "\<not> (\<forall>d. ctr_swaps s d = 1)" using assms(2) by (metis zero_neq_one)
  then have "threads_at s Freeing + ctr_frees s = 0"
    using ctr_invD(3) [OF assms(1)] unfolding ctr_last_def by meson
  then show "ctr_frees s = 0" "threads_at s Freeing = 0" by simp_all
qed

lemma referenced:
  assumes "ctr_inv n s" "refs s sd \<noteq> {}"
  shows "threads_at s (Disconnecting sd) = 0" "threads_at s (Swapping sd) = 0"
    "ctr_swaps s sd = 0" "ctr_disconnects s sd = 0"
  using ctr_invD(2) [OF assms(1), of sd] assms(2) by (simp_all add: ctr_phase_def)

lemma thread_counted:
  assumes "ctr_threads n s" "ctr_call s t = c" "c \<noteq> Idle"
  shows "threads_at s c > 0"
  using busy_finite [OF assms(1), of "\<lambda>x. x = c"] assms(2,3) by (auto simp: threads_at_def card_gt_0_iff)

lemma disconnecting_phase:
  assumes "ctr_inv n s" "ctr_call s t = Disconnecting sd"
  shows "refs s sd = {}" "threads_at s (Disconnecting sd) = 1" "threads_at s (Swapping sd) = 0"
    "ctr_swaps s sd = 0" "ctr_disconnects s sd = 0"
proof -
  have "threads_at s (Disconnecting sd) > 0" "ctr_phase s sd"
    using thread_counted [OF _ assms(2)] assms(1) by (auto simp: ctr_inv_def)
  then show "refs s sd = {}" "threads_at s (Disconnecting sd) = 1" "threads_at s (Swapping sd) = 0"
    "ctr_swaps s sd = 0" "ctr_disconnects s sd = 0"
    by (auto simp: ctr_phase_def split: if_splits)
qed

lemma swapping_phase:
  assumes "ctr_inv n s" "ctr_call s t = Swapping sd"
  shows "refs s sd = {}" "threads_at s (Disconnecting sd) = 0" "threads_at s (Swapping sd) = 1"
    "ctr_swaps s sd = 0" "ctr_disconnects s sd = 1"
proof -
  have "threads_at s (Swapping sd) > 0" "ctr_phase s sd"
    using thread_counted [OF _ assms(2)] assms(1) by (auto simp: ctr_inv_def)
  then show "refs s sd = {}" "threads_at s (Disconnecting sd) = 0" "threads_at s (Swapping sd) = 1"
    "ctr_swaps s sd = 0" "ctr_disconnects s sd = 1"
    by (auto simp: ctr_phase_def split: if_splits)
qed

lemma unat_Suc_count:
  assumes "ctr_counts s sd" "ctr_threads n s" "n < 2 ^ 63 - 1"
  shows "unat (ctr_count sd (ctr_mem s) + 1) = Suc (card (refs s sd))"
proof -
  have "card (refs s sd) < 2 ^ 64 - 1"
    using assms(1,3) aborting_bound [OF assms(2), of sd] by (simp add: ctr_counts_def)
  then show ?thesis using assms(1) by (simp add: ctr_counts_def unat_word_ariths)
qed

lemma ctr_inv_acquire:
  assumes inv: "ctr_inv n s" and n: "n < 2 ^ 63 - 1" and t: "ctr_free_thread n t s"
  shows "ctr_inv n (ctr_acquire t h sd h' s)"
proof (cases "ctr_handle s h = Owned sd \<and> ctr_handle s h' = NoHandle")
  case True
  define s' where "s' = ctr_acquire t h sd h' s"
  define k where "k = ctr_count sd (ctr_mem s)"
  have s': "ctr_handle s' = (ctr_handle s)(h' := Reserved sd)" "ctr_call s' = (ctr_call s)(t := Checking sd k h')"
    "ctr_mem s' = ctr_set_count sd (k + 1) (ctr_mem s)" "ctr_swaps s' = ctr_swaps s"
    "ctr_disconnects s' = ctr_disconnects s" "ctr_frees s' = ctr_frees s"
    "ctr_invalid s' \<longleftrightarrow> ctr_invalid s \<or> ctr_frees s > 0"
    using True by (simp_all add: s'_def ctr_acquire_def Let_def k_def)
  have th: "ctr_threads n s" and cn: "ctr_counts s d" and ph: "ctr_phase s d" for d
    using inv by (simp_all add: ctr_inv_def)
  have fin: "finite (refs s d)" for d using cn by (simp add: ctr_counts_def)
  have ne: "refs s sd \<noteq> {}" using True owned_refs by fastforce
  have idle: "ctr_call s t = Idle" using t by (simp add: ctr_free_thread_def)
  have at: "threads_at s' c = threads_at s c" if "c \<noteq> Idle" "\<And>d w x. c \<noteq> Checking d w x" for c
    using threads_at_upd [OF th that(1) s'(2)] that(1) that(2) [of sd k h'] idle by auto
  have rf: "card (refs s' d) = card (refs s d) + of_bool (d = sd)" "finite (refs s' d)" for d
    using refs_upd [OF fin s'(1), of d] True by auto
  have "ctr_counts s' d" for d
  proof -
    have "card (refs s d) \<le> 2 ^ 63 - 1" if "d = sd" "\<not> k > 2 ^ 63 - 1"
      using that cn [of sd] by (simp add: k_def ctr_counts_def word_less_nat_alt)
    then show ?thesis
      using aborting_upd [OF th s'(2), of d] idle rf [of d] cn [of d] unat_Suc_count [OF cn th n, of sd]
      by (auto simp: ctr_counts_def s'(3) k_def)
  qed
  moreover have "ctr_phase s' d" for d
  proof -
    have "h' \<in> refs s' sd" by (simp add: refs_def s')
    moreover have "refs s' d = refs s d" if "d \<noteq> sd" using that True by (auto simp: refs_def s')
    ultimately have "refs s' d = {} \<longleftrightarrow> refs s d = {}" using ne by (cases "d = sd") auto
    then show ?thesis using ph [of d] by (simp add: ctr_phase_def s' at)
  qed
  moreover have "ctr_last s'" "ctr_threads n s'" "\<not> ctr_invalid s'"
    using inv t True not_swapped [OF inv, of sd] referenced [OF inv ne]
    by (auto simp: ctr_inv_def ctr_last_def ctr_threads_def ctr_free_thread_def s' at)
  ultimately show ?thesis by (simp add: ctr_inv_def s'_def)
qed (use inv in \<open>auto simp: ctr_acquire_def\<close>)


lemma ctr_inv_release:
  assumes inv: "ctr_inv n s" and t: "ctr_free_thread n t s"
  shows "ctr_inv n (ctr_release t h sd s)"
proof (cases "ctr_handle s h = Owned sd")
  case True
  define s' where "s' = ctr_release t h sd s"
  define k where "k = ctr_count sd (ctr_mem s)"
  define c where "c = (if k = 1 then Disconnecting sd else Idle)"
  have idle: "ctr_call s t = Idle" "t < n" using t by (simp_all add: ctr_free_thread_def)
  have s': "ctr_handle s' = (ctr_handle s)(h := Released)" "ctr_call s' = (ctr_call s)(t := c)"
    "ctr_mem s' = ctr_set_count sd (k - 1) (ctr_mem s)" "ctr_swaps s' = ctr_swaps s"
    "ctr_disconnects s' = ctr_disconnects s" "ctr_frees s' = ctr_frees s"
    "ctr_invalid s' \<longleftrightarrow> ctr_invalid s \<or> ctr_frees s > 0"
    using True idle(1) by (auto simp: s'_def ctr_release_def Let_def k_def c_def)
  note th = ctr_invD(4) [OF inv] and cn = ctr_invD(1) [OF inv] and ph = ctr_invD(2) [OF inv]
  have fin: "finite (refs s d)" for d using cn by (simp add: ctr_counts_def)
  have ne: "refs s sd \<noteq> {}" using True owned_refs by fastforce
  note live = referenced [OF inv ne] not_swapped [OF inv referenced(3) [OF inv ne]]
  have at: "threads_at s' x = threads_at s x + of_bool (c = x)" if "x \<noteq> Idle" for x
    using threads_at_upd [OF th that s'(2)] that idle by simp
  have rf: "card (refs s' d) + of_bool (d = sd) = card (refs s d)" "finite (refs s' d)" for d
    using refs_upd [OF fin s'(1), of d] True by auto
  have u: "unat k = card (refs s sd)" using cn [of sd] by (simp add: ctr_counts_def k_def)
  have "k \<noteq> 0" using u ne fin [of sd] by auto
  then have u1: "unat (k - 1) = card (refs s' sd)" using u rf [of sd] by (simp add: unat_minus_one)
  have "card (refs s' sd) + 1 = card (refs s sd)" using rf(1) [of sd] by simp
  moreover have "k = 1 \<longleftrightarrow> unat k = 1" by (metis unat_1 unsigned_word_eqI)
  ultimately have k1: "k = 1 \<longleftrightarrow> card (refs s' sd) = 0" unfolding u by linarith
  have "ctr_counts s' d" for d
    using aborting_upd [OF th s'(2), of d] idle rf [of d] cn [of d] u1
    by (auto simp: ctr_counts_def s'(3) c_def)
  moreover have "ctr_phase s' d" for d
  proof (cases "d = sd")
    case True
    have "refs s' sd = {} \<longleftrightarrow> k = 1" using k1 rf(2) [of sd] by simp
    then show ?thesis using live True by (simp add: ctr_phase_def s' at c_def)
  next
    case False
    have "refs s' d = refs s d" using False True by (auto simp: refs_def s')
    then show ?thesis using ph [of d] False by (simp add: ctr_phase_def s' at c_def split: if_splits)
  qed
  moreover have "ctr_last s'" "ctr_threads n s'" "\<not> ctr_invalid s'"
    using ctr_invD [OF inv] True live idle
    by (auto simp: ctr_last_def ctr_threads_def s' at c_def)
  ultimately show ?thesis by (simp add: ctr_inv_def s'_def)
qed (use inv in \<open>simp add: ctr_release_def\<close>)

lemma ctr_inv_deref:
  assumes "ctr_inv n s"
  shows "ctr_inv n (ctr_deref h sd f s)"
proof (cases "ctr_handle s h = Owned sd")
  case True
  then have "refs s sd \<noteq> {}" using owned_refs by fastforce
  note live = not_swapped [OF assms referenced(3) [OF assms this]]
  show ?thesis
    using assms live True
    by (simp add: ctr_deref_def ctr_inv_def ctr_counts_def ctr_phase_def ctr_last_def ctr_threads_def
        refs_def threads_at_def aborting_def)
qed (use assms in \<open>simp add: ctr_deref_def\<close>)

lemma refs_hold:
  assumes "\<And>sd. refers sd x \<longleftrightarrow> refers sd (ctr_handle s h)" "ctr_handle s' = (ctr_handle s)(h := x)"
  shows "refs s' sd = refs s sd"
  using assms by (auto simp: refs_def)

lemma ctr_inv_forget:
  assumes "ctr_inv n s"
  shows "ctr_inv n (ctr_forget h sd s)"
proof (cases "ctr_handle s h = Owned sd")
  case True
  then have "refs (ctr_hold h (Forgotten sd) s) d = refs s d" for d by (intro refs_hold) auto
  with assms True show ?thesis
    by (auto simp: ctr_forget_def ctr_inv_def ctr_counts_def ctr_phase_def ctr_last_def ctr_threads_def
        threads_at_def aborting_def)
qed (use assms in \<open>simp add: ctr_forget_def\<close>)


lemma ctr_inv_check:
  assumes inv: "ctr_inv n s" and t: "ctr_call s t = Checking sd k h" and k: "\<not> k > 2 ^ 63 - 1"
  shows "ctr_inv n (ctr_goto t Idle (ctr_hold h (Owned sd) s))"
proof -
  define s' where "s' = ctr_goto t Idle (ctr_hold h (Owned sd) s)"
  have s': "ctr_handle s' = (ctr_handle s)(h := Owned sd)" "ctr_call s' = (ctr_call s)(t := Idle)"
    "ctr_mem s' = ctr_mem s" "ctr_swaps s' = ctr_swaps s" "ctr_disconnects s' = ctr_disconnects s"
    "ctr_frees s' = ctr_frees s" "ctr_invalid s' = ctr_invalid s"
    by (simp_all add: s'_def)
  note th = ctr_invD(4) [OF inv]
  have "ctr_handle s h = Reserved sd" using th t by (simp add: ctr_threads_def)
  then have rf: "refs s' d = refs s d" for d by (intro refs_hold [OF _ s'(1)]) simp
  have at: "threads_at s' c = threads_at s c" if "c \<noteq> Idle" "\<And>d w x. c \<noteq> Checking d w x" for c
    using threads_at_upd [OF th that(1) s'(2)] that(1) that(2) [of sd k h] t by auto
  have ab: "aborting s' d = aborting s d" for d using aborting_upd [OF th s'(2), of d] t k by simp
  have "ctr_counts s' d \<longleftrightarrow> ctr_counts s d" "ctr_phase s' d \<longleftrightarrow> ctr_phase s d" "ctr_last s' \<longleftrightarrow> ctr_last s" for d
    by (simp_all add: ctr_counts_def ctr_phase_def ctr_last_def rf ab at s'(3-))
  moreover have "ctr_threads n s'" using th t by (auto simp: ctr_threads_def s')
  ultimately show ?thesis using inv by (simp add: ctr_inv_def s'(7) flip: s'_def)
qed

text \<open>The steps of the last releaser of a side leave the references as they are.\<close>

lemma ctr_counts_tick:
  assumes "ctr_inv n s" "ctr_call s t = c" "\<And>d. \<not> too_many d c" "\<And>d. \<not> too_many d c'"
    and "ctr_handle s' = ctr_handle s" "ctr_call s' = (ctr_call s)(t := c')"
    and "\<And>d. ctr_count d (ctr_mem s') = ctr_count d (ctr_mem s)"
  shows "ctr_counts s' sd"
  using aborting_upd [OF ctr_invD(4) [OF assms(1)] assms(6), of sd] ctr_invD(1) [OF assms(1), of sd] assms(2-7)
  by (simp add: ctr_counts_def refs_def)

lemma ctr_threads_tick:
  assumes "ctr_inv n s" "ctr_call s t \<noteq> Idle" "\<And>d w x. c' \<noteq> Checking d w x"
    and "ctr_handle s' = ctr_handle s" "ctr_call s' = (ctr_call s)(t := c')"
  shows "ctr_threads n s'"
  using ctr_invD(4) [OF assms(1)] assms(2-5) by (auto simp: ctr_threads_def)

lemma ctr_inv_disconnect:
  assumes inv: "ctr_inv n s" and t: "ctr_call s t = Disconnecting sd"
  shows "ctr_inv n (ctr_tick disconnect t (Disconnecting sd) s)"
proof -
  define s' where "s' = ctr_tick disconnect t (Disconnecting sd) s"
  have s': "ctr_handle s' = ctr_handle s" "ctr_call s' = (ctr_call s)(t := Swapping sd)"
    "ctr_mem s' = (ctr_mem s)\<lparr>chan := disconnect sd (chan (ctr_mem s))\<rparr>" "ctr_swaps s' = ctr_swaps s"
    "ctr_disconnects s' = (ctr_disconnects s)(sd := ctr_disconnects s sd + 1)" "ctr_frees s' = ctr_frees s"
    "ctr_invalid s' \<longleftrightarrow> ctr_invalid s \<or> ctr_frees s > 0"
    by (simp_all add: s'_def)
  note here = disconnecting_phase [OF inv t] and free = not_swapped [OF inv disconnecting_phase(4) [OF inv t]]
  have at: "threads_at s' x + of_bool (x = Disconnecting sd) = threads_at s x + of_bool (x = Swapping sd)" if "x \<noteq> Idle" for x
    using threads_at_upd [OF ctr_invD(4) [OF inv] that s'(2)] t by auto
  have "ctr_phase s' d" for d
    using ctr_invD(2) [OF inv, of d] here at [of "Disconnecting d"] at [of "Swapping d"] refs_cong [OF s'(1), of d]
    by (cases "d = sd") (auto simp: ctr_phase_def s')
  moreover have "ctr_counts s' d" for d
    by (rule ctr_counts_tick [OF inv t _ _ s'(1,2)]) (simp_all add: s')
  moreover have "ctr_threads n s'" by (rule ctr_threads_tick [OF inv _ _ s'(1,2)]) (simp_all add: t)
  moreover have "ctr_last s'" using ctr_invD(3) [OF inv] at [of Freeing] by (simp add: ctr_last_def s')
  moreover have "\<not> ctr_invalid s'" using ctr_invD(5) [OF inv] free by (simp add: s')
  ultimately show ?thesis by (simp add: ctr_inv_def s'_def)
qed

lemma ctr_inv_swap:
  assumes inv: "ctr_inv n s" and t: "ctr_call s t = Swapping sd"
  shows "ctr_inv n (ctr_tick disconnect t (Swapping sd) s)"
proof -
  define s' where "s' = ctr_tick disconnect t (Swapping sd) s"
  define c where "c = (if destroy (ctr_mem s) then Freeing else Idle)"
  have s': "ctr_handle s' = ctr_handle s" "ctr_call s' = (ctr_call s)(t := c)"
    "ctr_mem s' = (ctr_mem s)\<lparr>destroy := True\<rparr>" "ctr_swaps s' = (ctr_swaps s)(sd := ctr_swaps s sd + 1)"
    "ctr_disconnects s' = ctr_disconnects s" "ctr_frees s' = ctr_frees s"
    "ctr_invalid s' \<longleftrightarrow> ctr_invalid s \<or> ctr_frees s > 0"
    by (simp_all add: s'_def c_def)
  note here = swapping_phase [OF inv t] and free = not_swapped [OF inv swapping_phase(4) [OF inv t]]
  have at: "threads_at s' x + of_bool (x = Swapping sd) = threads_at s x + of_bool (x = c)" if "x \<noteq> Idle" for x
    using threads_at_upd [OF ctr_invD(4) [OF inv] that s'(2)] t by auto
  have "ctr_phase s' d" for d
    using ctr_invD(2) [OF inv, of d] here at [of "Disconnecting d"] at [of "Swapping d"] refs_cong [OF s'(1), of d]
    by (cases "d = sd") (auto simp: ctr_phase_def s' c_def split: if_splits)
  moreover have "ctr_counts s' d" for d
    by (rule ctr_counts_tick [OF inv t _ _ s'(1,2)]) (simp_all add: s' c_def)
  moreover have "ctr_threads n s'" by (rule ctr_threads_tick [OF inv _ _ s'(1,2)]) (simp_all add: t c_def)
  moreover have "ctr_last s'"
    using ctr_invD(3) [OF inv] at [of Freeing] free here(4)
    by (cases sd) (simp_all add: ctr_last_def s' c_def all_side ex_side)
  moreover have "\<not> ctr_invalid s'" using ctr_invD(5) [OF inv] free by (simp add: s')
  ultimately show ?thesis by (simp add: ctr_inv_def s'_def)
qed

lemma ctr_inv_free:
  assumes inv: "ctr_inv n s" and t: "ctr_call s t = Freeing"
  shows "ctr_inv n (ctr_tick disconnect t Freeing s)"
proof -
  define s' where "s' = ctr_tick disconnect t Freeing s"
  have s': "ctr_handle s' = ctr_handle s" "ctr_call s' = (ctr_call s)(t := Idle)"
    "ctr_mem s' = ctr_mem s" "ctr_swaps s' = ctr_swaps s" "ctr_disconnects s' = ctr_disconnects s"
    "ctr_frees s' = ctr_frees s + 1" "ctr_invalid s' \<longleftrightarrow> ctr_invalid s \<or> ctr_frees s > 0"
    by (simp_all add: s'_def)
  have at: "threads_at s' x + of_bool (x = Freeing) = threads_at s x" if "x \<noteq> Idle" for x
    using threads_at_upd [OF ctr_invD(4) [OF inv] that s'(2)] t that by auto
  have "threads_at s Freeing > 0" using thread_counted [OF ctr_invD(4) [OF inv] t] by simp
  moreover have l: "ctr_last s" by (rule ctr_invD(3) [OF inv])
  ultimately have none: "ctr_frees s = 0" by (auto simp: ctr_last_def split: if_splits)
  have "ctr_phase s' d" for d
    using ctr_invD(2) [OF inv, of d] at [of "Disconnecting d"] at [of "Swapping d"] refs_cong [OF s'(1), of d]
    by (simp add: ctr_phase_def s')
  moreover have "ctr_counts s' d" for d
    by (rule ctr_counts_tick [OF inv t _ _ s'(1,2)]) (simp_all add: s')
  moreover have "ctr_threads n s'" by (rule ctr_threads_tick [OF inv _ _ s'(1,2)]) (simp_all add: t)
  moreover have "ctr_last s'" using l at [of Freeing] by (simp add: ctr_last_def s')
  moreover have "\<not> ctr_invalid s'" using ctr_invD(5) [OF inv] none by (simp add: s')
  ultimately show ?thesis by (simp add: ctr_inv_def s'_def)
qed

lemma ctr_inv_aborted: "ctr_inv n (s\<lparr>ctr_aborted := b\<rparr>) \<longleftrightarrow> ctr_inv n s"
  by (simp add: ctr_inv_def ctr_counts_def ctr_phase_def ctr_last_def ctr_threads_def refs_def
      threads_at_def aborting_def)

lemma ctr_inv_tick:
  assumes "ctr_inv n s"
  shows "ctr_inv n (ctr_tick disconnect t (ctr_call s t) s)"
  using assms ctr_inv_check [OF assms, of t] ctr_inv_disconnect [OF assms, of t]
    ctr_inv_swap [OF assms, of t] ctr_inv_free [OF assms, of t]
  by (cases "ctr_call s t") (simp_all add: ctr_inv_aborted del: ctr_tick.simps(3-5))

lemma ctr_inv_step:
  assumes "n < 2 ^ 63 - 1" "ctr_inv n s"
  shows "ctr_inv n (ctr_step n disconnect e s)"
  using assms ctr_inv_acquire [OF assms(2,1)] ctr_inv_release [OF assms(2)] ctr_inv_deref [OF assms(2)]
    ctr_inv_forget [OF assms(2)] ctr_inv_tick [OF assms(2)]
  by (cases e) (simp_all add: ctr_step_def)

lemma ctr_inv_new: "ctr_inv n (ctr_new c)"
proof -
  have "refs (ctr_new c) SenderSide = {0}" "refs (ctr_new c) ReceiverSide = {1}"
    by (auto simp: refs_def ctr_new_def split: if_splits)
  then show ?thesis
    by (simp add: ctr_inv_def all_side ctr_counts_def ctr_phase_def ctr_last_def ctr_threads_def
        threads_at_def aborting_def ctr_new_def)
qed


interpretation ctr: invariant_system "ctr_step n disconnect" "\<lambda>s. n < 2 ^ 63 - 1 \<longrightarrow> ctr_inv n s" for n disconnect
  by unfold_locales (simp add: ctr_inv_step)

lemma ctr_reached:
  assumes "n < 2 ^ 63 - 1"
  shows "ctr_inv n (impl_run (ctr_step n disconnect) es (ctr_new c))"
  using ctr.run_inv [of n "ctr_new c" disconnect es] assms by (simp add: ctr_inv_new)

lemma freed_disconnected:
  assumes "ctr_inv n s" "ctr_frees s > 0"
  shows "refs s sd = {} \<and> ctr_disconnects s sd = 1"
proof -
  have "\<forall>d. ctr_swaps s d = 1"
    using ctr_invD(3) [OF assms(1)] assms(2) by (auto simp: ctr_last_def split: if_splits)
  then show ?thesis using ctr_invD(2) [OF assms(1), of sd] by (auto simp: ctr_phase_def split: if_splits)
qed

lemma all_released:
  assumes "ctr_inv n s" "\<And>sd. refs s sd = {}" "\<And>t. ctr_call s t = Idle"
  shows "ctr_frees s = 1 \<and> ctr_disconnects s sd = 1"
proof -
  have none: "threads_at s c = 0" if "c \<noteq> Idle" for c using assms(3) that by (simp add: threads_at_def)
  have "ctr_swaps s d = 1 \<and> ctr_disconnects s d = 1" for d
    using ctr_invD(2) [OF assms(1), of d] assms(2) by (simp add: ctr_phase_def none)
  then show ?thesis using ctr_invD(3) [OF assms(1)] by (simp add: ctr_last_def none)
qed

text \<open>
  C40: The reference counter of a channel is safe. In every interleaving of clones, drops, uses and
  forgotten handles on fewer than \<open>2^63 - 1\<close> threads, each count is the number of handles of
  its side (the check against \<^verbatim>\<open>isize::MAX\<close> keeps it from wrapping around), the
  allocation is not touched after it has been freed and is freed at most once; a side is
  disconnected at most once, and only when none of its handles is left; the allocation is freed only
  after both sides have been disconnected; and when every handle has been released and no call is in
  progress, it has been freed and both sides have been disconnected.
\<close>

theorem channel_counter_safe:
  assumes "n < 2 ^ 63 - 1" "s = impl_run (ctr_step n disconnect) es (ctr_new c)"
  shows "unat (ctr_count sd (ctr_mem s)) = card (refs s sd) \<and> \<not> ctr_invalid s \<and> ctr_frees s \<le> 1 \<and>
    ctr_disconnects s sd \<le> 1 \<and> (0 < ctr_disconnects s sd \<longrightarrow> refs s sd = {}) \<and>
    (0 < ctr_frees s \<longrightarrow> refs s sd = {} \<and> ctr_disconnects s sd = 1) \<and>
    ((\<forall>h. ctr_handle s h \<in> {NoHandle, Released}) \<and> (\<forall>t. ctr_call s t = Idle) \<longrightarrow>
      ctr_frees s = 1 \<and> ctr_disconnects s sd = 1)"
proof -
  have inv: "ctr_inv n s" unfolding assms(2) by (rule ctr_reached [OF assms(1)])
  have "unat (ctr_count sd (ctr_mem s)) = card (refs s sd)"
    using ctr_invD(1) [OF inv] by (simp add: ctr_counts_def)
  moreover have "ctr_frees s \<le> 1" using ctr_invD(3) [OF inv] by (auto simp: ctr_last_def split: if_splits)
  moreover have "ctr_disconnects s sd \<le> 1 \<and> (0 < ctr_disconnects s sd \<longrightarrow> refs s sd = {})"
    using ctr_invD(2) [OF inv, of sd] by (auto simp: ctr_phase_def split: if_splits)
  moreover have "refs s d = {}" if "\<forall>h. ctr_handle s h \<in> {NoHandle, Released}" for d
  proof -
    have "\<not> refers d (ctr_handle s h)" for h using spec [OF that, of h] by auto
    then show ?thesis by (simp add: refs_def)
  qed
  ultimately show ?thesis
    using ctr_invD(5) [OF inv] freed_disconnected [OF inv, of sd] all_released [OF inv, of sd] by blast
qed

definition counter_scenario :: "nat list ctr_event list" where
  "counter_scenario = [CtrAcquire 0 0 SenderSide 2, CtrDeref 0 SenderSide (\<lambda>c. c @ [7]), CtrTick 0,
     CtrRelease 0 0 SenderSide, CtrRelease 1 1 ReceiverSide, CtrRelease 0 2 SenderSide, CtrTick 1, CtrTick 0,
     CtrTick 0, CtrTick 1, CtrTick 1]"

theorem channel_counter_safe_witness:
  "ctr_frees (impl_run (ctr_step 2 (\<lambda>_ c. c)) counter_scenario (ctr_new [])) = 1 \<and>
   chan (ctr_mem (impl_run (ctr_step 2 (\<lambda>_ c. c)) counter_scenario (ctr_new []))) = [7]"
proof -
  define s where "s = impl_run (ctr_step 2 (\<lambda>_ c. c)) counter_scenario (ctr_new [])"
  note ev = counter_scenario_def ctr_step_def ctr_new_def ctr_acquire_def ctr_release_def ctr_deref_def
    ctr_free_thread_def ctr_access_def ctr_goto_def ctr_hold_def Let_def
  have "\<forall>h. ctr_handle s h \<in> {NoHandle, Released}" "\<forall>t. ctr_call s t = Idle" "chan (ctr_mem s) = [7]"
    by (auto simp: s_def ev)
  then show ?thesis
    using channel_counter_safe [of 2 s "\<lambda>_ c. c" counter_scenario "[]" SenderSide] by (simp add: s_def)
qed

end
