(* ===== verification/Spec2Isabelle.thy ===== *)
theory Spec2Isabelle
  imports Array_Queue_Linear Seg_Queue_Linear Epoch_Garbage
    Backoff Parker Wait_Group Atomic_Cell Sharded_Lock Thread_Indices Zero_Rendezvous Deque_Linear MS_Queue Channel_Utils Timer_Channels
    Array_Channel_Linear Array_Channel_Block Channel_Counter
begin

text \<open>
  A verification development of crossbeam, a set of Rust crates for concurrent programming. This theory collects the
  others; the definitions and theorems stand in the theory of their component.

  \<^bold>\<open>The program.\<close> \<^verbatim>\<open>crossbeam-utils\<close> has the small tools: backoff in spin loops, a cell with atomic
  operations on values of any type, a thread parker, a sharded reader-writer lock, a wait group.
  \<^verbatim>\<open>crossbeam-epoch\<close> is the memory reclamation of lock-free structures: threads pin themselves, garbage
  is put into bags that are stamped with a global epoch, and a bag is run two epochs later; the bags wait in a
  Michael-Scott queue. \<^verbatim>\<open>crossbeam-queue\<close> has a bounded queue (a ring of stamped slots) and an unbounded one
  (a list of blocks). \<^verbatim>\<open>crossbeam-deque\<close> has the deques of work-stealing schedulers, which use the
  epochs to free buffers. \<^verbatim>\<open>crossbeam-channel\<close> has channels of several flavors: bounded (the ring again,
  with a mark bit for disconnection), unbounded, rendezvous, and three that make their messages from the clock. Blocked
  channel operations wait in wakers until another thread selects them through their context.
  \<^verbatim>\<open>crossbeam-skiplist\<close> has ordered maps over the epochs.

  \<^bold>\<open>How code is modelled.\<close> Structures are records, enumerations are datatypes, \<^verbatim>\<open>usize\<close> is the type
  \<open>u64\<close> of 64-bit words with their wrap-around. Operations on exclusive references are functions on the whole
  structure. Operations that run concurrently are machines: a datatype of program points, each with the local variables
  that are still needed, and a function \<open>..._tick\<close> that makes one access to shared memory and says where the
  thread goes from there. Any number of threads runs such machines, and a scheduler picks the next one. So memory is
  sequentially consistent and fences do nothing; behaviour that only weaker orderings allow is outside of the model.
  A weak compare-exchange may fail when the scheduler says so. What would be undefined behaviour in Rust (an index out of
  range, uninitialised or freed memory, a pointer that is null) is a program point of its own or the value \<open>None\<close>, as is
  a panic, and the theorems show that it is not reached. The mutexes, condition variables, reader-writer locks, thread
  parking and clocks of the standard library are modelled as documented: a condition variable and a parked
  thread may wake up spuriously, a clock does not go back.

  \<^bold>\<open>Linearizability\<close> (theory \<open>Atomic_Object\<close>). A specification is a relation between an operation, the state before, the
  result and the state after. The canonical atomic object takes each call at one instant between its invocation and its
  return; an implementation is linearizable if each of its histories is one of the atomic object's. The locales
  \<open>object_simulation\<close>, \<open>guarded_simulation\<close>, \<open>role_simulation\<close> and \<open>thread_simulation\<close> say what an implementation has to
  satisfy for that: any step function, calls that a precondition on the state restricts, roles such as that of the one worker
  of a deque, and threads that may call everything. Each linearizability theorem comes from an interpretation of one of
  them. The locale \<open>invariant_system\<close> carries the safety theorems in the same way.

  \<^bold>\<open>The theories and the code.\<close>

  \<^item> \<open>Prelude\<close>: word types, Rust's \<^verbatim>\<open>Result\<close>, lemmas on masks, lists and words.
    \<open>Fifo\<close>: the sequential interfaces of queues, as locales that the queues on exclusive references interpret.

  \<^item> \<open>Ring_Stamp\<close>: positions packed with a lap into one word, shared by \<^verbatim>\<open>array_queue.rs\<close> and
    \<^verbatim>\<open>flavors/array.rs\<close>. \<open>Array_Queue\<close> (exclusive references), \<open>Array_Queue_Shared\<close> (the
    concurrent machines), \<open>Array_Queue_Tickets\<close> (the same machines with unbounded tickets instead of stamps, proved
    linearizable) and \<open>Array_Queue_Linear\<close> (the machines of the code follow those with tickets): \<^verbatim>\<open>ArrayQueue\<close>.
    The theorems on concurrent runs are about runs of less than \<open>2 ^ 62\<close> events, because stamps repeat after \<open>2 ^ 64\<close>
    values at the latest; at an event per nanosecond that is more than a century. For the same reason the
    bounds are \<open>2 ^ 61\<close> for the bounded channel, which has one bit less for its laps, \<open>2 ^ 60\<close> for the deque, whose indices are
    signed and whose buffers must not reach the limit of an allocation, and \<open>2 ^ 63\<close> for the cell.

  \<^item> \<open>Block_Index\<close>, \<open>Seg_Queue\<close>: \<^verbatim>\<open>SegQueue\<close> on exclusive references, with a heap of blocks, so that use after free,
    double free and leaks are visible. \<open>Block_Reclaim\<close>: the protocol by which the readers and writers
    of a block agree on who frees it. \<open>Seg_Queue_Shared\<close>: the concurrent \<^verbatim>\<open>push\<close> and \<^verbatim>\<open>pop\<close>; \<open>Seg_Queue_Inv\<close>,
    \<open>Seg_Queue_Push\<close> and \<open>Seg_Queue_Linear\<close>: their invariant, in which every block runs that protocol, the steps of each
    operation, and linearizability for runs of less than \<open>2 ^ 60\<close> events. At rest the invariant of
    \<open>Seg_Queue\<close> holds, so that what is proved of dropping and iterating applies after a concurrent phase.

  \<^item> \<open>Epoch\<close> (\<^verbatim>\<open>epoch.rs\<close>), \<open>Epoch_Internal\<close> (\<^verbatim>\<open>internal.rs\<close>: bags, \<^verbatim>\<open>Global\<close>, \<^verbatim>\<open>Local\<close>),
    \<open>Epoch_Reclaim\<close> (nothing runs while it may be in use), \<open>Epoch_Garbage\<close> (nothing is lost or run twice).
    Epochs are 63-bit counters, and the theorems hold for runs of less than \<open>2 ^ 62\<close> events.
    \<open>MS_Queue\<close>: \<^verbatim>\<open>sync/queue.rs\<close>. In the queue and in the deque, memory that has been handed to the
    collector is not reused; that it must not be is what the theorems of \<open>Epoch_Reclaim\<close> are about.

  \<^item> \<open>Deque\<close>, \<open>Deque_Linear\<close>: one \<^verbatim>\<open>Worker\<close> of either flavor and its \<^verbatim>\<open>Stealer\<close>s.

  \<^item> \<open>Backoff\<close>, \<open>Parker\<close>, \<open>Wait_Group\<close>, \<open>Sharded_Lock\<close>, \<open>Thread_Indices\<close>, \<open>Seq_Lock\<close> and \<open>Atomic_Cell\<close>: the files
    of \<^verbatim>\<open>crossbeam-utils\<close> of these names. Values of a cell are lists of bytes that are copied one byte at a
    time, so that torn reads are possible and have to be shown harmless.

  \<^item> \<open>Channel_Err\<close>, \<open>Channel_Utils\<close>, \<open>Waker\<close> (\<^verbatim>\<open>context.rs\<close>, \<^verbatim>\<open>waker.rs\<close> and the encoding of \<^verbatim>\<open>Selected\<close>),
    \<open>Zero_Channel\<close> and \<open>Zero_Rendezvous\<close> (\<^verbatim>\<open>flavors/zero.rs\<close>), \<open>Timer_Channels\<close> (\<^verbatim>\<open>at.rs\<close>, \<^verbatim>\<open>tick.rs\<close>,
    \<^verbatim>\<open>never.rs\<close>), \<open>Array_Channel\<close> and \<open>Array_Channel_Linear\<close> (the lock-free part of \<^verbatim>\<open>flavors/array.rs\<close>, which is the
    ticket machine of the queue once more, with disconnection), \<open>Array_Channel_Block\<close> (its blocking loops, over wakers),
    \<open>Channel_Counter\<close> (\<^verbatim>\<open>counter.rs\<close>, the reference counts that disconnect and free a channel; a count cannot wrap around
    with fewer than \<open>2 ^ 63 - 1\<close> threads, because each of them stops the process above \<open>2 ^ 63 - 1\<close> references).

  \<^bold>\<open>What is shown.\<close> Linearizability of the bounded and of the unbounded queue, of the bounded channel, of the work-stealing deque, of the
  collector's queue, of the atomic cell and of the timer channels. Absence of undefined behaviour and of
  panics that the code does not intend, in the same runs. For the queues on exclusive references, that they are lists, with
  destruction and iteration. For reclamation, that a deferred function waits for every thread that was pinned, that
  it is run at most once and not lost, and that a block or a node is freed or retired once and after its last use;
  that a channel is disconnected and freed once, by its last handles. For
  everything that blocks, that no wake-up is lost: the parker, the wait group, the sharded lock, the rendezvous channel
  and the bounded channel. Locks exclude each other. Encodings are inverses of their decodings,
  and counters do what they should at their bounds.

  Fields that are not in the code are marked where they are declared; they record history and no step depends on them.

  \<^bold>\<open>Not modelled.\<close>

  \<^item> The skip list, its maps and sets (\<^verbatim>\<open>crossbeam-skiplist\<close>): towers of marked pointers with reference counts, on which
    searching, inserting and unlinking run concurrently at every level.

  \<^item> The unbounded channel and the injector, whose blocks work as those of \<^verbatim>\<open>SegQueue\<close>; the batch steals of the deque, which
    move tasks between two deques; the observers of the two queues under contention, and \<^verbatim>\<open>len\<close> of the
    bounded channel. An allocation that the standard library accepts succeeds: running out of memory is not modelled.

  \<^item> The select engine and the macro \<^verbatim>\<open>select!\<close>, the dispatch of \<^verbatim>\<open>channel.rs\<close> over the flavors, iterators over channels,
    and the select handles of the flavors.

  \<^item> Tagged pointers, guards and the wrappers of the collector (\<^verbatim>\<open>atomic.rs\<close>, \<^verbatim>\<open>guard.rs\<close>, \<^verbatim>\<open>collector.rs\<close>,
    \<^verbatim>\<open>default.rs\<close>), the type-erased closures of \<^verbatim>\<open>deferred.rs\<close> and the list of participants of
    \<^verbatim>\<open>sync/list.rs\<close>: adding, removing and iterating are single steps in \<open>Epoch_Internal\<close>.

  \<^item> Scoped threads, \<^verbatim>\<open>OnceLock\<close>, cache padding, allocation helpers and formatting: calls of the standard
    library, memory layout, and text output.
\<close>

end
